(* ===== verification/Aegis_Prelude.thy ===== *)
theory Aegis_Prelude
  imports Main "HOL-Library.Word" "HOL-Library.Sublist"
begin

text \<open>
  Shared vocabulary of the development: names for the fixed-width integers of the C code,
  NUL-terminated strings, the small loops that several components write out by hand
  (string comparison, bounded string copy, first free slot of a table), and the generic
  lemmas on words and lists that the component theories use through the collections
  \<open>word_facts\<close>, \<open>cstr_simps\<close> and \<open>table_simps\<close>.
\<close>

unbundle bit_operations_syntax

named_theorems word_facts \<open>facts on machine words shared by the components\<close>
named_theorems cstr_simps \<open>rewrite rules for NUL-terminated strings\<close>
named_theorems table_simps \<open>rewrite rules for first-match scans of fixed tables\<close>

section \<open>Machine integers\<close>

type_synonym u8 = "8 word"
type_synonym u16 = "16 word"
type_synonym u32 = "32 word"
type_synonym u64 = "64 word"

text \<open>A negative errno returned through a \<^verbatim>\<open>uint64_t\<close>: \<^verbatim>\<open>(uint64_t)-(int64_t)e\<close>.\<close>

definition neg_errno :: "nat \<Rightarrow> u64" where
  "neg_errno e = - of_nat e"

text \<open>
  A kernel operation either returns or stops the machine in \<^verbatim>\<open>panic_halt\<close> with a message.
\<close>

datatype 'a kres = Panic string | Ret 'a

text \<open>
  A \<^verbatim>\<open>for\<close> loop whose body may panic or leave the enclosing function with a non-zero status;
  \<^verbatim>\<open>continue\<close> and the normal end of the body are status 0.
\<close>

fun for_each :: "('i \<Rightarrow> 's \<Rightarrow> ('s \<times> int) kres) \<Rightarrow> 'i list \<Rightarrow> 's \<Rightarrow> ('s \<times> int) kres" where
  "for_each body [] s = Ret (s, 0)"
| "for_each body (i # is) s =
    (case body i s of
       Panic msg \<Rightarrow> Panic msg
     | Ret (s', r) \<Rightarrow> if r = 0 then for_each body is s' else Ret (s', r))"

lemma for_each_append:
  "for_each body (xs @ ys) s = (case for_each body xs s of
     Panic msg \<Rightarrow> Panic msg | Ret (s', r) \<Rightarrow> if r = 0 then for_each body ys s' else Ret (s', r))"
  by (induction xs arbitrary: s) (auto split: kres.split prod.split)

lemma for_each_skip: "(\<And>i. i \<in> set xs \<Longrightarrow> body i s = Ret (s, 0)) \<Longrightarrow> for_each body xs s = Ret (s, 0)"
  by (induction xs) auto

lemma for_each_single:
  assumes "k < n" "body k s = Ret (s', 0)"
    and "\<And>i. i < k \<Longrightarrow> body i s = Ret (s, 0)" "\<And>i. k < i \<Longrightarrow> i < n \<Longrightarrow> body i s' = Ret (s', 0)"
  shows "for_each body [0..<n] s = Ret (s', 0)"
proof -
  have "[0..<n] = [0..<k] @ k # [Suc k..<n]"
    using assms(1) upt_add_eq_append [of 0 k "n - k"] by (simp add: upt_conv_Cons)
  then show ?thesis
    using assms for_each_skip [of "[0..<k]" body s] for_each_skip [of "[Suc k..<n]" body s']
    by (simp add: for_each_append)
qed

text \<open>A loop whose body cannot fail except with the panics \<open>B\<close> runs to its end.\<close>

lemma for_each_progress:
  assumes "J 0 s"
    and "\<And>i s. i < n \<Longrightarrow> J i s \<Longrightarrow> (\<And>m. m \<in> B \<Longrightarrow> body i s \<noteq> Panic m) \<Longrightarrow> \<exists>s'. body i s = Ret (s', 0) \<and> J (Suc i) s'"
    and "\<And>m. m \<in> B \<Longrightarrow> for_each body [0..<n] s \<noteq> Panic m"
  shows "\<exists>s'. for_each body [0..<n] s = Ret (s', 0) \<and> J n s'"
  using assms(2,3)
proof (induction n)
  case (Suc n)
  then have "for_each body [0..<n] s \<noteq> Panic m" if "m \<in> B" for m
    using that by (auto simp: for_each_append)
  then obtain s1 where s1: "for_each body [0..<n] s = Ret (s1, 0)" "J n s1"
    using Suc.IH Suc.prems(1) by fastforce
  then have "body n s1 \<noteq> Panic m" if "m \<in> B" for m
    using that Suc.prems(2) by (fastforce simp: for_each_append)
  then obtain s' where "body n s1 = Ret (s', 0)" "J (Suc n) s'" using Suc.prems(1) s1(2) by blast
  then show ?case using s1(1) by (simp add: for_each_append)
qed (use assms(1) in simp)

text \<open>Invariant rule: \<open>J\<close> speaks about the keys of the iterations that are complete.\<close>

lemma for_each_invariant:
  assumes "for_each body xs s = Ret (s', 0)" "J vs s"
    and "\<And>i vs s s'. i \<in> set xs \<Longrightarrow> J vs s \<Longrightarrow> body i s = Ret (s', 0) \<Longrightarrow> J (vs @ keys i) s'"
  shows "J (vs @ concat (map keys xs)) s'"
  using assms
proof (induction xs arbitrary: vs s)
  case (Cons i xs)
  obtain s1 where s1: "body i s = Ret (s1, 0)" "for_each body xs s1 = Ret (s', 0)"
    using Cons.prems(1) by (auto split: kres.splits prod.splits if_splits)
  have "J (vs @ keys i) s1" using Cons.prems(2,3) s1(1) by simp
  then have "J ((vs @ keys i) @ concat (map keys xs)) s'"
    by (rule Cons.IH [OF s1(2)]) (use Cons.prems(3) in simp)
  then show ?case by simp
qed simp

lemma unat_plus_no_wrap [word_facts]:
  fixes a b :: "'a::len word"
  assumes "unat a + unat b < 2 ^ LENGTH('a)"
  shows "unat (a + b) = unat a + unat b"
  using assms by (simp add: unat_word_ariths)

lemma unat_minus_le [word_facts]:
  fixes a b :: "'a::len word"
  assumes "b \<le> a"
  shows "unat (a - b) = unat a - unat b"
  using assms by (rule unat_sub)

lemma unat_inc_u8 [word_facts]:
  fixes x :: u8
  assumes "x \<noteq> 255"
  shows "unat (x + 1) = unat x + 1"
proof -
  have "unat x \<noteq> 255" using assms by (simp add: word_unat_eq_iff)
  moreover have "unat x < 256" using unsigned_less [of x, where ?'a = nat] by simp
  ultimately show ?thesis by (simp add: unat_plus_no_wrap)
qed

lemma unat_dec [word_facts]:
  fixes x :: "'a::len word"
  assumes "x \<noteq> 0"
  shows "unat (x - 1) = unat x - 1"
  using assms by (simp add: unat_minus_one)

lemma rights_and_sub [word_facts]:
  fixes a b c :: "'a::len word"
  assumes "a AND b = b" and "b AND c = c"
  shows "a AND c = c"
  using assms by (metis and.assoc)

lemma all_from_Suc:
  "k < n \<Longrightarrow> (\<forall>j. k \<le> j \<and> j < n \<longrightarrow> P j) \<longleftrightarrow> P k \<and> (\<forall>j. Suc k \<le> j \<and> j < n \<longrightarrow> P j)"
  for k n :: nat
  by (metis Suc_leD le_antisym not_less_eq_eq order_refl)

text \<open>Page rounding: masking with \<^verbatim>\<open>PAGE_SIZE - 1\<close> and with its complement.\<close>

lemma mask_12: "mask 12 = (4095 :: 'a::len word)"
  by (simp add: mask_eq_exp_minus_1)

lemma and_4095_mod [word_facts]: "unat (a AND 4095 :: u64) = unat a mod 4096"
proof -
  have "a AND 4095 = take_bit 12 a" by (simp add: take_bit_eq_mask mask_12)
  then have "a AND 4095 = a mod 4096" by (simp add: take_bit_eq_mod)
  then show ?thesis by (simp add: unat_mod)
qed

lemma and_4095_eq_0_iff [word_facts]: "(a :: u64) AND 4095 = 0 \<longleftrightarrow> unat a mod 4096 = 0"
  by (metis and_4095_mod unat_eq_zero)

lemma and_not_4095_unat [word_facts]:
  "unat (a AND NOT 4095 :: u64) = unat a div 4096 * 4096"
proof -
  have "a AND NOT 4095 = push_bit 12 (drop_bit 12 a)"
    by (rule bit_word_eqI) (auto simp: mask_12 [symmetric] bit_simps)
  then have "a AND NOT 4095 = a - (a AND 4095)"
    using bits_ident [of 12 a] by (simp add: take_bit_eq_mask mask_12 algebra_simps)
  moreover have "a AND 4095 \<le> a" by (rule word_and_le2)
  ultimately show ?thesis
    by (simp add: unat_minus_le and_4095_mod minus_mod_eq_div_mult)
qed

lemma unat_div_4096 [word_facts]: "unat (a div 4096 :: u64) = unat a div 4096"
  by (simp add: unat_div)

text \<open>Page numbers of rounded addresses.\<close>

lemma page_floor_le_iff: "m div 4096 \<le> j \<longleftrightarrow> m < Suc j * 4096" for m j :: nat
  using div_less_iff_less_mult [of 4096 m "Suc j"] by (simp add: less_Suc_eq_le)

lemma page_floor_gt_iff: "j < m div 4096 \<longleftrightarrow> Suc j * 4096 \<le> m" for m j :: nat
  using less_eq_div_iff_mult_less_eq [of 4096 "Suc j" m] by (simp add: Suc_le_eq)

lemma page_ceil_le_iff: "(m + 4095) div 4096 \<le> j \<longleftrightarrow> m \<le> j * 4096" for m j :: nat
  by (auto simp: page_floor_le_iff)

lemma page_ceil_gt_iff: "j < (m + 4095) div 4096 \<longleftrightarrow> j * 4096 < m" for m j :: nat
  by (auto simp: page_floor_gt_iff)

section \<open>NUL-terminated strings\<close>

abbreviation NUL :: char where
  "NUL \<equiv> CHR 0x00"

text \<open>
  A C string is read from a \<^typ>\<open>string\<close> that stands for the bytes from the pointer
  onwards; the end of the list is read as the terminator.
\<close>

definition c_hd :: "string \<Rightarrow> char" where
  "c_hd s = (case s of [] \<Rightarrow> NUL | c # _ \<Rightarrow> c)"

definition c_str :: "string \<Rightarrow> string" where
  "c_str s = takeWhile (\<lambda>c. c \<noteq> NUL) s"

lemma c_hd_simps [cstr_simps, simp]:
  "c_hd [] = NUL"
  "c_hd (c # s) = c"
  by (simp_all add: c_hd_def)

lemma c_str_simps [cstr_simps, simp]:
  "c_str [] = []"
  "c_str (c # s) = (if c = NUL then [] else c # c_str s)"
  by (simp_all add: c_str_def)

lemma NUL_not_in_c_str [simp]: "NUL \<notin> set (c_str s)"
  by (induction s) auto

lemma c_str_id [cstr_simps]: "NUL \<notin> set s \<Longrightarrow> c_str s = s"
  by (induction s) auto

lemma c_str_idem [simp]: "c_str (c_str s) = c_str s"
  by (rule c_str_id) simp

lemma c_str_append_NUL [cstr_simps, simp]: "c_str (s @ NUL # t) = c_str s"
  by (induction s) auto

lemma length_c_str_le: "length (c_str s) \<le> length s"
  by (induction s) auto

lemma c_hd_c_str [simp]: "c_hd (c_str s) = c_hd s"
  by (cases s) auto

lemma c_str_eq_Nil_iff: "c_str s = [] \<longleftrightarrow> c_hd s = NUL"
  by (cases s) auto

text \<open>
  The hand-written comparison loop of the kernel
  (\<^verbatim>\<open>while (*a && *b && *a == *b) { a++; b++; } return *a == 0 && *b == 0;\<close>).
\<close>

fun streq :: "string \<Rightarrow> string \<Rightarrow> bool" where
  "streq (a # as) (b # bs) =
     (if a \<noteq> NUL \<and> b \<noteq> NUL \<and> a = b then streq as bs else a = NUL \<and> b = NUL)"
| "streq as bs = (c_hd as = NUL \<and> c_hd bs = NUL)"

lemma streq_iff_c_str: "streq a b \<longleftrightarrow> c_str a = c_str b"
  by (induction a b rule: streq.induct) (auto simp: c_hd_def split: list.splits)

text \<open>
  Bounded copy into a buffer of \<open>max\<close> bytes, always leaving room for the terminator:
  \<^verbatim>\<open>for (i = 0; i < max - 1 && src[i]; i++) dst[i] = src[i]; dst[i] = 0;\<close>.
  The result is the string left in the buffer.
\<close>

definition c_strncpy :: "nat \<Rightarrow> string \<Rightarrow> string" where
  "c_strncpy cap src = take (cap - 1) (c_str src)"

lemma length_c_strncpy: "0 < cap \<Longrightarrow> length (c_strncpy cap src) < cap"
  by (simp add: c_strncpy_def)

lemma c_strncpy_short: "length (c_str src) < cap \<Longrightarrow> c_strncpy cap src = c_str src"
  by (simp add: c_strncpy_def)

lemma c_str_c_strncpy [simp]: "c_str (c_strncpy cap src) = c_strncpy cap src"
proof (rule c_str_id)
  have "set (c_strncpy cap src) \<subseteq> set (c_str src)"
    by (simp add: c_strncpy_def set_take_subset)
  then show "NUL \<notin> set (c_strncpy cap src)"
    by (auto dest: subsetD)
qed

lemma take_take_append: "take n (take n xs @ ys) = take n (xs @ ys)"
  by (cases "length xs \<le> n") auto

section \<open>First-match scans of fixed tables\<close>

text \<open>
  The kernel's tables are fixed arrays scanned from index 0 for the first slot that
  satisfies a test (a free slot, a matching name).  \<open>first_index P i xs\<close> is that loop
  started at index \<open>i\<close> with \<open>xs\<close> the slots from \<open>i\<close> on.
\<close>

fun first_index :: "('a \<Rightarrow> bool) \<Rightarrow> nat \<Rightarrow> 'a list \<Rightarrow> nat option" where
  "first_index P i [] = None"
| "first_index P i (x # xs) = (if P x then Some i else first_index P (Suc i) xs)"

lemma first_index_None [table_simps]:
  "first_index P i xs = None \<longleftrightarrow> (\<forall>x \<in> set xs. \<not> P x)"
  by (induction xs arbitrary: i) auto

lemma first_index_shift: "first_index P i xs = map_option (\<lambda>k. i + k) (first_index P 0 xs)"
proof (induction xs arbitrary: i)
  case (Cons x xs)
  show ?case
    using Cons.IH [of "Suc i"] Cons.IH [of "Suc 0"]
    by (cases "first_index P 0 xs") auto
qed simp

lemma first_index_SomeD:
  assumes "first_index P 0 xs = Some k"
  shows "k < length xs \<and> P (xs ! k) \<and> (\<forall>j < k. \<not> P (xs ! j))"
  using assms
proof (induction xs arbitrary: k)
  case (Cons x xs)
  show ?case
  proof (cases "P x")
    case True
    with Cons.prems show ?thesis by auto
  next
    case False
    with Cons.prems obtain m where m: "first_index P 0 xs = Some m" "k = Suc m"
      by (auto simp: first_index_shift [of P "Suc 0"])
    from Cons.IH [OF m(1)] False m(2) show ?thesis
      by (auto simp: nth_Cons split: nat.splits)
  qed
qed simp

lemma first_index_Some_lt: "first_index P 0 xs = Some k \<Longrightarrow> k < length xs"
  by (simp add: first_index_SomeD)

lemma first_index_ex: "x \<in> set xs \<Longrightarrow> P x \<Longrightarrow> \<exists>k. first_index P 0 xs = Some k"
  using first_index_None [of P 0 xs] by (cases "first_index P 0 xs") auto

lemma first_index_update_other:
  assumes "first_index P 0 xs = Some k" and "\<not> P v"
  shows "\<forall>j \<le> k. \<not> P (xs[k := v] ! j)"
proof (intro allI impI)
  fix j assume "j \<le> k"
  with assms first_index_SomeD [OF assms(1)] show "\<not> P (xs[k := v] ! j)"
    by (cases "j = k") auto
qed

end
