(* ===== verification/Waitq.thy ===== *)
theory Waitq
  imports Aegis_Prelude
begin

text \<open>
  Wait queues, \<^verbatim>\<open>kernel/sched/waitq.c\<close>: doubly linked lists through entries that their waiters
  allocate.  Entries live in a store indexed by their addresses, so that one task may have entries on
  several queues; a queue is known by the address of its head pointer.  The effect of a wake-up is
  the sequence of tasks handed to \<^verbatim>\<open>sched_wake\<close>.
\<close>

section \<open>Model\<close>

record waitq_entry =
  we_task :: u64
  we_next :: u64
  we_prev :: u64
  on_queue :: bool

record waitqs =
  wq_head :: "u64 \<Rightarrow> u64"
  wq_ent :: "u64 \<Rightarrow> waitq_entry"

definition upd_ent :: "u64 \<Rightarrow> (waitq_entry \<Rightarrow> waitq_entry) \<Rightarrow> waitqs \<Rightarrow> waitqs" where
  "upd_ent a f s = s\<lparr>wq_ent := (wq_ent s)(a := f (wq_ent s a))\<rparr>"

definition waitq_init :: "u64 \<Rightarrow> waitqs \<Rightarrow> waitqs" where
  "waitq_init wq s = s\<lparr>wq_head := (wq_head s)(wq := 0)\<rparr>"

definition waitq_add :: "u64 \<Rightarrow> u64 \<Rightarrow> waitqs \<Rightarrow> waitqs" where
  "waitq_add wq e s =
    (let s1 = upd_ent e (\<lambda>x. x\<lparr>we_prev := 0\<rparr>) s;
         s2 = upd_ent e (\<lambda>x. x\<lparr>we_next := wq_head s1 wq\<rparr>) s1;
         s3 = (if wq_head s2 wq \<noteq> 0 then upd_ent (wq_head s2 wq) (\<lambda>x. x\<lparr>we_prev := e\<rparr>) s2 else s2);
         s4 = s3\<lparr>wq_head := (wq_head s3)(wq := e)\<rparr>
     in upd_ent e (\<lambda>x. x\<lparr>on_queue := True\<rparr>) s4)"

definition waitq_remove :: "u64 \<Rightarrow> u64 \<Rightarrow> waitqs \<Rightarrow> waitqs" where
  "waitq_remove wq e s =
    (if on_queue (wq_ent s e)
     then let s1 = (if we_prev (wq_ent s e) \<noteq> 0
                    then upd_ent (we_prev (wq_ent s e)) (\<lambda>x. x\<lparr>we_next := we_next (wq_ent s e)\<rparr>) s
                    else s\<lparr>wq_head := (wq_head s)(wq := we_next (wq_ent s e))\<rparr>);
              s2 = (if we_next (wq_ent s1 e) \<noteq> 0
                    then upd_ent (we_next (wq_ent s1 e)) (\<lambda>x. x\<lparr>we_prev := we_prev (wq_ent s1 e)\<rparr>) s1
                    else s1)
          in upd_ent e (\<lambda>x. x\<lparr>we_prev := 0, we_next := 0, on_queue := False\<rparr>) s2
     else s)"

definition waitq_wake_one :: "u64 \<Rightarrow> waitqs \<Rightarrow> u64 list" where
  "waitq_wake_one wq s =
    (let e = wq_head s wq; t = (if e \<noteq> 0 then we_task (wq_ent s e) else 0) in if t \<noteq> 0 then [t] else [])"

text \<open>The snapshot loop of \<^verbatim>\<open>waitq_wake_all\<close>, at most \<open>n\<close> entries from \<open>e\<close> on.\<close>

fun wake_snap :: "nat \<Rightarrow> waitqs \<Rightarrow> u64 \<Rightarrow> u64 list" where
  "wake_snap 0 s e = []"
| "wake_snap (Suc n) s e = (if e = 0 then [] else we_task (wq_ent s e) # wake_snap n s (we_next (wq_ent s e)))"

text \<open>The lock is dropped between two passes; \<open>ss k\<close> is what pass \<open>k\<close> sees, and \<open>None\<close> means
  that the call does not return.\<close>

partial_function (option) wake_passes :: "u64 \<Rightarrow> (nat \<Rightarrow> waitqs) \<Rightarrow> nat \<Rightarrow> u64 list \<Rightarrow> u64 list option" where
  [code]: "wake_passes wq ss k woken =
    (let snap = wake_snap 64 (ss k) (wq_head (ss k) wq) in
     if snap = [] then Some woken
     else if length snap < 64 then Some (woken @ filter (\<lambda>t. t \<noteq> 0) snap)
     else wake_passes wq ss (Suc k) (woken @ filter (\<lambda>t. t \<noteq> 0) snap))"

definition waitq_wake_all :: "u64 \<Rightarrow> (nat \<Rightarrow> waitqs) \<Rightarrow> u64 list option" where
  "waitq_wake_all wq ss = wake_passes wq ss 0 []"

text \<open>The single-queue wait: what is registered while the task sleeps and what is left afterwards.\<close>

definition waitq_wait_enter :: "u64 \<Rightarrow> u64 \<Rightarrow> u64 \<Rightarrow> waitqs \<Rightarrow> waitqs" where
  "waitq_wait_enter wq e task s =
     waitq_add wq e (s\<lparr>wq_ent := (wq_ent s)(e := \<lparr>we_task = task, we_next = 0, we_prev = 0, on_queue = False\<rparr>)\<rparr>)"

definition waitq_wait_leave :: "u64 \<Rightarrow> u64 \<Rightarrow> waitqs \<Rightarrow> waitqs" where
  "waitq_wait_leave wq e s = waitq_remove wq e s"

section \<open>The lists behind the pointers\<close>

fun linked :: "(u64 \<Rightarrow> waitq_entry) \<Rightarrow> u64 \<Rightarrow> u64 \<Rightarrow> u64 list \<Rightarrow> bool" where
  "linked h p a [] \<longleftrightarrow> a = 0"
| "linked h p a (x # xs) \<longleftrightarrow> a = x \<and> x \<noteq> 0 \<and> we_prev (h x) = p \<and> on_queue (h x) \<and> linked h x (we_next (h x)) xs"

definition represents :: "waitqs \<Rightarrow> (u64 \<Rightarrow> u64 list) \<Rightarrow> bool" where
  "represents s L \<longleftrightarrow> (\<forall>q. linked (wq_ent s) 0 (wq_head s q) (L q) \<and> distinct (L q))
     \<and> (\<forall>q r. q \<noteq> r \<longrightarrow> set (L q) \<inter> set (L r) = {})
     \<and> (\<forall>e. on_queue (wq_ent s e) \<longrightarrow> (\<exists>q. e \<in> set (L q)))"

lemma linked_cong:
  "(\<And>x. x \<in> set xs \<Longrightarrow> h' x = h x) \<Longrightarrow> linked h' p a xs = linked h p a xs"
  by (induction xs arbitrary: p a) auto

lemma linked_nonzero: "linked h p a xs \<Longrightarrow> x \<in> set xs \<Longrightarrow> x \<noteq> 0 \<and> on_queue (h x)"
  by (induction xs arbitrary: p a) auto

lemma linked_head: "linked h p a xs \<Longrightarrow> a = (case xs of [] \<Rightarrow> 0 | x # _ \<Rightarrow> x)"
  by (cases xs) auto

lemma linked_prev_update:
  assumes "linked h p a (x # xs)" "x \<notin> set xs"
  shows "linked (h(x := (h x)\<lparr>we_prev := p'\<rparr>)) p' a (x # xs)"
proof -
  have "linked (h(x := (h x)\<lparr>we_prev := p'\<rparr>)) x (we_next (h x)) xs = linked h x (we_next (h x)) xs"
    by (rule linked_cong) (use assms(2) in auto)
  then show ?thesis using assms by simp
qed

lemma represents_add:
  assumes R: "represents s L" and e: "e \<noteq> 0" "\<not> on_queue (wq_ent s e)"
  shows "represents (waitq_add wq e s) (L(wq := e # L wq))"
proof -
  let ?s' = "waitq_add wq e s" and ?h = "wq_ent s"
  have ne: "e \<notin> set (L q)" for q using R e linked_nonzero by (fastforce simp: represents_def)
  have l: "linked ?h 0 (wq_head s q) (L q)" for q using R by (simp add: represents_def)
  have hd: "wq_head s wq \<noteq> e" using linked_head [OF l [of wq]] ne [of wq] e(1) by (auto split: list.splits)
  have ent: "wq_ent ?s' x = (if x = e then (?h e)\<lparr>we_prev := 0, we_next := wq_head s wq, on_queue := True\<rparr>
      else if x = wq_head s wq \<and> x \<noteq> 0 then (?h x)\<lparr>we_prev := e\<rparr> else ?h x)" for x
    using hd by (auto simp: waitq_add_def upd_ent_def Let_def)
  have head: "wq_head ?s' = (wq_head s)(wq := e)" by (simp add: waitq_add_def upd_ent_def Let_def)
  have other: "linked (wq_ent ?s') 0 (wq_head s q) (L q)" if "q \<noteq> wq" for q
  proof -
    have "wq_ent ?s' x = ?h x" if x: "x \<in> set (L q)" for x
    proof -
      have "x \<noteq> wq_head s wq \<or> x = 0"
      proof (cases "L wq")
        case (Cons y ys)
        then have "y \<notin> set (L q)" using R \<open>q \<noteq> wq\<close> by (fastforce simp: represents_def)
        then show ?thesis using linked_head [OF l [of wq]] Cons x by auto
      qed (use linked_head [OF l [of wq]] in simp)
      then show ?thesis using ent ne x by auto
    qed
    then show ?thesis using linked_cong [of "L q" "wq_ent ?s'" ?h] l by simp
  qed
  have own: "linked (wq_ent ?s') 0 e (e # L wq)"
  proof (cases "L wq")
    case Nil
    then show ?thesis using linked_head [OF l [of wq]] ent e(1) by simp
  next
    case (Cons y ys)
    have y: "wq_head s wq = y" "y \<noteq> 0" "y \<noteq> e" using linked_head [OF l [of wq]] Cons l [of wq] hd by auto
    have "y \<notin> set ys" using R Cons by (auto simp: represents_def dest: spec [of _ wq])
    then have "linked (?h(y := (?h y)\<lparr>we_prev := e\<rparr>)) e y (y # ys)"
      using linked_prev_update [of ?h 0 y y ys e] l [of wq] Cons y by simp
    moreover have "linked (wq_ent ?s') e y (y # ys) = linked (?h(y := (?h y)\<lparr>we_prev := e\<rparr>)) e y (y # ys)"
      by (rule linked_cong) (use ent y ne [of wq] Cons in auto)
    ultimately have "linked (wq_ent ?s') e y (L wq)" using Cons by simp
    then show ?thesis using ent y e(1) by simp
  qed
  have oq: "x = e \<or> on_queue (?h x)" if "on_queue (wq_ent ?s' x)" for x
    using that ent by (auto split: if_splits)
  show ?thesis
    unfolding represents_def
  proof (intro conjI allI impI)
    fix q
    show "linked (wq_ent ?s') 0 (wq_head ?s' q) ((L(wq := e # L wq)) q)" "distinct ((L(wq := e # L wq)) q)"
      using own other [of q] head ne R by (cases "q = wq"; simp add: represents_def)+
  next
    fix q r :: u64 assume "q \<noteq> r"
    then show "set ((L(wq := e # L wq)) q) \<inter> set ((L(wq := e # L wq)) r) = {}"
      using R ne by (auto simp: represents_def)
  next
    fix x assume "on_queue (wq_ent ?s' x)"
    then consider "x = e" | q where "x \<in> set (L q)" using oq R unfolding represents_def by blast
    then show "\<exists>q. x \<in> set ((L(wq := e # L wq)) q)"
    proof cases
      case 1
      then show ?thesis by (intro exI [of _ wq]) simp
    next
      case (2 q)
      then show ?thesis by (intro exI [of _ q]) auto
    qed
  qed
qed

text \<open>Taking an inner entry out: its neighbours are linked to each other.\<close>

definition unlinked :: "(u64 \<Rightarrow> waitq_entry) \<Rightarrow> u64 \<Rightarrow> u64 \<Rightarrow> waitq_entry" where
  "unlinked h e x =
    (if x = e then (h e)\<lparr>we_prev := 0, we_next := 0, on_queue := False\<rparr>
     else if x = we_next (h e) \<and> x \<noteq> 0 then (h x)\<lparr>we_prev := we_prev (h e)\<rparr>
     else if x = we_prev (h e) \<and> x \<noteq> 0 then (h x)\<lparr>we_next := we_next (h e)\<rparr>
     else h x)"

lemma linked_tail: "linked h p a (xs @ e # ys) \<Longrightarrow> linked h (we_prev (h e)) e (e # ys)
    \<and> we_prev (h e) = (if xs = [] then p else last xs)"
proof (induction xs arbitrary: p a)
  case (Cons x xs)
  then show ?case using Cons.IH [of x "we_next (h x)"] by auto
qed auto

lemma linked_unlinked:
  assumes "linked h p a (xs @ e # ys)" "distinct (xs @ e # ys)" "xs = [] \<Longrightarrow> p = 0" "p \<notin> set ys"
  shows "linked (unlinked h e) p (if xs = [] then we_next (h e) else a) (xs @ ys)"
proof -
  have T: "linked h (we_prev (h e)) e (e # ys)" "we_prev (h e) = (if xs = [] then p else last xs)"
    using linked_tail [OF assms(1)] by auto
  have nx: "we_next (h e) = (case ys of [] \<Rightarrow> 0 | y # _ \<Rightarrow> y)" using T(1) linked_head by (cases ys) auto
  have ys: "linked (unlinked h e) (we_prev (h e)) (we_next (h e)) ys"
  proof (cases ys)
    case (Cons y zs)
    have y: "we_next (h e) = y" "y \<noteq> 0" "y \<noteq> e" "y \<notin> set zs" using nx T(1) Cons assms(2) by auto
    have "linked h e y (y # zs)" using T(1) Cons y by simp
    then have "linked (h(y := (h y)\<lparr>we_prev := we_prev (h e)\<rparr>)) (we_prev (h e)) y (y # zs)"
      using linked_prev_update y(4) by blast
    moreover have "linked (unlinked h e) (we_prev (h e)) y (y # zs)
        = linked (h(y := (h y)\<lparr>we_prev := we_prev (h e)\<rparr>)) (we_prev (h e)) y (y # zs)"
    proof (rule linked_cong)
      fix x assume x: "x \<in> set (y # zs)"
      then have "x \<noteq> e" using assms(2) Cons by auto
      moreover have "x \<noteq> we_prev (h e)"
      proof (cases "xs = []")
        case False
        then have "last xs \<in> set xs" by simp
        then have "last xs \<notin> set ys" using assms(2) by auto
        then show ?thesis using T(2) False Cons x by auto
      qed (use T(2) assms(4) Cons x in auto)
      ultimately show "unlinked h e x = (h(y := (h y)\<lparr>we_prev := we_prev (h e)\<rparr>)) x"
        using y by (auto simp: unlinked_def)
    qed
    ultimately show ?thesis using Cons y by simp
  qed (use nx in simp)
  have "linked (unlinked h e) p' a' (zs @ ys)"
    if "linked h p' a' (zs @ e # ys)" "zs \<noteq> []" "distinct (zs @ e # ys)" "last zs = we_prev (h e)" for p' a' zs
    using that
  proof (induction zs arbitrary: p' a')
    case (Cons z zs)
    have z: "z \<noteq> 0" "z \<noteq> e" "a' = z" "we_prev (h z) = p'" "on_queue (h z)" "z \<noteq> we_next (h e)"
      using Cons.prems nx by (auto split: list.splits)
    show ?case
    proof (cases "zs = []")
      case True
      then have "unlinked h e z = (h z)\<lparr>we_next := we_next (h e)\<rparr>" using z Cons.prems(4) by (simp add: unlinked_def)
      then show ?thesis using True z ys Cons.prems(4) by simp
    next
      case False
      then have "z \<noteq> we_prev (h e)" using Cons.prems(3,4) last_in_set by fastforce
      then have "unlinked h e z = h z" using z by (simp add: unlinked_def)
      then show ?thesis using Cons.IH [of z "we_next (h z)"] Cons.prems False z by simp
    qed
  qed simp
  then show ?thesis
    using assms(1,2) T(2) ys by (cases "xs = []") auto
qed

lemma represents_remove:
  assumes R: "represents s L" and e: "e \<in> set (L wq) \<or> \<not> on_queue (wq_ent s e)"
  shows "represents (waitq_remove wq e s) (L(wq := remove1 e (L wq)))"
proof (cases "on_queue (wq_ent s e)")
  case False
  then have "e \<notin> set (L wq)" using R linked_nonzero by (fastforce simp: represents_def)
  then show ?thesis using R False by (simp add: waitq_remove_def remove1_idem)
next
  case True
  let ?h = "wq_ent s" and ?s' = "waitq_remove wq e s"
  have l: "linked ?h 0 (wq_head s q) (L q)" "distinct (L q)" for q using R by (simp_all add: represents_def)
  obtain xs ys where L: "L wq = xs @ e # ys" using True e by (meson split_list)
  then have D: "distinct (xs @ e # ys)" and lk: "linked ?h 0 (wq_head s wq) (xs @ e # ys)"
    using l [of wq] by simp_all
  have nz: "x \<noteq> 0" if "x \<in> set (L q)" for x q using linked_nonzero [OF l(1) that] by simp
  have z: "0 \<notin> set ys" using nz [of 0 wq] L by auto
  have T: "linked ?h (we_prev (?h e)) e (e # ys)" "we_prev (?h e) = (if xs = [] then 0 else last xs)"
    using linked_tail [OF lk] by auto
  have nx: "we_next (?h e) = (case ys of [] \<Rightarrow> 0 | y # _ \<Rightarrow> y)" using T(1) linked_head by (cases ys) auto
  have pe: "we_prev (?h e) \<noteq> e" "we_next (?h e) \<noteq> e" "we_prev (?h e) \<noteq> we_next (?h e) \<or> we_prev (?h e) = 0"
    using T(2) nx D nz [of e wq] L last_in_set [of xs] by (auto split: list.splits if_splits)
  have ent: "wq_ent ?s' x = unlinked ?h e x" for x
    using True pe by (auto simp: waitq_remove_def upd_ent_def unlinked_def Let_def)
  have head: "wq_head ?s' = (wq_head s)(wq := if xs = [] then we_next (?h e) else wq_head s wq)"
  proof (cases "xs = []")
    case False
    then have "last xs \<in> set (L wq)" using L by simp
    then have "we_prev (?h e) \<noteq> 0" using False T(2) nz by simp
    then show ?thesis using True False by (simp add: waitq_remove_def upd_ent_def Let_def)
  qed (use True T(2) in \<open>simp add: waitq_remove_def upd_ent_def Let_def\<close>)
  have nbr: "x \<in> set (L wq)" if "x = we_next (?h e) \<or> x = we_prev (?h e)" "x \<noteq> 0" for x
    using that T(2) nx L last_in_set [of xs] by (auto split: list.splits if_splits)
  have other: "linked (wq_ent ?s') 0 (wq_head s q) (L q)" if "q \<noteq> wq" for q
  proof -
    have "wq_ent ?s' x = ?h x" if x: "x \<in> set (L q)" for x
    proof -
      have "x \<notin> set (L wq)" using R \<open>q \<noteq> wq\<close> x by (auto simp: represents_def)
      then show ?thesis using ent nbr nz [OF x] L by (auto simp: unlinked_def)
    qed
    then show ?thesis using linked_cong [of "L q" "wq_ent ?s'" ?h] l(1) by simp
  qed
  have r1: "remove1 e (L wq) = xs @ ys" using L D by (simp add: remove1_append)
  have "wq_ent ?s' = unlinked ?h e" using ent by blast
  then have own: "linked (wq_ent ?s') 0 (wq_head ?s' wq) (xs @ ys)"
    using linked_unlinked [OF lk D _ z] head by (cases "xs = []") auto
  have oq: "x \<noteq> e \<and> on_queue (?h x)" if "on_queue (wq_ent ?s' x)" for x
    using that ent by (auto simp: unlinked_def split: if_splits)
  show ?thesis
    unfolding represents_def r1
  proof (intro conjI allI impI)
    fix q
    show "linked (wq_ent ?s') 0 (wq_head ?s' q) ((L(wq := xs @ ys)) q)"
      using own other [of q] head by (cases "q = wq") auto
    show "distinct ((L(wq := xs @ ys)) q)" using l(2) [of q] D by auto
  next
    fix q r :: u64 assume "q \<noteq> r"
    then have "set (L q) \<inter> set (L r) = {}" using R by (simp add: represents_def)
    moreover have "set ((L(wq := xs @ ys)) k) \<subseteq> set (L k)" for k using L by auto
    ultimately show "set ((L(wq := xs @ ys)) q) \<inter> set ((L(wq := xs @ ys)) r) = {}" by blast
  next
    fix x assume x: "on_queue (wq_ent ?s' x)"
    then obtain q where "x \<in> set (L q)" using R oq unfolding represents_def by blast
    then show "\<exists>q. x \<in> set ((L(wq := xs @ ys)) q)"
      using oq [OF x] L by (intro exI [of _ q]) auto
  qed
qed

section \<open>Waking\<close>

lemma wake_snap_linked:
  "linked (wq_ent s) p a xs \<Longrightarrow> wake_snap n s a = map (\<lambda>e. we_task (wq_ent s e)) (take n xs)"
proof (induction n arbitrary: p a xs)
  case (Suc n)
  then show ?case by (cases xs) auto
qed simp

definition waiting_tasks :: "waitqs \<Rightarrow> u64 list \<Rightarrow> u64 list" where
  "waiting_tasks s es = filter (\<lambda>t. t \<noteq> 0) (map (\<lambda>e. we_task (wq_ent s e)) es)"

lemma wake_all_short:
  assumes "represents s L" "ss 0 = s" "length (L wq) < 64"
  shows "waitq_wake_all wq ss = Some (waiting_tasks s (L wq))"
proof -
  have "wake_snap 64 s (wq_head s wq) = map (\<lambda>e. we_task (wq_ent s e)) (L wq)"
    using wake_snap_linked [of s 0 "wq_head s wq" "L wq" 64] assms by (simp add: represents_def)
  then show ?thesis
    using assms by (subst waitq_wake_all_def, subst wake_passes.simps) (auto simp: Let_def waiting_tasks_def)
qed

lemma wake_all_stuck:
  assumes "represents s L" "\<And>k. ss k = s" "64 \<le> length (L wq)"
  shows "waitq_wake_all wq ss = None"
proof -
  have snap: "length (wake_snap 64 s (wq_head s wq)) = 64"
    using wake_snap_linked [of s 0 "wq_head s wq" "L wq" 64] assms by (simp add: represents_def)
  have "\<not> (q = wq \<and> ts = ss)" if "wake_passes q ts k w = Some r" for q ts k w r
    by (rule wake_passes.raw_induct [where P = "\<lambda>q ts k w r. \<not> (q = wq \<and> ts = ss)", OF _ that])
       (use snap assms(2) in \<open>auto simp: Let_def split: if_splits\<close>)
  then show ?thesis unfolding waitq_wake_all_def by (metis not_Some_eq)
qed

section \<open>Properties\<close>

datatype wq_op = Wq_add u64 u64 | Wq_remove u64 u64

fun wq_exec :: "wq_op \<Rightarrow> waitqs \<Rightarrow> waitqs" where
  "wq_exec (Wq_add wq e) s = waitq_add wq e s"
| "wq_exec (Wq_remove wq e) s = waitq_remove wq e s"

fun wq_spec :: "wq_op \<Rightarrow> (u64 \<Rightarrow> u64 list) \<Rightarrow> (u64 \<Rightarrow> u64 list)" where
  "wq_spec (Wq_add wq e) L = L(wq := e # L wq)"
| "wq_spec (Wq_remove wq e) L = L(wq := remove1 e (L wq))"

text \<open>The rules for callers in \<^verbatim>\<open>waitq.h\<close>: no double add, and an entry is removed from the queue it is on.\<close>

fun wq_allowed :: "wq_op \<Rightarrow> (u64 \<Rightarrow> u64 list) \<Rightarrow> bool" where
  "wq_allowed (Wq_add wq e) L \<longleftrightarrow> e \<noteq> 0 \<and> (\<forall>q. e \<notin> set (L q))"
| "wq_allowed (Wq_remove wq e) L \<longleftrightarrow> e \<in> set (L wq) \<or> (\<forall>q. e \<notin> set (L q))"

fun wq_all_allowed :: "wq_op list \<Rightarrow> (u64 \<Rightarrow> u64 list) \<Rightarrow> bool" where
  "wq_all_allowed [] L \<longleftrightarrow> True"
| "wq_all_allowed (p # ps) L \<longleftrightarrow> wq_allowed p L \<and> wq_all_allowed ps (wq_spec p L)"

lemma wq_step:
  assumes "represents s L" "wq_allowed p L"
  shows "represents (wq_exec p s) (wq_spec p L)"
proof (cases p)
  case (Wq_add wq e)
  then have "\<not> on_queue (wq_ent s e)" using assms by (auto simp: represents_def)
  then show ?thesis using represents_add assms Wq_add by simp
next
  case (Wq_remove wq e)
  then have "e \<in> set (L wq) \<or> \<not> on_queue (wq_ent s e)" using assms by (auto simp: represents_def)
  then show ?thesis using represents_remove assms Wq_remove by simp
qed

lemma wq_steps:
  "represents s L \<Longrightarrow> wq_all_allowed ps L \<Longrightarrow> represents (fold wq_exec ps s) (fold wq_spec ps L)"
  by (induction ps arbitrary: s L) (auto intro: wq_step)

text \<open>C10. The pointer manipulation of the wait queues implements lists: any sequence of additions and
  removals, interleaved over any number of queues, that respects the two documented rules (an
  entry is added only while it is on no queue, and removed only from its own queue or
  while on none) leaves every queue a well-formed doubly linked list of exactly the entries
  added and not yet removed, latest first, with the \<^verbatim>\<open>on_queue\<close> flag set on those entries only.\<close>

theorem waitq_refines_lists:
  assumes "represents s L" "wq_all_allowed ps L"
  shows "represents (fold wq_exec ps s) (fold wq_spec ps L)"
  using assms by (rule wq_steps)

definition empty_waitqs :: waitqs where
  "empty_waitqs = \<lparr>wq_head = (\<lambda>_. 0), wq_ent = (\<lambda>a. \<lparr>we_task = a + 1, we_next = 0, we_prev = 0, on_queue = False\<rparr>)\<rparr>"

lemma empty_represents: "represents empty_waitqs (\<lambda>_. [])"
  by (simp add: represents_def empty_waitqs_def)

theorem waitq_refines_lists_witness:
  "represents (fold wq_exec [Wq_add 1 10, Wq_add 2 20, Wq_add 1 30, Wq_remove 1 10, Wq_remove 2 10] empty_waitqs)
     (fold wq_spec [Wq_add 1 10, Wq_add 2 20, Wq_add 1 30, Wq_remove 1 10, Wq_remove 2 10] (\<lambda>_. []))
   \<and> fold wq_spec [Wq_add 1 10, Wq_add 2 20, Wq_add 1 30, Wq_remove 1 10, Wq_remove 2 10] (\<lambda>_. []) 1 = [30]"
proof -
  have "wq_all_allowed [Wq_add 1 10, Wq_add 2 20, Wq_add 1 30, Wq_remove 1 10, Wq_remove 2 10] (\<lambda>_. [])"
    by simp
  from waitq_refines_lists [OF empty_represents this] show ?thesis by simp
qed

text \<open>C30. \<^verbatim>\<open>waitq_wake_all\<close> on a queue that nobody changes meanwhile: with fewer than 64 entries it returns
  and has woken exactly the tasks of all entries, in queue order; with 64 or more it never
  returns, because every pass starts again at the head of the queue.\<close>

theorem waitq_wake_all_exact:
  assumes "represents s L" "\<forall>k. ss k = s"
  shows "waitq_wake_all wq ss =
    (if length (L wq) < 64 then Some (waiting_tasks s (L wq)) else None)"
  using wake_all_short [OF assms(1), of ss wq] wake_all_stuck [OF assms(1), of ss wq] assms(2) by auto

theorem waitq_wake_all_exact_witness:
  "waitq_wake_all 1 (\<lambda>_. fold wq_exec [Wq_add 1 10, Wq_add 1 30] empty_waitqs) = Some [31, 11]"
proof -
  let ?ps = "[Wq_add 1 10, Wq_add 1 30]"
  have "wq_all_allowed ?ps (\<lambda>_. [])" by simp
  then have R: "represents (fold wq_exec ?ps empty_waitqs) (fold wq_spec ?ps (\<lambda>_. []))"
    by (rule wq_steps [OF empty_represents])
  show ?thesis
    using waitq_wake_all_exact [OF R, of "\<lambda>_. fold wq_exec ?ps empty_waitqs" 1]
    by (simp add: waiting_tasks_def empty_waitqs_def waitq_add_def upd_ent_def Let_def)
qed

end
