(* ===== verification/Cap_Table.thy ===== *)
theory Cap_Table
  imports Aegis_Prelude
begin

text \<open>
  The per-process capability table: \<^verbatim>\<open>kernel/cap/cap.h\<close> and the Rust validation core
  \<^verbatim>\<open>kernel/cap/src/lib.rs\<close>.  A table is an array of 64 slots; a slot of kind 0 is
  empty.  The interface a client relies on is the locale \<open>capability_store\<close>; it is
  interpreted on \<open>cap_grant\<close> and \<open>cap_check\<close> at the end of the theory.
\<close>

section \<open>Data\<close>

record cap_slot =
  slot_kind :: u32
  slot_rights :: u32

definition CAP_TABLE_SIZE :: u32 where
  "CAP_TABLE_SIZE = 64"

definition CAP_KIND_NULL :: u32 where "CAP_KIND_NULL = 0"
definition CAP_KIND_VFS_OPEN :: u32 where "CAP_KIND_VFS_OPEN = 1"
definition CAP_KIND_VFS_WRITE :: u32 where "CAP_KIND_VFS_WRITE = 2"
definition CAP_KIND_VFS_READ :: u32 where "CAP_KIND_VFS_READ = 3"
definition CAP_KIND_AUTH :: u32 where "CAP_KIND_AUTH = 4"
definition CAP_KIND_CAP_GRANT :: u32 where "CAP_KIND_CAP_GRANT = 5"
definition CAP_KIND_SETUID :: u32 where "CAP_KIND_SETUID = 6"
definition CAP_KIND_NET_SOCKET :: u32 where "CAP_KIND_NET_SOCKET = 7"
definition CAP_KIND_NET_ADMIN :: u32 where "CAP_KIND_NET_ADMIN = 8"
definition CAP_KIND_THREAD_CREATE :: u32 where "CAP_KIND_THREAD_CREATE = 9"
definition CAP_KIND_PROC_READ :: u32 where "CAP_KIND_PROC_READ = 10"
definition CAP_KIND_DISK_ADMIN :: u32 where "CAP_KIND_DISK_ADMIN = 11"
definition CAP_KIND_FB :: u32 where "CAP_KIND_FB = 12"
definition CAP_KIND_CAP_DELEGATE :: u32 where "CAP_KIND_CAP_DELEGATE = 13"
definition CAP_KIND_CAP_QUERY :: u32 where "CAP_KIND_CAP_QUERY = 14"
definition CAP_KIND_IPC :: u32 where "CAP_KIND_IPC = 15"
definition CAP_KIND_POWER :: u32 where "CAP_KIND_POWER = 16"

definition CAP_RIGHTS_READ :: u32 where "CAP_RIGHTS_READ = 1"
definition CAP_RIGHTS_WRITE :: u32 where "CAP_RIGHTS_WRITE = 2"
definition CAP_RIGHTS_EXEC :: u32 where "CAP_RIGHTS_EXEC = 4"

definition ENOCAP :: nat where "ENOCAP = 130"

lemmas cap_const_defs =
  CAP_TABLE_SIZE_def CAP_KIND_NULL_def CAP_KIND_VFS_OPEN_def CAP_KIND_VFS_WRITE_def
  CAP_KIND_VFS_READ_def CAP_KIND_AUTH_def CAP_KIND_CAP_GRANT_def CAP_KIND_SETUID_def
  CAP_KIND_NET_SOCKET_def CAP_KIND_NET_ADMIN_def CAP_KIND_THREAD_CREATE_def
  CAP_KIND_PROC_READ_def CAP_KIND_DISK_ADMIN_def CAP_KIND_FB_def CAP_KIND_CAP_DELEGATE_def
  CAP_KIND_CAP_QUERY_def CAP_KIND_IPC_def CAP_KIND_POWER_def
  CAP_RIGHTS_READ_def CAP_RIGHTS_WRITE_def CAP_RIGHTS_EXEC_def ENOCAP_def

section \<open>Operations\<close>

text \<open>
  A table argument is \<open>None\<close> when the pointer is null.  \<open>cap_grant\<close> returns the table it
  leaves behind together with the slot index, or \<open>-ENOCAP\<close>.
\<close>

fun cap_grant_loop :: "nat \<Rightarrow> cap_slot list \<Rightarrow> u32 \<Rightarrow> u32 \<Rightarrow> cap_slot list \<times> int" where
  "cap_grant_loop i [] kind rights = ([], - int ENOCAP)"
| "cap_grant_loop i (s # ss) kind rights =
     (if slot_kind s = 0
      then (s\<lparr>slot_kind := kind, slot_rights := rights\<rparr> # ss, int i)
      else (let (ss', r) = cap_grant_loop (Suc i) ss kind rights in (s # ss', r)))"

definition cap_grant ::
  "cap_slot list option \<Rightarrow> u32 \<Rightarrow> u32 \<Rightarrow> u32 \<Rightarrow> cap_slot list option \<times> int" where
  "cap_grant table n kind rights =
     (case table of
        None \<Rightarrow> (None, - int ENOCAP)
      | Some slots \<Rightarrow>
          if n = 0 then (table, - int ENOCAP)
          else (let k = unat (min n CAP_TABLE_SIZE);
                    (ss, r) = cap_grant_loop 0 (take k slots) kind rights
                in (Some (ss @ drop k slots), r)))"

fun cap_check_loop :: "cap_slot list \<Rightarrow> u32 \<Rightarrow> u32 \<Rightarrow> int" where
  "cap_check_loop [] kind rights = - int ENOCAP"
| "cap_check_loop (s # ss) kind rights =
     (if slot_kind s = kind \<and> slot_rights s AND rights = rights then 0
      else cap_check_loop ss kind rights)"

definition cap_check :: "cap_slot list option \<Rightarrow> u32 \<Rightarrow> u32 \<Rightarrow> u32 \<Rightarrow> int" where
  "cap_check table n kind rights =
     (case table of
        None \<Rightarrow> - int ENOCAP
      | Some slots \<Rightarrow>
          if n = 0 then - int ENOCAP
          else cap_check_loop (take (unat (min n CAP_TABLE_SIZE)) slots) kind rights)"

text \<open>
  Every call in the kernel passes \<^verbatim>\<open>proc->caps, CAP_TABLE_SIZE\<close>; these two abbreviate
  such a call on the embedded array.
\<close>

definition grant_caps :: "cap_slot list \<Rightarrow> u32 \<Rightarrow> u32 \<Rightarrow> cap_slot list \<times> int" where
  "grant_caps caps kind rights =
     (let (t, r) = cap_grant (Some caps) CAP_TABLE_SIZE kind rights
      in (case t of None \<Rightarrow> caps | Some caps' \<Rightarrow> caps', r))"

definition check_caps :: "cap_slot list \<Rightarrow> u32 \<Rightarrow> u32 \<Rightarrow> int" where
  "check_caps caps kind rights = cap_check (Some caps) CAP_TABLE_SIZE kind rights"

text \<open>
  \<^verbatim>\<open>for (ci = 0; ci < CAP_TABLE_SIZE; ci++) { caps[ci].kind = CAP_KIND_NULL; caps[ci].rights = 0; }\<close>
\<close>

definition null_caps :: "cap_slot list" where
  "null_caps = replicate (unat CAP_TABLE_SIZE) \<lparr>slot_kind = CAP_KIND_NULL, slot_rights = 0\<rparr>"

section \<open>What a table holds\<close>

definition caps_wf :: "cap_slot list \<Rightarrow> bool" where
  "caps_wf caps \<longleftrightarrow> length caps = 64"

definition caps_held :: "cap_slot list \<Rightarrow> (u32 \<times> u32) set" where
  "caps_held caps = (\<lambda>s. (slot_kind s, slot_rights s)) ` {s \<in> set caps. slot_kind s \<noteq> 0}"

definition caps_free :: "cap_slot list \<Rightarrow> nat" where
  "caps_free caps = length (filter (\<lambda>s. slot_kind s = 0) caps)"

lemma caps_held_simps [simp]:
  "caps_held [] = {}"
  "caps_held (s # ss) =
     (if slot_kind s = 0 then caps_held ss
      else insert (slot_kind s, slot_rights s) (caps_held ss))"
  by (auto simp: caps_held_def)

lemma caps_held_append [simp]: "caps_held (xs @ ys) = caps_held xs \<union> caps_held ys"
  by (induction xs) auto

lemma length_cap_grant_loop [simp]:
  "length (fst (cap_grant_loop i ss kind rights)) = length ss"
  by (induction ss arbitrary: i) (auto simp: Let_def split_beta)

lemma cap_grant_loop_full:
  "\<forall>s \<in> set ss. slot_kind s \<noteq> 0 \<Longrightarrow> cap_grant_loop i ss kind rights = (ss, - int ENOCAP)"
  by (induction ss arbitrary: i) auto

lemma cap_grant_loop_room:
  assumes "\<exists>s \<in> set ss. slot_kind s = 0" and "kind \<noteq> 0"
  shows "caps_held (fst (cap_grant_loop i ss kind rights)) = insert (kind, rights) (caps_held ss)"
    and "Suc (caps_free (fst (cap_grant_loop i ss kind rights))) = caps_free ss"
    and "\<exists>j < length ss. snd (cap_grant_loop i ss kind rights) = int (i + j)"
  using assms
proof (induction ss arbitrary: i)
  case (Cons s ss)
  {
    case 1
    then show ?case using Cons.IH(1) [of "Suc i"] by (auto simp: split_beta Let_def)
  next
    case 2
    then show ?case
      using Cons.IH(2) [of "Suc i"] by (auto simp: split_beta Let_def caps_free_def)
  next
    case 3
    show ?case
    proof (cases "slot_kind s = 0")
      case False
      with 3 Cons.IH(3) [of "Suc i"] obtain j where
        "j < length ss" "snd (cap_grant_loop (Suc i) ss kind rights) = int (Suc i + j)"
        by auto
      with False show ?thesis
        by (intro exI [of _ "Suc j"]) (auto simp: split_beta Let_def)
    qed auto
  }
qed auto

lemma cap_check_loop_0_iff:
  "cap_check_loop ss kind rights = 0 \<longleftrightarrow>
     (\<exists>s \<in> set ss. slot_kind s = kind \<and> slot_rights s AND rights = rights)"
  by (induction ss) (auto simp: ENOCAP_def)

lemma cap_check_loop_range: "cap_check_loop ss kind rights \<in> {0, - int ENOCAP}"
  by (induction ss) auto

lemma grant_caps_eq:
  "caps_wf caps \<Longrightarrow> grant_caps caps kind rights = cap_grant_loop 0 caps kind rights"
  by (simp add: grant_caps_def cap_grant_def CAP_TABLE_SIZE_def caps_wf_def split_beta)

lemma check_caps_eq:
  "caps_wf caps \<Longrightarrow> check_caps caps kind rights = cap_check_loop caps kind rights"
  by (simp add: check_caps_def cap_check_def CAP_TABLE_SIZE_def caps_wf_def)

lemma caps_free_0_iff: "caps_free caps = 0 \<longleftrightarrow> (\<forall>s \<in> set caps. slot_kind s \<noteq> 0)"
  by (simp add: caps_free_def filter_empty_conv)

lemma caps_wf_null_caps [simp]: "caps_wf null_caps"
  by (simp add: caps_wf_def null_caps_def CAP_TABLE_SIZE_def)

lemma caps_held_null_caps [simp]: "caps_held null_caps = {}"
  by (auto simp: caps_held_def null_caps_def CAP_KIND_NULL_def)

lemma caps_free_null_caps [simp]: "caps_free null_caps = 64"
  by (simp add: caps_free_def null_caps_def cap_const_defs)

section \<open>The interface\<close>

text \<open>
  What a client of the table relies on: a successful check is witnessed by a held pair with
  the kind asked for and at least the rights asked for, a grant adds exactly one pair while a
  slot is free, and a full table is left alone.
\<close>

locale capability_store =
  fixes empty :: 't
    and grant :: "'t \<Rightarrow> u32 \<Rightarrow> u32 \<Rightarrow> 't \<times> int"
    and check :: "'t \<Rightarrow> u32 \<Rightarrow> u32 \<Rightarrow> int"
    and held :: "'t \<Rightarrow> (u32 \<times> u32) set"
    and room :: "'t \<Rightarrow> nat"
    and wf :: "'t \<Rightarrow> bool"
  assumes wf_empty: "wf empty"
    and held_empty: "held empty = {}"
    and wf_grant: "wf t \<Longrightarrow> wf (fst (grant t k r))"
    and held_grant: "wf t \<Longrightarrow> k \<noteq> 0 \<Longrightarrow> 0 < room t \<Longrightarrow>
          held (fst (grant t k r)) = insert (k, r) (held t)"
    and room_grant: "wf t \<Longrightarrow> k \<noteq> 0 \<Longrightarrow> 0 < room t \<Longrightarrow> Suc (room (fst (grant t k r))) = room t"
    and grant_result: "wf t \<Longrightarrow> k \<noteq> 0 \<Longrightarrow> 0 < room t \<Longrightarrow> 0 \<le> snd (grant t k r)"
    and grant_full: "wf t \<Longrightarrow> room t = 0 \<Longrightarrow> grant t k r = (t, - int ENOCAP)"
    and check_iff: "wf t \<Longrightarrow> k \<noteq> 0 \<Longrightarrow>
          check t k r = 0 \<longleftrightarrow> (\<exists>r'. (k, r') \<in> held t \<and> r' AND r = r)"
begin

definition grant_list :: "'t \<Rightarrow> (u32 \<times> u32) list \<Rightarrow> 't" where
  "grant_list t xs = foldl (\<lambda>u (k, r). fst (grant u k r)) t xs"

lemma grant_list_simps:
  "grant_list t [] = t"
  "grant_list t (x # xs) = grant_list (fst (grant t (fst x) (snd x))) xs"
  by (simp_all add: grant_list_def split_beta)

lemma held_grant_subset:
  assumes "wf t" and "k \<noteq> 0"
  shows "held (fst (grant t k r)) \<subseteq> insert (k, r) (held t)"
  using assms held_grant [of t k r] grant_full [of t k r] by (cases "room t = 0") auto

lemma held_grant_mono:
  assumes "wf t" and "k \<noteq> 0"
  shows "held t \<subseteq> held (fst (grant t k r))"
  using assms held_grant [of t k r] grant_full [of t k r] by (cases "room t = 0") auto

lemma grant_list_subset:
  assumes "wf t" and "\<forall>x \<in> set xs. fst x \<noteq> 0"
  shows "wf (grant_list t xs) \<and> held (grant_list t xs) \<subseteq> held t \<union> set xs"
  using assms
proof (induction xs arbitrary: t)
  case (Cons x xs)
  let ?u = "fst (grant t (fst x) (snd x))"
  have "wf ?u" using Cons.prems(1) by (rule wf_grant)
  moreover have "held ?u \<subseteq> insert x (held t)"
    using Cons.prems held_grant_subset [of t "fst x" "snd x"] by simp
  ultimately show ?case
    using Cons.IH [of ?u] Cons.prems(2) by (auto simp: grant_list_simps)
qed (simp add: grant_list_simps)

lemma grant_list_exact:
  assumes "wf t" and "\<forall>x \<in> set xs. fst x \<noteq> 0" and "length xs \<le> room t"
  shows "held (grant_list t xs) = held t \<union> set xs"
  using assms
proof (induction xs arbitrary: t)
  case (Cons x xs)
  let ?u = "fst (grant t (fst x) (snd x))"
  have "wf ?u" using Cons.prems(1) by (rule wf_grant)
  moreover have "held ?u = insert x (held t)" and "Suc (room ?u) = room t"
    using Cons.prems held_grant [of t "fst x" "snd x"] room_grant [of t "fst x" "snd x"]
    by auto
  ultimately show ?case
    using Cons.IH [of ?u] Cons.prems by (auto simp: grant_list_simps)
qed (simp add: grant_list_simps)

lemma check_weaken:
  assumes "wf t" and "k \<noteq> 0" and "check t k r = 0" and "r AND r' = r'"
  shows "check t k r' = 0"
  using assms check_iff [of t k] rights_and_sub by metis

lemma check_after_grant:
  assumes "wf t" and "k \<noteq> 0" and "0 < room t"
  shows "check (fst (grant t k r)) k r = 0"
  using assms check_iff [OF wf_grant [OF assms(1)] assms(2)] held_grant by auto

lemma check_grant_other:
  assumes "wf t" and "k \<noteq> 0" and "k' \<noteq> 0" and "k' \<noteq> k"
  shows "check (fst (grant t k r)) k' r' = 0 \<longleftrightarrow> check t k' r' = 0"
proof (cases "room t = 0")
  case True
  with assms grant_full show ?thesis by simp
next
  case False
  with assms have "held (fst (grant t k r)) = insert (k, r) (held t)"
    by (simp add: held_grant)
  with assms show ?thesis
    using check_iff [OF wf_grant [OF assms(1)] assms(3)] check_iff [OF assms(1) assms(3)] by simp
qed

end

interpretation ct: capability_store null_caps grant_caps check_caps caps_held caps_free caps_wf
proof (unfold_locales, goal_cases)
  case 1 show ?case by simp
next
  case 2 show ?case by simp
next
  case (3 t k r)
  then show ?case by (simp add: grant_caps_eq) (simp add: caps_wf_def)
next
  case (4 t k r)
  then show ?case
    by (simp add: grant_caps_eq cap_grant_loop_room(1)
        caps_free_0_iff [THEN arg_cong [where f = Not], simplified])
next
  case (5 t k r)
  then show ?case
    by (simp add: grant_caps_eq cap_grant_loop_room(2)
        caps_free_0_iff [THEN arg_cong [where f = Not], simplified])
next
  case (6 t k r)
  then show ?case
    using cap_grant_loop_room(3) [of t k 0 r]
    by (auto simp: grant_caps_eq caps_free_0_iff [THEN arg_cong [where f = Not], simplified])
next
  case (7 t k r)
  then show ?case by (simp add: grant_caps_eq caps_free_0_iff cap_grant_loop_full)
next
  case (8 t k r)
  then show ?case
    by (auto simp: check_caps_eq cap_check_loop_0_iff caps_held_def)
qed

end
