(* ===== verification/Cap_Policy.thy ===== *)
theory Cap_Policy
  imports Cap_Table
begin

text \<open>
  The file-based capability policy engine, \<^verbatim>\<open>kernel/cap/cap_policy.c\<close>: the policy file
  parser, the loader of \<^verbatim>\<open>/etc/aegis/caps.d\<close> and the lookup by binary basename.  File
  contents are the \<^typ>\<open>string\<close> of their bytes; a position in the file is the suffix still
  to be read.  The directory and the files come from the file system and are parameters of
  \<open>cap_policy_load\<close>.
\<close>

section \<open>Data\<close>

definition CAP_TIER_SERVICE :: u32 where "CAP_TIER_SERVICE = 1"
definition CAP_TIER_ADMIN :: u32 where "CAP_TIER_ADMIN = 2"
definition CAP_POLICY_MAX_CAPS :: nat where "CAP_POLICY_MAX_CAPS = 16"
definition CAP_POLICY_MAX_ENTRIES :: nat where "CAP_POLICY_MAX_ENTRIES = 32"

record cap_policy_cap =
  pc_kind :: u32
  pc_rights :: u32
  pc_tier :: u32

text \<open>The valid prefix \<^verbatim>\<open>caps[0..count)\<close> of an entry is a list; \<^verbatim>\<open>count\<close> is its length.\<close>

record cap_policy_entry =
  pe_name :: string
  pe_caps :: "cap_policy_cap list"

section \<open>Parsing one policy file\<close>

definition cap_name_map :: "(string \<times> u32) list" where
  "cap_name_map =
    [(''VFS_OPEN'', CAP_KIND_VFS_OPEN), (''VFS_WRITE'', CAP_KIND_VFS_WRITE),
     (''VFS_READ'', CAP_KIND_VFS_READ), (''AUTH'', CAP_KIND_AUTH),
     (''CAP_GRANT'', CAP_KIND_CAP_GRANT), (''SETUID'', CAP_KIND_SETUID),
     (''NET_SOCKET'', CAP_KIND_NET_SOCKET), (''NET_ADMIN'', CAP_KIND_NET_ADMIN),
     (''THREAD_CREATE'', CAP_KIND_THREAD_CREATE), (''PROC_READ'', CAP_KIND_PROC_READ),
     (''DISK_ADMIN'', CAP_KIND_DISK_ADMIN), (''FB'', CAP_KIND_FB),
     (''CAP_DELEGATE'', CAP_KIND_CAP_DELEGATE), (''CAP_QUERY'', CAP_KIND_CAP_QUERY),
     (''IPC'', CAP_KIND_IPC), (''POWER'', CAP_KIND_POWER)]"

fun cap_name_scan :: "(string \<times> u32) list \<Rightarrow> string \<Rightarrow> u32" where
  "cap_name_scan [] name = CAP_KIND_NULL"
| "cap_name_scan ((str, kind) # m) name = (if streq str name then kind else cap_name_scan m name)"

definition cap_name_to_kind :: "string \<Rightarrow> u32" where
  "cap_name_to_kind name = cap_name_scan cap_name_map name"

definition is_blank :: "char \<Rightarrow> bool" where
  "is_blank c \<longleftrightarrow> c = CHR '' '' \<or> c = CHR 0x09"

definition is_eol :: "char \<Rightarrow> bool" where
  "is_eol c \<longleftrightarrow> c = CHR 0x0A \<or> c = CHR 0x0D"

definition is_ws :: "char \<Rightarrow> bool" where
  "is_ws c \<longleftrightarrow> is_blank c \<or> is_eol c"

text \<open>
  \<open>read_word n data\<close>: the word loop with room for \<open>n\<close> more characters
  (\<^verbatim>\<open>sizeof(buf) - 1\<close>); returns the word and the rest of the input.
\<close>

fun read_word :: "nat \<Rightarrow> string \<Rightarrow> string \<times> string" where
  "read_word n [] = ([], [])"
| "read_word 0 (c # cs) = ([], c # cs)"
| "read_word (Suc n) (c # cs) =
     (if is_ws c then ([], c # cs)
      else (let (w, rest) = read_word n cs in (c # w, rest)))"

lemma length_read_word: "length (snd (read_word n cs)) \<le> length cs"
  by (induction n cs rule: read_word.induct) (auto simp: split_beta Let_def)

lemma length_read_word_less:
  assumes "cs \<noteq> []" and "\<not> is_ws (hd cs)"
  shows "length (snd (read_word (Suc n) cs)) < length cs"
  using assms length_read_word [of n "tl cs"] by (cases cs) (auto simp: split_beta Let_def)

definition new_policy_cap :: "u32 \<Rightarrow> u32 \<Rightarrow> cap_policy_cap" where
  "new_policy_cap kind tier =
     \<lparr>pc_kind = kind,
      pc_rights = CAP_RIGHTS_READ OR CAP_RIGHTS_WRITE OR CAP_RIGHTS_EXEC,
      pc_tier = tier\<rparr>"

text \<open>
  The loop body's last step: an unknown name is skipped, a known one is appended while
  there is room.
\<close>

definition policy_add :: "cap_policy_cap list \<Rightarrow> u32 \<Rightarrow> u32 \<Rightarrow> cap_policy_cap list" where
  "policy_add caps kind tier =
     (if kind = CAP_KIND_NULL then caps
      else if length caps < CAP_POLICY_MAX_CAPS then caps @ [new_policy_cap kind tier]
      else caps)"

text \<open>The inner loop: the capability names on the rest of a line.\<close>

function parse_caps :: "u32 \<Rightarrow> string \<Rightarrow> cap_policy_cap list \<Rightarrow> cap_policy_cap list \<times> string" where
  "parse_caps tier data caps =
     (if data = [] \<or> is_eol (hd data) then (caps, data)
      else if dropWhile is_blank data = [] \<or> is_eol (hd (dropWhile is_blank data))
      then (caps, dropWhile is_blank data)
      else parse_caps tier
             (snd (read_word 31 (dropWhile is_blank data)))
             (policy_add caps
                (cap_name_to_kind (fst (read_word 31 (dropWhile is_blank data)))) tier))"
  by pat_completeness auto

lemma read_word_after_blanks:
  assumes "dropWhile is_blank data \<noteq> []" and "\<not> is_eol (hd (dropWhile is_blank data))"
  shows "length (snd (read_word (Suc n) (dropWhile is_blank data))) < length data"
proof -
  from assms(1) have "\<not> is_blank (hd (dropWhile is_blank data))"
    by (rule hd_dropWhile)
  with assms have "\<not> is_ws (hd (dropWhile is_blank data))"
    by (simp add: is_ws_def)
  with assms(1) have "length (snd (read_word (Suc n) (dropWhile is_blank data)))
      < length (dropWhile is_blank data)"
    by (rule length_read_word_less)
  also have "\<dots> \<le> length data" by (rule length_dropWhile_le)
  finally show ?thesis .
qed

termination parse_caps
proof (relation "measure (\<lambda>(tier, data, caps). length data)", goal_cases)
  case 1 show ?case by simp
qed (use read_word_after_blanks [of _ 30] in \<open>auto simp: eval_nat_numeral\<close>)

declare parse_caps.simps [simp del]

lemma length_parse_caps: "length (snd (parse_caps tier data caps)) \<le> length data"
proof (induction tier data caps rule: parse_caps.induct)
  case (1 tier data caps)
  have "length (dropWhile is_blank data) \<le> length data"
    and "length (snd (read_word 31 (dropWhile is_blank data))) \<le> length data"
    using length_dropWhile_le [of is_blank data] length_read_word [of 31 "dropWhile is_blank data"]
    by linarith+
  with 1 show ?case
    by (subst parse_caps.simps) (auto simp del: dropWhile_eq_Nil_conv)
qed

definition tier_of_word :: "string \<Rightarrow> u32 option" where
  "tier_of_word w =
     (if streq w ''service'' then Some CAP_TIER_SERVICE
      else if streq w ''admin'' then Some CAP_TIER_ADMIN
      else None)"

text \<open>The outer loop: one iteration per word that starts a line (or follows an unknown word).\<close>

function parse_lines :: "string \<Rightarrow> cap_policy_cap list \<Rightarrow> cap_policy_cap list" where
  "parse_lines data caps =
     (if \<not> (data \<noteq> [] \<and> length caps < CAP_POLICY_MAX_CAPS) then caps
      else if dropWhile is_ws data = [] then caps
      else if hd (dropWhile is_ws data) = CHR ''#''
      then parse_lines (dropWhile (\<lambda>c. c \<noteq> CHR 0x0A) (dropWhile is_ws data)) caps
      else case tier_of_word (fst (read_word 15 (dropWhile is_ws data))) of
             None \<Rightarrow> parse_lines (snd (read_word 15 (dropWhile is_ws data))) caps
           | Some tier \<Rightarrow>
               parse_lines
                 (snd (parse_caps tier (snd (read_word 15 (dropWhile is_ws data))) caps))
                 (fst (parse_caps tier (snd (read_word 15 (dropWhile is_ws data))) caps)))"
  by pat_completeness auto

lemma read_word_after_ws:
  assumes "dropWhile is_ws data \<noteq> []"
  shows "length (snd (read_word (Suc n) (dropWhile is_ws data))) < length data"
proof -
  from assms have "\<not> is_ws (hd (dropWhile is_ws data))"
    by (rule hd_dropWhile)
  with assms have "length (snd (read_word (Suc n) (dropWhile is_ws data)))
      < length (dropWhile is_ws data)"
    by (rule length_read_word_less)
  also have "\<dots> \<le> length data" by (rule length_dropWhile_le)
  finally show ?thesis .
qed

lemma comment_shorter:
  assumes "dropWhile is_ws data \<noteq> []" and "hd (dropWhile is_ws data) = CHR ''#''"
  shows "length (dropWhile (\<lambda>c. c \<noteq> CHR 0x0A) (dropWhile is_ws data)) < length data"
proof -
  from assms obtain cs where "dropWhile is_ws data = CHR ''#'' # cs"
    by (cases "dropWhile is_ws data") auto
  moreover have "length (dropWhile is_ws data) \<le> length data" by (rule length_dropWhile_le)
  moreover have "length (dropWhile (\<lambda>c. c \<noteq> CHR 0x0A) cs) \<le> length cs"
    by (rule length_dropWhile_le)
  ultimately show ?thesis by simp
qed

termination parse_lines
proof (relation "measure (\<lambda>(data, caps). length data)", goal_cases)
  case 1 show ?case by simp
next
  case (2 data caps)
  then show ?case using comment_shorter [of data] by simp
next
  case (3 data caps)
  then show ?case using read_word_after_ws [of data 14] by (simp add: eval_nat_numeral)
next
  case (4 data caps tier)
  let ?rest = "snd (read_word 15 (dropWhile is_ws data))"
  have "length (snd (parse_caps tier ?rest caps)) \<le> length ?rest" by (rule length_parse_caps)
  moreover have "length ?rest < length data"
    using 4 read_word_after_ws [of data 14] by (simp add: eval_nat_numeral)
  ultimately show ?case by simp
qed

declare parse_lines.simps [simp del]

text \<open>
  \<^verbatim>\<open>parse_policy(data, len, entry)\<close> always returns 0; the result is the entry's capability list.
\<close>

definition parse_policy :: "string \<Rightarrow> cap_policy_cap list" where
  "parse_policy data = parse_lines data []"

section \<open>Loading and lookup\<close>

text \<open>
  The policy directory as the loader sees it: \<open>None\<close> when \<^verbatim>\<open>vfs_open\<close> fails, otherwise the
  entries \<^verbatim>\<open>readdir\<close> enumerates (name and type).  A file is \<open>None\<close> when it cannot be opened,
  otherwise its size and its read operation, which maps a length to the bytes read
  (\<open>None\<close>: no read operation or a negative result).
\<close>

type_synonym policy_file = "u64 \<times> (u64 \<Rightarrow> string option)"

definition DT_REG :: u8 where "DT_REG = 8"

definition policy_path :: "string \<Rightarrow> string" where
  "policy_path name = take 255 (''/etc/aegis/caps.d/'' @ c_str name)"

definition load_one :: "(string \<Rightarrow> policy_file option) \<Rightarrow> string \<Rightarrow> cap_policy_entry option" where
  "load_one vfs_file name =
     (case vfs_file (policy_path name) of
        None \<Rightarrow> None
      | Some (f_size, f_read) \<Rightarrow>
          (let fsize = (if f_size > 511 then 511 else f_size)
           in case f_read fsize of
                None \<Rightarrow> None
              | Some bytes \<Rightarrow>
                  if length bytes > 0 then
                    (let caps = parse_policy bytes
                     in if 0 < length caps
                        then Some \<lparr>pe_name = c_strncpy 64 name, pe_caps = caps\<rparr>
                        else None)
                  else None))"

fun load_entries ::
  "(string \<Rightarrow> policy_file option) \<Rightarrow> (string \<times> u8) list \<Rightarrow> cap_policy_entry list
     \<Rightarrow> cap_policy_entry list" where
  "load_entries vfs_file [] entries = entries"
| "load_entries vfs_file ((name, dtype) # ds) entries =
     (if dtype \<noteq> DT_REG then load_entries vfs_file ds entries
      else if length entries \<ge> CAP_POLICY_MAX_ENTRIES then entries
      else case load_one vfs_file name of
             None \<Rightarrow> load_entries vfs_file ds entries
           | Some e \<Rightarrow> load_entries vfs_file ds (entries @ [e]))"

definition cap_policy_load ::
  "(string \<times> u8) list option \<Rightarrow> (string \<Rightarrow> policy_file option) \<Rightarrow> cap_policy_entry list" where
  "cap_policy_load dir vfs_file =
     (case dir of None \<Rightarrow> [] | Some ds \<Rightarrow> load_entries vfs_file ds [])"

fun basename_loop :: "string \<Rightarrow> string \<Rightarrow> string" where
  "basename_loop [] base = base"
| "basename_loop (c # p) base =
     (if c = NUL then base
      else if c = CHR ''/'' then basename_loop p p
      else basename_loop p base)"

definition exe_basename :: "string \<Rightarrow> string" where
  "exe_basename exe_path = basename_loop exe_path exe_path"

definition cap_policy_lookup :: "cap_policy_entry list \<Rightarrow> string \<Rightarrow> cap_policy_entry option" where
  "cap_policy_lookup entries exe_path =
     (if c_hd exe_path = NUL then None
      else (let base = exe_basename exe_path
            in if c_hd base = NUL then None
               else find (\<lambda>e. streq (pe_name e) base) entries))"


section \<open>Parsed policies are well formed\<close>

definition policy_cap_ok :: "cap_policy_cap \<Rightarrow> bool" where
  "policy_cap_ok c \<longleftrightarrow>
     pc_kind c \<in> snd ` set cap_name_map \<and> pc_rights c = 7 \<and>
     pc_tier c \<in> {CAP_TIER_SERVICE, CAP_TIER_ADMIN}"

lemma cap_name_scan_in: "cap_name_scan m name \<noteq> CAP_KIND_NULL \<Longrightarrow> cap_name_scan m name \<in> snd ` set m"
  by (induction m name rule: cap_name_scan.induct) (auto split: if_splits)

lemma cap_name_to_kind_in:
  "cap_name_to_kind name \<noteq> CAP_KIND_NULL \<Longrightarrow> cap_name_to_kind name \<in> snd ` set cap_name_map"
  unfolding cap_name_to_kind_def by (rule cap_name_scan_in)

lemma new_policy_cap_ok:
  assumes "cap_name_to_kind w \<noteq> CAP_KIND_NULL" and "tier \<in> {CAP_TIER_SERVICE, CAP_TIER_ADMIN}"
  shows "policy_cap_ok (new_policy_cap (cap_name_to_kind w) tier)"
  using assms cap_name_to_kind_in [OF assms(1)]
  by (simp add: policy_cap_ok_def new_policy_cap_def cap_const_defs)

lemma policy_add_invar:
  assumes "tier \<in> {CAP_TIER_SERVICE, CAP_TIER_ADMIN}"
    and "list_all policy_cap_ok caps" and "length caps \<le> CAP_POLICY_MAX_CAPS"
  shows "list_all policy_cap_ok (policy_add caps (cap_name_to_kind w) tier) \<and>
         length (policy_add caps (cap_name_to_kind w) tier) \<le> CAP_POLICY_MAX_CAPS"
  using assms new_policy_cap_ok [of w tier] by (auto simp: policy_add_def)

lemma parse_caps_invar:
  assumes "tier \<in> {CAP_TIER_SERVICE, CAP_TIER_ADMIN}"
    and "list_all policy_cap_ok caps" and "length caps \<le> CAP_POLICY_MAX_CAPS"
  shows "list_all policy_cap_ok (fst (parse_caps tier data caps)) \<and>
         length (fst (parse_caps tier data caps)) \<le> CAP_POLICY_MAX_CAPS"
  using assms
proof (induction tier data caps rule: parse_caps.induct)
  case (1 tier data caps)
  show ?case
    using "1.IH" policy_add_invar [OF "1.prems"] "1.prems"
    by (subst (1 2) parse_caps.simps) auto
qed

lemma tier_of_word_range:
  "tier_of_word w = Some t \<Longrightarrow> t \<in> {CAP_TIER_SERVICE, CAP_TIER_ADMIN}"
  by (auto simp: tier_of_word_def split: if_splits)

lemma parse_lines_invar:
  assumes "list_all policy_cap_ok caps" and "length caps \<le> CAP_POLICY_MAX_CAPS"
  shows "list_all policy_cap_ok (parse_lines data caps) \<and>
         length (parse_lines data caps) \<le> CAP_POLICY_MAX_CAPS"
  using assms
proof (induction data caps rule: parse_lines.induct)
  case (1 data caps)
  let ?w = "read_word 15 (dropWhile is_ws data)"
  show ?case
  proof (cases "tier_of_word (fst ?w)")
    case None
    with 1 show ?thesis by (subst (1 2) parse_lines.simps) auto
  next
    case (Some tier)
    have "list_all policy_cap_ok (fst (parse_caps tier (snd ?w) caps)) \<and>
        length (fst (parse_caps tier (snd ?w) caps)) \<le> CAP_POLICY_MAX_CAPS"
      using tier_of_word_range [OF Some] "1.prems" by (rule parse_caps_invar)
    with 1 Some show ?thesis by (subst (1 2) parse_lines.simps) auto
  qed
qed

section \<open>Printing and reading back\<close>

definition kind_name :: "u32 \<Rightarrow> string" where
  "kind_name k = (case find (\<lambda>(s, k'). k' = k) cap_name_map of None \<Rightarrow> [] | Some (s, _) \<Rightarrow> s)"

definition tier_word :: "u32 \<Rightarrow> string" where
  "tier_word t = (if t = CAP_TIER_SERVICE then ''service'' else ''admin'')"

definition print_kinds :: "u32 list \<Rightarrow> string" where
  "print_kinds ks = concat (map (\<lambda>k. CHR '' '' # kind_name k) ks)"

definition print_policy :: "(u32 \<times> u32 list) list \<Rightarrow> string" where
  "print_policy ls = concat (map (\<lambda>(t, ks). tier_word t @ print_kinds ks @ [CHR 0x0A]) ls)"

definition policy_lines_ok :: "(u32 \<times> u32 list) list \<Rightarrow> bool" where
  "policy_lines_ok ls \<longleftrightarrow>
     (\<forall>(t, ks) \<in> set ls. t \<in> {CAP_TIER_SERVICE, CAP_TIER_ADMIN} \<and> set ks \<subseteq> snd ` set cap_name_map)"

definition policy_caps :: "(u32 \<times> u32 list) list \<Rightarrow> cap_policy_cap list" where
  "policy_caps ls = concat (map (\<lambda>(t, ks). map (\<lambda>k. new_policy_cap k t) ks) ls)"

lemma read_word_word:
  assumes "\<forall>c \<in> set w. \<not> is_ws c" and "length w \<le> n" and "rest = [] \<or> is_ws (hd rest)"
  shows "read_word n (w @ rest) = (w, rest)"
  using assms
proof (induction w arbitrary: n)
  case Nil
  then show ?case by (cases rest; cases n) auto
next
  case (Cons c w)
  then show ?case by (cases n) auto
qed

lemma kind_name_facts:
  assumes "k \<in> snd ` set cap_name_map"
  shows "cap_name_to_kind (kind_name k) = k" and "k \<noteq> CAP_KIND_NULL"
    and "kind_name k \<noteq> []" and "\<forall>c \<in> set (kind_name k). \<not> is_ws c" and "length (kind_name k) \<le> 31"
  using assms
  by (auto simp: cap_name_map_def kind_name_def cap_name_to_kind_def cap_const_defs
      is_ws_def is_blank_def is_eol_def)

lemma parse_caps_print:
  assumes "set ks \<subseteq> snd ` set cap_name_map" and "length caps \<le> CAP_POLICY_MAX_CAPS"
  shows "parse_caps t (print_kinds ks @ CHR 0x0A # rest) caps =
           (take CAP_POLICY_MAX_CAPS (caps @ map (\<lambda>k. new_policy_cap k t) ks), CHR 0x0A # rest)"
  using assms
proof (induction ks arbitrary: caps)
  case Nil
  then show ?case by (simp add: print_kinds_def parse_caps.simps is_eol_def)
next
  case (Cons k ks)
  let ?more = "print_kinds ks @ CHR 0x0A # rest"
  have k: "k \<in> snd ` set cap_name_map" using Cons.prems(1) by auto
  have data: "print_kinds (k # ks) @ CHR 0x0A # rest = CHR '' '' # kind_name k @ ?more"
    by (simp add: print_kinds_def)
  obtain c cs where name: "kind_name k = c # cs" and c: "\<not> is_ws c"
    using kind_name_facts(3,4) [OF k] by (cases "kind_name k") auto
  then have chars: "is_blank CHR '' ''" "\<not> is_eol CHR '' ''" "\<not> is_blank c" "\<not> is_eol c"
    by (auto simp: is_ws_def is_blank_def is_eol_def)
  have "?more \<noteq> [] \<and> is_ws (hd ?more)"
    by (cases ks) (auto simp: print_kinds_def is_ws_def is_blank_def is_eol_def)
  then have word: "read_word 31 (kind_name k @ ?more) = (kind_name k, ?more)"
    using kind_name_facts(4,5) [OF k] by (intro read_word_word) auto
  have step: "parse_caps t (CHR '' '' # kind_name k @ ?more) caps =
      parse_caps t ?more
        (if length caps < CAP_POLICY_MAX_CAPS then caps @ [new_policy_cap k t] else caps)"
    using kind_name_facts(1,2) [OF k] word unfolding name
    by (subst parse_caps.simps) (simp add: chars policy_add_def)
  show ?case
    using Cons.prems Cons.IH
    by (auto simp: data step take_Cons')
qed

lemma parse_lines_ws: "is_ws c \<Longrightarrow> parse_lines (c # data) caps = parse_lines data caps"
  by (simp only: parse_lines.simps [of "c # data" caps] parse_lines.simps [of data caps]
      dropWhile.simps if_True if_False) (cases data; simp)

lemma parse_lines_full: "CAP_POLICY_MAX_CAPS \<le> length caps \<Longrightarrow> parse_lines data caps = caps"
  by (subst parse_lines.simps) simp

lemma tier_word_facts:
  assumes "t \<in> {CAP_TIER_SERVICE, CAP_TIER_ADMIN}"
  shows "tier_of_word (tier_word t) = Some t" and "\<forall>c \<in> set (tier_word t). \<not> is_ws c"
    and "length (tier_word t) \<le> 15" and "tier_word t \<noteq> []" and "hd (tier_word t) \<noteq> CHR ''#''"
  using assms
  by (auto simp: tier_word_def tier_of_word_def CAP_TIER_SERVICE_def CAP_TIER_ADMIN_def
      is_ws_def is_blank_def is_eol_def)

lemma parse_lines_word:
  assumes "\<forall>c \<in> set w. \<not> is_ws c" and "w \<noteq> []" and "hd w \<noteq> CHR ''#''" and "length w \<le> 15"
    and "rest = [] \<or> is_ws (hd rest)" and "length caps < CAP_POLICY_MAX_CAPS"
  shows "parse_lines (w @ rest) caps =
     (case tier_of_word w of
        None \<Rightarrow> parse_lines rest caps
      | Some tier \<Rightarrow> parse_lines (snd (parse_caps tier rest caps)) (fst (parse_caps tier rest caps)))"
proof -
  from assms(1,2) have drop: "dropWhile is_ws (w @ rest) = w @ rest" by (cases w) auto
  from assms have word: "read_word 15 (w @ rest) = (w, rest)" by (intro read_word_word) auto
  show ?thesis
    using assms(2,3,6) by (subst parse_lines.simps) (simp add: drop word split: option.split)
qed

lemma parse_lines_print:
  assumes "policy_lines_ok ls" and "length caps \<le> CAP_POLICY_MAX_CAPS"
  shows "parse_lines (print_policy ls) caps = take CAP_POLICY_MAX_CAPS (caps @ policy_caps ls)"
  using assms
proof (induction ls arbitrary: caps)
  case Nil
  then show ?case by (simp add: print_policy_def policy_caps_def parse_lines.simps)
next
  case (Cons l ls)
  obtain t ks where l: "l = (t, ks)" by (cases l)
  have t: "t \<in> {CAP_TIER_SERVICE, CAP_TIER_ADMIN}" and ks: "set ks \<subseteq> snd ` set cap_name_map"
    using Cons.prems(1) by (auto simp: policy_lines_ok_def l)
  let ?rest = "print_kinds ks @ CHR 0x0A # print_policy ls"
  have data: "print_policy (l # ls) = tier_word t @ ?rest"
    by (simp add: print_policy_def l)
  have caps': "policy_caps (l # ls) = map (\<lambda>k. new_policy_cap k t) ks @ policy_caps ls"
    by (simp add: policy_caps_def l)
  show ?case
  proof (cases "length caps < CAP_POLICY_MAX_CAPS")
    case False
    with Cons.prems show ?thesis by (simp add: parse_lines_full)
  next
    case True
    have "is_ws (hd ?rest)"
      by (cases ks) (auto simp: print_kinds_def is_ws_def is_blank_def is_eol_def)
    then have "parse_lines (print_policy (l # ls)) caps =
        parse_lines (CHR 0x0A # print_policy ls)
          (take CAP_POLICY_MAX_CAPS (caps @ map (\<lambda>k. new_policy_cap k t) ks))"
      unfolding data
      by (subst parse_lines_word)
        (use tier_word_facts [OF t] True Cons.prems parse_caps_print [OF ks] in auto)
    also have "\<dots> = take CAP_POLICY_MAX_CAPS
        (take CAP_POLICY_MAX_CAPS (caps @ map (\<lambda>k. new_policy_cap k t) ks) @ policy_caps ls)"
      using Cons.prems Cons.IH
      by (simp add: parse_lines_ws is_ws_def is_eol_def policy_lines_ok_def)
    finally show ?thesis by (simp only: caps' take_take_append append_assoc)
  qed
qed

section \<open>Lookup and load\<close>

lemma basename_loop_no_slash:
  "CHR ''/'' \<notin> set (c_str p) \<Longrightarrow> basename_loop p base = base"
  by (induction p base rule: basename_loop.induct) (auto split: if_splits)

lemma basename_loop_dir:
  assumes "NUL \<notin> set d" and "CHR ''/'' \<notin> set (c_str b)"
  shows "basename_loop (d @ CHR ''/'' # b) base = b"
  using assms by (induction d arbitrary: base) (auto simp: basename_loop_no_slash)

definition policy_entry_ok :: "cap_policy_entry \<Rightarrow> bool" where
  "policy_entry_ok e \<longleftrightarrow>
     length (pe_name e) < 64 \<and> pe_caps e \<noteq> [] \<and> length (pe_caps e) \<le> CAP_POLICY_MAX_CAPS \<and>
     list_all policy_cap_ok (pe_caps e)"

lemma parse_policy_ok:
  "list_all policy_cap_ok (parse_policy data) \<and> length (parse_policy data) \<le> CAP_POLICY_MAX_CAPS"
  unfolding parse_policy_def by (rule parse_lines_invar) (simp_all add: CAP_POLICY_MAX_CAPS_def)

lemma load_one_ok: "load_one vfs_file name = Some e \<Longrightarrow> policy_entry_ok e"
  using parse_policy_ok length_c_strncpy [of 64]
  by (auto simp: load_one_def policy_entry_ok_def Let_def split: option.splits if_splits prod.splits)

lemma load_entries_ok:
  assumes "list_all policy_entry_ok es" and "length es \<le> CAP_POLICY_MAX_ENTRIES"
  shows "list_all policy_entry_ok (load_entries vfs_file ds es) \<and>
         length (load_entries vfs_file ds es) \<le> CAP_POLICY_MAX_ENTRIES"
  using assms
  by (induction vfs_file ds es rule: load_entries.induct)
    (auto split: option.splits dest: load_one_ok)

lemma cap_policy_lookup_SomeD:
  assumes "cap_policy_lookup es p = Some e"
  shows "e \<in> set es" and "c_str (pe_name e) = c_str (exe_basename p)"
  using assms
  by (auto simp: cap_policy_lookup_def Let_def find_Some_iff streq_iff_c_str split: if_splits)

section \<open>Properties\<close>

text \<open>C21. Printing a policy (one line per tier with the capability names it grants) and parsing
  the text gives back exactly the capabilities written, in order, cut off at the sixteen an
  entry can hold.\<close>

theorem parse_print_policy:
  assumes "policy_lines_ok ls"
  shows "parse_policy (print_policy ls) = take CAP_POLICY_MAX_CAPS (policy_caps ls)"
  using parse_lines_print [OF assms, of "[]"] by (simp add: parse_policy_def)

theorem parse_print_policy_witness:
  "policy_lines_ok [(CAP_TIER_SERVICE, [CAP_KIND_AUTH, CAP_KIND_SETUID]), (CAP_TIER_ADMIN, [CAP_KIND_POWER])] \<and>
   parse_policy (''service AUTH SETUID'' @ [CHR 0x0A] @ ''admin POWER'' @ [CHR 0x0A]) =
     [new_policy_cap CAP_KIND_AUTH CAP_TIER_SERVICE, new_policy_cap CAP_KIND_SETUID CAP_TIER_SERVICE,
      new_policy_cap CAP_KIND_POWER CAP_TIER_ADMIN]"
proof -
  let ?ls = "[(CAP_TIER_SERVICE, [CAP_KIND_AUTH, CAP_KIND_SETUID]), (CAP_TIER_ADMIN, [CAP_KIND_POWER])]"
  have ok: "policy_lines_ok ?ls"
    by (simp add: policy_lines_ok_def cap_name_map_def)
  have "print_policy ?ls = ''service AUTH SETUID'' @ [CHR 0x0A] @ ''admin POWER'' @ [CHR 0x0A]"
    by code_simp
  moreover have "take CAP_POLICY_MAX_CAPS (policy_caps ?ls) =
     [new_policy_cap CAP_KIND_AUTH CAP_TIER_SERVICE, new_policy_cap CAP_KIND_SETUID CAP_TIER_SERVICE,
      new_policy_cap CAP_KIND_POWER CAP_TIER_ADMIN]"
    by (simp add: policy_caps_def CAP_POLICY_MAX_CAPS_def)
  ultimately show ?thesis using ok parse_print_policy [OF ok] by simp
qed

text \<open>A word that is not a tier name does not make the parser skip its line: only the word
  itself is dropped and the rest of the line is parsed as if it began a new line, so
  \<^verbatim>\<open>deny service AUTH\<close> grants what \<^verbatim>\<open>service AUTH\<close> grants.\<close>

theorem unknown_tier_keeps_line:
  assumes "\<forall>c \<in> set w. \<not> is_ws c" and "w \<noteq> []" and "hd w \<noteq> CHR ''#''" and "length w \<le> 15"
    and "tier_of_word w = None"
  shows "parse_policy (w @ CHR '' '' # rest) = parse_policy rest"
  using assms parse_lines_word [of w "CHR '' '' # rest" "[]"]
  by (simp add: parse_policy_def parse_lines_ws is_ws_def is_blank_def CAP_POLICY_MAX_CAPS_def)

theorem unknown_tier_keeps_line_witness:
  "tier_of_word ''deny'' = None \<and>
   parse_policy ''deny service AUTH'' = [new_policy_cap CAP_KIND_AUTH CAP_TIER_SERVICE]"
proof -
  have t: "tier_of_word ''deny'' = None" by code_simp
  have "parse_policy (''deny'' @ CHR '' '' # ''service AUTH'') = parse_policy ''service AUTH''"
    by (rule unknown_tier_keeps_line) (simp_all add: t is_ws_def is_blank_def is_eol_def)
  moreover have "parse_policy ''service AUTH'' = [new_policy_cap CAP_KIND_AUTH CAP_TIER_SERVICE]"
    by code_simp
  ultimately show ?thesis using t by simp
qed

text \<open>C22. The loader never keeps more than 32 entries; every entry has a name that fits its
  64-byte buffer and between 1 and 16 capabilities, each of a kind from the name table, with
  the full rights and one of the two tiers, whatever the policy files contain.\<close>

theorem policy_table_well_formed:
  "list_all policy_entry_ok (cap_policy_load dir vfs_file) \<and>
   length (cap_policy_load dir vfs_file) \<le> CAP_POLICY_MAX_ENTRIES"
  using load_entries_ok [of "[]"]
  by (simp add: cap_policy_load_def CAP_POLICY_MAX_ENTRIES_def split: option.split)

text \<open>The policy found for a binary depends only on the last component of its path: the same
  name in any directory selects the same entry.\<close>

theorem policy_lookup_basename:
  assumes "NUL \<notin> set d" and "b \<noteq> []" and "hd b \<noteq> NUL" and "CHR ''/'' \<notin> set (c_str b)"
  shows "cap_policy_lookup entries (d @ CHR ''/'' # b) = cap_policy_lookup entries b"
proof -
  have "c_hd (d @ CHR ''/'' # b) \<noteq> NUL" using assms(1) by (cases d) auto
  moreover have "c_hd b \<noteq> NUL" using assms(2,3) by (cases b) auto
  ultimately show ?thesis
    using basename_loop_dir [OF assms(1,4)] basename_loop_no_slash [OF assms(4)]
    by (simp add: cap_policy_lookup_def exe_basename_def)
qed

theorem policy_lookup_basename_witness:
  "cap_policy_lookup [\<lparr>pe_name = ''login'', pe_caps = [new_policy_cap CAP_KIND_AUTH CAP_TIER_SERVICE]\<rparr>]
     ''/tmp/login'' =
   Some \<lparr>pe_name = ''login'', pe_caps = [new_policy_cap CAP_KIND_AUTH CAP_TIER_SERVICE]\<rparr>"
proof -
  let ?es = "[\<lparr>pe_name = ''login'', pe_caps = [new_policy_cap CAP_KIND_AUTH CAP_TIER_SERVICE]\<rparr>]"
  have "cap_policy_lookup ?es (''/tmp'' @ CHR ''/'' # ''login'') = cap_policy_lookup ?es ''login''"
    by (rule policy_lookup_basename) simp_all
  moreover have "cap_policy_lookup ?es ''login'' = Some (hd ?es)" by code_simp
  ultimately show ?thesis by simp
qed

end
