(* ===== verification/Cap_Syscalls.thy ===== *)
theory Cap_Syscalls
  imports Cap_Policy
begin

text \<open>
  How processes acquire capabilities: the capability system calls
  (\<^verbatim>\<open>kernel/syscall/sys_cap.c\<close>), the capability reset of \<^verbatim>\<open>execve\<close> and \<^verbatim>\<open>spawn\<close>
  (\<^verbatim>\<open>kernel/syscall/sys_exec.c\<close>), inheritance by \<^verbatim>\<open>fork\<close>/\<^verbatim>\<open>clone\<close>
  (\<^verbatim>\<open>kernel/syscall/sys_process.c\<close>) and the grants of the init process
  (\<^verbatim>\<open>kernel/proc/proc.c\<close>).  The task list is the scheduler's circular list read from the
  current task, so its head is \<^verbatim>\<open>sched_current()\<close>.  The step relation \<open>cap_step\<close> composes
  these transitions; the confinement results are invariants of its reachable states.
\<close>

section \<open>Processes\<close>

record proc =
  p_pid :: u32
  p_is_user :: bool
  p_caps :: "cap_slot list"
  p_authenticated :: u32

definition proc_find_by_pid :: "u32 \<Rightarrow> proc list \<Rightarrow> nat option" where
  "proc_find_by_pid pid tasks = first_index (\<lambda>p. p_is_user p \<and> p_pid p = pid) 0 tasks"

definition USER_ADDR_MAX :: u64 where
  "USER_ADDR_MAX = 0x00007FFFFFFFFFFF"

definition user_ptr_valid :: "u64 \<Rightarrow> u64 \<Rightarrow> bool" where
  "user_ptr_valid addr len \<longleftrightarrow> len \<le> USER_ADDR_MAX \<and> addr \<le> USER_ADDR_MAX - len"

section \<open>Capability system calls\<close>

definition sys_auth_session :: "proc list \<Rightarrow> proc list \<times> u64" where
  "sys_auth_session tasks =
     (let cur = hd tasks
      in if \<not> p_is_user cur then (tasks, neg_errno 1)
         else if check_caps (p_caps cur) CAP_KIND_AUTH CAP_RIGHTS_READ \<noteq> 0
         then (tasks, neg_errno ENOCAP)
         else (cur\<lparr>p_authenticated := 1\<rparr> # tl tasks, 0))"

definition sys_cap_grant_runtime :: "u64 \<Rightarrow> u64 \<Rightarrow> u64 \<Rightarrow> proc list \<Rightarrow> proc list \<times> u64" where
  "sys_cap_grant_runtime target_pid kind_arg rights_arg tasks =
     (let caller = hd tasks in
      if check_caps (p_caps caller) CAP_KIND_CAP_DELEGATE CAP_RIGHTS_READ \<noteq> 0
      then (tasks, neg_errno ENOCAP)
      else
        let kind = (ucast kind_arg :: u32);
            rights = (ucast rights_arg :: u32)
        in if kind = CAP_KIND_NULL \<or> kind \<ge> CAP_TABLE_SIZE then (tasks, neg_errno 22)
           else if check_caps (p_caps caller) kind rights \<noteq> 0 then (tasks, neg_errno ENOCAP)
           else case proc_find_by_pid (ucast target_pid) tasks of
                  None \<Rightarrow> (tasks, neg_errno 3)
                | Some i \<Rightarrow>
                    let target = tasks ! i;
                        (caps', r) = grant_caps (p_caps target) kind rights
                    in if r < 0 then (tasks[i := target\<lparr>p_caps := caps'\<rparr>], neg_errno 28)
                       else (tasks[i := target\<lparr>p_caps := caps'\<rparr>], of_int r))"

text \<open>
  \<^verbatim>\<open>sys_cap_query\<close> returns a value and, when it copies, the destination and the slots copied out.
\<close>

definition sys_cap_query ::
  "u64 \<Rightarrow> u64 \<Rightarrow> u64 \<Rightarrow> proc list \<Rightarrow> u64 \<times> (u64 \<times> cap_slot list) option" where
  "sys_cap_query pid_arg buf_uptr buflen tasks =
     (let caller = hd tasks in
      if \<not> p_is_user caller then (neg_errno 1, None)
      else
        let target =
          (if pid_arg = 0 then Inr caller
           else if check_caps (p_caps caller) CAP_KIND_CAP_QUERY CAP_RIGHTS_READ \<noteq> 0
           then Inl (neg_errno ENOCAP)
           else case proc_find_by_pid (ucast pid_arg) tasks of
                  None \<Rightarrow> Inl (neg_errno 3)
                | Some i \<Rightarrow> Inr (tasks ! i))
        in case target of
             Inl e \<Rightarrow> (e, None)
           | Inr t \<Rightarrow>
               let full = ucast CAP_TABLE_SIZE * (8 :: u64);
                   nslots = (if buflen < full then buflen else full) div 8
               in if nslots = 0 then (0, None)
                  else if \<not> user_ptr_valid buf_uptr (nslots * 8) then (neg_errno 14, None)
                  else (nslots, Some (buf_uptr, take (unat nslots) (p_caps t))))"

section \<open>Exec, spawn, fork and init\<close>

text \<open>The six unconditional grants, in source order.\<close>

definition baseline_grants :: "(u32 \<times> u32) list" where
  "baseline_grants =
    [(CAP_KIND_VFS_OPEN, CAP_RIGHTS_READ), (CAP_KIND_VFS_WRITE, CAP_RIGHTS_WRITE),
     (CAP_KIND_VFS_READ, CAP_RIGHTS_READ), (CAP_KIND_IPC, CAP_RIGHTS_READ),
     (CAP_KIND_PROC_READ, CAP_RIGHTS_READ), (CAP_KIND_THREAD_CREATE, CAP_RIGHTS_READ)]"

fun grant_seq :: "(u32 \<times> u32) list \<Rightarrow> cap_slot list \<Rightarrow> cap_slot list" where
  "grant_seq [] caps = caps"
| "grant_seq ((k, r) # xs) caps = grant_seq xs (fst (grant_caps caps k r))"

fun grant_policy :: "cap_policy_cap list \<Rightarrow> u32 \<Rightarrow> cap_slot list \<Rightarrow> cap_slot list" where
  "grant_policy [] authenticated caps = caps"
| "grant_policy (c # cs) authenticated caps =
     grant_policy cs authenticated
       (if pc_tier c = CAP_TIER_SERVICE then fst (grant_caps caps (pc_kind c) (pc_rights c))
        else if pc_tier c = CAP_TIER_ADMIN \<and> authenticated \<noteq> 0
        then fst (grant_caps caps (pc_kind c) (pc_rights c))
        else caps)"

definition exec_caps :: "cap_policy_entry list \<Rightarrow> string \<Rightarrow> u32 \<Rightarrow> cap_slot list" where
  "exec_caps entries path authenticated =
     (let caps = grant_seq baseline_grants null_caps
      in case cap_policy_lookup entries path of
           None \<Rightarrow> caps
         | Some pol \<Rightarrow> grant_policy (pe_caps pol) authenticated caps)"

fun apply_mask ::
  "cap_slot list \<Rightarrow> cap_slot list \<Rightarrow> cap_slot list \<Rightarrow> cap_slot list \<Rightarrow> u64 + cap_slot list" where
  "apply_mask parent computed [] child = Inr child"
| "apply_mask parent computed (m # ms) child =
     (if slot_kind m = CAP_KIND_NULL then apply_mask parent computed ms child
      else if slot_kind m \<ge> CAP_TABLE_SIZE then Inl (neg_errno 22)
      else if check_caps parent (slot_kind m) (slot_rights m) \<noteq> 0 then Inl (neg_errno ENOCAP)
      else apply_mask parent computed ms
             (if check_caps computed (slot_kind m) (slot_rights m) = 0
              then fst (grant_caps child (slot_kind m) (slot_rights m)) else child))"

text \<open>
  \<open>read_mask\<close> is the user's memory at the mask pointer: the \<^verbatim>\<open>CAP_TABLE_SIZE\<close> slots that
  \<^verbatim>\<open>copy_from_user\<close> delivers.
\<close>

definition spawn_caps ::
  "cap_policy_entry list \<Rightarrow> string \<Rightarrow> proc \<Rightarrow> u64 \<Rightarrow> (u64 \<Rightarrow> cap_slot list) \<Rightarrow> u64 + cap_slot list" where
  "spawn_caps entries path parent cap_mask_uptr read_mask =
     (let computed = exec_caps entries path (p_authenticated parent)
      in if cap_mask_uptr = 0 then Inr computed
         else if check_caps (p_caps parent) CAP_KIND_CAP_DELEGATE CAP_RIGHTS_READ \<noteq> 0
         then Inl (neg_errno ENOCAP)
         else if \<not> user_ptr_valid cap_mask_uptr (8 * ucast CAP_TABLE_SIZE) then Inl (neg_errno 14)
         else apply_mask (p_caps parent) computed (take 64 (read_mask cap_mask_uptr)) null_caps)"

definition fork_caps :: "proc \<Rightarrow> u32 \<Rightarrow> proc" where
  "fork_caps parent pid =
     \<lparr>p_pid = pid, p_is_user = True, p_caps = p_caps parent,
      p_authenticated = p_authenticated parent\<rparr>"

definition init_grants :: "(u32 \<times> u32) list" where
  "init_grants =
    [(CAP_KIND_VFS_OPEN, CAP_RIGHTS_READ), (CAP_KIND_VFS_WRITE, CAP_RIGHTS_WRITE),
     (CAP_KIND_VFS_READ, CAP_RIGHTS_READ), (CAP_KIND_IPC, CAP_RIGHTS_READ),
     (CAP_KIND_PROC_READ, CAP_RIGHTS_READ OR CAP_RIGHTS_WRITE),
     (CAP_KIND_THREAD_CREATE, CAP_RIGHTS_READ), (CAP_KIND_POWER, CAP_RIGHTS_READ)]"

definition init_proc :: proc where
  "init_proc =
     \<lparr>p_pid = 1, p_is_user = True, p_caps = grant_seq init_grants null_caps,
      p_authenticated = 0\<rparr>"

section \<open>Steps of the system\<close>

text \<open>
  One rule per way a capability table or the authentication flag can change, plus the
  scheduler moving on to another task (a rotation of the circular list) and a task leaving
  it.  The flag of \<open>cap_reach\<close> records whether some \<^verbatim>\<open>sys_auth_session\<close> of the run
  returned 0.
\<close>

datatype cap_event = Auth u64 | Other

inductive cap_step ::
  "cap_policy_entry list \<Rightarrow> proc list \<Rightarrow> cap_event \<Rightarrow> proc list \<Rightarrow> bool" for entries where
  auth: "sys_auth_session (cur # ts) = (ts', r) \<Longrightarrow> cap_step entries (cur # ts) (Auth r) ts'"
| grant: "sys_cap_grant_runtime pid k r (cur # ts) = (ts', v) \<Longrightarrow>
    cap_step entries (cur # ts) Other ts'"
| fork: "p_is_user cur \<Longrightarrow> cap_step entries (cur # ts) Other (cur # ts @ [fork_caps cur pid])"
| exec: "p_is_user cur \<Longrightarrow>
    cap_step entries (cur # ts) Other
      (cur\<lparr>p_caps := exec_caps entries path (p_authenticated cur)\<rparr> # ts)"
| spawn: "spawn_caps entries path cur mask_ptr read_mask = Inr caps \<Longrightarrow>
    cap_step entries (cur # ts) Other
      (cur # ts @ [\<lparr>p_pid = pid, p_is_user = True, p_caps = caps,
                    p_authenticated = p_authenticated cur\<rparr>])"
| switch: "cap_step entries (xs @ ys) Other (ys @ xs)"
| exit: "cap_step entries (cur # ts) Other ts"

inductive cap_reach :: "cap_policy_entry list \<Rightarrow> proc list \<Rightarrow> bool \<Rightarrow> bool" for entries where
  init: "cap_reach entries [init_proc] False"
| step: "cap_reach entries ts ever \<Longrightarrow> cap_step entries ts ev ts' \<Longrightarrow>
    cap_reach entries ts' (ever \<or> ev = Auth 0)"

inductive_cases cap_stepE: "cap_step entries ts ev ts'"

section \<open>Grants made by exec and spawn\<close>

definition policy_grants :: "cap_policy_cap list \<Rightarrow> u32 \<Rightarrow> (u32 \<times> u32) list" where
  "policy_grants cs authenticated =
     map (\<lambda>c. (pc_kind c, pc_rights c))
       (filter (\<lambda>c. pc_tier c = CAP_TIER_SERVICE \<or>
                    pc_tier c = CAP_TIER_ADMIN \<and> authenticated \<noteq> 0) cs)"

lemma grant_seq_eq: "grant_seq xs caps = ct.grant_list caps xs"
  by (induction xs caps rule: grant_seq.induct) (simp_all add: ct.grant_list_simps)

lemma grant_seq_append: "grant_seq (xs @ ys) caps = grant_seq ys (grant_seq xs caps)"
  by (induction xs caps rule: grant_seq.induct) simp_all

lemma grant_policy_eq: "grant_policy cs a caps = grant_seq (policy_grants cs a) caps"
  by (induction cs a caps rule: grant_policy.induct) (auto simp: policy_grants_def)

definition exec_grants :: "cap_policy_entry list \<Rightarrow> string \<Rightarrow> u32 \<Rightarrow> (u32 \<times> u32) list" where
  "exec_grants entries path a =
     baseline_grants @
     (case cap_policy_lookup entries path of None \<Rightarrow> [] | Some pol \<Rightarrow> policy_grants (pe_caps pol) a)"

lemma exec_caps_eq: "exec_caps entries path a = grant_seq (exec_grants entries path a) null_caps"
  by (simp add: exec_caps_def exec_grants_def Let_def grant_seq_append grant_policy_eq
      split: option.split)

lemma baseline_nonzero: "\<forall>x \<in> set baseline_grants. fst x \<noteq> 0"
  by (simp add: baseline_grants_def cap_const_defs)

lemma init_nonzero: "\<forall>x \<in> set init_grants. fst x \<noteq> 0"
  by (simp add: init_grants_def cap_const_defs)

lemma policy_cap_ok_nonzero: "policy_cap_ok c \<Longrightarrow> pc_kind c \<noteq> 0"
  by (auto simp: policy_cap_ok_def cap_name_map_def cap_const_defs)

lemma lookup_ok:
  "list_all policy_entry_ok entries \<Longrightarrow> cap_policy_lookup entries path = Some e \<Longrightarrow> policy_entry_ok e"
  using cap_policy_lookup_SomeD(1) by (auto simp: list_all_iff)

lemma exec_grants_nonzero:
  assumes "list_all policy_entry_ok entries"
  shows "\<forall>x \<in> set (exec_grants entries path a). fst x \<noteq> 0"
proof (cases "cap_policy_lookup entries path")
  case None
  then show ?thesis using baseline_nonzero by (simp add: exec_grants_def)
next
  case (Some e)
  have "\<forall>c \<in> set (pe_caps e). pc_kind c \<noteq> 0"
    using lookup_ok [OF assms Some] policy_cap_ok_nonzero
    by (auto simp: policy_entry_ok_def list_all_iff)
  with Some baseline_nonzero show ?thesis by (auto simp: exec_grants_def policy_grants_def)
qed

lemma exec_grants_fit:
  assumes "list_all policy_entry_ok entries"
  shows "length (exec_grants entries path a) \<le> 64"
proof (cases "cap_policy_lookup entries path")
  case None
  then show ?thesis by (simp add: exec_grants_def baseline_grants_def)
next
  case (Some e)
  have "length (policy_grants (pe_caps e) a) \<le> length (pe_caps e)"
    by (simp add: policy_grants_def)
  with lookup_ok [OF assms Some] Some show ?thesis
    by (simp add: exec_grants_def baseline_grants_def policy_entry_ok_def CAP_POLICY_MAX_CAPS_def)
qed

lemma exec_caps_wf [simp]: "list_all policy_entry_ok entries \<Longrightarrow> caps_wf (exec_caps entries path a)"
  using ct.grant_list_subset [of null_caps "exec_grants entries path a"] exec_grants_nonzero
  by (simp add: exec_caps_eq grant_seq_eq)

lemma exec_caps_held:
  assumes "list_all policy_entry_ok entries"
  shows "caps_held (exec_caps entries path a) = set (exec_grants entries path a)"
  using ct.grant_list_exact [of null_caps "exec_grants entries path a"]
    exec_grants_nonzero [OF assms] exec_grants_fit [OF assms]
  by (simp add: exec_caps_eq grant_seq_eq)

lemma apply_mask_invar:
  assumes "apply_mask parent computed ms child = Inr child'"
    and "caps_wf child" and "\<forall>x \<in> caps_held child. P x"
    and "\<And>m. m \<in> set ms \<Longrightarrow> slot_kind m \<noteq> 0 \<Longrightarrow>
          check_caps parent (slot_kind m) (slot_rights m) = 0 \<Longrightarrow>
          check_caps computed (slot_kind m) (slot_rights m) = 0 \<Longrightarrow>
          P (slot_kind m, slot_rights m)"
  shows "caps_wf child' \<and> (\<forall>x \<in> caps_held child'. P x)"
  using assms
proof (induction parent computed ms child rule: apply_mask.induct)
  case (2 parent computed m ms child)
  show ?case
  proof (cases "slot_kind m = CAP_KIND_NULL")
    case True
    with 2 show ?thesis by simp
  next
    case False
    then have k: "slot_kind m \<noteq> 0" by (simp add: CAP_KIND_NULL_def)
    with 2 False have par: "check_caps parent (slot_kind m) (slot_rights m) = 0"
      and big: "\<not> slot_kind m \<ge> CAP_TABLE_SIZE"
      by (auto split: if_splits)
    let ?c = "if check_caps computed (slot_kind m) (slot_rights m) = 0
              then fst (grant_caps child (slot_kind m) (slot_rights m)) else child"
    have "caps_wf ?c" using 2 by (simp add: ct.wf_grant)
    moreover have "\<forall>x \<in> caps_held ?c. P x"
      using ct.held_grant_subset [OF "2.prems"(2) k, of "slot_rights m"] "2.prems"(3)
        "2.prems"(4) [of m] k par
      by auto
    ultimately show ?thesis
      using "2.IH"(2) [OF False big] par "2.prems"(1,4) False big by simp
  qed
qed simp

lemma spawn_caps_cases:
  assumes "spawn_caps entries path parent mp rm = Inr caps"
  obtains "mp = 0" "caps = exec_caps entries path (p_authenticated parent)"
  | "mp \<noteq> 0" "check_caps (p_caps parent) CAP_KIND_CAP_DELEGATE CAP_RIGHTS_READ = 0"
    "apply_mask (p_caps parent) (exec_caps entries path (p_authenticated parent))
       (take 64 (rm mp)) null_caps = Inr caps"
  using assms by (auto simp: spawn_caps_def Let_def split: if_splits)

lemma spawn_caps_held:
  assumes "list_all policy_entry_ok entries" and "spawn_caps entries path parent mp rm = Inr caps"
  shows "caps_wf caps"
    and "\<forall>x \<in> caps_held caps. check_caps (exec_caps entries path (p_authenticated parent)) (fst x) (snd x) = 0"
proof -
  let ?ex = "exec_caps entries path (p_authenticated parent)"
  let ?P = "\<lambda>x. check_caps ?ex (fst x) (snd x) = 0"
  have wf: "caps_wf ?ex" using assms(1) by simp
  have "caps_wf caps \<and> (\<forall>x \<in> caps_held caps. ?P x)"
    using assms(2)
  proof (cases rule: spawn_caps_cases)
    case 1
    have "?P x" if "x \<in> caps_held ?ex" for x
      using that exec_caps_held [OF assms(1)] exec_grants_nonzero [OF assms(1)]
        ct.check_iff [OF wf, of "fst x" "snd x"]
      by (metis and.idem prod.collapse)
    with 1 wf show ?thesis by simp
  next
    case 2
    show ?thesis by (rule apply_mask_invar [OF 2(3)]) simp_all
  qed
  then show "caps_wf caps" and "\<forall>x \<in> caps_held caps. ?P x" by auto
qed

section \<open>The runtime grant\<close>

definition procs_wf :: "proc list \<Rightarrow> bool" where
  "procs_wf ts \<longleftrightarrow> (\<forall>p \<in> set ts. caps_wf (p_caps p))"

text \<open>The authority present in the system: every request some process could make successfully.\<close>

definition authority :: "proc list \<Rightarrow> (u32 \<times> u32) set" where
  "authority ts = {(k, r). k \<noteq> 0 \<and> (\<exists>p \<in> set ts. check_caps (p_caps p) k r = 0)}"

lemma proc_find_lt: "proc_find_by_pid pid ts = Some i \<Longrightarrow> i < length ts"
  unfolding proc_find_by_pid_def by (rule first_index_Some_lt)

lemma sys_cap_grant_runtime_cases:
  assumes "sys_cap_grant_runtime pid ka ra ts = (ts', v)"
  obtains "ts' = ts"
  | i where "proc_find_by_pid (ucast pid) ts = Some i"
      "check_caps (p_caps (hd ts)) CAP_KIND_CAP_DELEGATE CAP_RIGHTS_READ = 0"
      "(ucast ka :: u32) \<noteq> 0" "check_caps (p_caps (hd ts)) (ucast ka) (ucast ra) = 0"
      "ts' = ts[i := (ts ! i)\<lparr>p_caps := fst (grant_caps (p_caps (ts ! i)) (ucast ka) (ucast ra))\<rparr>]"
proof (cases "proc_find_by_pid (ucast pid) ts")
  case None
  with assms have "ts' = ts" by (simp add: sys_cap_grant_runtime_def Let_def split: if_splits)
  then show ?thesis by (rule that(1))
next
  case (Some i)
  let ?ok = "check_caps (p_caps (hd ts)) CAP_KIND_CAP_DELEGATE CAP_RIGHTS_READ = 0 \<and>
    (ucast ka :: u32) \<noteq> CAP_KIND_NULL \<and> check_caps (p_caps (hd ts)) (ucast ka) (ucast ra) = 0"
  show ?thesis
  proof (cases "ts' = ts")
    case True
    then show ?thesis by (rule that(1))
  next
    case False
    with assms Some have ?ok
      and "ts' = ts[i := (ts ! i)\<lparr>p_caps := fst (grant_caps (p_caps (ts ! i)) (ucast ka) (ucast ra))\<rparr>]"
      by (auto simp: sys_cap_grant_runtime_def Let_def split_beta split: if_splits)
    with Some show ?thesis by (intro that(2)) (simp_all add: CAP_KIND_NULL_def)
  qed
qed

lemma grant_runtime_wf:
  assumes "procs_wf ts" and "sys_cap_grant_runtime pid ka ra ts = (ts', v)"
  shows "procs_wf ts'"
  using assms(2)
proof (cases rule: sys_cap_grant_runtime_cases)
  case 1
  with assms show ?thesis by simp
next
  case (2 i)
  then have "caps_wf (p_caps (ts ! i))" using assms(1) by (simp add: procs_wf_def proc_find_lt)
  with 2(5) assms(1) show ?thesis
    by (auto simp: procs_wf_def intro: ct.wf_grant dest!: subsetD [OF set_update_subset_insert])
qed

lemma authority_cong:
  assumes "\<And>k r. k \<noteq> 0 \<Longrightarrow> (\<exists>p \<in> set ts. check_caps (p_caps p) k r = 0) \<longleftrightarrow>
     (\<exists>p \<in> set ts'. check_caps (p_caps p) k r = 0)"
  shows "authority ts = authority ts'"
  using assms by (auto simp: authority_def)

lemma check_after_delegation:
  assumes "caps_wf caps" and "caps_wf caller" and "k \<noteq> 0" and "check_caps caller k r = 0"
    and "k' \<noteq> 0" and "check_caps (fst (grant_caps caps k r)) k' r' = 0"
  shows "check_caps caps k' r' = 0 \<or> check_caps caller k' r' = 0"
proof -
  obtain q where q: "(k', q) \<in> caps_held (fst (grant_caps caps k r))" "q AND r' = r'"
    using ct.check_iff [OF ct.wf_grant [OF assms(1)] assms(5)] assms(6) by blast
  then consider "(k', q) \<in> caps_held caps" | "k' = k" "q = r"
    using ct.held_grant_subset [OF assms(1,3)] by auto
  then show ?thesis
  proof cases
    case 1
    then show ?thesis using ct.check_iff [OF assms(1) assms(5)] q(2) by blast
  next
    case 2
    with assms q(2) show ?thesis using ct.check_weaken [OF assms(2,3,4)] by simp
  qed
qed

lemma check_grant_mono:
  assumes "caps_wf caps" and "k \<noteq> 0" and "k' \<noteq> 0" and "check_caps caps k' r' = 0"
  shows "check_caps (fst (grant_caps caps k r)) k' r' = 0"
  using assms ct.held_grant_mono [OF assms(1,2)] ct.check_iff [OF assms(1,3)]
    ct.check_iff [OF ct.wf_grant [OF assms(1)] assms(3)]
  by blast

lemma authority_grant_runtime:
  assumes "procs_wf ts" and "ts \<noteq> []" and "sys_cap_grant_runtime pid ka ra ts = (ts', v)"
  shows "authority ts' = authority ts"
  using assms(3)
proof (cases rule: sys_cap_grant_runtime_cases)
  case (2 i)
  let ?k = "ucast ka :: u32" and ?r = "ucast ra :: u32"
  let ?t = "ts ! i"
  let ?new = "?t\<lparr>p_caps := fst (grant_caps (p_caps ?t) ?k ?r)\<rparr>"
  have i: "i < length ts" using 2(1) by (rule proc_find_lt)
  have wfi: "caps_wf (p_caps ?t)" and wfc: "caps_wf (p_caps (hd ts))"
    using assms(1,2) i by (auto simp: procs_wf_def)
  show ?thesis
  proof (rule authority_cong)
    fix k' r' :: u32 assume k': "k' \<noteq> 0"
    show "(\<exists>p \<in> set ts'. check_caps (p_caps p) k' r' = 0) \<longleftrightarrow>
        (\<exists>p \<in> set ts. check_caps (p_caps p) k' r' = 0)" (is "?L \<longleftrightarrow> ?R")
    proof
      assume ?L
      then obtain p where p: "p \<in> set ts'" "check_caps (p_caps p) k' r' = 0" by blast
      then consider "p = ?new" | "p \<in> set ts"
        using 2(5) set_update_subset_insert [of ts i ?new] by blast
      then show ?R
      proof cases
        case 1
        with p(2) check_after_delegation [OF wfi wfc 2(3,4) k'] show ?thesis
          using assms(2) i by (auto intro: nth_mem hd_in_set)
      qed (use p(2) in blast)
    next
      assume ?R
      then obtain j where j: "j < length ts" "check_caps (p_caps (ts ! j)) k' r' = 0"
        by (auto simp: in_set_conv_nth)
      have "check_caps (p_caps (ts' ! j)) k' r' = 0"
        using j check_grant_mono [OF wfi 2(3) k', of r'] i by (auto simp: 2(5) nth_list_update)
      with j(1) show ?L by (auto simp: 2(5) intro!: bexI [of _ "ts' ! j"])
    qed
  qed
qed simp

section \<open>Confinement\<close>

definition service_kinds :: "cap_policy_entry list \<Rightarrow> u32 set" where
  "service_kinds entries =
     {pc_kind c | e c. e \<in> set entries \<and> c \<in> set (pe_caps e) \<and> pc_tier c = CAP_TIER_SERVICE}"

definition unauth_kinds :: "cap_policy_entry list \<Rightarrow> u32 set" where
  "unauth_kinds entries = fst ` set init_grants \<union> service_kinds entries"

definition confined :: "cap_policy_entry list \<Rightarrow> proc \<Rightarrow> bool" where
  "confined entries p \<longleftrightarrow>
     p_authenticated p = 0 \<and> fst ` caps_held (p_caps p) \<subseteq> unauth_kinds entries"

lemma baseline_kinds: "fst ` set baseline_grants \<subseteq> fst ` set init_grants"
  by (simp add: baseline_grants_def init_grants_def)

lemma exec_grants_unauth: "fst ` set (exec_grants entries path 0) \<subseteq> unauth_kinds entries"
proof -
  have "fst ` set (policy_grants (pe_caps e) 0) \<subseteq> service_kinds entries"
    if "cap_policy_lookup entries path = Some e" for e
    using cap_policy_lookup_SomeD(1) [OF that]
    by (fastforce simp: policy_grants_def service_kinds_def)
  with baseline_kinds show ?thesis
    by (cases "cap_policy_lookup entries path") (auto simp: exec_grants_def unauth_kinds_def)
qed

lemma check_imp_kind:
  assumes "caps_wf caps" and "k \<noteq> 0" and "check_caps caps k r = 0"
  shows "k \<in> fst ` caps_held caps"
  using ct.check_iff [OF assms(1,2)] assms(3) by force

lemma held_kind_nonzero: "x \<in> caps_held caps \<Longrightarrow> fst x \<noteq> 0"
  by (auto simp: caps_held_def)

lemma init_proc_confined: "caps_wf (p_caps init_proc) \<and> confined entries init_proc"
  using ct.grant_list_subset [of null_caps init_grants] init_nonzero
  by (auto simp: confined_def init_proc_def grant_seq_eq unauth_kinds_def)

lemma exec_confined:
  assumes "list_all policy_entry_ok entries" and "confined entries cur"
  shows "confined entries (cur\<lparr>p_caps := exec_caps entries path (p_authenticated cur)\<rparr>)"
  using assms exec_grants_unauth [of entries path] exec_caps_held [OF assms(1)]
  by (simp add: confined_def)

lemma spawn_confined:
  assumes "list_all policy_entry_ok entries" and "confined entries cur"
    and "spawn_caps entries path cur mp rm = Inr caps"
  shows "confined entries \<lparr>p_pid = pid, p_is_user = u, p_caps = caps,
           p_authenticated = p_authenticated cur\<rparr>"
proof -
  have auth: "p_authenticated cur = 0" using assms(2) by (simp add: confined_def)
  have "fst x \<in> unauth_kinds entries" if x: "x \<in> caps_held caps" for x
  proof -
    have "check_caps (exec_caps entries path 0) (fst x) (snd x) = 0"
      using spawn_caps_held(2) [OF assms(1,3)] x auth by auto
    then have "fst x \<in> fst ` caps_held (exec_caps entries path 0)"
      using assms(1) held_kind_nonzero [OF x] by (intro check_imp_kind) auto
    then show ?thesis
      using exec_grants_unauth [of entries path] exec_caps_held [OF assms(1)] by auto
  qed
  with auth show ?thesis by (auto simp: confined_def)
qed

lemma grant_confined:
  assumes "procs_wf ts" and "\<forall>p \<in> set ts. confined entries p" and "ts \<noteq> []"
    and "sys_cap_grant_runtime pid ka ra ts = (ts', v)"
  shows "\<forall>p \<in> set ts'. confined entries p"
  using assms(4)
proof (cases rule: sys_cap_grant_runtime_cases)
  case 1
  with assms(2) show ?thesis by simp
next
  case (2 i)
  let ?k = "ucast ka :: u32" and ?r = "ucast ra :: u32"
  let ?new = "(ts ! i)\<lparr>p_caps := fst (grant_caps (p_caps (ts ! i)) ?k ?r)\<rparr>"
  have i: "ts ! i \<in> set ts" using 2(1) by (simp add: proc_find_lt)
  have caller: "?k \<in> fst ` caps_held (p_caps (hd ts))"
    using assms(1,3) 2(3,4) by (intro check_imp_kind) (auto simp: procs_wf_def)
  have "caps_held (p_caps ?new) \<subseteq> insert (?k, ?r) (caps_held (p_caps (ts ! i)))"
    using ct.held_grant_subset [of "p_caps (ts ! i)" ?k ?r] assms(1) i 2(3)
    by (simp add: procs_wf_def)
  then have "fst ` caps_held (p_caps ?new) \<subseteq> fst ` insert (?k, ?r) (caps_held (p_caps (ts ! i)))"
    by (rule image_mono)
  moreover have "fst ` insert (?k, ?r) (caps_held (p_caps (ts ! i))) \<subseteq> unauth_kinds entries"
  proof -
    have "fst ` caps_held (p_caps (hd ts)) \<subseteq> unauth_kinds entries"
      and "fst ` caps_held (p_caps (ts ! i)) \<subseteq> unauth_kinds entries"
      using assms(2) i hd_in_set [OF assms(3)] by (simp_all add: confined_def)
    with caller show ?thesis by (simp add: subset_iff)
  qed
  ultimately have "fst ` caps_held (p_caps ?new) \<subseteq> unauth_kinds entries" by (rule order_trans)
  moreover have "p_authenticated ?new = 0" using assms(2) i by (simp add: confined_def)
  ultimately have "confined entries ?new" by (simp only: confined_def)
  with assms(2) 2(5) set_update_subset_insert [of ts i ?new] show ?thesis by auto
qed

lemma auth_session_cases:
  assumes "sys_auth_session (cur # ts) = (ts', v)"
  obtains "v \<noteq> 0" "ts' = cur # ts"
  | "v = 0" "ts' = cur\<lparr>p_authenticated := 1\<rparr> # ts" "check_caps (p_caps cur) CAP_KIND_AUTH CAP_RIGHTS_READ = 0"
  using assms by (auto simp: sys_auth_session_def neg_errno_def ENOCAP_def Let_def split: if_splits)

lemma cap_step_wf:
  assumes "cap_step entries ts ev ts'" and "list_all policy_entry_ok entries" and "procs_wf ts"
  shows "procs_wf ts'"
  using assms
proof (cases rule: cap_step.cases)
  case (auth cur us r)
  from auth(3) show ?thesis using assms(3) auth(1)
    by (cases rule: auth_session_cases) (auto simp: procs_wf_def)
next
  case (grant pid k r cur us v)
  with assms(3) show ?thesis by (auto intro: grant_runtime_wf)
next
  case (spawn path cur mp rm caps us pid)
  with assms(2,3) spawn_caps_held(1) show ?thesis by (auto simp: procs_wf_def)
qed (auto simp: procs_wf_def fork_caps_def)

lemma cap_step_confined:
  assumes "cap_step entries ts ev ts'" and "list_all policy_entry_ok entries" and "procs_wf ts"
    and "\<forall>p \<in> set ts. confined entries p"
  shows "ev \<noteq> Auth 0 \<Longrightarrow> \<forall>p \<in> set ts'. confined entries p"
    and "ev = Auth 0 \<Longrightarrow> CAP_KIND_AUTH \<in> unauth_kinds entries"
proof -
  have "(ev \<noteq> Auth 0 \<longrightarrow> (\<forall>p \<in> set ts'. confined entries p)) \<and>
        (ev = Auth 0 \<longrightarrow> CAP_KIND_AUTH \<in> unauth_kinds entries)"
    using assms(1)
  proof (cases rule: cap_step.cases)
    case (auth cur us r)
    from auth(3) show ?thesis
    proof (cases rule: auth_session_cases)
      case 1
      with auth assms(4) show ?thesis by simp
    next
      case 2
      have "CAP_KIND_AUTH \<in> fst ` caps_held (p_caps cur)"
        using assms(3) auth(1) 2(3)
        by (intro check_imp_kind) (auto simp: procs_wf_def CAP_KIND_AUTH_def)
      with assms(4) auth 2 show ?thesis by (auto simp: confined_def)
    qed
  next
    case (grant pid k r cur us v)
    with grant_confined [OF assms(3,4)] show ?thesis by auto
  next
    case (exec cur us path)
    with assms(2,4) exec_confined show ?thesis by auto
  next
    case (spawn path cur mp rm caps us pid)
    with assms(2,4) spawn_confined show ?thesis by auto
  qed (use assms(4) in \<open>auto simp: confined_def fork_caps_def\<close>)
  then show "ev \<noteq> Auth 0 \<Longrightarrow> \<forall>p \<in> set ts'. confined entries p"
    and "ev = Auth 0 \<Longrightarrow> CAP_KIND_AUTH \<in> unauth_kinds entries" by auto
qed

lemma cap_reach_invar:
  assumes "cap_reach entries ts ever" and "list_all policy_entry_ok entries"
  shows "procs_wf ts \<and> (\<not> ever \<longrightarrow> (\<forall>p \<in> set ts. confined entries p)) \<and>
         (ever \<longrightarrow> CAP_KIND_AUTH \<in> unauth_kinds entries)"
  using assms
proof (induction rule: cap_reach.induct)
  case init
  then show ?case using init_proc_confined by (simp add: procs_wf_def)
next
  case (step ts ever ev ts')
  with cap_step_wf [OF step.hyps(2)] cap_step_confined [OF step.hyps(2)] show ?case by blast
qed

lemma cap_policy_load_ok:
  "list_all policy_entry_ok (cap_policy_load dir vfs_file) \<and>
   length (cap_policy_load dir vfs_file) \<le> CAP_POLICY_MAX_ENTRIES"
  using load_entries_ok [of "[]"]
  by (simp add: cap_policy_load_def CAP_POLICY_MAX_ENTRIES_def split: option.split)

section \<open>Properties\<close>

text \<open>A policy directory with two of the shipped policies, for the closed instances below.\<close>

definition demo_dir :: "(string \<times> u8) list option" where
  "demo_dir = Some [(''login'', 8), (''stsh'', 8)]"

definition demo_files :: "string \<Rightarrow> policy_file option" where
  "demo_files path =
     (if path = ''/etc/aegis/caps.d/login'' then Some (20, \<lambda>n. Some ''service AUTH SETUID'')
      else if path = ''/etc/aegis/caps.d/stsh''
      then Some (45, \<lambda>n. Some ''admin DISK_ADMIN POWER CAP_DELEGATE CAP_QUERY'')
      else None)"

definition demo_entries :: "cap_policy_entry list" where
  "demo_entries = cap_policy_load demo_dir demo_files"

lemma demo_login_run:
  "cap_reach demo_entries
     [init_proc\<lparr>p_caps := exec_caps demo_entries ''/bin/stsh'' 1, p_authenticated := 1\<rparr>] True"
proof -
  let ?e = demo_entries
  let ?p1 = "init_proc\<lparr>p_caps := exec_caps ?e ''/bin/login'' 0\<rparr>"
  have "cap_step ?e [init_proc] Other [?p1]"
    using cap_step.exec [of init_proc ?e "[]" "''/bin/login''"] by (simp add: init_proc_def)
  then have r1: "cap_reach ?e [?p1] False"
    using cap_reach.step [OF cap_reach.init] by force
  have "check_caps (exec_caps ?e ''/bin/login'' 0) CAP_KIND_AUTH CAP_RIGHTS_READ = 0"
    by code_simp
  then have "sys_auth_session [?p1] = ([?p1\<lparr>p_authenticated := 1\<rparr>], 0)"
    by (simp add: sys_auth_session_def init_proc_def)
  then have "cap_step ?e [?p1] (Auth 0) [?p1\<lparr>p_authenticated := 1\<rparr>]"
    by (rule cap_step.auth)
  then have r2: "cap_reach ?e [?p1\<lparr>p_authenticated := 1\<rparr>] True"
    using cap_reach.step [OF r1] by force
  have "cap_step ?e [?p1\<lparr>p_authenticated := 1\<rparr>] Other
     [init_proc\<lparr>p_caps := exec_caps ?e ''/bin/stsh'' 1, p_authenticated := 1\<rparr>]"
    using cap_step.exec [of "?p1\<lparr>p_authenticated := 1\<rparr>" ?e "[]" "''/bin/stsh''"]
    by (simp add: init_proc_def)
  then show ?thesis using cap_reach.step [OF r2] by force
qed

text \<open>C1. Confinement: in every state the system can reach, a process that passes a check for a
  capability kind which neither the init process nor any service-tier policy grants does so
  only after some process holding \<^verbatim>\<open>CAP_KIND_AUTH\<close> completed \<^verbatim>\<open>sys_auth_session\<close> in that run,
  and the policies must grant \<^verbatim>\<open>CAP_KIND_AUTH\<close> unconditionally for that to happen at all.\<close>

theorem capability_confinement:
  assumes "cap_reach (cap_policy_load dir vfs_file) ts ever"
    and "p \<in> set ts" and "k \<noteq> 0" and "check_caps (p_caps p) k r = 0"
    and "k \<notin> unauth_kinds (cap_policy_load dir vfs_file)"
  shows "ever \<and> CAP_KIND_AUTH \<in> service_kinds (cap_policy_load dir vfs_file)"
proof -
  let ?e = "cap_policy_load dir vfs_file"
  have inv: "procs_wf ts" "\<not> ever \<longrightarrow> (\<forall>p \<in> set ts. confined ?e p)"
      "ever \<longrightarrow> CAP_KIND_AUTH \<in> unauth_kinds ?e"
    using cap_reach_invar [OF assms(1)] cap_policy_load_ok by auto
  have "k \<in> fst ` caps_held (p_caps p)"
    using assms(2-4) inv(1) by (intro check_imp_kind) (auto simp: procs_wf_def)
  with assms(2,5) inv(2) have ever by (auto simp: confined_def)
  moreover have "CAP_KIND_AUTH \<notin> fst ` set init_grants"
    by (simp add: init_grants_def cap_const_defs)
  ultimately show ?thesis using inv(3) by (simp add: unauth_kinds_def)
qed

theorem capability_confinement_witness:
  "CAP_KIND_DISK_ADMIN \<notin> unauth_kinds (cap_policy_load demo_dir demo_files) \<and>
   check_caps (exec_caps (cap_policy_load demo_dir demo_files) ''/bin/stsh'' 1) CAP_KIND_DISK_ADMIN 7 = 0 \<and>
   CAP_KIND_AUTH \<in> service_kinds (cap_policy_load demo_dir demo_files)"
proof -
  let ?e = "cap_policy_load demo_dir demo_files"
  have e: "?e = [\<lparr>pe_name = ''login'', pe_caps = [new_policy_cap 4 1, new_policy_cap 6 1]\<rparr>,
      \<lparr>pe_name = ''stsh'', pe_caps =
         [new_policy_cap 11 2, new_policy_cap 16 2, new_policy_cap 13 2, new_policy_cap 14 2]\<rparr>]"
    by code_simp
  have k: "CAP_KIND_DISK_ADMIN \<notin> unauth_kinds ?e"
    by (auto simp: e unauth_kinds_def service_kinds_def init_grants_def new_policy_cap_def
        cap_const_defs CAP_TIER_SERVICE_def)
  have c: "check_caps (exec_caps ?e ''/bin/stsh'' 1) CAP_KIND_DISK_ADMIN 7 = 0"
    by code_simp
  have "CAP_KIND_AUTH \<in> service_kinds ?e"
    using capability_confinement [OF demo_login_run [unfolded demo_entries_def], of _ CAP_KIND_DISK_ADMIN 7]
      c k by (simp add: CAP_KIND_DISK_ADMIN_def)
  with k c show ?thesis by simp
qed

text \<open>C14. \<^verbatim>\<open>sys_cap_grant_runtime\<close> never changes what the system as a whole is authorised to do:
  after the call, exactly the requests that some process could make before can still be made
  by some process.\<close>

theorem runtime_grant_conserves_authority:
  assumes "\<forall>p \<in> set ts. caps_wf (p_caps p)" and "ts \<noteq> []"
  shows "authority (fst (sys_cap_grant_runtime pid kind_arg rights_arg ts)) = authority ts"
  using authority_grant_runtime [of ts pid kind_arg rights_arg] assms
  by (cases "sys_cap_grant_runtime pid kind_arg rights_arg ts") (auto simp: procs_wf_def)

definition demo_delegator :: proc where
  "demo_delegator = \<lparr>p_pid = 7, p_is_user = True,
     p_caps = grant_seq [(CAP_KIND_CAP_DELEGATE, 1), (CAP_KIND_POWER, 3)] null_caps,
     p_authenticated = 1\<rparr>"

theorem runtime_grant_conserves_authority_witness:
  "snd (sys_cap_grant_runtime 1 16 1 [demo_delegator, init_proc]) = 7 \<and>
   authority (fst (sys_cap_grant_runtime 1 16 1 [demo_delegator, init_proc])) =
     authority [demo_delegator, init_proc]"
proof -
  have wf: "\<forall>p \<in> set [demo_delegator, init_proc]. caps_wf (p_caps p)"
    by code_simp
  have "snd (sys_cap_grant_runtime 1 16 1 [demo_delegator, init_proc]) = 7" by code_simp
  with runtime_grant_conserves_authority [OF wf, of 1 16 1] show ?thesis by simp
qed

text \<open>C15. A spawn with a capability mask gives the child only requests that the parent could
  itself make and that the baseline and the policy of the new binary allow.\<close>

theorem spawn_mask_restricts:
  assumes "spawn_caps (cap_policy_load dir vfs_file) path parent mask_ptr read_mask = Inr caps"
    and "mask_ptr \<noteq> 0" and "caps_wf (p_caps parent)" and "k \<noteq> 0" and "check_caps caps k r = 0"
  shows "check_caps (p_caps parent) k r = 0 \<and>
         check_caps (exec_caps (cap_policy_load dir vfs_file) path (p_authenticated parent)) k r = 0"
proof -
  let ?ex = "exec_caps (cap_policy_load dir vfs_file) path (p_authenticated parent)"
  let ?P = "\<lambda>x. check_caps (p_caps parent) (fst x) (snd x) = 0 \<and> check_caps ?ex (fst x) (snd x) = 0"
  have wf: "caps_wf ?ex" using cap_policy_load_ok [of dir vfs_file] by simp
  from assms(1,2) have "apply_mask (p_caps parent) ?ex (take 64 (read_mask mask_ptr)) null_caps = Inr caps"
    by (cases rule: spawn_caps_cases) auto
  then have child: "caps_wf caps \<and> (\<forall>x \<in> caps_held caps. ?P x)"
    by (rule apply_mask_invar) simp_all
  then obtain q where "(k, q) \<in> caps_held caps" and q: "q AND r = r"
    using ct.check_iff assms(4,5) by blast
  with child have "check_caps (p_caps parent) k q = 0" and "check_caps ?ex k q = 0" by auto
  with q show ?thesis using ct.check_weaken [OF assms(3,4)] ct.check_weaken [OF wf assms(4)] by blast
qed

definition demo_mask :: "cap_slot list" where
  "demo_mask = \<lparr>slot_kind = 16, slot_rights = 1\<rparr> # replicate 63 \<lparr>slot_kind = 0, slot_rights = 0\<rparr>"

theorem spawn_mask_restricts_witness:
  "\<exists>caps. spawn_caps (cap_policy_load demo_dir demo_files) ''/bin/stsh'' demo_delegator 4096
      (\<lambda>_. demo_mask) = Inr caps \<and> check_caps caps CAP_KIND_POWER 1 = 0 \<and>
    check_caps (p_caps demo_delegator) CAP_KIND_POWER 1 = 0"
proof -
  let ?c = "fst (grant_caps null_caps CAP_KIND_POWER 1)"
  have s: "spawn_caps (cap_policy_load demo_dir demo_files) ''/bin/stsh'' demo_delegator 4096
      (\<lambda>_. demo_mask) = Inr ?c"
    by code_simp
  have wf: "caps_wf (p_caps demo_delegator)" by code_simp
  have c: "check_caps ?c CAP_KIND_POWER 1 = 0" by code_simp
  from spawn_mask_restricts [OF s _ wf _ c] have "check_caps (p_caps demo_delegator) CAP_KIND_POWER 1 = 0"
    by (simp add: CAP_KIND_POWER_def)
  with s c show ?thesis by blast
qed

text \<open>C20. Exec is a capability boundary: whatever the process held before, afterwards its table
  holds exactly the six baseline capabilities plus the service-tier capabilities of the
  binary's policy, plus its admin-tier capabilities when the session is authenticated; none
  is lost for lack of slots.\<close>

theorem exec_caps_exact:
  "caps_held (exec_caps (cap_policy_load dir vfs_file) path authenticated) =
     set baseline_grants \<union>
     (case cap_policy_lookup (cap_policy_load dir vfs_file) path of
        None \<Rightarrow> {}
      | Some pol \<Rightarrow> {(pc_kind c, pc_rights c) | c. c \<in> set (pe_caps pol) \<and>
          (pc_tier c = CAP_TIER_SERVICE \<or> pc_tier c = CAP_TIER_ADMIN \<and> authenticated \<noteq> 0)})"
  using exec_caps_held [OF cap_policy_load_ok [THEN conjunct1], of dir vfs_file path authenticated]
  by (auto simp: exec_grants_def policy_grants_def split: option.split)

end
