(* ===== verification/Vma.thy ===== *)
theory Vma
  imports Aegis_Prelude
begin

text \<open>
  Virtual memory areas, \<^verbatim>\<open>kernel/mm/vma.c\<close>: every process has a page that holds a sorted array
  of address ranges with a protection and a type.  The array is a function on indices and is
  edited in place as in the code (entries shifted left and right one by one).  Tables live in
  a store indexed by their kernel address, because \<^verbatim>\<open>vma_share\<close> makes two processes point to
  the same table.  The list of the first \<open>count\<close> entries is the abstraction; the locale
  \<open>entry_rewriter\<close> captures the two loops that replace entries by fragments.
\<close>

section \<open>Data\<close>

record vma_entry =
  ve_base :: u64
  ve_len :: u64
  ve_prot :: u32
  ve_type :: u8

type_synonym vma_table = "nat \<Rightarrow> vma_entry"

definition VMA_CAPACITY :: nat where "VMA_CAPACITY = 4096 div 24"

record vma_proc =
  vma_table :: u64
  vma_count :: nat
  vma_capacity :: nat
  vma_refcount :: u32

type_synonym vma_store = "u64 \<Rightarrow> vma_table"

section \<open>Helpers\<close>

fun shift_right_loop :: "vma_table \<Rightarrow> nat \<Rightarrow> nat \<Rightarrow> vma_table" where
  "shift_right_loop t i idx =
    (if i > idx then shift_right_loop (t(i := t (i - 1))) (i - 1) idx else t)"

definition vma_shift_right :: "vma_table \<Rightarrow> nat \<Rightarrow> nat \<Rightarrow> vma_table" where
  "vma_shift_right t count idx = shift_right_loop t count idx"

function shift_left_loop :: "vma_table \<Rightarrow> nat \<Rightarrow> nat \<Rightarrow> vma_table" where
  "shift_left_loop t count i =
    (if i + 1 < count then shift_left_loop (t(i := t (i + 1))) count (i + 1) else t)"
  by auto
termination by (relation "measure (\<lambda>(t, count, i). count - i)") auto

definition vma_shift_left :: "vma_table \<Rightarrow> nat \<Rightarrow> nat \<Rightarrow> vma_table" where
  "vma_shift_left t count idx = shift_left_loop t count idx"

declare shift_right_loop.simps [simp del] shift_left_loop.simps [simp del]

definition vma_can_merge :: "vma_entry \<Rightarrow> vma_entry \<Rightarrow> bool" where
  "vma_can_merge a b \<longleftrightarrow>
     ve_prot a = ve_prot b \<and> ve_type a = ve_type b \<and> ve_base a + ve_len a = ve_base b"

section \<open>Operations on a table\<close>

text \<open>The search loop of \<^verbatim>\<open>vma_insert\<close>.\<close>

function insert_idx :: "vma_table \<Rightarrow> nat \<Rightarrow> u64 \<Rightarrow> nat \<Rightarrow> nat" where
  "insert_idx t count base idx =
    (if idx < count \<and> ve_base (t idx) < base then insert_idx t count base (Suc idx) else idx)"
  by auto
termination by (relation "measure (\<lambda>(t, count, base, idx). count - idx)") auto

declare insert_idx.simps [simp del]

definition insert_table ::
    "nat \<Rightarrow> u64 \<Rightarrow> u64 \<Rightarrow> u32 \<Rightarrow> u8 \<Rightarrow> vma_table \<times> nat \<Rightarrow> vma_table \<times> nat" where
  "insert_table capacity base len prot typ = (\<lambda>(t, count).
    let idx = insert_idx t count base 0 in
    if idx > 0 \<and> ve_prot (t (idx - 1)) = prot \<and> ve_type (t (idx - 1)) = typ
        \<and> ve_base (t (idx - 1)) + ve_len (t (idx - 1)) = base then
      let t1 = t(idx - 1 := (t (idx - 1))\<lparr>ve_len := ve_len (t (idx - 1)) + len\<rparr>) in
      if idx < count \<and> vma_can_merge (t1 (idx - 1)) (t1 idx) then
        let t2 = t1(idx - 1 := (t1 (idx - 1))\<lparr>ve_len := ve_len (t1 (idx - 1)) + ve_len (t1 idx)\<rparr>)
        in (vma_shift_left t2 count idx, count - 1)
      else (t1, count)
    else if idx < count \<and> ve_prot (t idx) = prot \<and> ve_type (t idx) = typ
        \<and> base + len = ve_base (t idx) then
      (t(idx := (t idx)\<lparr>ve_base := base, ve_len := ve_len (t idx) + len\<rparr>), count)
    else if count \<ge> capacity then (t, count)
    else
      let t1 = vma_shift_right t count idx in
      (t1(idx := \<lparr>ve_base = base, ve_len = len, ve_prot = prot, ve_type = typ\<rparr>), count + 1))"

text \<open>One iteration of the loop of \<^verbatim>\<open>vma_remove\<close>: table, count and index.\<close>

definition remove_step ::
    "nat \<Rightarrow> u64 \<Rightarrow> u64 \<Rightarrow> vma_table \<times> nat \<times> nat \<Rightarrow> vma_table \<times> nat \<times> nat" where
  "remove_step capacity base stop = (\<lambda>(t, count, i).
    let e = t i; e_end = ve_base e + ve_len e in
    if e_end \<le> base \<or> ve_base e \<ge> stop then (t, count, i + 1)
    else if ve_base e \<ge> base \<and> e_end \<le> stop then (vma_shift_left t count i, count - 1, i)
    else if ve_base e \<ge> base \<and> ve_base e < stop then
      let trim = stop - ve_base e in
      (t(i := e\<lparr>ve_base := ve_base e + trim, ve_len := ve_len e - trim\<rparr>), count, i + 1)
    else if e_end > base \<and> e_end \<le> stop then
      (t(i := e\<lparr>ve_len := base - ve_base e\<rparr>), count, i + 1)
    else if ve_base e < base \<and> e_end > stop then
      if count \<ge> capacity then (t, count, i + 1)
      else
        let t1 = vma_shift_right t count (i + 1);
            t2 = t1(i + 1 := \<lparr>ve_base = stop, ve_len = e_end - stop,
                              ve_prot = ve_prot e, ve_type = ve_type e\<rparr>);
            t3 = t2(i := e\<lparr>ve_len := base - ve_base e\<rparr>)
        in (t3, count + 1, i + 2)
    else (t, count, i + 1))"

lemma remove_step_progress:
  "i < count \<Longrightarrow> remove_step capacity base stop (t, count, i) = (t', count', i') \<Longrightarrow>
     count' - i' < count - i"
  unfolding remove_step_def by (auto simp: Let_def split: if_splits)

function remove_loop ::
    "nat \<Rightarrow> u64 \<Rightarrow> u64 \<Rightarrow> vma_table \<times> nat \<times> nat \<Rightarrow> vma_table \<times> nat" where
  "remove_loop capacity base stop (t, count, i) =
    (if i < count then remove_loop capacity base stop (remove_step capacity base stop (t, count, i))
     else (t, count))"
  by pat_completeness auto
termination
  by (relation "measure (\<lambda>(c, b, s, t, count, i). count - i)")
     (auto split: prod.splits dest: remove_step_progress)

declare remove_loop.simps [simp del]

definition remove_table ::
    "nat \<Rightarrow> u64 \<Rightarrow> u64 \<Rightarrow> vma_table \<times> nat \<Rightarrow> vma_table \<times> nat" where
  "remove_table capacity base len = (\<lambda>(t, count).
     remove_loop capacity base (base + len) (t, count, 0))"

text \<open>One iteration of the loop of \<^verbatim>\<open>vma_update_prot\<close>.\<close>

definition update_step ::
    "nat \<Rightarrow> u64 \<Rightarrow> u64 \<Rightarrow> u32 \<Rightarrow> vma_table \<times> nat \<times> nat \<Rightarrow> vma_table \<times> nat \<times> nat" where
  "update_step capacity base len new_prot = (\<lambda>(t, count, i).
    let stop = base + len; e = t i; e_end = ve_base e + ve_len e in
    if e_end \<le> base \<or> ve_base e \<ge> stop then (t, count, i + 1)
    else if ve_prot e = new_prot then (t, count, i + 1)
    else if ve_base e \<ge> base \<and> e_end \<le> stop then
      (t(i := e\<lparr>ve_prot := new_prot\<rparr>), count, i + 1)
    else if ve_base e \<ge> base \<and> ve_base e < stop \<and> e_end > stop then
      if count \<ge> capacity then (t, count, i + 1)
      else
        let t1 = vma_shift_right t count (i + 1);
            t2 = t1(i + 1 := \<lparr>ve_base = stop, ve_len = e_end - stop,
                              ve_prot = ve_prot e, ve_type = ve_type e\<rparr>);
            t3 = t2(i := e\<lparr>ve_len := stop - ve_base e, ve_prot := new_prot\<rparr>)
        in (t3, count + 1, i + 2)
    else if ve_base e < base \<and> e_end > base \<and> e_end \<le> stop then
      if count \<ge> capacity then (t, count, i + 1)
      else
        let t1 = vma_shift_right t count (i + 1);
            t2 = t1(i + 1 := \<lparr>ve_base = base, ve_len = e_end - base,
                              ve_prot = new_prot, ve_type = ve_type e\<rparr>);
            t3 = t2(i := e\<lparr>ve_len := base - ve_base e\<rparr>)
        in (t3, count + 1, i + 2)
    else if ve_base e < base \<and> e_end > stop then
      if count + 2 > capacity then (t, count, i + 1)
      else
        let t1 = vma_shift_right t count (i + 1);
            t2 = vma_shift_right t1 (count + 1) (i + 2);
            t3 = t2(i + 1 := \<lparr>ve_base = base, ve_len = len,
                              ve_prot = new_prot, ve_type = ve_type e\<rparr>);
            t4 = t3(i + 2 := \<lparr>ve_base = stop, ve_len = e_end - stop,
                              ve_prot = ve_prot e, ve_type = ve_type e\<rparr>);
            t5 = t4(i := e\<lparr>ve_len := base - ve_base e\<rparr>)
        in (t5, count + 2, i + 3)
    else (t, count, i + 1))"

lemma update_step_progress:
  "i < count \<Longrightarrow> update_step capacity base len new_prot (t, count, i) = (t', count', i') \<Longrightarrow>
     count' - i' < count - i"
  unfolding update_step_def by (auto simp: Let_def split: if_splits)

function update_loop ::
    "nat \<Rightarrow> u64 \<Rightarrow> u64 \<Rightarrow> u32 \<Rightarrow> vma_table \<times> nat \<times> nat \<Rightarrow> vma_table \<times> nat" where
  "update_loop capacity base len new_prot (t, count, i) =
    (if i < count
     then update_loop capacity base len new_prot (update_step capacity base len new_prot (t, count, i))
     else (t, count))"
  by pat_completeness auto
termination
  by (relation "measure (\<lambda>(c, b, l, p, t, count, i). count - i)")
     (auto split: prod.splits dest: update_step_progress)

declare update_loop.simps [simp del]

definition update_table ::
    "nat \<Rightarrow> u64 \<Rightarrow> u64 \<Rightarrow> u32 \<Rightarrow> vma_table \<times> nat \<Rightarrow> vma_table \<times> nat" where
  "update_table capacity base len new_prot = (\<lambda>(t, count).
     update_loop capacity base len new_prot (t, count, 0))"

section \<open>Operations on a process\<close>

text \<open>
  A table operation applied through the table pointer of a process: nothing happens for a
  null pointer or an empty range, and the new count is stored back in the process.
\<close>

definition through_table ::
    "u64 \<Rightarrow> (vma_table \<times> nat \<Rightarrow> vma_table \<times> nat) \<Rightarrow> vma_store \<times> vma_proc \<Rightarrow> vma_store \<times> vma_proc" where
  "through_table len f = (\<lambda>(h, p).
    if vma_table p = 0 \<or> len = 0 then (h, p)
    else case f (h (vma_table p), vma_count p) of
      (t, count) \<Rightarrow> (h(vma_table p := t), p\<lparr>vma_count := count\<rparr>))"

definition vma_insert ::
    "u64 \<Rightarrow> u64 \<Rightarrow> u32 \<Rightarrow> u8 \<Rightarrow> vma_store \<times> vma_proc \<Rightarrow> vma_store \<times> vma_proc" where
  "vma_insert base len prot typ = (\<lambda>(h, p).
     through_table len (insert_table (vma_capacity p) base len prot typ) (h, p))"

definition vma_remove :: "u64 \<Rightarrow> u64 \<Rightarrow> vma_store \<times> vma_proc \<Rightarrow> vma_store \<times> vma_proc" where
  "vma_remove base len = (\<lambda>(h, p).
     through_table len (remove_table (vma_capacity p) base len) (h, p))"

definition vma_update_prot ::
    "u64 \<Rightarrow> u64 \<Rightarrow> u32 \<Rightarrow> vma_store \<times> vma_proc \<Rightarrow> vma_store \<times> vma_proc" where
  "vma_update_prot base len new_prot = (\<lambda>(h, p).
     through_table len (update_table (vma_capacity p) base len new_prot) (h, p))"

text \<open>The page that \<^verbatim>\<open>kva_alloc_pages(1)\<close> returned is the argument \<open>page\<close>.\<close>

definition vma_init :: "u64 \<Rightarrow> vma_proc \<Rightarrow> vma_proc" where
  "vma_init page p = p\<lparr>vma_table := page, vma_count := 0, vma_capacity := VMA_CAPACITY,
     vma_refcount := 1\<rparr>"

definition vma_clear :: "vma_proc \<Rightarrow> vma_proc" where
  "vma_clear p = p\<lparr>vma_count := 0\<rparr>"

definition vma_clone :: "u64 \<Rightarrow> vma_store \<Rightarrow> vma_proc \<Rightarrow> vma_proc \<Rightarrow> vma_store \<times> vma_proc" where
  "vma_clone page h dst src =
    (h(page := (\<lambda>i. if i < vma_count src then h (vma_table src) i else h page i)),
     dst\<lparr>vma_table := page, vma_count := vma_count src, vma_capacity := VMA_CAPACITY,
         vma_refcount := 1\<rparr>)"

definition vma_share :: "vma_proc \<Rightarrow> vma_proc \<Rightarrow> vma_proc \<times> vma_proc" where
  "vma_share child parent =
    (let parent' = parent\<lparr>vma_refcount := vma_refcount parent + 1\<rparr> in
     (child\<lparr>vma_table := vma_table parent, vma_count := vma_count parent,
            vma_capacity := vma_capacity parent, vma_refcount := vma_refcount parent'\<rparr>, parent'))"

text \<open>The second component is the page passed to \<^verbatim>\<open>kva_free_pages\<close>, if any.\<close>

definition vma_free :: "vma_proc \<Rightarrow> vma_proc \<times> u64 option" where
  "vma_free p =
    (if vma_table p = 0 then (p, None)
     else let rc = vma_refcount p - 1 in
       (p\<lparr>vma_table := 0, vma_count := 0, vma_refcount := rc\<rparr>,
        if rc = 0 then Some (vma_table p) else None))"

section \<open>The list of entries\<close>

definition entries :: "vma_table \<Rightarrow> nat \<Rightarrow> vma_entry list" where
  "entries t n = map t [0..<n]"

lemma length_entries [simp]: "length (entries t n) = n"
  by (simp add: entries_def)

lemma nth_entries [simp]: "i < n \<Longrightarrow> entries t n ! i = t i"
  by (simp add: entries_def)

lemma shift_right_apply:
  "vma_shift_right t count idx j = (if idx < j \<and> j \<le> count then t (j - 1) else t j)"
  unfolding vma_shift_right_def
proof (induction t count idx rule: shift_right_loop.induct)
  case (1 t i idx)
  show ?case
  proof (cases "idx < i")
    case True
    have "shift_right_loop t i idx j = shift_right_loop (t(i := t (i - 1))) (i - 1) idx j"
      using True by (subst shift_right_loop.simps) simp
    also have "\<dots> = (if idx < j \<and> j \<le> i then t (j - 1) else t j)"
      unfolding 1 [OF True] using True by auto
    finally show ?thesis .
  qed (auto simp: shift_right_loop.simps)
qed

lemma shift_left_apply:
  "vma_shift_left t count idx j = (if idx \<le> j \<and> j + 1 < count then t (j + 1) else t j)"
  unfolding vma_shift_left_def
proof (induction t count idx rule: shift_left_loop.induct)
  case (1 t count i)
  show ?case
  proof (cases "i + 1 < count")
    case True
    have "shift_left_loop t count i j = shift_left_loop (t(i := t (i + 1))) count (i + 1) j"
      using True by (subst shift_left_loop.simps) simp
    also have "\<dots> = (if i \<le> j \<and> j + 1 < count then t (j + 1) else t j)"
      unfolding 1 [OF True] using True by auto
    finally show ?thesis .
  qed (auto simp: shift_left_loop.simps)
qed

lemma entries_set:
  "i < n \<Longrightarrow> entries (t(i := e)) n = take i (entries t n) @ e # drop (Suc i) (entries t n)"
  by (rule nth_equalityI) (auto simp: nth_append nth_Cons')

lemma entries_delete:
  "i < n \<Longrightarrow> entries (vma_shift_left t n i) (n - Suc 0) = take i (entries t n) @ drop (Suc i) (entries t n)"
  by (rule nth_equalityI) (auto simp: shift_left_apply nth_append)

lemma entries_insert:
  "i \<le> n \<Longrightarrow> entries ((vma_shift_right t n i)(i := e)) (Suc n)
     = take i (entries t n) @ e # drop i (entries t n)"
  by (rule nth_equalityI) (auto simp: shift_right_apply nth_append nth_Cons')

lemma entries_split2:
  assumes "i < n"
  shows "entries ((vma_shift_right t n (Suc i))(Suc i := y, i := x)) (Suc n)
     = take i (entries t n) @ [x, y] @ drop (Suc i) (entries t n)"
  using assms by (intro nth_equalityI)
    (auto simp: shift_right_apply nth_append nth_Cons' intro!: arg_cong [where f = t])

lemma entries_split3:
  assumes "i < n"
  shows "entries ((vma_shift_right (vma_shift_right t n (Suc i)) (Suc n) (Suc (Suc i)))
       (Suc i := y, Suc (Suc i) := z, i := x)) (Suc (Suc n))
     = take i (entries t n) @ [x, y, z] @ drop (Suc i) (entries t n)"
  using assms by (intro nth_equalityI)
    (auto simp: shift_right_apply nth_append nth_Cons' intro!: arg_cong [where f = t])

lemma entries_same:
  "i < n \<Longrightarrow> take i (entries t n) @ t i # drop (Suc i) (entries t n) = entries t n"
  using id_take_nth_drop [of i "entries t n"] by simp

section \<open>Well-formed tables and what they map\<close>

definition ve_end :: "vma_entry \<Rightarrow> nat" where
  "ve_end e = unat (ve_base e) + unat (ve_len e)"

definition ve_ok :: "vma_entry \<Rightarrow> bool" where
  "ve_ok e \<longleftrightarrow> ve_len e \<noteq> 0 \<and> ve_end e < 2 ^ 64"

definition vma_ok :: "vma_entry list \<Rightarrow> bool" where
  "vma_ok es \<longleftrightarrow> sorted_wrt (\<lambda>x y. ve_end x \<le> unat (ve_base y)) es \<and> (\<forall>e\<in>set es. ve_ok e)"

definition ve_covers :: "u64 \<Rightarrow> vma_entry \<Rightarrow> bool" where
  "ve_covers a e \<longleftrightarrow> unat (ve_base e) \<le> unat a \<and> unat a < ve_end e"

text \<open>The protections and types recorded for an address; at most one if the table is well formed.\<close>

definition vma_view :: "vma_entry list \<Rightarrow> u64 \<Rightarrow> (u32 \<times> u8) set" where
  "vma_view es a = set (map (\<lambda>e. (ve_prot e, ve_type e)) (filter (ve_covers a) es))"

definition in_range :: "u64 \<Rightarrow> u64 \<Rightarrow> u64 \<Rightarrow> bool" where
  "in_range base len a \<longleftrightarrow> unat base \<le> unat a \<and> unat a < unat base + unat len"

lemma vma_view_simps [simp]:
  "vma_view [] a = {}"
  "vma_view (e # es) a = (if ve_covers a e then {(ve_prot e, ve_type e)} else {}) \<union> vma_view es a"
  "vma_view (es @ fs) a = vma_view es a \<union> vma_view fs a"
  by (auto simp: vma_view_def)

lemma vma_view_concat: "vma_view (concat ess) a = (\<Union>es\<in>set ess. vma_view es a)"
  by (induction ess) auto

lemma vma_ok_simps [simp]:
  "vma_ok []"
  "vma_ok (e # es) \<longleftrightarrow> ve_ok e \<and> (\<forall>f\<in>set es. ve_end e \<le> unat (ve_base f)) \<and> vma_ok es"
  by (auto simp: vma_ok_def)

lemma vma_ok_append:
  "vma_ok (xs @ ys) \<longleftrightarrow> vma_ok xs \<and> vma_ok ys \<and> (\<forall>x\<in>set xs. \<forall>y\<in>set ys. ve_end x \<le> unat (ve_base y))"
  by (auto simp: vma_ok_def sorted_wrt_append)

lemma ve_ok_end: "ve_ok e \<Longrightarrow> unat (ve_base e + ve_len e) = ve_end e"
  by (simp add: ve_ok_def ve_end_def unat_plus_no_wrap)

lemma ve_ok_pos: "ve_ok e \<Longrightarrow> unat (ve_base e) < ve_end e"
  by (simp add: ve_ok_def ve_end_def unat_gt_0)

lemma vma_view_unique: "vma_ok es \<Longrightarrow> x \<in> vma_view es a \<Longrightarrow> y \<in> vma_view es a \<Longrightarrow> x = y"
proof (induction es)
  case (Cons e es)
  have "vma_view es a = {}" if "ve_covers a e"
    using that Cons.prems(1) by (auto simp: vma_view_def ve_covers_def filter_empty_conv)
  then show ?case using Cons by (auto split: if_splits)
qed simp

section \<open>Loops that replace entries by fragments\<close>

text \<open>
  Both loops replace the current entry by its fragments when the table has room for them, keep
  it unchanged otherwise, and continue behind what they wrote.
\<close>

fun fit_frags :: "nat \<Rightarrow> (vma_entry \<Rightarrow> vma_entry list) \<Rightarrow> nat \<Rightarrow> vma_entry list \<Rightarrow> vma_entry list" where
  "fit_frags cap f n [] = []"
| "fit_frags cap f n (e # es) =
    (if n + length (f e) \<le> Suc cap then f e @ fit_frags cap f (n + length (f e) - 1) es
     else e # fit_frags cap f n es)"

lemma fit_frags_all:
  "n + sum_list (map (\<lambda>e. length (f e) - 1) es) \<le> cap \<Longrightarrow> fit_frags cap f n es = concat (map f es)"
  by (induction es arbitrary: n) auto

text \<open>The array edit that replaces entry \<open>i\<close> by up to three fragments.\<close>

definition put_frags :: "vma_table \<Rightarrow> nat \<Rightarrow> nat \<Rightarrow> vma_entry list \<Rightarrow> vma_table \<times> nat \<times> nat" where
  "put_frags t n i fs = (case fs of
      [] \<Rightarrow> (vma_shift_left t n i, n - 1, i)
    | [x] \<Rightarrow> (t(i := x), n, i + 1)
    | [x, y] \<Rightarrow> ((vma_shift_right t n (i + 1))(i + 1 := y, i := x), n + 1, i + 2)
    | x # y # z # _ \<Rightarrow> ((vma_shift_right (vma_shift_right t n (i + 1)) (n + 1) (i + 2))
          (i + 1 := y, i + 2 := z, i := x), n + 2, i + 3))"

lemma put_frags_entries:
  assumes "i < n" "length fs \<le> 3" "put_frags t n i fs = (t', n', i')"
  shows "entries t' n' = take i (entries t n) @ fs @ drop (Suc i) (entries t n)
    \<and> i' = i + length fs \<and> Suc n' = n + length fs"
proof -
  consider "fs = []" | x where "fs = [x]" | x y where "fs = [x, y]" | x y z where "fs = [x, y, z]"
    using assms(2) by (cases fs rule: remdups_adj.cases; cases "tl (tl fs)"; auto)
  then show ?thesis
  proof cases
    case 3
    then show ?thesis using assms(1,3) by (auto simp: put_frags_def entries_split2)
  next
    case 4
    then show ?thesis using assms(1,3) by (auto simp: put_frags_def entries_split3 numeral_eq_Suc)
  qed (use assms(1,3) in \<open>auto simp: put_frags_def entries_delete entries_set\<close>)
qed

lemma put_frags_frame:
  assumes "i < n" "length fs \<le> 3" "n + length fs \<le> Suc cap" "put_frags t n i fs = (t', n', i')"
  shows "\<forall>j\<ge>cap. t' j = t j"
proof -
  consider "fs = []" | x where "fs = [x]" | x y where "fs = [x, y]" | x y z where "fs = [x, y, z]"
    using assms(2) by (cases fs rule: remdups_adj.cases; cases "tl (tl fs)"; auto)
  then show ?thesis
    using assms(1,3,4) by cases (auto simp: put_frags_def shift_left_apply shift_right_apply)
qed

locale entry_rewriter =
  fixes valid :: bool
    and cap :: nat
    and step :: "vma_table \<times> nat \<times> nat \<Rightarrow> vma_table \<times> nat \<times> nat"
    and loop :: "vma_table \<times> nat \<times> nat \<Rightarrow> vma_table \<times> nat"
    and frags :: "vma_entry \<Rightarrow> vma_entry list"
    and chg :: "u64 \<Rightarrow> u32 \<times> u8 \<Rightarrow> (u32 \<times> u8) set"
  assumes loop_unfold: "loop (t, n, i) = (if i < n then loop (step (t, n, i)) else (t, n))"
    and step_put: "n \<le> cap \<Longrightarrow> i < n \<Longrightarrow> step (t, n, i) = put_frags t n i
      (if n + length (frags (t i)) \<le> Suc cap then frags (t i) else [t i])"
    and frags_length: "length (frags e) \<le> 3"
    and frags_ok: "valid \<Longrightarrow> ve_ok e \<Longrightarrow> vma_ok (frags e)"
    and frags_within: "valid \<Longrightarrow> ve_ok e \<Longrightarrow> x \<in> set (frags e) \<Longrightarrow>
      unat (ve_base e) \<le> unat (ve_base x) \<and> ve_end x \<le> ve_end e"
    and frags_view: "valid \<Longrightarrow> ve_ok e \<Longrightarrow> vma_view (frags e) a = (\<Union>x\<in>vma_view [e] a. chg a x)"
begin

lemma loop_entries:
  assumes "n \<le> cap" "i \<le> n" "\<forall>e\<in>set (drop i (entries t n)). ve_ok e" "loop (t, n, i) = (t', n')"
  shows "entries t' n' = take i (entries t n) @ fit_frags cap frags n (drop i (entries t n))
    \<and> n' \<le> cap"
  using assms
proof (induction "n - i" arbitrary: t n i rule: less_induct)
  case less
  show ?case
  proof (cases "i < n")
    case True
    let ?es = "entries t n" and ?e = "t i"
    obtain t1 n1 i1 where st: "step (t, n, i) = (t1, n1, i1)" by (cases "step (t, n, i)")
    define fs where "fs = (if n + length (frags ?e) \<le> Suc cap then frags ?e else [?e])"
    have d: "drop i ?es = ?e # drop (Suc i) ?es"
      using True by (simp add: Cons_nth_drop_Suc [symmetric])
    have S: "entries t1 n1 = take i ?es @ fs @ drop (Suc i) ?es" "i1 = i + length fs"
      "Suc n1 = n + length fs"
      using put_frags_entries [OF True, of fs t t1 n1 i1] st step_put [OF less.prems(1) True]
        frags_length [of ?e]
      by (auto simp: fs_def)
    have parts: "take i1 (entries t1 n1) = take i ?es @ fs" "drop i1 (entries t1 n1) = drop (Suc i) ?es"
      using S True by simp_all
    have le: "n1 \<le> cap" "i1 \<le> n1" "n1 - i1 < n - i"
      using S(2,3) True less.prems(1) by (auto simp: fs_def split: if_splits)
    have "loop (t1, n1, i1) = (t', n')" using less.prems(4) True st by (simp add: loop_unfold [of t])
    moreover have "\<forall>e\<in>set (drop i1 (entries t1 n1)). ve_ok e"
      using less.prems(3) parts(2) d by simp
    ultimately have "entries t' n' = take i1 (entries t1 n1) @ fit_frags cap frags n1 (drop i1 (entries t1 n1))
        \<and> n' \<le> cap"
      using less.hyps [OF le(3,1,2)] by blast
    moreover have "fit_frags cap frags n (drop i ?es) = fs @ fit_frags cap frags n1 (drop (Suc i) ?es)"
    proof -
      have "n1 = n + length fs - 1" using S(3) by simp
      then show ?thesis unfolding d by (simp add: fs_def)
    qed
    ultimately show ?thesis using parts by simp
  next
    case False
    then show ?thesis using less.prems by (simp add: loop_unfold [of t])
  qed
qed

lemma loop_frame:
  assumes "n \<le> cap" "i \<le> n" "loop (t, n, i) = (t', n')"
  shows "n' \<le> cap \<and> (\<forall>j\<ge>cap. t' j = t j)"
  using assms
proof (induction "n - i" arbitrary: t n i rule: less_induct)
  case less
  show ?case
  proof (cases "i < n")
    case True
    obtain t1 n1 i1 where st: "step (t, n, i) = (t1, n1, i1)" by (cases "step (t, n, i)")
    define fs where "fs = (if n + length (frags (t i)) \<le> Suc cap then frags (t i) else [t i])"
    have fs: "put_frags t n i fs = (t1, n1, i1)" "length fs \<le> 3" "n + length fs \<le> Suc cap"
      using st step_put [OF less.prems(1) True] frags_length [of "t i"] less.prems(1)
      by (auto simp: fs_def)
    note E = put_frags_entries [OF True fs(2,1)] put_frags_frame [OF True fs(2,3,1)]
    have le: "n1 - i1 < n - i" "n1 \<le> cap" "i1 \<le> n1" using E fs(3) True by auto
    have "loop (t1, n1, i1) = (t', n')" using less.prems(3) True st by (simp add: loop_unfold [of t])
    then show ?thesis using less.hyps [OF le] E by auto
  next
    case False
    then show ?thesis using less.prems by (simp add: loop_unfold [of t])
  qed
qed

lemma fit_frags_within:
  "valid \<Longrightarrow> \<forall>e\<in>set es. ve_ok e \<Longrightarrow> x \<in> set (fit_frags cap frags n es) \<Longrightarrow>
     \<exists>e\<in>set es. unat (ve_base e) \<le> unat (ve_base x) \<and> ve_end x \<le> ve_end e"
proof (induction es arbitrary: n)
  case (Cons e es)
  then consider "x \<in> set (frags e)" | "x = e" | n' where "x \<in> set (fit_frags cap frags n' es)"
    by (auto split: if_splits)
  then show ?case
  proof cases
    case 1
    then show ?thesis using frags_within [of e x] Cons.prems(1,2) by auto
  next
    case 3
    then show ?thesis using Cons.IH [of n'] Cons.prems(1,2) by auto
  qed auto
qed simp

lemma fit_frags_ok: "valid \<Longrightarrow> vma_ok es \<Longrightarrow> vma_ok (fit_frags cap frags n es)"
proof (induction es arbitrary: n)
  case (Cons e es)
  have e: "ve_ok e" "\<forall>x\<in>set es. ve_ok x" "\<forall>x\<in>set es. ve_end e \<le> unat (ve_base x)"
    using Cons.prems by (auto simp: vma_ok_def)
  have after: "ve_end e \<le> unat (ve_base y)" if "y \<in> set (fit_frags cap frags m es)" for y m
    using fit_frags_within [OF Cons.prems(1) e(2) that] e(3) by force
  show ?case
    using Cons e(1) after frags_ok [OF Cons.prems(1) e(1)] frags_within [OF Cons.prems(1) e(1)]
    by (auto simp: vma_ok_append) force
qed simp

lemma concat_frags_view:
  "valid \<Longrightarrow> \<forall>e\<in>set es. ve_ok e \<Longrightarrow>
     vma_view (concat (map frags es)) a = (\<Union>x\<in>vma_view es a. chg a x)"
proof (induction es)
  case (Cons e es)
  then have "vma_view (frags e) a = (\<Union>x\<in>vma_view [e] a. chg a x)" by (simp add: frags_view)
  then show ?case using Cons by simp
qed simp

end

section \<open>Fragments left by a removal\<close>

definition remove_frags :: "u64 \<Rightarrow> u64 \<Rightarrow> vma_entry \<Rightarrow> vma_entry list" where
  "remove_frags base stop e =
    (let e_end = ve_base e + ve_len e in
     if e_end \<le> base \<or> ve_base e \<ge> stop then [e]
     else if ve_base e \<ge> base \<and> e_end \<le> stop then []
     else if ve_base e \<ge> base
     then [e\<lparr>ve_base := ve_base e + (stop - ve_base e), ve_len := ve_len e - (stop - ve_base e)\<rparr>]
     else if e_end \<le> stop then [e\<lparr>ve_len := base - ve_base e\<rparr>]
     else [e\<lparr>ve_len := base - ve_base e\<rparr>,
           \<lparr>ve_base = stop, ve_len = e_end - stop, ve_prot = ve_prot e, ve_type = ve_type e\<rparr>])"

lemma remove_step_put:
  assumes "n \<le> cap" "i < n"
  shows "remove_step cap base stop (t, n, i) = put_frags t n i
    (if n + length (remove_frags base stop (t i)) \<le> Suc cap then remove_frags base stop (t i) else [t i])"
proof -
  let ?b = "ve_base (t i)" and ?x = "ve_base (t i) + ve_len (t i)"
  consider (miss) "?x \<le> base \<or> ?b \<ge> stop"
    | (contained) "\<not> (?x \<le> base \<or> ?b \<ge> stop)" "?b \<ge> base \<and> ?x \<le> stop"
    | (cut_front) "\<not> (?x \<le> base \<or> ?b \<ge> stop)" "\<not> (?b \<ge> base \<and> ?x \<le> stop)" "?b \<ge> base"
    | (cut_back) "\<not> (?x \<le> base \<or> ?b \<ge> stop)" "\<not> ?b \<ge> base" "?x \<le> stop"
    | (inside) "\<not> (?x \<le> base \<or> ?b \<ge> stop)" "\<not> ?b \<ge> base" "\<not> ?x \<le> stop"
    by argo
  then show ?thesis
  proof cases
    case miss
    then show ?thesis using assms by (simp add: remove_step_def remove_frags_def put_frags_def)
  next
    case contained
    then show ?thesis using assms by (simp add: remove_step_def remove_frags_def put_frags_def)
  next
    case cut_front
    then have "\<not> ?x \<le> base" "\<not> stop \<le> ?b" "?b < stop" "\<not> ?x \<le> stop" by auto
    then show ?thesis using assms cut_front(3)
      by (simp add: remove_step_def remove_frags_def put_frags_def Let_def
          del: not_le linorder_not_le)
  next
    case cut_back
    then have "\<not> ?x \<le> base" "\<not> stop \<le> ?b" "base < ?x" by auto
    then show ?thesis using assms cut_back(2,3)
      by (simp add: remove_step_def remove_frags_def put_frags_def Let_def
          del: not_le linorder_not_le)
  next
    case inside
    then have "\<not> ?x \<le> base" "\<not> stop \<le> ?b" "?b < base" "stop < ?x" by auto
    then show ?thesis using assms inside(2,3)
      by (simp add: remove_step_def remove_frags_def put_frags_def Let_def
          del: not_le linorder_not_le)
  qed
qed

text \<open>Cutting an entry at an address inside it.\<close>

lemma left_part:
  assumes "ve_ok e" "unat (ve_base e) < unat p" "unat p < ve_end e"
    and "ve_base y = ve_base e" "ve_len y = p - ve_base e"
  shows "ve_ok y" "ve_end y = unat p"
proof -
  have "unat (p - ve_base e) = unat p - unat (ve_base e)"
    using assms(2) by (simp add: unat_minus_le word_le_nat_alt)
  then show "ve_end y = unat p" using assms by (simp add: ve_end_def)
  then show "ve_ok y" using assms by (auto simp: ve_ok_def)
qed

lemma right_part:
  assumes "ve_ok e" "unat (ve_base e) < unat p" "unat p < ve_end e"
    and "ve_base y = p" "ve_len y = ve_base e + ve_len e - p"
  shows "ve_ok y" "ve_end y = ve_end e"
proof -
  have "unat (ve_base e + ve_len e - p) = ve_end e - unat p"
    using assms(1,3) by (simp add: unat_minus_le word_le_nat_alt ve_ok_end)
  then have l: "unat (ve_len y) = ve_end e - unat p" using assms(5) by simp
  then show "ve_end y = ve_end e" using assms(3,4) by (simp add: ve_end_def)
  moreover have "ve_len y \<noteq> 0" using l assms(3) by auto
  ultimately show "ve_ok y" using assms(1) by (simp add: ve_ok_def)
qed

definition range_ok :: "u64 \<Rightarrow> u64 \<Rightarrow> bool" where
  "range_ok base len \<longleftrightarrow> len \<noteq> 0 \<and> unat base + unat len < 2 ^ 64"

lemma range_ok_stop: "range_ok base len \<Longrightarrow> unat (base + len) = unat base + unat len"
  by (simp add: range_ok_def unat_plus_no_wrap)

lemma range_ok_less: "range_ok base len \<Longrightarrow> unat base < unat base + unat len"
  by (simp add: range_ok_def unat_gt_0)

lemma remove_frags_correct:
  assumes v: "range_ok base len" and e: "ve_ok e"
  shows "vma_ok (remove_frags base (base + len) e)"
    and "x \<in> set (remove_frags base (base + len) e) \<Longrightarrow>
      unat (ve_base e) \<le> unat (ve_base x) \<and> ve_end x \<le> ve_end e"
    and "vma_view (remove_frags base (base + len) e) a
      = (\<Union>x\<in>vma_view [e] a. if in_range base len a then {} else {x})"
proof -
  let ?B = "unat base" and ?S = "unat base + unat len" and ?b = "unat (ve_base e)"
  note facts = range_ok_stop [OF v] range_ok_less [OF v] ve_ok_end [OF e] ve_ok_pos [OF e] e
  define L where "L = e\<lparr>ve_len := base - ve_base e\<rparr>"
  define R where "R = \<lparr>ve_base = base + len, ve_len = ve_base e + ve_len e - (base + len),
    ve_prot = ve_prot e, ve_type = ve_type e\<rparr>"
  have L: "ve_base L = ve_base e" "ve_prot L = ve_prot e" "ve_type L = ve_type e"
    "?b < ?B \<Longrightarrow> ?B < ve_end e \<Longrightarrow> ve_ok L" "?b < ?B \<Longrightarrow> ?B < ve_end e \<Longrightarrow> ve_end L = ?B"
    using left_part [OF e, of base L] by (auto simp: L_def)
  have R: "unat (ve_base R) = ?S" "ve_prot R = ve_prot e" "ve_type R = ve_type e"
    "?b < ?S \<Longrightarrow> ?S < ve_end e \<Longrightarrow> ve_ok R" "?b < ?S \<Longrightarrow> ?S < ve_end e \<Longrightarrow> ve_end R = ve_end e"
    using right_part [OF e, of "base + len" R] facts by (auto simp: R_def)
  have front: "e\<lparr>ve_base := ve_base e + (base + len - ve_base e),
      ve_len := ve_len e - (base + len - ve_base e)\<rparr> = R"
    by (simp add: R_def algebra_simps)
  have F: "remove_frags base (base + len) e =
    (if ve_end e \<le> ?B \<or> ?S \<le> ?b then [e]
     else if ?B \<le> ?b \<and> ve_end e \<le> ?S then []
     else if ?B \<le> ?b then [R] else if ve_end e \<le> ?S then [L] else [L, R])"
    unfolding remove_frags_def Let_def front L_def [symmetric] R_def [symmetric]
    by (simp add: word_le_nat_alt facts)
  show "vma_ok (remove_frags base (base + len) e)"
    unfolding F using L R facts by auto
  show "?b \<le> unat (ve_base x) \<and> ve_end x \<le> ve_end e" if "x \<in> set (remove_frags base (base + len) e)"
    using that unfolding F using L R facts by (auto split: if_splits)
  show "vma_view (remove_frags base (base + len) e) a
      = (\<Union>x\<in>vma_view [e] a. if in_range base len a then {} else {x})"
    unfolding F using L R facts by (auto simp: ve_covers_def in_range_def)
qed

interpretation rm: entry_rewriter "range_ok base len" cap "remove_step cap base (base + len)"
  "remove_loop cap base (base + len)" "remove_frags base (base + len)"
  "\<lambda>a x. if in_range base len a then {} else {x}" for base len cap
proof unfold_locales
  show "length (remove_frags base (base + len) e) \<le> 3" for e
    by (simp add: remove_frags_def Let_def)
qed (rule remove_loop.simps remove_step_put remove_frags_correct; assumption)+

section \<open>Fragments of a protection change\<close>

definition update_frags :: "u64 \<Rightarrow> u64 \<Rightarrow> u32 \<Rightarrow> vma_entry \<Rightarrow> vma_entry list" where
  "update_frags base len new_prot e =
    (let stop = base + len; e_end = ve_base e + ve_len e;
         left = e\<lparr>ve_len := base - ve_base e\<rparr>;
         right = \<lparr>ve_base = stop, ve_len = e_end - stop, ve_prot = ve_prot e, ve_type = ve_type e\<rparr> in
     if e_end \<le> base \<or> ve_base e \<ge> stop then [e]
     else if ve_prot e = new_prot then [e]
     else if ve_base e \<ge> base \<and> e_end \<le> stop then [e\<lparr>ve_prot := new_prot\<rparr>]
     else if ve_base e \<ge> base then [e\<lparr>ve_len := stop - ve_base e, ve_prot := new_prot\<rparr>, right]
     else if e_end \<le> stop then
       [left, \<lparr>ve_base = base, ve_len = e_end - base, ve_prot = new_prot, ve_type = ve_type e\<rparr>]
     else [left, \<lparr>ve_base = base, ve_len = len, ve_prot = new_prot, ve_type = ve_type e\<rparr>, right])"

lemma update_step_put:
  assumes "n \<le> cap" "i < n"
  shows "update_step cap base len np (t, n, i) = put_frags t n i
    (if n + length (update_frags base len np (t i)) \<le> Suc cap then update_frags base len np (t i) else [t i])"
proof -
  let ?b = "ve_base (t i)" and ?x = "ve_base (t i) + ve_len (t i)" and ?s = "base + len"
  consider (miss) "?x \<le> base \<or> ?b \<ge> ?s \<or> ve_prot (t i) = np"
    | (contained) "\<not> (?x \<le> base \<or> ?b \<ge> ?s \<or> ve_prot (t i) = np)" "?b \<ge> base \<and> ?x \<le> ?s"
    | (front) "\<not> (?x \<le> base \<or> ?b \<ge> ?s \<or> ve_prot (t i) = np)" "?b \<ge> base" "\<not> ?x \<le> ?s"
    | (tail) "\<not> (?x \<le> base \<or> ?b \<ge> ?s \<or> ve_prot (t i) = np)" "\<not> ?b \<ge> base" "?x \<le> ?s"
    | (inside) "\<not> (?x \<le> base \<or> ?b \<ge> ?s \<or> ve_prot (t i) = np)" "\<not> ?b \<ge> base" "\<not> ?x \<le> ?s"
    by argo
  then show ?thesis
  proof cases
    case miss
    then show ?thesis using assms
      by (auto simp add: update_step_def update_frags_def put_frags_def Let_def)
  next
    case contained
    then show ?thesis using assms
      by (simp add: update_step_def update_frags_def put_frags_def Let_def del: not_le linorder_not_le)
  next
    case front
    then have "\<not> ?x \<le> base" "\<not> ?s \<le> ?b" "?b < ?s" "?s < ?x" "ve_prot (t i) \<noteq> np" by auto
    then show ?thesis using assms front(2,3)
      by (simp add: update_step_def update_frags_def put_frags_def Let_def
          del: not_le linorder_not_le)
  next
    case tail
    then have "\<not> ?x \<le> base" "\<not> ?s \<le> ?b" "?b < base" "base < ?x" "ve_prot (t i) \<noteq> np" by auto
    then show ?thesis using assms tail(2,3)
      by (simp add: update_step_def update_frags_def put_frags_def Let_def
          del: not_le linorder_not_le)
  next
    case inside
    then have "\<not> ?x \<le> base" "\<not> ?s \<le> ?b" "?b < base" "?s < ?x" "ve_prot (t i) \<noteq> np" by auto
    then show ?thesis using assms inside(2,3)
      by (simp add: update_step_def update_frags_def put_frags_def Let_def numeral_eq_Suc
          del: not_le linorder_not_le)
  qed
qed

lemma update_frags_correct:
  assumes v: "range_ok base len" and e: "ve_ok e"
  shows "vma_ok (update_frags base len np e)"
    and "x \<in> set (update_frags base len np e) \<Longrightarrow>
      unat (ve_base e) \<le> unat (ve_base x) \<and> ve_end x \<le> ve_end e"
    and "vma_view (update_frags base len np e) a
      = (\<Union>x\<in>vma_view [e] a. {if in_range base len a then (np, snd x) else x})"
proof -
  let ?B = "unat base" and ?S = "unat base + unat len" and ?b = "unat (ve_base e)"
  note facts = range_ok_stop [OF v] range_ok_less [OF v] ve_ok_end [OF e] ve_ok_pos [OF e] e
  define L where "L = e\<lparr>ve_len := base - ve_base e\<rparr>"
  define R where "R = \<lparr>ve_base = base + len, ve_len = ve_base e + ve_len e - (base + len),
    ve_prot = ve_prot e, ve_type = ve_type e\<rparr>"
  define L2 where "L2 = e\<lparr>ve_len := base + len - ve_base e, ve_prot := np\<rparr>"
  define R2 where "R2 = \<lparr>ve_base = base, ve_len = ve_base e + ve_len e - base,
    ve_prot = np, ve_type = ve_type e\<rparr>"
  define M where "M = \<lparr>ve_base = base, ve_len = len, ve_prot = np, ve_type = ve_type e\<rparr>"
  define A where "A = e\<lparr>ve_prot := np\<rparr>"
  have L: "ve_base L = ve_base e" "ve_prot L = ve_prot e" "ve_type L = ve_type e"
    "?b < ?B \<Longrightarrow> ?B < ve_end e \<Longrightarrow> ve_ok L" "?b < ?B \<Longrightarrow> ?B < ve_end e \<Longrightarrow> ve_end L = ?B"
    using left_part [OF e, of base L] by (auto simp: L_def)
  have R: "unat (ve_base R) = ?S" "ve_prot R = ve_prot e" "ve_type R = ve_type e"
    "?b < ?S \<Longrightarrow> ?S < ve_end e \<Longrightarrow> ve_ok R" "?b < ?S \<Longrightarrow> ?S < ve_end e \<Longrightarrow> ve_end R = ve_end e"
    using right_part [OF e, of "base + len" R] facts by (auto simp: R_def)
  have L2: "ve_base L2 = ve_base e" "ve_prot L2 = np" "ve_type L2 = ve_type e"
    "?b < ?S \<Longrightarrow> ?S < ve_end e \<Longrightarrow> ve_ok L2" "?b < ?S \<Longrightarrow> ?S < ve_end e \<Longrightarrow> ve_end L2 = ?S"
    using left_part [OF e, of "base + len" L2] facts by (auto simp: L2_def)
  have R2: "unat (ve_base R2) = ?B" "ve_prot R2 = np" "ve_type R2 = ve_type e"
    "?b < ?B \<Longrightarrow> ?B < ve_end e \<Longrightarrow> ve_ok R2" "?b < ?B \<Longrightarrow> ?B < ve_end e \<Longrightarrow> ve_end R2 = ve_end e"
    using right_part [OF e, of base R2] facts by (auto simp: R2_def)
  have M: "unat (ve_base M) = ?B" "ve_prot M = np" "ve_type M = ve_type e" "ve_ok M" "ve_end M = ?S"
    using v by (auto simp: M_def ve_ok_def ve_end_def range_ok_def)
  have A: "ve_base A = ve_base e" "ve_prot A = np" "ve_type A = ve_type e" "ve_ok A" "ve_end A = ve_end e"
    using e by (auto simp: A_def ve_ok_def ve_end_def)
  have F: "update_frags base len np e =
    (if ve_end e \<le> ?B \<or> ?S \<le> ?b then [e] else if ve_prot e = np then [e]
     else if ?B \<le> ?b \<and> ve_end e \<le> ?S then [A]
     else if ?B \<le> ?b then [L2, R] else if ve_end e \<le> ?S then [L, R2] else [L, M, R])"
    unfolding update_frags_def Let_def L_def [symmetric] R_def [symmetric] L2_def [symmetric]
      R2_def [symmetric] M_def [symmetric] A_def [symmetric]
    by (simp add: word_le_nat_alt facts)
  show "vma_ok (update_frags base len np e)"
    unfolding F using L R L2 R2 M A facts by auto
  show "?b \<le> unat (ve_base x) \<and> ve_end x \<le> ve_end e" if "x \<in> set (update_frags base len np e)"
    using that unfolding F using L R L2 R2 M A facts by (auto split: if_splits)
  show "vma_view (update_frags base len np e) a
      = (\<Union>x\<in>vma_view [e] a. {if in_range base len a then (np, snd x) else x})"
    unfolding F using L R L2 R2 M A facts by (auto simp: ve_covers_def in_range_def)
qed

interpretation up: entry_rewriter "range_ok base len" cap "update_step cap base len np"
  "update_loop cap base len np" "update_frags base len np"
  "\<lambda>a x. {if in_range base len a then (np, snd x) else x}" for base len cap np
proof unfold_locales
  show "length (update_frags base len np e) \<le> 3" for e
    by (simp add: update_frags_def Let_def)
qed (rule update_loop.simps update_step_put update_frags_correct; assumption)+

section \<open>Room for fragments\<close>

definition straddles :: "nat \<Rightarrow> vma_entry \<Rightarrow> bool" where
  "straddles p e \<longleftrightarrow> unat (ve_base e) < p \<and> p < ve_end e"

lemma straddles_at_most_one: "vma_ok es \<Longrightarrow> length (filter (straddles p) es) \<le> 1"
proof (induction es)
  case (Cons e es)
  have "filter (straddles p) es = []" if "straddles p e"
    using that Cons.prems by (auto simp: straddles_def filter_empty_conv)
  then show ?case using Cons by auto
qed simp

lemma remove_room:
  assumes "range_ok base len" "vma_ok es"
  shows "sum_list (map (\<lambda>e. length (remove_frags base (base + len) e) - 1) es) \<le> 1"
proof -
  have "length (remove_frags base (base + len) e) - 1 \<le> (if straddles (unat base) e then 1 else 0)"
    if "ve_ok e" for e
    using range_ok_stop [OF assms(1)] range_ok_less [OF assms(1)] ve_ok_end [OF that]
    by (auto simp: remove_frags_def Let_def straddles_def word_le_nat_alt)
  then have "sum_list (map (\<lambda>e. length (remove_frags base (base + len) e) - 1) es)
      \<le> sum_list (map (\<lambda>e. if straddles (unat base) e then 1 else 0) es)"
    using assms(2) by (intro sum_list_mono) (auto simp: vma_ok_def)
  also have "\<dots> = length (filter (straddles (unat base)) es)" by (induction es) auto
  finally show ?thesis using straddles_at_most_one [OF assms(2), of "unat base"] by simp
qed

lemma update_room:
  assumes "range_ok base len" "vma_ok es"
  shows "sum_list (map (\<lambda>e. length (update_frags base len np e) - 1) es) \<le> 2"
proof -
  let ?S = "unat base + unat len"
  have "length (update_frags base len np e) - 1
      \<le> (if straddles (unat base) e then 1 else 0) + (if straddles ?S e then 1 else 0)"
    if "ve_ok e" for e
    using range_ok_stop [OF assms(1)] range_ok_less [OF assms(1)] ve_ok_end [OF that]
    by (auto simp: update_frags_def Let_def straddles_def word_le_nat_alt)
  then have "sum_list (map (\<lambda>e. length (update_frags base len np e) - 1) es)
      \<le> sum_list (map (\<lambda>e. (if straddles (unat base) e then 1 else 0)
          + (if straddles ?S e then 1 else 0)) es)"
    using assms(2) by (intro sum_list_mono) (auto simp: vma_ok_def)
  also have "\<dots> = length (filter (straddles (unat base)) es) + length (filter (straddles ?S) es)"
    by (induction es) auto
  finally show ?thesis
    using straddles_at_most_one [OF assms(2), of "unat base"] straddles_at_most_one [OF assms(2), of ?S]
    by simp
qed

section \<open>Table operations on the list of entries\<close>

lemma remove_table_spec:
  assumes "n \<le> cap" "vma_ok (entries t n)" "range_ok base len"
    and "remove_table cap base len (t, n) = (t', n')"
  shows "vma_ok (entries t' n') \<and> n' \<le> cap
    \<and> (n < cap \<longrightarrow> (\<forall>a. vma_view (entries t' n') a
         = (if in_range base len a then {} else vma_view (entries t n) a)))"
proof -
  let ?f = "remove_frags base (base + len)"
  have ok: "\<forall>e\<in>set (entries t n). ve_ok e" using assms(2) by (simp add: vma_ok_def)
  have E: "entries t' n' = fit_frags cap ?f n (entries t n)" "n' \<le> cap"
    using rm.loop_entries [of n cap 0 t base len t' n'] assms(1,4) ok
    by (auto simp: remove_table_def)
  moreover have "vma_ok (fit_frags cap ?f n (entries t n))"
    by (rule rm.fit_frags_ok [OF assms(3,2)])
  moreover have "fit_frags cap ?f n (entries t n) = concat (map ?f (entries t n))" if "n < cap"
    using that remove_room [OF assms(3,2)] by (intro fit_frags_all) simp
  ultimately show ?thesis using rm.concat_frags_view [OF assms(3) ok] by auto
qed

lemma update_table_spec:
  assumes "n \<le> cap" "vma_ok (entries t n)" "range_ok base len"
    and "update_table cap base len np (t, n) = (t', n')"
  shows "vma_ok (entries t' n') \<and> n' \<le> cap
    \<and> (n + 2 \<le> cap \<longrightarrow> (\<forall>a. vma_view (entries t' n') a
         = (if in_range base len a then (\<lambda>x. (np, snd x)) ` vma_view (entries t n) a
            else vma_view (entries t n) a)))"
proof -
  let ?f = "update_frags base len np"
  have ok: "\<forall>e\<in>set (entries t n). ve_ok e" using assms(2) by (simp add: vma_ok_def)
  have E: "entries t' n' = fit_frags cap ?f n (entries t n)" "n' \<le> cap"
    using up.loop_entries [of n cap 0 t base len np t' n'] assms(1,4) ok
    by (auto simp: update_table_def)
  moreover have "vma_ok (fit_frags cap ?f n (entries t n))"
    by (rule up.fit_frags_ok [OF assms(3,2)])
  moreover have "fit_frags cap ?f n (entries t n) = concat (map ?f (entries t n))" if "n + 2 \<le> cap"
    using that update_room [OF assms(3,2)] by (intro fit_frags_all) (meson add_left_mono order_trans)
  ultimately show ?thesis using up.concat_frags_view [OF assms(3) ok] by auto
qed

text \<open>Insertion of a range that overlaps no entry.\<close>

definition range_fresh :: "u64 \<Rightarrow> u64 \<Rightarrow> vma_entry list \<Rightarrow> bool" where
  "range_fresh base len es \<longleftrightarrow> list_all (\<lambda>e.
     ve_end e \<le> unat base \<or> unat base + unat len \<le> unat (ve_base e)) es"

lemma insert_idx_spec:
  "i \<le> n \<Longrightarrow> i \<le> insert_idx t n base i \<and> insert_idx t n base i \<le> n
     \<and> (\<forall>j. i \<le> j \<and> j < insert_idx t n base i \<longrightarrow> ve_base (t j) < base)
     \<and> (insert_idx t n base i < n \<longrightarrow> base \<le> ve_base (t (insert_idx t n base i)))"
proof (induction t n base i rule: insert_idx.induct)
  case (1 t n base i)
  show ?case
  proof (cases "i < n \<and> ve_base (t i) < base")
    case True
    then have eq: "insert_idx t n base i = insert_idx t n base (Suc i)"
      by (subst insert_idx.simps) simp
    have IH: "Suc i \<le> insert_idx t n base (Suc i) \<and> insert_idx t n base (Suc i) \<le> n
      \<and> (\<forall>j. Suc i \<le> j \<and> j < insert_idx t n base (Suc i) \<longrightarrow> ve_base (t j) < base)
      \<and> (insert_idx t n base (Suc i) < n \<longrightarrow> base \<le> ve_base (t (insert_idx t n base (Suc i))))"
      using 1 True by simp
    then show ?thesis
      unfolding eq using True all_from_Suc [of i "insert_idx t n base (Suc i)" "\<lambda>j. ve_base (t j) < base"]
      by simp
  next
    case False
    then have "insert_idx t n base i = i" by (subst insert_idx.simps) auto
    then show ?thesis using 1(2) False by auto
  qed
qed

lemma insert_idx_split:
  assumes "vma_ok (entries t n)" "range_ok base len" "range_fresh base len (entries t n)"
    and k: "k = insert_idx t n base 0"
  shows "k \<le> n" "\<forall>x\<in>set (take k (entries t n)). ve_end x \<le> unat base"
    "\<forall>y\<in>set (drop k (entries t n)). unat base + unat len \<le> unat (ve_base y)"
proof -
  let ?es = "entries t n"
  note I = insert_idx_spec [of 0 n t base, folded k, simplified]
  show "k \<le> n" using I by blast
  have fr: "ve_end e \<le> unat base \<or> unat base + unat len \<le> unat (ve_base e)" if "e \<in> set ?es" for e
    using assms(3) that by (simp add: range_fresh_def list_all_iff)
  have ok: "ve_ok e" if "e \<in> set ?es" for e using assms(1) that by (simp add: vma_ok_def)
  show "\<forall>x\<in>set (take k ?es). ve_end x \<le> unat base"
  proof
    fix x
    assume x: "x \<in> set (take k ?es)"
    then obtain j where "j < k" "x = t j" using I by (auto simp: in_set_conv_nth)
    then have "ve_base x < base" using I by blast
    then show "ve_end x \<le> unat base"
      using fr [OF in_set_takeD [OF x]] by (auto simp: word_less_nat_alt)
  qed
  show "\<forall>y\<in>set (drop k ?es). unat base + unat len \<le> unat (ve_base y)"
  proof
    fix y
    assume y: "y \<in> set (drop k ?es)"
    then obtain j where j: "j < n - k" "y = t (k + j)" using I by (auto simp: in_set_conv_nth)
    then have kj: "k + j < n" by simp
    have first: "unat base \<le> unat (ve_base (t k))" using I j by (simp add: word_le_nat_alt)
    have "unat (ve_base (t k)) \<le> unat (ve_base y)"
    proof (cases "j = 0")
      case False
      have "ve_end (t k) \<le> unat (ve_base (t (k + j)))"
        using assms(1) sorted_wrt_nth_less [of _ ?es k "k + j"] kj False by (auto simp: vma_ok_def)
      moreover have "unat (ve_base (t k)) < ve_end (t k)"
        using ok [of "t k"] kj by (intro ve_ok_pos) (auto simp: entries_def)
      ultimately show ?thesis using j by simp
    qed (use j in simp)
    then have "unat base < ve_end y" using first ve_ok_pos [OF ok [OF in_set_dropD [OF y]]] by simp
    then show "unat base + unat len \<le> unat (ve_base y)" using fr [OF in_set_dropD [OF y]] by auto
  qed
qed

text \<open>An entry of the same kind that ends where the range starts, or starts where it ends; only the entries next to the place of
  insertion can be such.\<close>

definition joins_left :: "u64 \<Rightarrow> u32 \<Rightarrow> u8 \<Rightarrow> vma_entry list \<Rightarrow> bool" where
  "joins_left base prot typ = list_ex (\<lambda>e. ve_prot e = prot \<and> ve_type e = typ \<and> ve_base e + ve_len e = base)"

definition joins_right :: "u64 \<Rightarrow> u64 \<Rightarrow> u32 \<Rightarrow> u8 \<Rightarrow> vma_entry list \<Rightarrow> bool" where
  "joins_right base len prot typ = list_ex (\<lambda>e. ve_prot e = prot \<and> ve_type e = typ \<and> base + len = ve_base e)"

lemma insert_idx_joins:
  assumes ok: "vma_ok (entries t n)" and v: "range_ok base len" and fr: "range_fresh base len (entries t n)"
    and k: "k = insert_idx t n base 0"
  shows "joins_left base prot typ (entries t n) \<longleftrightarrow> k > 0 \<and> ve_prot (t (k - 1)) = prot \<and> ve_type (t (k - 1)) = typ
      \<and> ve_base (t (k - 1)) + ve_len (t (k - 1)) = base" (is "?L \<longleftrightarrow> ?A")
    and "joins_right base len prot typ (entries t n) \<longleftrightarrow> k < n \<and> ve_prot (t k) = prot \<and> ve_type (t k) = typ \<and> base + len = ve_base (t k)"
      (is "?R \<longleftrightarrow> ?B")
proof -
  let ?es = "entries t n"
  note I = insert_idx_split [OF ok v fr k] and S = insert_idx_spec [of 0 n t base, folded k, simplified]
  have mem: "t j \<in> set ?es" if "j < n" for j using that by (metis length_entries nth_entries nth_mem)
  have okj: "ve_ok (t j)" if "j < n" for j using ok mem [OF that] by (simp add: vma_ok_def)
  have srt: "ve_end (t i) \<le> unat (ve_base (t j))" if "i < j" "j < n" for i j
    using ok sorted_wrt_nth_less [of _ ?es i j] that by (auto simp: vma_ok_def)
  have len: "0 < unat len" using v by (simp add: range_ok_def unat_gt_0)
  show "?L \<longleftrightarrow> ?A"
  proof
    assume ?L
    then obtain j where j: "j < n" "ve_prot (t j) = prot" "ve_type (t j) = typ" "ve_base (t j) + ve_len (t j) = base"
      by (auto simp: joins_left_def list_ex_length)
    then have e: "ve_end (t j) = unat base" using ve_ok_end [OF okj] by auto
    have "j < k"
    proof (rule ccontr)
      assume "\<not> j < k"
      then have "t j \<in> set (drop k ?es)" using j(1) by (auto simp: in_set_conv_nth intro: exI [of _ "j - k"])
      then show False using I(3) e len ve_ok_pos [OF okj [OF j(1)]] by fastforce
    qed
    moreover have "\<not> j < k - 1"
    proof
      assume c: "j < k - 1"
      then have "ve_end (t j) \<le> unat (ve_base (t (k - 1)))" using srt [of j "k - 1"] I(1) by simp
      moreover have "ve_base (t (k - 1)) < base" using S c by simp
      ultimately show False using e by (simp add: word_less_nat_alt)
    qed
    ultimately show ?A using j by (metis Suc_pred' Suc_lessI diff_Suc_1 gr_zeroI less_antisym not_less_zero)
  next
    assume ?A
    then show ?L using I(1) by (auto simp: joins_left_def list_ex_length intro!: exI [of _ "k - 1"])
  qed
  show "?R \<longleftrightarrow> ?B"
  proof
    assume ?R
    then obtain j where j: "j < n" "ve_prot (t j) = prot" "ve_type (t j) = typ" "base + len = ve_base (t j)"
      by (auto simp: joins_right_def list_ex_length)
    then have e: "unat (ve_base (t j)) = unat base + unat len" using range_ok_stop [OF v] by simp
    have kj: "k \<le> j" using S e len by (metis linorder_not_le not_add_less1 word_less_nat_alt)
    moreover have "\<not> k < j"
    proof
      assume c: "k < j"
      have "t k \<in> set (drop k ?es)" using c j(1) by (auto simp: in_set_conv_nth intro: exI [of _ 0])
      then have "unat base + unat len \<le> unat (ve_base (t k))" using I(3) by blast
      moreover have "ve_end (t k) \<le> unat (ve_base (t j))" using srt [OF c j(1)] .
      ultimately show False using ve_ok_pos [OF okj, of k] c j(1) e by simp
    qed
    ultimately show ?B using j by auto
  next
    assume ?B
    then show ?R by (auto simp: joins_right_def list_ex_length)
  qed
qed

lemma insert_count:
  assumes ok: "vma_ok (entries t n)" and v: "range_ok base len" and fr: "range_fresh base len (entries t n)" and n: "n \<le> cap"
    and ins: "insert_table cap base len prot typ (t, n) = (t', n')"
  defines "L \<equiv> joins_left base prot typ (entries t n)" and "R \<equiv> joins_right base len prot typ (entries t n)"
  shows "if \<not> L \<and> \<not> R \<and> n = cap then (t', n') = (t, n) else n' + of_bool L + of_bool R = n + 1"
proof -
  note J = insert_idx_joins [OF ok v fr refl, of prot "typ", folded L_def R_def]
  let ?k = "insert_idx t n base 0"
  have "ve_base (t (?k - 1)) + ve_len (t (?k - 1)) = base \<Longrightarrow> vma_can_merge ((t (?k - 1))\<lparr>ve_len := ve_len (t (?k - 1)) + len\<rparr>) e
    \<longleftrightarrow> ve_prot (t (?k - 1)) = ve_prot e \<and> ve_type (t (?k - 1)) = ve_type e \<and> base + len = ve_base e" for e
    by (simp add: vma_can_merge_def add.assoc [symmetric])
  then show ?thesis using ins n unfolding insert_table_def Let_def J by (auto split: if_splits)
qed

lemma vma_ok_splice:
  assumes "vma_ok (xs @ ys)" "ve_ok m" "\<forall>x\<in>set xs. ve_end x \<le> unat (ve_base m)"
    and "\<forall>y\<in>set ys. ve_end m \<le> unat (ve_base y)"
  shows "vma_ok (xs @ m # ys)"
  using assms by (auto simp: vma_ok_append)

lemma fresh_view: "range_fresh base len es \<Longrightarrow> in_range base len a \<Longrightarrow> vma_view es a = {}"
  by (auto simp: range_fresh_def list_all_iff in_range_def vma_view_def ve_covers_def
      filter_empty_conv)

text \<open>Joining an entry with the range that starts where it ends, or ends where it starts.\<close>

lemma extend_up:
  assumes "ve_ok p" "range_ok base len" "ve_base p + ve_len p = base"
  defines "P \<equiv> p\<lparr>ve_len := ve_len p + len\<rparr>"
  shows "ve_ok P" "ve_end P = unat base + unat len" "unat base = ve_end p"
    "ve_covers a P \<longleftrightarrow> ve_covers a p \<or> in_range base len a"
proof -
  show b: "unat base = ve_end p" using ve_ok_end [OF assms(1)] assms(3) by simp
  have l: "unat (ve_len p + len) = unat (ve_len p) + unat len"
    using assms(2) b by (intro unat_plus_no_wrap) (simp add: range_ok_def ve_end_def)
  then show e: "ve_end P = unat base + unat len" using b by (simp add: P_def ve_end_def)
  have "ve_len P \<noteq> 0" using l assms(1) by (auto simp: P_def ve_ok_def unat_eq_zero)
  then show "ve_ok P" using e assms(2) by (simp add: ve_ok_def range_ok_def)
  show "ve_covers a P \<longleftrightarrow> ve_covers a p \<or> in_range base len a"
    using e b ve_ok_pos [OF assms(1)] by (auto simp: ve_covers_def in_range_def P_def)
qed

lemma extend_down:
  assumes "ve_ok y" "range_ok base len" "base + len = ve_base y"
  defines "Y \<equiv> y\<lparr>ve_base := base, ve_len := ve_len y + len\<rparr>"
  shows "ve_ok Y" "ve_end Y = ve_end y"
    "ve_covers a Y \<longleftrightarrow> ve_covers a y \<or> in_range base len a"
proof -
  have b: "unat (ve_base y) = unat base + unat len" using range_ok_stop [OF assms(2)] assms(3) by simp
  have l: "unat (ve_len y + len) = unat (ve_len y) + unat len"
    using assms(1) b by (intro unat_plus_no_wrap) (simp add: ve_ok_def ve_end_def)
  then show e: "ve_end Y = ve_end y" using b by (simp add: Y_def ve_end_def)
  have "ve_len Y \<noteq> 0" using l assms(1) by (auto simp: Y_def ve_ok_def unat_eq_zero)
  then show "ve_ok Y" using e assms(1) by (simp add: ve_ok_def)
  show "ve_covers a Y \<longleftrightarrow> ve_covers a y \<or> in_range base len a"
    using e b ve_ok_pos [OF assms(1)] by (auto simp: ve_covers_def in_range_def Y_def)
qed

lemma insert_table_spec:
  assumes n: "n \<le> cap" and ok: "vma_ok (entries t n)" and v: "range_ok base len"
    and fr: "range_fresh base len (entries t n)"
    and ins: "insert_table cap base len prot typ (t, n) = (t', n')"
  shows "(t', n') = (t, n) \<and> n = cap \<and> \<not> joins_left base prot typ (entries t n) \<and> \<not> joins_right base len prot typ (entries t n)
    \<or> vma_ok (entries t' n') \<and> n' \<le> cap
      \<and> (\<forall>a. vma_view (entries t' n') a
            = (if in_range base len a then {(prot, typ)} else vma_view (entries t n) a))"
proof -
  let ?es = "entries t n"
  define k where "k = insert_idx t n base 0"
  note I = insert_idx_split [OF ok v fr k_def]
  have finish: ?thesis if "entries t' n' = es" "vma_ok es" "n' \<le> cap"
      "\<And>a. vma_view es a = vma_view ?es a \<union> (if in_range base len a then {(prot, typ)} else {})" for es
  proof -
    have "vma_view es a = (if in_range base len a then {(prot, typ)} else vma_view ?es a)" for a
      using that(4) [of a] fresh_view [OF fr, of a] by simp
    then show ?thesis using that(1-3) by simp
  qed
  define A where "A \<longleftrightarrow> k > 0 \<and> ve_prot (t (k - 1)) = prot \<and> ve_type (t (k - 1)) = typ
    \<and> ve_base (t (k - 1)) + ve_len (t (k - 1)) = base"
  define B where "B \<longleftrightarrow> k < n \<and> ve_prot (t k) = prot \<and> ve_type (t k) = typ \<and> base + len = ve_base (t k)"
  have ins': "insert_table cap base len prot typ (t, n) =
    (if A then
      let t1 = t(k - 1 := (t (k - 1))\<lparr>ve_len := ve_len (t (k - 1)) + len\<rparr>) in
      if k < n \<and> vma_can_merge (t1 (k - 1)) (t1 k) then
        let t2 = t1(k - 1 := (t1 (k - 1))\<lparr>ve_len := ve_len (t1 (k - 1)) + ve_len (t1 k)\<rparr>)
        in (vma_shift_left t2 n k, n - 1)
      else (t1, n)
    else if B then (t(k := (t k)\<lparr>ve_base := base, ve_len := ve_len (t k) + len\<rparr>), n)
    else if n \<ge> cap then (t, n)
    else ((vma_shift_right t n k)(k := \<lparr>ve_base = base, ve_len = len, ve_prot = prot, ve_type = typ\<rparr>), n + 1))"
    unfolding insert_table_def A_def B_def k_def Let_def by simp
  consider (prev) A | (succ) "\<not> A" B | (full) "\<not> A" "\<not> B" "n = cap" | (plain) "\<not> A" "\<not> B" "n < cap"
    using n by linarith
  then show ?thesis
  proof cases
    case prev
    then have "A" .
    note prev = prev [unfolded A_def]
    let ?p = "t (k - 1)" and ?xs = "take (k - 1) ?es" and ?ys = "drop k ?es"
    define P where "P = ?p\<lparr>ve_len := ve_len ?p + len\<rparr>"
    have k: "k - 1 < n" "Suc (k - 1) = k" using prev I(1) by auto
    have es: "?es = ?xs @ ?p # ?ys" using entries_same [OF k(1), of t] k(2) by simp
    have okx: "vma_ok (?xs @ ?p # ?ys)" using ok es by simp
    then have okp: "ve_ok ?p" "vma_ok (?xs @ ?ys)" "\<forall>x\<in>set ?xs. ve_end x \<le> unat (ve_base ?p)"
      by (auto simp: vma_ok_append)
    have join: "ve_base ?p + ve_len ?p = base" using prev by blast
    note P = extend_up [OF okp(1) v join, folded P_def]
    have e1: "entries (t(k - 1 := P)) n = ?xs @ P # ?ys"
      using entries_set [OF k(1), of t P] k(2) by simp
    have okP: "vma_ok (?xs @ P # ?ys)"
      using okp P I(3) by (intro vma_ok_splice) (auto simp: P_def)
    have attr: "ve_prot P = prot" "ve_type P = typ" using prev by (simp_all add: P_def)
    have ev: "vma_view ?es a = vma_view ?xs a \<union> (if ve_covers a ?p then {(prot, typ)} else {})
        \<union> vma_view ?ys a" for a
      using arg_cong [OF es, of "\<lambda>l. vma_view l a"] prev by (simp add: Un_assoc)
    have vP: "vma_view (?xs @ P # ?ys) a
        = vma_view ?es a \<union> (if in_range base len a then {(prot, typ)} else {})" for a
      unfolding ev by (auto simp: P(4) attr)
    show ?thesis
    proof (cases "k < n \<and> vma_can_merge P (t k)")
      case False
      then have "t' = t(k - 1 := P)" "n' = n"
        using ins \<open>A\<close> k unfolding ins' by (auto simp: Let_def P_def)
      then show ?thesis using e1 okP n vP by (intro finish) auto
    next
      case True
      let ?y = "t k" and ?zs = "drop (Suc k) ?es"
      define Q where "Q = P\<lparr>ve_len := ve_len P + ve_len ?y\<rparr>"
      have t': "t' = vma_shift_left (t(k - 1 := Q)) n k" "n' = n - Suc 0"
        using ins \<open>A\<close> k True unfolding ins' by (auto simp: Let_def P_def Q_def)
      have ys: "?ys = ?y # ?zs" using True by (simp add: Cons_nth_drop_Suc [symmetric])
      have okz: "vma_ok ((?xs @ [P]) @ ?y # ?zs)" using okP ys by simp
      then have oky: "ve_ok ?y" "vma_ok (?xs @ ?zs)" "\<forall>y\<in>set ?zs. ve_end ?y \<le> unat (ve_base y)"
        "\<forall>x\<in>set ?xs. ve_end x \<le> unat (ve_base P)"
        by (auto simp: vma_ok_append)
      have m: "ve_base P + ve_len P = ve_base ?y" "ve_prot ?y = prot" "ve_type ?y = typ"
        using True prev by (auto simp: vma_can_merge_def P_def)
      have vy: "range_ok (ve_base ?y) (ve_len ?y)" using oky(1) by (simp add: ve_ok_def ve_end_def range_ok_def)
      note Q = extend_up [OF P(1) vy m(1), folded Q_def]
      have "entries (t(k - 1 := Q)) n = ?xs @ Q # ?ys"
        using entries_set [OF k(1), of t Q] k(2) by simp
      then have e2: "entries t' n' = ?xs @ Q # ?zs"
        using entries_delete [of k n "t(k - 1 := Q)"] True k ys by (simp add: t')
      have "vma_ok (?xs @ Q # ?zs)"
        using oky Q by (intro vma_ok_splice) (auto simp: Q_def ve_end_def)
      moreover have vQ: "vma_view (?xs @ Q # ?zs) a = vma_view (?xs @ P # ?ys) a" for a
      proof -
        have "ve_prot Q = prot" "ve_type Q = typ" using attr by (simp_all add: Q_def)
        moreover have "in_range (ve_base ?y) (ve_len ?y) a = ve_covers a ?y"
          by (simp add: in_range_def ve_covers_def ve_end_def)
        ultimately show ?thesis unfolding ys using m attr by (auto simp: Q(4))
      qed
      moreover have "vma_view (?xs @ Q # ?zs) a
          = vma_view ?es a \<union> (if in_range base len a then {(prot, typ)} else {})" for a
        by (simp only: vQ vP)
      ultimately show ?thesis using e2 n t'(2) by (intro finish) auto
    qed
  next
    case succ
    then have kn: "k < n" "ve_prot (t k) = prot" "ve_type (t k) = typ" "base + len = ve_base (t k)"
      by (simp_all add: B_def)
    let ?y = "t k" and ?xs = "take k ?es" and ?zs = "drop (Suc k) ?es"
    define Y where "Y = ?y\<lparr>ve_base := base, ve_len := ve_len ?y + len\<rparr>"
    have "t' = t(k := Y)" "n' = n"
      using ins succ unfolding ins' by (auto simp: Y_def)
    then have e1: "entries t' n' = ?xs @ Y # ?zs" using entries_set [OF kn(1)] by simp
    have es: "?es = ?xs @ ?y # ?zs" using entries_same [OF kn(1), of t] by simp
    have "vma_ok (?xs @ ?y # ?zs)" using ok es by simp
    then have oky: "ve_ok ?y" "vma_ok (?xs @ ?zs)" "\<forall>y\<in>set ?zs. ve_end ?y \<le> unat (ve_base y)"
      by (auto simp: vma_ok_append)
    note Y = extend_down [OF oky(1) v kn(4), folded Y_def]
    have "vma_ok (?xs @ Y # ?zs)" using oky Y I(2) by (intro vma_ok_splice) (auto simp: Y_def)
    moreover have "vma_view (?xs @ Y # ?zs) a
        = vma_view ?es a \<union> (if in_range base len a then {(prot, typ)} else {})" for a
    proof -
      have "ve_prot Y = prot" "ve_type Y = typ" using kn by (simp_all add: Y_def)
      moreover have "vma_view ?es a = vma_view ?xs a \<union> (if ve_covers a ?y then {(prot, typ)} else {})
          \<union> vma_view ?zs a"
        using arg_cong [OF es, of "\<lambda>l. vma_view l a"] kn by (simp add: Un_assoc)
      ultimately show ?thesis by (auto simp: Y(3))
    qed
    ultimately show ?thesis using e1 n \<open>n' = n\<close> by (intro finish) auto
  next
    case full
    have "\<not> joins_left base prot typ ?es" "\<not> joins_right base len prot typ ?es"
      using full unfolding insert_idx_joins [OF ok v fr k_def] A_def B_def by blast+
    then show ?thesis using ins full unfolding ins' by simp
  next
    case plain
    define m where "m = \<lparr>ve_base = base, ve_len = len, ve_prot = prot, ve_type = typ\<rparr>"
    let ?xs = "take k ?es" and ?ys = "drop k ?es"
    have e: "entries t' n' = ?xs @ m # ?ys"
      and n': "n' = Suc n"
      using entries_insert [OF I(1), of t m] ins plain unfolding ins' by (auto simp: m_def)
    have m: "ve_ok m" "ve_end m = unat base + unat len" using v by (auto simp: m_def ve_ok_def ve_end_def range_ok_def)
    have "vma_ok (?xs @ m # ?ys)" using ok m I by (intro vma_ok_splice) (auto simp: m_def)
    moreover have "vma_view (?xs @ m # ?ys) a
        = vma_view ?es a \<union> (if in_range base len a then {(prot, typ)} else {})" for a
      using m append_take_drop_id [of k ?es] vma_view_simps(3) [of ?xs ?ys a]
      by (auto simp: m_def ve_covers_def in_range_def)
    ultimately show ?thesis using e n' plain by (intro finish) auto
  qed
qed

lemma insert_table_frame:
  assumes "n \<le> cap" "insert_table cap base len prot typ (t, n) = (t', n')"
  shows "n' \<le> cap \<and> (\<forall>j\<ge>cap. t' j = t j)"
proof -
  have "insert_idx t n base 0 \<le> n" using insert_idx_spec [of 0 n t base] by simp
  then show ?thesis using assms
    by (auto simp: insert_table_def Let_def shift_left_apply shift_right_apply split: if_splits)
qed

section \<open>Processes\<close>

definition proc_entries :: "vma_store \<times> vma_proc \<Rightarrow> vma_entry list" where
  "proc_entries = (\<lambda>(h, p). entries (h (vma_table p)) (vma_count p))"

definition vma_wf :: "vma_store \<times> vma_proc \<Rightarrow> bool" where
  "vma_wf = (\<lambda>(h, p). vma_table p \<noteq> 0 \<and> vma_count p \<le> vma_capacity p
     \<and> vma_capacity p \<le> VMA_CAPACITY \<and> vma_ok (proc_entries (h, p)))"

lemma through_table_apply:
  assumes "vma_table p \<noteq> 0" "len \<noteq> 0" "f (h (vma_table p), vma_count p) = (t', n')"
  shows "through_table len f (h, p) = (h(vma_table p := t'), p\<lparr>vma_count := n'\<rparr>)"
    "proc_entries (through_table len f (h, p)) = entries t' n'"
    "vma_wf (through_table len f (h, p)) \<longleftrightarrow> n' \<le> vma_capacity p \<and> vma_capacity p \<le> VMA_CAPACITY
       \<and> vma_ok (entries t' n')"
  using assms by (auto simp: through_table_def proc_entries_def vma_wf_def)

lemma through_table_frame:
  assumes "vma_count p \<le> vma_capacity p"
    and "\<And>t t' n'. f (t, vma_count p) = (t', n') \<Longrightarrow> n' \<le> vma_capacity p \<and> (\<forall>j\<ge>vma_capacity p. t' j = t j)"
    and "through_table len f (h, p) = (h', p')"
  shows "vma_count p' \<le> vma_capacity p' \<and> vma_capacity p' = vma_capacity p
    \<and> (\<forall>q j. q \<noteq> vma_table p \<or> vma_capacity p \<le> j \<longrightarrow> h' q j = h q j)"
proof (cases "vma_table p = 0 \<or> len = 0")
  case True
  then show ?thesis using assms(1,3) by (auto simp: through_table_def)
next
  case False
  obtain t' n' where f: "f (h (vma_table p), vma_count p) = (t', n')" by (cases "f (h (vma_table p), vma_count p)")
  then have "h' = h(vma_table p := t')" "p' = p\<lparr>vma_count := n'\<rparr>"
    using False assms(3) by (auto simp: through_table_def)
  then show ?thesis using assms(2) [OF f] by auto
qed

section \<open>Properties\<close>

text \<open>C26. \<^verbatim>\<open>vma_insert\<close> of a range that does not wrap around and overlaps no existing entry, into a well-formed table: the
  table stays sorted, disjoint, free of empty entries and within its capacity, the new range has the given protection and
  type, and what is recorded for every other address is unchanged.  The range is merged with every neighbour of the same
  protection and type: the number of entries grows by one, less one for an entry of that kind that ends where the
  range starts and less one for an entry of that kind that starts where the range ends.  The only exception is a full
  table in which there is no such neighbour: then the call changes nothing, and its caller is not told.\<close>

theorem vma_insert_exact:
  assumes "vma_wf (h, p)" "range_ok base len" "range_fresh base len (proc_entries (h, p))"
  shows "let L = joins_left base prot typ (proc_entries (h, p)); R = joins_right base len prot typ (proc_entries (h, p));
        q = vma_insert base len prot typ (h, p) in
    if \<not> L \<and> \<not> R \<and> vma_count p = vma_capacity p then q = (h, p)
    else vma_wf q \<and> vma_count (snd q) + of_bool L + of_bool R = vma_count p + 1
      \<and> (\<forall>a. vma_view (proc_entries q) a = (if in_range base len a then {(prot, typ)} else vma_view (proc_entries (h, p)) a))"
proof -
  let ?f = "insert_table (vma_capacity p) base len prot typ"
  obtain t' n' where f: "?f (h (vma_table p), vma_count p) = (t', n')" by (cases "?f (h (vma_table p), vma_count p)")
  have wf: "vma_table p \<noteq> 0" "len \<noteq> 0" "vma_count p \<le> vma_capacity p" "vma_capacity p \<le> VMA_CAPACITY"
    "vma_ok (entries (h (vma_table p)) (vma_count p))"
    "range_fresh base len (entries (h (vma_table p)) (vma_count p))"
    using assms by (auto simp: vma_wf_def proc_entries_def range_ok_def)
  note T = through_table_apply [where f = ?f and h = h and p = p, OF wf(1,2) f]
  show ?thesis
    using insert_table_spec [OF wf(3,5) assms(2) wf(6) f] insert_count [OF wf(5) assms(2) wf(6,3) f] wf T
    by (auto simp: vma_insert_def proc_entries_def Let_def)
qed

definition demo_entry :: "u64 \<Rightarrow> u64 \<Rightarrow> vma_entry" where
  "demo_entry b l = \<lparr>ve_base = b, ve_len = l, ve_prot = 3, ve_type = 5\<rparr>"

definition demo_vma :: "vma_store \<times> vma_proc" where
  "demo_vma = ((\<lambda>a i. if i = 0 then demo_entry 0x1000 0x2000 else demo_entry 0x5000 0x3000),
     \<lparr>vma_table = 0x9000, vma_count = 2, vma_capacity = 170, vma_refcount = 1\<rparr>)"

lemmas demo_vma_simps = demo_vma_def demo_entry_def vma_wf_def proc_entries_def entries_def
  ve_ok_def ve_end_def vma_view_def ve_covers_def VMA_CAPACITY_def upt_conv_Cons

lemma demo_vma_wf: "vma_wf (fst demo_vma, snd demo_vma)"
  by (simp add: demo_vma_simps)

theorem vma_insert_exact_witness:
  "vma_view (proc_entries (vma_insert 0x3000 0x2000 3 5 demo_vma)) 0x4FFF = {(3, 5)}
   \<and> vma_count (snd (vma_insert 0x3000 0x2000 3 5 demo_vma)) = 1"
proof -
  have v: "range_ok 0x3000 0x2000" and f: "range_fresh 0x3000 0x2000 (proc_entries (fst demo_vma, snd demo_vma))"
    and c: "vma_count (snd demo_vma) \<noteq> vma_capacity (snd demo_vma)"
    and r: "in_range 0x3000 0x2000 0x4FFF"
    by (simp_all add: range_ok_def range_fresh_def in_range_def demo_vma_simps)
  have "joins_left 0x3000 3 5 (proc_entries (fst demo_vma, snd demo_vma))" "joins_right 0x3000 0x2000 3 5 (proc_entries (fst demo_vma, snd demo_vma))"
    by (simp_all add: joins_left_def joins_right_def demo_vma_simps)
  moreover have "vma_count (snd demo_vma) = 2" by (simp add: demo_vma_def)
  ultimately show ?thesis
    using vma_insert_exact [OF demo_vma_wf v f, of 3 5] c r by (auto simp: Let_def)
qed

text \<open>C18. \<^verbatim>\<open>vma_remove\<close> forgets exactly the given range: for a table with at least one unused
  slot, nothing is recorded any more for the addresses of the range and everything else
  stays as it was, whether entries are dropped, trimmed at either end or split in two; the
  table stays well formed even when it is full.\<close>

theorem vma_remove_exact:
  assumes "vma_wf (h, p)" "range_ok base len"
  shows "vma_wf (vma_remove base len (h, p))
    \<and> (vma_count p < vma_capacity p \<longrightarrow>
        (\<forall>a. vma_view (proc_entries (vma_remove base len (h, p))) a
           = (if in_range base len a then {} else vma_view (proc_entries (h, p)) a)))"
proof -
  let ?f = "remove_table (vma_capacity p) base len"
  obtain t' n' where f: "?f (h (vma_table p), vma_count p) = (t', n')" by (cases "?f (h (vma_table p), vma_count p)")
  have wf: "vma_table p \<noteq> 0" "len \<noteq> 0" "vma_count p \<le> vma_capacity p" "vma_capacity p \<le> VMA_CAPACITY"
    "vma_ok (entries (h (vma_table p)) (vma_count p))"
    using assms by (auto simp: vma_wf_def proc_entries_def range_ok_def)
  note T = through_table_apply [where f = ?f and h = h and p = p, OF wf(1,2) f]
  show ?thesis
    using remove_table_spec [OF wf(3,5) assms(2) f] wf T
    by (auto simp: vma_remove_def proc_entries_def)
qed

theorem vma_remove_exact_witness:
  "vma_view (proc_entries (vma_remove 0x6000 0x1000 demo_vma)) 0x6000 = {}
   \<and> vma_view (proc_entries (vma_remove 0x6000 0x1000 demo_vma)) 0x7000 = {(3, 5)}
   \<and> vma_count (snd (vma_remove 0x6000 0x1000 demo_vma)) = 3"
proof -
  have v: "range_ok 0x6000 0x1000" and c: "vma_count (snd demo_vma) < vma_capacity (snd demo_vma)"
    and r: "in_range 0x6000 0x1000 0x6000" "\<not> in_range 0x6000 0x1000 0x7000"
    and old: "vma_view (proc_entries (fst demo_vma, snd demo_vma)) 0x7000 = {(3, 5)}"
    by (simp_all add: range_ok_def in_range_def demo_vma_simps)
  have one: "vma_count (snd (vma_remove 0x6000 0x1000 demo_vma)) = 3" by code_simp
  show ?thesis
    using vma_remove_exact [OF demo_vma_wf v] c r one old by auto
qed

text \<open>C25. \<^verbatim>\<open>vma_update_prot\<close> changes the protection of exactly the given range: for a table with at
  least two unused slots, every recorded address of the range keeps its type and gets the
  new protection, and everything else stays as it was, through splits at one or both
  bounds; the table stays well formed even when it is full.\<close>

theorem vma_update_prot_exact:
  assumes "vma_wf (h, p)" "range_ok base len"
  shows "vma_wf (vma_update_prot base len np (h, p))
    \<and> (vma_count p + 2 \<le> vma_capacity p \<longrightarrow>
        (\<forall>a. vma_view (proc_entries (vma_update_prot base len np (h, p))) a
           = (if in_range base len a then (\<lambda>x. (np, snd x)) ` vma_view (proc_entries (h, p)) a
              else vma_view (proc_entries (h, p)) a)))"
proof -
  let ?f = "update_table (vma_capacity p) base len np"
  obtain t' n' where f: "?f (h (vma_table p), vma_count p) = (t', n')" by (cases "?f (h (vma_table p), vma_count p)")
  have wf: "vma_table p \<noteq> 0" "len \<noteq> 0" "vma_count p \<le> vma_capacity p" "vma_capacity p \<le> VMA_CAPACITY"
    "vma_ok (entries (h (vma_table p)) (vma_count p))"
    using assms by (auto simp: vma_wf_def proc_entries_def range_ok_def)
  note T = through_table_apply [where f = ?f and h = h and p = p, OF wf(1,2) f]
  show ?thesis
    using update_table_spec [OF wf(3,5) assms(2) f] wf T
    by (auto simp: vma_update_prot_def proc_entries_def)
qed

theorem vma_update_prot_exact_witness:
  "vma_view (proc_entries (vma_update_prot 0x2000 0x4000 1 demo_vma)) 0x5000 = {(1, 5)}
   \<and> vma_view (proc_entries (vma_update_prot 0x2000 0x4000 1 demo_vma)) 0x6000 = {(3, 5)}
   \<and> vma_count (snd (vma_update_prot 0x2000 0x4000 1 demo_vma)) = 4"
proof -
  have v: "range_ok 0x2000 0x4000" and c: "vma_count (snd demo_vma) + 2 \<le> vma_capacity (snd demo_vma)"
    and r: "in_range 0x2000 0x4000 0x5000" "\<not> in_range 0x2000 0x4000 0x6000"
    and old: "vma_view (proc_entries (fst demo_vma, snd demo_vma)) 0x5000 = {(3, 5)}"
      "vma_view (proc_entries (fst demo_vma, snd demo_vma)) 0x6000 = {(3, 5)}"
    by (simp_all add: range_ok_def in_range_def demo_vma_simps)
  have one: "vma_count (snd (vma_update_prot 0x2000 0x4000 1 demo_vma)) = 4" by code_simp
  show ?thesis
    using vma_update_prot_exact [OF demo_vma_wf v, of 1] c r one old by auto
qed

text \<open>C27. The edits in place are memory safe: for every table content, even a corrupt one, and
  every range, even one that wraps around, an insertion, removal or protection change keeps the
  count within the capacity, never writes a table slot at or beyond the capacity, and never
  touches the table of another process.\<close>

theorem vma_edits_in_bounds:
  assumes "vma_count p \<le> vma_capacity p"
    and "(h', p') \<in> {vma_insert base len prot typ (h, p), vma_remove base len (h, p),
      vma_update_prot base len prot (h, p)}"
  shows "vma_count p' \<le> vma_capacity p' \<and> vma_capacity p' = vma_capacity p
    \<and> (\<forall>q j. q \<noteq> vma_table p \<or> vma_capacity p \<le> j \<longrightarrow> h' q j = h q j)"
proof -
  consider "through_table len (insert_table (vma_capacity p) base len prot typ) (h, p) = (h', p')"
    | "through_table len (remove_table (vma_capacity p) base len) (h, p) = (h', p')"
    | "through_table len (update_table (vma_capacity p) base len prot) (h, p) = (h', p')"
    using assms(2) by (auto simp: vma_insert_def vma_remove_def vma_update_prot_def)
  then show ?thesis
  proof cases
    case 1
    then show ?thesis
      by (rule through_table_frame [OF assms(1), rotated]) (rule insert_table_frame [OF assms(1)])
  next
    case 2
    then show ?thesis
      using rm.loop_frame [OF assms(1), of 0]
      by (intro through_table_frame [OF assms(1) _ 2]) (auto simp: remove_table_def)
  next
    case 3
    then show ?thesis
      using up.loop_frame [OF assms(1), of 0]
      by (intro through_table_frame [OF assms(1) _ 3]) (auto simp: update_table_def)
  qed
qed

theorem vma_edits_in_bounds_witness:
  "vma_count (snd (vma_remove 0x6000 0x1000 demo_vma)) \<le> 170
   \<and> fst (vma_remove 0x6000 0x1000 demo_vma) 0x9000 170 = fst demo_vma 0x9000 170"
proof -
  let ?p = "snd demo_vma"
  have c: "vma_count ?p \<le> vma_capacity ?p" and cap: "vma_capacity ?p = 170"
    by (simp_all add: demo_vma_def)
  show ?thesis
    using vma_edits_in_bounds [OF c, where h = "fst demo_vma" and base = "0x6000" and len = "0x1000"
        and h' = "fst (vma_remove 0x6000 0x1000 demo_vma)"
        and p' = "snd (vma_remove 0x6000 0x1000 demo_vma)"] cap
    by auto
qed

text \<open>C28. Sharing a table between threads never releases it: \<^verbatim>\<open>vma_share\<close> increments the reference
  count of the parent and copies the result into the child, but the two counts are then
  decremented separately, so when parent and child have both called \<^verbatim>\<open>vma_free\<close>, in either
  order, the table page of a table with a single owner before the call has been given back by neither.\<close>

theorem vma_share_leaks_table:
  assumes "vma_table parent \<noteq> 0" "vma_refcount parent = 1"
    and "vma_share child parent = (child', parent')"
  shows "vma_table child' = vma_table parent' \<and> snd (vma_free child') = None
    \<and> snd (vma_free parent') = None"
  using assms by (auto simp: vma_share_def vma_free_def Let_def)

theorem vma_share_leaks_table_witness:
  "\<exists>child' parent'. vma_share (snd demo_vma) (snd demo_vma) = (child', parent')
     \<and> snd (vma_free child') = None \<and> snd (vma_free parent') = None"
proof -
  have h: "vma_table (snd demo_vma) \<noteq> 0" "vma_refcount (snd demo_vma) = 1" by (simp_all add: demo_vma_def)
  obtain c p where s: "vma_share (snd demo_vma) (snd demo_vma) = (c, p)"
    by (cases "vma_share (snd demo_vma) (snd demo_vma)")
  show ?thesis using vma_share_leaks_table [OF h s] s by blast
qed

text \<open>
  The count is copied too: an entry that the child inserts in front of the existing ones pushes
  the last entry of the parent behind the count that the parent still has.
\<close>

lemma vma_share_stale_view:
  "let (h, p) = demo_vma; (child, parent) = vma_share p p;
       (h', child') = vma_insert 0x100 0x100 1 5 (h, child)
   in map ve_base (proc_entries (h, parent)) = [0x1000, 0x5000]
     \<and> map ve_base (proc_entries (h', child')) = [0x100, 0x1000, 0x5000]
     \<and> map ve_base (proc_entries (h', parent)) = [0x100, 0x1000]"
  by code_simp

end
