(* ===== verification/Va_Freelist.thy ===== *)
theory Va_Freelist
  imports Aegis_Prelude
begin

text \<open>
  Free lists of address ranges.  The kernel has two, one for kernel virtual addresses
  (\<^verbatim>\<open>kernel/mm/kva.c\<close>) and one per process for \<^verbatim>\<open>mmap\<close> (\<^verbatim>\<open>kernel/syscall/sys_memory.c\<close>).  Both are
  unordered arrays of ranges with a best-fit search, removal by moving the last entry, and
  coalescing.  This theory has the parts that are common to the two and the contract, a locale,
  that both fulfil: the number of entries that contain an address changes by exactly
  the range that is given or taken.
\<close>

section \<open>Arrays of ranges\<close>

text \<open>\<^verbatim>\<open>a[i] = a[--n]\<close>\<close>

definition swap_remove :: "nat \<Rightarrow> 'a list \<Rightarrow> 'a list" where
  "swap_remove i xs = butlast (xs[i := last xs])"

text \<open>The best-fit loop; it stops early at an exact fit.\<close>

fun best_fit :: "u64 \<Rightarrow> u64 list \<Rightarrow> nat \<Rightarrow> nat option \<Rightarrow> u64 \<Rightarrow> nat option" where
  "best_fit n [] i best best_size = best"
| "best_fit n (l # ls) i best best_size =
    (if n \<le> l \<and> l < best_size
     then if l = n then Some i else best_fit n ls (Suc i) (Some i) l
     else best_fit n ls (Suc i) best best_size)"

lemma best_fit_Some:
  "best_fit n ls i best bs = Some k \<Longrightarrow>
    best = Some k \<or> i \<le> k \<and> k - i < length ls \<and> n \<le> ls ! (k - i)"
proof (induction n ls i best bs rule: best_fit.induct)
  case (2 n l ls i best bs)
  have later: ?case if "Suc i \<le> k \<and> k - Suc i < length ls \<and> n \<le> ls ! (k - Suc i)"
  proof -
    have "k - i = Suc (k - Suc i)" using that by linarith
    then show ?thesis using that by simp
  qed
  consider "n \<le> l" "l < bs" "l = n" | "n \<le> l" "l < bs" "l \<noteq> n" | "\<not> (n \<le> l \<and> l < bs)" by blast
  then show ?case
  proof cases
    case 2
    then have "Some i = Some k \<or> Suc i \<le> k \<and> k - Suc i < length ls \<and> n \<le> ls ! (k - Suc i)"
      using "2.IH"(1) "2.prems" by simp
    then show ?thesis using later \<open>n \<le> l\<close> by auto
  next
    case 3
    then have "best_fit n ls (Suc i) best bs = Some k" using "2.prems" by auto
    then show ?thesis using later "2.IH"(2) [OF 3] by blast
  qed (use "2.prems" in simp)
qed simp

lemma best_fit_None:
  "best_fit n ls i best bs = None \<Longrightarrow> best = None \<and> (\<forall>l\<in>set ls. l < n \<or> bs \<le> l)"
  by (induction n ls i best bs rule: best_fit.induct) (auto split: if_splits simp: not_le)

section \<open>Counting the entries at an address\<close>

definition in_cells :: "nat \<Rightarrow> nat \<Rightarrow> nat \<Rightarrow> nat" where
  "in_cells b l x = (if b \<le> x \<and> x < b + l then 1 else 0)"

lemma in_cells_split: "in_cells b (l + m) x = in_cells b l x + in_cells (b + l) m x"
  by (auto simp: in_cells_def)

definition hits :: "('a \<Rightarrow> nat \<times> nat) \<Rightarrow> 'a list \<Rightarrow> nat \<Rightarrow> nat" where
  "hits rg xs x = (\<Sum>e\<leftarrow>xs. in_cells (fst (rg e)) (snd (rg e)) x)"

lemma hits_simps [simp]:
  "hits rg [] x = 0" "hits rg (e # xs) x = in_cells (fst (rg e)) (snd (rg e)) x + hits rg xs x"
  "hits rg (xs @ ys) x = hits rg xs x + hits rg ys x"
  by (simp_all add: hits_def)

lemma hits_update:
  "i < length xs \<Longrightarrow> hits rg (xs[i := e]) x + in_cells (fst (rg (xs ! i))) (snd (rg (xs ! i))) x
    = hits rg xs x + in_cells (fst (rg e)) (snd (rg e)) x"
  by (induction xs arbitrary: i) (auto split: nat.split)

lemma hits_swap_remove:
  assumes "i < length xs"
  shows "hits rg (swap_remove i xs) x + in_cells (fst (rg (xs ! i))) (snd (rg (xs ! i))) x = hits rg xs x"
proof -
  obtain ys y where xs: "xs = ys @ [y]" using assms by (metis length_0_conv not_less0 rev_exhaust)
  show ?thesis
  proof (cases "i = length ys")
    case True
    then show ?thesis by (simp add: swap_remove_def xs list_update_append)
  next
    case False
    then have i: "i < length ys" using assms xs by simp
    then have "swap_remove i xs = ys[i := y]" by (simp add: swap_remove_def xs list_update_append)
    then show ?thesis using hits_update [OF i, of rg y x] i by (simp add: xs nth_append)
  qed
qed

lemma set_swap_remove: "i < length xs \<Longrightarrow> set (swap_remove i xs) \<subseteq> set xs"
proof -
  assume "i < length xs"
  then have "last xs \<in> set xs" by (intro last_in_set) auto
  then have "set (xs[i := last xs]) \<subseteq> set xs" using set_update_subset_insert [of xs i "last xs"] by auto
  then show ?thesis unfolding swap_remove_def by (meson in_set_butlastD subset_iff)
qed

lemma length_swap_remove [simp]: "length (swap_remove i xs) = length xs - 1"
  by (simp add: swap_remove_def)

lemma find_upt_Some:
  "find P [0..<n] = Some i \<Longrightarrow> i < n \<and> P i \<and> (\<forall>j<i. \<not> P j)"
  by (auto simp: find_Some_iff)

lemma find_upt_None: "find P [0..<n] = None \<longleftrightarrow> (\<forall>j<n. \<not> P j)"
  by (auto simp: find_None_iff)

section \<open>The contract\<close>

text \<open>
  \<open>take n\<close> returns the base of a range of \<open>n\<close> units or 0, \<open>give a n\<close> returns a range; a unit is
  \<open>unit_size\<close> addresses.  \<open>free s x\<close> is how often the address \<open>x\<close> is recorded as free.
\<close>

locale va_freelist =
  fixes take_va :: "u64 \<Rightarrow> 's \<Rightarrow> 's \<times> u64"
    and give_va :: "u64 \<Rightarrow> u64 \<Rightarrow> 's \<Rightarrow> 's"
    and unit_size :: nat
    and free_cnt :: "'s \<Rightarrow> nat \<Rightarrow> nat"
    and ok :: "'s \<Rightarrow> bool"
  assumes unit_pos: "0 < unit_size"
    and take_hit: "ok s \<Longrightarrow> 0 < n \<Longrightarrow> take_va n s = (s', a) \<Longrightarrow> a \<noteq> 0 \<Longrightarrow>
      ok s' \<and> unit_size dvd unat a \<and> unat a + unit_size * unat n < 2 ^ 64
      \<and> free_cnt s' x + in_cells (unat a) (unit_size * unat n) x = free_cnt s x"
    and take_miss: "ok s \<Longrightarrow> 0 < n \<Longrightarrow> take_va n s = (s', 0) \<Longrightarrow> s' = s"
    and give_range: "ok s \<Longrightarrow> 0 < n \<Longrightarrow> a \<noteq> 0 \<Longrightarrow> unit_size dvd unat a \<Longrightarrow> unat a + unit_size * unat n < 2 ^ 64 \<Longrightarrow>
      ok (give_va a n s) \<and> (give_va a n s = s
        \<or> free_cnt (give_va a n s) x = free_cnt s x + in_cells (unat a) (unit_size * unat n) x)"
begin

text \<open>The ranges in use, with the number of uses per address.\<close>

definition used :: "(u64 \<times> u64) list \<Rightarrow> nat \<Rightarrow> nat" where
  "used held = hits (\<lambda>(a, n). (unat a, unit_size * unat n)) held"

definition separate :: "'s \<Rightarrow> (u64 \<times> u64) list \<Rightarrow> bool" where
  "separate s held \<longleftrightarrow> ok s \<and> (\<forall>x. used held x + free_cnt s x \<le> 1)
     \<and> (\<forall>(a, n)\<in>set held. a \<noteq> 0 \<and> 0 < n \<and> unit_size dvd unat a \<and> unat a + unit_size * unat n < 2 ^ 64)"

lemma separate_take:
  assumes "separate s held" "0 < n" "take_va n s = (s', a)" "a \<noteq> 0"
  shows "separate s' ((a, n) # held)"
proof -
  have T: "ok s'" "unit_size dvd unat a" "unat a + unit_size * unat n < 2 ^ 64"
    "free_cnt s' x + in_cells (unat a) (unit_size * unat n) x = free_cnt s x" for x
    using take_hit [OF _ assms(2-4)] assms(1) by (simp_all add: separate_def)
  have "used ((a, n) # held) x + free_cnt s' x \<le> 1" for x
  proof -
    have "used held x + free_cnt s x \<le> 1" using assms(1) by (simp add: separate_def)
    then show ?thesis using T(4) [of x] by (simp add: used_def)
  qed
  then show ?thesis using assms T by (simp add: separate_def)
qed

lemma separate_give:
  assumes "separate s (xs @ (a, n) # ys)"
  shows "separate (give_va a n s) (xs @ ys)"
proof -
  have p: "ok s" "0 < n" "a \<noteq> 0" "unit_size dvd unat a" "unat a + unit_size * unat n < 2 ^ 64"
    using assms by (auto simp: separate_def)
  note G = give_range [OF p]
  have "used (xs @ ys) x + free_cnt (give_va a n s) x \<le> 1" for x
  proof -
    have u: "used (xs @ (a, n) # ys) x = used (xs @ ys) x + in_cells (unat a) (unit_size * unat n) x"
      by (simp add: used_def)
    have "used (xs @ (a, n) # ys) x + free_cnt s x \<le> 1" using assms by (simp add: separate_def)
    then show ?thesis using u G [of x] by auto
  qed
  then show ?thesis using assms G by (auto simp: separate_def)
qed

text \<open>A range from elsewhere, here a bump pointer, may join when it is recorded nowhere.\<close>

lemma separate_fresh:
  assumes "separate s held" "a \<noteq> 0" "0 < n" "unit_size dvd unat a" "unat a + unit_size * unat n < 2 ^ 64"
    and "\<And>x. unat a \<le> x \<Longrightarrow> x < unat a + unit_size * unat n \<Longrightarrow> used held x + free_cnt s x = 0"
  shows "separate s ((a, n) # held)"
proof -
  have "used ((a, n) # held) x + free_cnt s x \<le> 1" for x
    using assms(1) assms(6) [of x] by (auto simp: separate_def used_def in_cells_def)
  then show ?thesis using assms by (simp add: separate_def)
qed

lemma used_pos: "(a, n) \<in> set held \<Longrightarrow> unat a \<le> x \<Longrightarrow> x < unat a + unit_size * unat n \<Longrightarrow> 0 < used held x"
  unfolding used_def by (induction held) (auto simp: in_cells_def)

lemma separate_free:
  assumes "separate s held" "(a, n) \<in> set held" "unat a \<le> x" "x < unat a + unit_size * unat n"
  shows "free_cnt s x = 0"
proof -
  have "used held x + free_cnt s x \<le> 1" using assms(1) by (simp add: separate_def)
  then show ?thesis using used_pos [OF assms(2-4)] by simp
qed

lemma separate_disjoint:
  assumes "separate s held" "i < j" "j < length held" "held ! i = (a, n)" "held ! j = (b, m)"
  shows "unat a + unit_size * unat n \<le> unat b \<or> unat b + unit_size * unat m \<le> unat a"
proof (rule ccontr)
  assume c: "\<not> ?thesis"
  define x where "x = max (unat a) (unat b)"
  have "(a, n) \<in> set held" "(b, m) \<in> set held" using assms(2-5) by (metis less_trans nth_mem)+
  then have len: "0 < unit_size * unat n" "0 < unit_size * unat m"
    using assms(1) unit_pos by (auto simp: separate_def unat_gt_0)
  have xa: "unat a \<le> x" "x < unat a + unit_size * unat n" "unat b \<le> x" "x < unat b + unit_size * unat m"
    using c len by (auto simp: x_def max_def)
  let ?ys = "drop (Suc i) held"
  have "held = take i held @ (a, n) # ?ys" using assms by (metis id_take_nth_drop less_trans)
  then have "used held x = used (take i held @ (a, n) # ?ys) x" by simp
  also have "\<dots> = used (take i held) x + 1 + used ?ys x"
    using xa by (simp add: used_def in_cells_def)
  finally have "used held x = used (take i held) x + 1 + used ?ys x" .
  moreover have "(b, m) \<in> set ?ys"
  proof -
    have "?ys ! (j - Suc i) = (b, m)" "j - Suc i < length ?ys" using assms by auto
    then show ?thesis by (metis nth_mem)
  qed
  then have "0 < used ?ys x" using used_pos xa by blast
  moreover have "used held x + free_cnt s x \<le> 1" using assms(1) by (simp add: separate_def)
  ultimately show False by simp
qed

end

end
