(* ===== verification/Pmm.thy ===== *)
theory Pmm
  imports Aegis_Prelude "HOL-Library.Char_ord"
begin

text \<open>
  The physical memory manager, \<^verbatim>\<open>kernel/mm/pmm.c\<close>: an allocation bitmap with one bit per
  4 KB page of the first 4 GB and a reference count per page.  The two static arrays are
  functions on indices, so that an access outside the array would be visible as a change
  at an index beyond its length.  The locale \<open>page_allocator\<close> is the contract
  of \<^verbatim>\<open>kernel/mm/pmm.h\<close> that the clients of the allocator use; it is interpreted on the
  bitmap code at the end of the theory.
\<close>

section \<open>Data\<close>

definition PAGE_SIZE :: u64 where "PAGE_SIZE = 4096"

definition PMM_MAX_PAGES :: nat where "PMM_MAX_PAGES = 4 * 1024 * 1024 * 1024 div 4096"

record pmm =
  pmm_bitmap :: "nat \<Rightarrow> u8"
  pmm_refcount :: "nat \<Rightarrow> u8"
  s_total_usable_bytes :: u64

text \<open>The zero-filled state in which the kernel image is loaded.\<close>

definition pmm_bss :: pmm where
  "pmm_bss = \<lparr>pmm_bitmap = (\<lambda>_. 0), pmm_refcount = (\<lambda>_. 0), s_total_usable_bytes = 0\<rparr>"

record mem_region =
  mr_base :: u64
  mr_len :: u64

section \<open>String formatting helpers\<close>

text \<open>The digits in the order in which the first loop leaves them in \<^verbatim>\<open>tmp\<close>.\<close>

fun dec_digits_rev :: "nat \<Rightarrow> string" where
  "dec_digits_rev v =
     (if v = 0 then [] else char_of (48 + v mod 10) # dec_digits_rev (v div 10))"

declare dec_digits_rev.simps [simp del]

definition u64_to_dec :: "u64 \<Rightarrow> string" where
  "u64_to_dec v = (if v = 0 then ''0'' else rev (dec_digits_rev (unat v)))"

section \<open>Bitmap\<close>

definition page_used :: "pmm \<Rightarrow> nat \<Rightarrow> bool" where
  "page_used s idx \<longleftrightarrow> pmm_bitmap s (idx div 8) AND push_bit (idx mod 8) 1 \<noteq> 0"

definition set_page_bit :: "nat \<Rightarrow> pmm \<Rightarrow> pmm" where
  "set_page_bit idx s = s\<lparr>pmm_bitmap := (pmm_bitmap s)
     (idx div 8 := pmm_bitmap s (idx div 8) OR push_bit (idx mod 8) 1)\<rparr>"

definition clear_page_bit :: "nat \<Rightarrow> pmm \<Rightarrow> pmm" where
  "clear_page_bit idx s = s\<lparr>pmm_bitmap := (pmm_bitmap s)
     (idx div 8 := pmm_bitmap s (idx div 8) AND NOT (push_bit (idx mod 8) 1))\<rparr>"

text \<open>
  The loops over a region run with a step of \<^verbatim>\<open>PAGE_SIZE\<close> between two page-aligned bounds,
  so their counter takes the addresses of exactly the pages listed here.
\<close>

definition page_range :: "u64 \<Rightarrow> u64 \<Rightarrow> nat list" where
  "page_range start stop = [unat start div 4096 ..< unat stop div 4096]"

definition pmm_free_region :: "u64 \<Rightarrow> u64 \<Rightarrow> pmm \<Rightarrow> pmm" where
  "pmm_free_region base len s =
    (let start = (base + PAGE_SIZE - 1) AND NOT (PAGE_SIZE - 1) in
     if start \<ge> base + len then s
     else let stop = (base + len) AND NOT (PAGE_SIZE - 1) in
       fold (\<lambda>idx s. if idx < PMM_MAX_PAGES then clear_page_bit idx s else s)
         (page_range start stop) s)"

definition pmm_reserve_region :: "u64 \<Rightarrow> u64 \<Rightarrow> pmm \<Rightarrow> pmm" where
  "pmm_reserve_region base len s =
    (let start = base AND NOT (PAGE_SIZE - 1);
         stop = (base + len + PAGE_SIZE - 1) AND NOT (PAGE_SIZE - 1) in
     fold (\<lambda>idx s. if idx < PMM_MAX_PAGES then set_page_bit idx s else s)
       (page_range start stop) s)"

section \<open>Operations\<close>

definition ARCH_KERNEL_PHYS_BASE :: u64 where "ARCH_KERNEL_PHYS_BASE = 0x100000"
definition ARCH_KERNEL_VIRT_BASE :: u64 where "ARCH_KERNEL_VIRT_BASE = 0xFFFFFFFF80000000"

definition pmm_all_reserved :: "pmm \<Rightarrow> pmm" where
  "pmm_all_reserved s =
     s\<lparr>pmm_bitmap := (\<lambda>i. if i < PMM_MAX_PAGES div 8 then 0xFF else pmm_bitmap s i)\<rparr>"

definition pmm_report :: "u64 \<Rightarrow> nat \<Rightarrow> string" where
  "pmm_report total_bytes nregions =
     ''[PMM] OK: '' @ u64_to_dec (total_bytes div (1024 * 1024)) @ ''MB usable across ''
       @ u64_to_dec (of_nat nregions) @ '' regions'' @ [CHR 0x0A]"

text \<open>
  The memory maps come from the boot protocol (\<^verbatim>\<open>arch_mm_get_regions\<close>,
  \<^verbatim>\<open>arch_mm_get_reserved_regions\<close>) and the end of the kernel image from the linker; they
  are arguments.  The second component is the line that is printed.
\<close>

definition pmm_init :: "mem_region list \<Rightarrow> mem_region list \<Rightarrow> u64 \<Rightarrow> pmm \<Rightarrow> pmm \<times> string" where
  "pmm_init regions reserved kernel_end s =
    (let s1 = pmm_all_reserved s;
         (s2, total_bytes) =
           fold (\<lambda>r (s, t). (pmm_free_region (mr_base r) (mr_len r) s, t + mr_len r))
             regions (s1, 0);
         s3 = s2\<lparr>s_total_usable_bytes := total_bytes\<rparr>;
         s4 = fold (\<lambda>r. pmm_reserve_region (mr_base r) (mr_len r)) reserved s3;
         s5 = pmm_reserve_region ARCH_KERNEL_PHYS_BASE (kernel_end - ARCH_KERNEL_VIRT_BASE) s4
     in (s5, pmm_report total_bytes (length regions)))"

text \<open>The inner loop of \<^verbatim>\<open>pmm_alloc_page\<close>: the first clear bit of a byte from \<open>bit\<close> on.\<close>

function scan_bits :: "u8 \<Rightarrow> nat \<Rightarrow> nat option" where
  "scan_bits byte k =
    (if k < 8 then if byte AND push_bit k 1 = 0 then Some k else scan_bits byte (Suc k)
     else None)"
  by auto
termination by (relation "measure (\<lambda>(b, k). 8 - k)") auto

function scan_bytes :: "(nat \<Rightarrow> u8) \<Rightarrow> nat \<Rightarrow> (nat \<times> nat) option" where
  "scan_bytes bm i =
    (if i < PMM_MAX_PAGES div 8 then
       if bm i = 0xFF then scan_bytes bm (Suc i)
       else (case scan_bits (bm i) 0 of
           Some k \<Rightarrow> Some (i, k)
         | None \<Rightarrow> scan_bytes bm (Suc i))
     else None)"
  by auto
termination by (relation "measure (\<lambda>(b, i). PMM_MAX_PAGES div 8 - i)") auto

declare scan_bits.simps [simp del] scan_bytes.simps [simp del]

definition pmm_alloc_page :: "pmm \<Rightarrow> pmm \<times> u64" where
  "pmm_alloc_page s =
    (case scan_bytes (pmm_bitmap s) 0 of
       Some (i, k) \<Rightarrow>
         let pg = i * 8 + k in
         (s\<lparr>pmm_bitmap := (pmm_bitmap s)(i := pmm_bitmap s i OR push_bit k 1),
            pmm_refcount := (pmm_refcount s)(pg := 1)\<rparr>,
          of_nat pg * PAGE_SIZE)
     | None \<Rightarrow> (s, 0))"

definition pmm_ref_page :: "u64 \<Rightarrow> pmm \<Rightarrow> pmm kres" where
  "pmm_ref_page addr s =
    (if addr AND (PAGE_SIZE - 1) \<noteq> 0
     then Panic ''[PMM] FAIL: pmm_ref_page called with unaligned addr''
     else let idx = unat (addr div PAGE_SIZE) in
     if idx \<ge> PMM_MAX_PAGES then Ret s
     else let rc = pmm_refcount s idx in
     if rc = 0 then Panic ''[PMM] FAIL: pmm_ref_page on unallocated page''
     else if rc = 255 then Panic ''[PMM] FAIL: pmm_ref_page refcount overflow''
     else Ret (s\<lparr>pmm_refcount := (pmm_refcount s)(idx := rc + 1)\<rparr>))"

definition pmm_free_page :: "u64 \<Rightarrow> pmm \<Rightarrow> pmm kres" where
  "pmm_free_page addr s =
    (if addr AND (PAGE_SIZE - 1) \<noteq> 0
     then Panic ''[PMM] FAIL: pmm_free_page called with unaligned addr''
     else let idx = unat (addr div PAGE_SIZE) in
     if idx \<ge> PMM_MAX_PAGES then Ret s
     else if \<not> page_used s idx then Ret s
     else let rc = pmm_refcount s idx in
     if rc = 0 then Ret s
     else let s1 = s\<lparr>pmm_refcount := (pmm_refcount s)(idx := rc - 1)\<rparr> in
     Ret (if pmm_refcount s1 idx = 0 then clear_page_bit idx s1 else s1))"

definition pmm_total_pages :: "pmm \<Rightarrow> u64" where
  "pmm_total_pages s = s_total_usable_bytes s div PAGE_SIZE"

lemma clear_lowest_less:
  fixes x :: "'a::len word"
  assumes "x \<noteq> 0"
  shows "unat (x AND (x - 1)) < unat x"
proof -
  have "x AND (x - 1) \<le> x - 1" by (simp add: word_and_le1)
  then have "unat (x AND (x - 1)) \<le> unat (x - 1)" by (simp add: word_le_nat_alt)
  moreover have "unat (x - 1) = unat x - 1" using assms by (simp add: unat_minus_one)
  moreover have "0 < unat x" using assms by (simp add: unat_gt_0)
  ultimately show ?thesis by linarith
qed

text \<open>The \<^verbatim>\<open>while (inv)\<close> loop of \<^verbatim>\<open>pmm_free_pages\<close>.\<close>

function count_set_bits :: "u8 \<Rightarrow> nat" where
  "count_set_bits b = (if b \<noteq> 0 then Suc (count_set_bits (b AND (b - 1))) else 0)"
  by auto
termination by (relation "measure unat") (auto simp: clear_lowest_less)

declare count_set_bits.simps [simp del]

definition pmm_free_pages :: "pmm \<Rightarrow> u64" where
  "pmm_free_pages s =
     fold (\<lambda>i n. n + of_nat (count_set_bits (NOT (pmm_bitmap s i))))
       [0 ..< PMM_MAX_PAGES div 8] 0"

section \<open>Decimal output\<close>

primrec dec_value :: "string \<Rightarrow> nat" where
  "dec_value [] = 0"
| "dec_value (c # cs) = (of_char c - 48) + 10 * dec_value cs"

lemma dec_value_digits: "dec_value (dec_digits_rev v) = v"
proof (induction v rule: dec_digits_rev.induct)
  case (1 v)
  have "of_char (char_of (48 + v mod 10) :: char) = 48 + v mod 10"
    by (simp add: of_char_of)
  then show ?case using 1 by (subst dec_digits_rev.simps) auto
qed

lemma dec_digits_length: "v < 10 ^ n \<Longrightarrow> length (dec_digits_rev v) \<le> n"
proof (induction n arbitrary: v)
  case 0
  then show ?case by (simp add: dec_digits_rev.simps)
next
  case (Suc n)
  then have "v div 10 < 10 ^ n" by (simp add: less_mult_imp_div_less mult.commute)
  with Suc.IH show ?case by (subst dec_digits_rev.simps) simp
qed

lemma dec_digits_are_digits:
  "list_all (\<lambda>c. CHR ''0'' \<le> c \<and> c \<le> CHR ''9'') (dec_digits_rev v)"
proof (induction v rule: dec_digits_rev.induct)
  case (1 v)
  have "of_char (char_of (48 + v mod 10) :: char) = 48 + v mod 10"
    by (simp add: of_char_of)
  then have "CHR ''0'' \<le> char_of (48 + v mod 10) \<and> char_of (48 + v mod 10) \<le> CHR ''9''"
    by (simp add: less_eq_char_def)
  then show ?case using 1 by (subst dec_digits_rev.simps) auto
qed

lemma u64_to_dec_value: "dec_value (rev (u64_to_dec v)) = unat v"
  by (simp add: u64_to_dec_def dec_value_digits)

section \<open>Bitmap lemmas\<close>

lemma page_used_bit: "page_used s idx \<longleftrightarrow> bit (pmm_bitmap s (idx div 8)) (idx mod 8)"
  by (simp add: page_used_def push_bit_eq_mult and_exp_eq_0_iff_not_bit)

lemma div_mod_8_neq: "(i::nat) \<noteq> j \<Longrightarrow> i div 8 = j div 8 \<Longrightarrow> i mod 8 \<noteq> j mod 8"
  by (metis div_mult_mod_eq)

lemma page_used_set_bit [simp]:
  "page_used (set_page_bit i s) j \<longleftrightarrow> j = i \<or> page_used s j"
proof (cases "j = i")
  case True
  then show ?thesis
    by (simp add: page_used_bit set_page_bit_def bit_simps)
next
  case False
  then show ?thesis
    using div_mod_8_neq [of i j]
    by (auto simp: page_used_bit set_page_bit_def bit_simps)
qed

lemma page_used_clear_bit [simp]:
  "page_used (clear_page_bit i s) j \<longleftrightarrow> j \<noteq> i \<and> page_used s j"
proof (cases "j = i")
  case True
  then show ?thesis
    by (simp add: page_used_bit clear_page_bit_def bit_simps)
next
  case False
  then show ?thesis
    using div_mod_8_neq [of i j]
    by (auto simp: page_used_bit clear_page_bit_def bit_simps)
qed

lemma refcount_set_bit [simp]: "pmm_refcount (set_page_bit i s) = pmm_refcount s"
  by (simp add: set_page_bit_def)

lemma refcount_clear_bit [simp]: "pmm_refcount (clear_page_bit i s) = pmm_refcount s"
  by (simp add: clear_page_bit_def)

lemma page_used_refcount_upd [simp]:
  "page_used (s\<lparr>pmm_refcount := r\<rparr>) j = page_used s j"
  by (simp add: page_used_def)

lemma page_used_total_upd [simp]:
  "page_used (s\<lparr>s_total_usable_bytes := r\<rparr>) j = page_used s j"
  by (simp add: page_used_def)

lemma page_used_fold_clear:
  "page_used (fold (\<lambda>idx s. if idx < PMM_MAX_PAGES then clear_page_bit idx s else s) xs s) j
     \<longleftrightarrow> page_used s j \<and> \<not> (j \<in> set xs \<and> j < PMM_MAX_PAGES)"
  by (induction xs arbitrary: s) auto

lemma page_used_fold_set:
  "page_used (fold (\<lambda>idx s. if idx < PMM_MAX_PAGES then set_page_bit idx s else s) xs s) j
     \<longleftrightarrow> page_used s j \<or> (j \<in> set xs \<and> j < PMM_MAX_PAGES)"
  by (induction xs arbitrary: s) auto

section \<open>The bitmap scan\<close>

lemma byte_full_iff: "(b :: u8) = 0xFF \<longleftrightarrow> (\<forall>k<8. bit b k)"
proof -
  have "0xFF = (mask 8 :: u8)" by (simp add: mask_eq_exp_minus_1)
  then show ?thesis by (auto simp: bit_eq_iff bit_simps)
qed

lemma scan_bits_None: "scan_bits b k = None \<longleftrightarrow> (\<forall>j. k \<le> j \<and> j < 8 \<longrightarrow> bit b j)"
proof (induction b k rule: scan_bits.induct)
  case (1 b k)
  show ?case
  proof (cases "k < 8")
    case True
    show ?thesis
      using True 1 all_from_Suc [OF True, of "bit b"]
      by (simp add: scan_bits.simps [of b k] push_bit_eq_mult and_exp_eq_0_iff_not_bit)
  qed (auto simp: scan_bits.simps)
qed

lemma scan_bits_SomeD:
  "scan_bits b k = Some j \<Longrightarrow> k \<le> j \<and> j < 8 \<and> \<not> bit b j \<and> (\<forall>i. k \<le> i \<and> i < j \<longrightarrow> bit b i)"
proof (induction b k rule: scan_bits.induct)
  case (1 b k)
  show ?case
  proof (cases "k < 8 \<and> bit b k")
    case True
    then have s: "scan_bits b (Suc k) = Some j"
      using 1(2) by (simp add: scan_bits.simps [of b k] push_bit_eq_mult and_exp_eq_0_iff_not_bit)
    then have "Suc k \<le> j \<and> j < 8 \<and> \<not> bit b j \<and> (\<forall>i. Suc k \<le> i \<and> i < j \<longrightarrow> bit b i)"
      using 1(1) True by (simp add: push_bit_eq_mult and_exp_eq_0_iff_not_bit)
    then show ?thesis using True all_from_Suc [of k j "bit b"] by auto
  next
    case False
    then show ?thesis using 1(2)
      by (auto simp: scan_bits.simps [of b k] push_bit_eq_mult and_exp_eq_0_iff_not_bit
          split: if_splits)
  qed
qed

lemma scan_bytes_None:
  "scan_bytes bm i = None \<longleftrightarrow> (\<forall>j. i \<le> j \<and> j < PMM_MAX_PAGES div 8 \<longrightarrow> bm j = 0xFF)"
proof (induction bm i rule: scan_bytes.induct)
  case (1 bm i)
  have b: "scan_bits (bm i) 0 = None \<longleftrightarrow> bm i = 0xFF"
    by (simp add: scan_bits_None byte_full_iff)
  show ?case
  proof (cases "i < PMM_MAX_PAGES div 8 \<and> bm i = 0xFF")
    case True
    then show ?thesis
      using 1(1) all_from_Suc [of i "PMM_MAX_PAGES div 8" "\<lambda>j. bm j = 0xFF"]
      by (simp add: scan_bytes.simps [of bm i])
  next
    case False
    then show ?thesis using b by (auto simp: scan_bytes.simps [of bm i])
  qed
qed

lemma scan_bytes_SomeD:
  "scan_bytes bm i = Some (j, k) \<Longrightarrow>
     i \<le> j \<and> j < PMM_MAX_PAGES div 8 \<and> k < 8 \<and> \<not> bit (bm j) k
     \<and> (\<forall>l<k. bit (bm j) l) \<and> (\<forall>l. i \<le> l \<and> l < j \<longrightarrow> bm l = 0xFF)"
proof (induction bm i rule: scan_bytes.induct)
  case (1 bm i)
  show ?case
  proof (cases "i < PMM_MAX_PAGES div 8 \<and> bm i \<noteq> 0xFF")
    case True
    then obtain k' where k': "scan_bits (bm i) 0 = Some k'"
      using scan_bits_None [of "bm i" 0] byte_full_iff [of "bm i"] by fastforce
    then have "j = i" "k = k'" using 1(3) True by (auto simp: scan_bytes.simps [of bm i])
    then show ?thesis using True scan_bits_SomeD [OF k'] by auto
  next
    case False
    then have F: "i < PMM_MAX_PAGES div 8" "bm i = 0xFF" "scan_bytes bm (Suc i) = Some (j, k)"
      using 1(3) by (auto simp: scan_bytes.simps [of bm i] split: if_splits)
    then have "Suc i \<le> j \<and> j < PMM_MAX_PAGES div 8 \<and> k < 8 \<and> \<not> bit (bm j) k
      \<and> (\<forall>l<k. bit (bm j) l) \<and> (\<forall>l. Suc i \<le> l \<and> l < j \<longrightarrow> bm l = 0xFF)"
      using 1(1) by simp
    then show ?thesis using F all_from_Suc [of i j "\<lambda>l. bm l = 0xFF"] by auto
  qed
qed

lemma pmm_alloc_page_cases:
  obtains (page) pg where "pg < PMM_MAX_PAGES" "\<not> page_used s pg" "\<forall>j<pg. page_used s j"
      "pmm_alloc_page s =
         ((set_page_bit pg s)\<lparr>pmm_refcount := (pmm_refcount s)(pg := 1)\<rparr>, of_nat pg * PAGE_SIZE)"
  | (oom) "\<forall>j<PMM_MAX_PAGES. page_used s j" "pmm_alloc_page s = (s, 0)"
proof (cases "scan_bytes (pmm_bitmap s) 0")
  case None
  have "page_used s j" if "j < PMM_MAX_PAGES" for j
  proof -
    have "j div 8 < PMM_MAX_PAGES div 8" using that by (simp add: PMM_MAX_PAGES_def)
    then show ?thesis
      using None scan_bytes_None [of "pmm_bitmap s" 0] by (simp add: page_used_bit byte_full_iff)
  qed
  then show ?thesis using None oom by (simp add: pmm_alloc_page_def)
next
  case (Some p)
  then obtain i k where ik: "scan_bytes (pmm_bitmap s) 0 = Some (i, k)" by (cases p) auto
  note D = scan_bytes_SomeD [OF ik]
  have dm: "(i * 8 + k) div 8 = i" "(i * 8 + k) mod 8 = k" using D by auto
  have "i * 8 + k < PMM_MAX_PAGES" using D by (simp add: PMM_MAX_PAGES_def)
  moreover have "\<not> page_used s (i * 8 + k)" using D dm by (simp add: page_used_bit)
  moreover have "page_used s j" if "j < i * 8 + k" for j
  proof (cases "j div 8 = i")
    case True
    then have "j mod 8 < k" using that by presburger
    then show ?thesis using D True by (simp add: page_used_bit)
  next
    case False
    have "j < Suc i * 8" using that D by simp
    then have "j div 8 < Suc i" by (rule less_mult_imp_div_less)
    with False have "j div 8 < i" by simp
    then show ?thesis using D by (simp add: page_used_bit byte_full_iff)
  qed
  moreover have "pmm_alloc_page s = ((set_page_bit (i * 8 + k) s)
      \<lparr>pmm_refcount := (pmm_refcount s)(i * 8 + k := 1)\<rparr>, of_nat (i * 8 + k) * PAGE_SIZE)"
    using ik dm by (simp add: pmm_alloc_page_def set_page_bit_def Let_def)
  ultimately show ?thesis using page by blast
qed

section \<open>The allocator interface\<close>

text \<open>
  What \<^verbatim>\<open>pmm.h\<close> promises: a set of pages that can be handed out and a number of owners for
  each page.  A client may run any sequence of the three calls.
\<close>

datatype page_op = Alloc | Share u64 | Release u64

fun page_ops :: "('s \<Rightarrow> 's \<times> u64) \<Rightarrow> (u64 \<Rightarrow> 's \<Rightarrow> 's kres) \<Rightarrow> (u64 \<Rightarrow> 's \<Rightarrow> 's kres) \<Rightarrow>
    page_op list \<Rightarrow> 's \<Rightarrow> ('s \<times> u64 list) kres" where
  "page_ops alloc share release [] s = Ret (s, [])"
| "page_ops alloc share release (Alloc # ops) s =
    (case alloc s of (s1, a) \<Rightarrow>
      (case page_ops alloc share release ops s1 of
        Panic m \<Rightarrow> Panic m | Ret (s2, as) \<Rightarrow> Ret (s2, a # as)))"
| "page_ops alloc share release (Share a # ops) s =
    (case share a s of Panic m \<Rightarrow> Panic m | Ret s1 \<Rightarrow> page_ops alloc share release ops s1)"
| "page_ops alloc share release (Release a # ops) s =
    (case release a s of Panic m \<Rightarrow> Panic m | Ret s1 \<Rightarrow> page_ops alloc share release ops s1)"

locale page_allocator =
  fixes wf :: "'s \<Rightarrow> bool"
    and alloc :: "'s \<Rightarrow> 's \<times> u64"
    and share :: "u64 \<Rightarrow> 's \<Rightarrow> 's kres"
    and release :: "u64 \<Rightarrow> 's \<Rightarrow> 's kres"
    and owners :: "'s \<Rightarrow> u64 \<Rightarrow> nat"
    and avail :: "'s \<Rightarrow> u64 set"
  assumes null_reserved: "wf s \<Longrightarrow> 0 \<notin> avail s \<and> owners s 0 = 0"
    and avail_unowned: "wf s \<Longrightarrow> a \<in> avail s \<Longrightarrow> owners s a = 0"
    and alloc_oom: "wf s \<Longrightarrow> alloc s = (s', 0) \<Longrightarrow> s' = s \<and> avail s = {}"
    and alloc_page: "wf s \<Longrightarrow> alloc s = (s', a) \<Longrightarrow> a \<noteq> 0 \<Longrightarrow>
      wf s' \<and> a \<in> avail s \<and> avail s' = avail s - {a} \<and> owners s' = (owners s)(a := 1)"
    and share_page: "wf s \<Longrightarrow> share a s = Ret s' \<Longrightarrow>
      wf s' \<and> avail s' = avail s
      \<and> owners s' = (owners s)(a := if owners s a = 0 then 0 else owners s a + 1)"
    and release_page: "wf s \<Longrightarrow> release a s = Ret s' \<Longrightarrow>
      wf s' \<and> avail s' = (if owners s a = 1 then insert a (avail s) else avail s)
      \<and> owners s' = (owners s)(a := owners s a - 1)"
    and release_owned: "wf s \<Longrightarrow> owners s a \<noteq> 0 \<Longrightarrow> \<exists>s'. release a s = Ret s'"
begin

lemma alloc_wf: "wf s \<Longrightarrow> wf (fst (alloc s))"
  using alloc_oom [of s] alloc_page [of s] by (metis prod.collapse)

lemma owned_not_avail: "wf s \<Longrightarrow> owners s a \<noteq> 0 \<Longrightarrow> a \<notin> avail s"
  by (metis avail_unowned)

lemma alloc_preserves_owner:
  assumes "wf s" "owners s a \<noteq> 0" "alloc s = (s', b)"
  shows "b \<noteq> a \<and> owners s' a = owners s a"
proof (cases "b = 0")
  case True
  then show ?thesis using assms alloc_oom [of s s'] null_reserved [of s] by auto
next
  case False
  then show ?thesis using assms alloc_page [of s s' b] owned_not_avail [of s a] by auto
qed

lemma alloc_release:
  assumes "wf s" "alloc s = (s', a)" "a \<noteq> 0"
  shows "\<exists>s''. release a s' = Ret s'' \<and> avail s'' = avail s \<and> owners s'' = owners s"
proof -
  have A: "wf s'" "a \<in> avail s" "avail s' = avail s - {a}" "owners s' = (owners s)(a := 1)"
    using alloc_page [OF assms] by auto
  then obtain s'' where R: "release a s' = Ret s''" using release_owned [of s' a] by auto
  have "owners s'' = owners s"
    using A release_page [OF A(1) R] avail_unowned [OF assms(1) A(2)] by (auto simp: fun_eq_iff)
  then show ?thesis using A R release_page [OF A(1) R] by auto
qed

text \<open>
  A page that keeps at least one owner is never handed out a second time, whatever the
  other users of the allocator do.
\<close>

lemma owned_page_kept:
  assumes "wf s" "length (filter (\<lambda>p. p = Release a) ops) < owners s a"
    and "page_ops alloc share release ops s = Ret (s', as)"
  shows "wf s' \<and> a \<notin> set as \<and> owners s a - length (filter (\<lambda>p. p = Release a) ops) \<le> owners s' a"
  using assms
proof (induction ops arbitrary: s as)
  case Nil
  then show ?case by simp
next
  case (Cons p ops)
  show ?case
  proof (cases p)
    case Alloc
    obtain s1 b where sb: "alloc s = (s1, b)" by (cases "alloc s")
    then obtain bs where "page_ops alloc share release ops s1 = Ret (s', bs)" "as = b # bs"
      using Cons.prems(3) Alloc by (auto split: kres.splits prod.splits)
    moreover have "b \<noteq> a \<and> owners s1 a = owners s a"
      using alloc_preserves_owner [OF Cons.prems(1) _ sb, of a] Cons.prems(2) by simp
    moreover have "wf s1" using alloc_wf [OF Cons.prems(1)] sb by simp
    ultimately show ?thesis using Cons.IH [of s1 bs] Cons.prems(2) Alloc by auto
  next
    case (Share b)
    then obtain s1 where sb: "share b s = Ret s1" "page_ops alloc share release ops s1 = Ret (s', as)"
      using Cons.prems(3) by (auto split: kres.splits)
    then have "wf s1" "owners s a \<le> owners s1 a"
      using share_page [OF Cons.prems(1) sb(1)] by (auto simp: fun_eq_iff)
    then show ?thesis using Cons.IH [of s1 as] Cons.prems(2) sb Share by auto
  next
    case (Release b)
    then obtain s1 where sb: "release b s = Ret s1" "page_ops alloc share release ops s1 = Ret (s', as)"
      using Cons.prems(3) by (auto split: kres.splits)
    then have "wf s1" "owners s1 a = (if a = b then owners s a - 1 else owners s a)"
      using release_page [OF Cons.prems(1) sb(1)] by (auto simp: fun_eq_iff)
    then show ?thesis using Cons.IH [of s1 as] Cons.prems(2) sb Release by (auto split: if_splits)
  qed
qed

end

section \<open>The bitmap implements the interface\<close>

definition managed :: "u64 \<Rightarrow> bool" where
  "managed a \<longleftrightarrow> a AND (PAGE_SIZE - 1) = 0 \<and> unat (a div PAGE_SIZE) < PMM_MAX_PAGES"

definition pmm_avail :: "pmm \<Rightarrow> u64 set" where
  "pmm_avail s = {a. managed a \<and> \<not> page_used s (unat (a div PAGE_SIZE))}"

definition pmm_owners :: "pmm \<Rightarrow> u64 \<Rightarrow> nat" where
  "pmm_owners s a = (if managed a then unat (pmm_refcount s (unat (a div PAGE_SIZE))) else 0)"

definition pmm_wf :: "pmm \<Rightarrow> bool" where
  "pmm_wf s \<longleftrightarrow> page_used s 0 \<and> pmm_refcount s 0 = 0
     \<and> (\<forall>i<PMM_MAX_PAGES. pmm_refcount s i \<noteq> 0 \<longrightarrow> page_used s i)"

lemma managed_unat: "managed a \<longleftrightarrow> unat a mod 4096 = 0 \<and> unat a div 4096 < PMM_MAX_PAGES"
  by (simp add: managed_def PAGE_SIZE_def and_4095_eq_0_iff unat_div_4096)

lemma page_index: "unat (a div PAGE_SIZE) = unat a div 4096"
  by (simp add: PAGE_SIZE_def unat_div_4096)

lemma unat_page_addr: "pg < PMM_MAX_PAGES \<Longrightarrow> unat (of_nat pg * PAGE_SIZE) = pg * 4096"
  by (simp add: PAGE_SIZE_def PMM_MAX_PAGES_def unat_word_ariths unat_of_nat)

lemma managed_inj: "managed a \<Longrightarrow> managed b \<Longrightarrow> unat a div 4096 = unat b div 4096 \<Longrightarrow> a = b"
  unfolding managed_unat by (metis div_mult_mod_eq word_unat_eq_iff)

lemma managed_page_addr: "pg < PMM_MAX_PAGES \<Longrightarrow> managed (of_nat pg * PAGE_SIZE)"
  by (simp add: managed_unat unat_page_addr)

lemma page_addr_eq_iff:
  "pg < PMM_MAX_PAGES \<Longrightarrow> managed a \<Longrightarrow> a = of_nat pg * PAGE_SIZE \<longleftrightarrow> unat a div 4096 = pg"
  using managed_inj [of a "of_nat pg * PAGE_SIZE"] managed_page_addr [of pg]
  by (auto simp: unat_page_addr)

lemma page_addr_eq_0_iff: "pg < PMM_MAX_PAGES \<Longrightarrow> of_nat pg * PAGE_SIZE = 0 \<longleftrightarrow> pg = 0"
  using unat_page_addr [of pg] by (metis mult_is_0 unat_eq_zero zero_neq_numeral)

lemmas pmm_abs_defs = pmm_avail_def pmm_owners_def page_index

lemma alloc_page_refines:
  assumes "pmm_wf s" "pmm_alloc_page s = (s', a)" "a \<noteq> 0"
  shows "pmm_wf s' \<and> a \<in> pmm_avail s \<and> pmm_avail s' = pmm_avail s - {a}
    \<and> pmm_owners s' = (pmm_owners s)(a := 1)"
proof (cases rule: pmm_alloc_page_cases [of s])
  case (page pg)
  then have a: "a = of_nat pg * PAGE_SIZE"
    and s': "s' = (set_page_bit pg s)\<lparr>pmm_refcount := (pmm_refcount s)(pg := 1)\<rparr>"
    using assms(2) by auto
  have pg: "managed a" "unat a div 4096 = pg" "pg \<noteq> 0"
    using page(1) assms(3) managed_page_addr [of pg]
    by (auto simp: a unat_page_addr page_addr_eq_0_iff)
  have "pmm_wf s'" using assms(1) pg(3) by (auto simp: pmm_wf_def s')
  moreover have "a \<in> pmm_avail s" using page pg by (simp add: pmm_abs_defs)
  moreover have "pmm_avail s' = pmm_avail s - {a}"
    using pg page_addr_eq_iff [OF page(1)] by (auto simp: pmm_abs_defs s' a)
  moreover have "pmm_owners s' = (pmm_owners s)(a := 1)"
    using pg page_addr_eq_iff [OF page(1)] by (auto simp: pmm_abs_defs s' a fun_eq_iff)
  ultimately show ?thesis by blast
next
  case oom
  then show ?thesis using assms by simp
qed

lemma alloc_oom_refines:
  assumes "pmm_wf s" "pmm_alloc_page s = (s', 0)"
  shows "s' = s \<and> pmm_avail s = {}"
proof (cases rule: pmm_alloc_page_cases [of s])
  case (page pg)
  then have "pg \<noteq> 0" using assms(1) by (auto simp: pmm_wf_def)
  then show ?thesis using page assms(2) page_addr_eq_0_iff [OF page(1)] by simp
next
  case oom
  then show ?thesis using assms by (auto simp: pmm_abs_defs managed_unat)
qed

lemma ref_page_refines:
  assumes "pmm_wf s" "pmm_ref_page a s = Ret s'"
  shows "pmm_wf s' \<and> pmm_avail s' = pmm_avail s
    \<and> pmm_owners s' = (pmm_owners s)(a := if pmm_owners s a = 0 then 0 else pmm_owners s a + 1)"
proof (cases "managed a")
  case True
  let ?i = "unat a div 4096"
  have i: "pmm_refcount s ?i \<noteq> 0" "pmm_refcount s ?i \<noteq> 255" "?i < PMM_MAX_PAGES"
    and s': "s' = s\<lparr>pmm_refcount := (pmm_refcount s)(?i := pmm_refcount s ?i + 1)\<rparr>"
    using True assms(2)
    by (auto simp: pmm_ref_page_def managed_def page_index Let_def split: if_splits)
  have u: "unat (pmm_refcount s ?i + 1) = unat (pmm_refcount s ?i) + 1"
    using i(2) by (rule unat_inc_u8)
  have "page_used s ?i" using assms(1) i by (simp add: pmm_wf_def)
  moreover have "?i \<noteq> 0" using assms(1) i(1) by (metis pmm_wf_def)
  ultimately have "pmm_wf s'" using assms(1) by (simp add: pmm_wf_def s')
  moreover have "pmm_owners s' b = ((pmm_owners s)(a := pmm_owners s a + 1)) b" for b
    using True u managed_inj [of b a] by (auto simp: pmm_abs_defs s')
  ultimately show ?thesis using i(1) True by (auto simp: pmm_abs_defs s' unat_eq_zero)
next
  case False
  then have "s' = s" using assms(2) by (auto simp: pmm_ref_page_def managed_def Let_def split: if_splits)
  then show ?thesis using assms(1) False by (auto simp: pmm_owners_def)
qed

lemma free_page_unmanaged:
  "\<not> managed a \<Longrightarrow> pmm_free_page a s = Ret s' \<Longrightarrow> s' = s"
  by (auto simp: pmm_free_page_def managed_def Let_def split: if_splits)

lemma free_page_managed:
  assumes "pmm_wf s" "managed a"
  shows "pmm_free_page a s = Ret
    (let i = unat a div 4096; rc = pmm_refcount s i;
         s1 = s\<lparr>pmm_refcount := (pmm_refcount s)(i := rc - 1)\<rparr>
     in if rc = 0 then s else if rc = 1 then clear_page_bit i s1 else s1)"
  using assms by (auto simp: pmm_free_page_def managed_def page_index pmm_wf_def Let_def)

lemma free_page_refines:
  assumes "pmm_wf s" "pmm_free_page a s = Ret s'"
  shows "pmm_wf s'
    \<and> pmm_avail s' = (if pmm_owners s a = 1 then insert a (pmm_avail s) else pmm_avail s)
    \<and> pmm_owners s' = (pmm_owners s)(a := pmm_owners s a - 1)"
proof (cases "managed a \<and> pmm_refcount s (unat a div 4096) \<noteq> 0")
  case True
  let ?i = "unat a div 4096" and ?rc = "pmm_refcount s (unat a div 4096)"
  have s': "s' = (if ?rc = 1 then clear_page_bit ?i (s\<lparr>pmm_refcount := (pmm_refcount s)(?i := ?rc - 1)\<rparr>)
      else s\<lparr>pmm_refcount := (pmm_refcount s)(?i := ?rc - 1)\<rparr>)"
    using True assms(2) free_page_managed [OF assms(1), of a] by (simp add: Let_def)
  have "?i \<noteq> 0" using assms(1) True by (metis pmm_wf_def)
  then have "pmm_wf s'" using assms(1) True by (auto simp: pmm_wf_def s')
  moreover have "pmm_owners s' b = ((pmm_owners s)(a := pmm_owners s a - 1)) b" for b
    using True managed_inj [of b a] by (auto simp: pmm_abs_defs s' unat_dec)
  moreover have "pmm_owners s a = 1 \<longleftrightarrow> ?rc = 1"
    using True by (simp add: pmm_abs_defs word_unat_eq_iff)
  moreover have "pmm_avail s' = (if ?rc = 1 then insert a (pmm_avail s) else pmm_avail s)"
    using True managed_inj [of _ a] by (auto simp: pmm_abs_defs s')
  ultimately show ?thesis by auto
next
  case False
  then have "s' = s \<and> pmm_owners s a = 0"
    using assms free_page_unmanaged [of a s s'] free_page_managed [OF assms(1), of a]
    by (auto simp: pmm_abs_defs)
  then show ?thesis using assms(1) by auto
qed

interpretation pa: page_allocator pmm_wf pmm_alloc_page pmm_ref_page pmm_free_page pmm_owners
  pmm_avail
proof unfold_locales
  fix s s' :: pmm and a :: u64
  assume wf: "pmm_wf s"
  show "0 \<notin> pmm_avail s \<and> pmm_owners s 0 = 0"
    using wf by (simp add: pmm_abs_defs pmm_wf_def)
  show "pmm_owners s a = 0" if "a \<in> pmm_avail s"
    using wf that by (auto simp: pmm_abs_defs pmm_wf_def managed_unat)
  show "s' = s \<and> pmm_avail s = {}" if "pmm_alloc_page s = (s', 0)"
    using wf that by (rule alloc_oom_refines)
  show "pmm_wf s' \<and> a \<in> pmm_avail s \<and> pmm_avail s' = pmm_avail s - {a}
      \<and> pmm_owners s' = (pmm_owners s)(a := 1)" if "pmm_alloc_page s = (s', a)" "a \<noteq> 0"
    using wf that by (rule alloc_page_refines)
  show "pmm_wf s' \<and> pmm_avail s' = pmm_avail s \<and> pmm_owners s' =
      (pmm_owners s)(a := if pmm_owners s a = 0 then 0 else pmm_owners s a + 1)"
    if "pmm_ref_page a s = Ret s'"
    using wf that by (rule ref_page_refines)
  show "pmm_wf s' \<and> pmm_avail s' = (if pmm_owners s a = 1 then insert a (pmm_avail s) else pmm_avail s)
      \<and> pmm_owners s' = (pmm_owners s)(a := pmm_owners s a - 1)" if "pmm_free_page a s = Ret s'"
    using wf that by (rule free_page_refines)
  show "\<exists>s'. pmm_free_page a s = Ret s'" if "pmm_owners s a \<noteq> 0"
    using wf that free_page_managed [OF wf, of a] by (auto simp: pmm_owners_def split: if_splits)
qed

section \<open>Initialisation\<close>

definition page_inside :: "nat \<Rightarrow> mem_region \<Rightarrow> bool" where
  "page_inside j r \<longleftrightarrow>
     unat (mr_base r) \<le> j * 4096 \<and> Suc j * 4096 \<le> unat (mr_base r) + unat (mr_len r)"

definition page_touches :: "nat \<Rightarrow> mem_region \<Rightarrow> bool" where
  "page_touches j r \<longleftrightarrow>
     unat (mr_base r) < Suc j * 4096 \<and> j * 4096 < unat (mr_base r) + unat (mr_len r)"

definition region_ok :: "mem_region \<Rightarrow> bool" where
  "region_ok r \<longleftrightarrow> unat (mr_base r) + unat (mr_len r) + 4095 < 2 ^ 64"

definition kernel_image :: "u64 \<Rightarrow> mem_region" where
  "kernel_image kernel_end =
     \<lparr>mr_base = ARCH_KERNEL_PHYS_BASE, mr_len = kernel_end - ARCH_KERNEL_VIRT_BASE\<rparr>"

lemma round_up_unat:
  fixes x :: u64
  assumes "unat x + 4095 < 2 ^ 64"
  shows "unat (x + PAGE_SIZE - 1) = unat x + 4095"
proof -
  have eq: "x + PAGE_SIZE - 1 = x + 4095" by (simp add: PAGE_SIZE_def)
  show ?thesis unfolding eq using assms by (simp add: unat_plus_no_wrap)
qed

lemma page_mask_unat: "unat (x AND NOT (PAGE_SIZE - 1)) = unat x div 4096 * 4096"
  using and_not_4095_unat [of x] by (simp add: PAGE_SIZE_def)

lemma page_used_free_region:
  assumes "region_ok r" "j < PMM_MAX_PAGES"
  shows "page_used (pmm_free_region (mr_base r) (mr_len r) s) j \<longleftrightarrow> page_used s j \<and> \<not> page_inside j r"
proof -
  let ?b = "unat (mr_base r)" and ?l = "unat (mr_len r)"
  have bl: "unat (mr_base r + mr_len r) = ?b + ?l"
    and b: "unat (mr_base r + PAGE_SIZE - 1) = ?b + 4095"
    using assms(1) by (simp_all add: region_ok_def unat_plus_no_wrap round_up_unat)
  have st: "unat ((mr_base r + PAGE_SIZE - 1) AND NOT (PAGE_SIZE - 1)) = (?b + 4095) div 4096 * 4096"
    using b by (simp add: page_mask_unat)
  have en: "unat ((mr_base r + mr_len r) AND NOT (PAGE_SIZE - 1)) = (?b + ?l) div 4096 * 4096"
    using bl by (simp add: page_mask_unat)
  have in1: "page_inside j r \<longleftrightarrow> (?b + 4095) div 4096 \<le> j \<and> j < (?b + ?l) div 4096"
    unfolding page_inside_def page_ceil_le_iff page_floor_gt_iff ..
  show ?thesis
  proof (cases "(?b + 4095) div 4096 * 4096 \<ge> ?b + ?l")
    case True
    then have "(?b + ?l) div 4096 \<le> (?b + 4095) div 4096"
      by (simp add: page_floor_le_iff)
    then have "\<not> page_inside j r" unfolding in1 by simp
    then show ?thesis using True
      by (simp add: pmm_free_region_def Let_def word_le_nat_alt st bl)
  next
    case False
    then show ?thesis using assms(2)
      by (simp add: pmm_free_region_def Let_def word_le_nat_alt st bl en page_used_fold_clear
          page_range_def in1)
  qed
qed

lemma page_used_reserve_region:
  assumes "region_ok r" "j < PMM_MAX_PAGES"
  shows "page_used (pmm_reserve_region (mr_base r) (mr_len r) s) j \<longleftrightarrow> page_used s j \<or> page_touches j r"
proof -
  let ?b = "unat (mr_base r)" and ?l = "unat (mr_len r)"
  have bl: "unat (mr_base r + mr_len r + PAGE_SIZE - 1) = ?b + ?l + 4095"
    using assms(1) by (simp add: region_ok_def unat_plus_no_wrap round_up_unat)
  have st: "unat (mr_base r AND NOT (PAGE_SIZE - 1)) = ?b div 4096 * 4096"
    by (simp add: page_mask_unat)
  have en: "unat ((mr_base r + mr_len r + PAGE_SIZE - 1) AND NOT (PAGE_SIZE - 1))
      = (?b + ?l + 4095) div 4096 * 4096"
    using bl by (simp add: page_mask_unat)
  have "page_touches j r \<longleftrightarrow> ?b div 4096 \<le> j \<and> j < (?b + ?l + 4095) div 4096"
    unfolding page_touches_def page_floor_le_iff page_ceil_gt_iff ..
  then show ?thesis using assms(2)
    by (simp add: pmm_reserve_region_def Let_def st en page_used_fold_set page_range_def)
qed

lemma page_used_fold_free_regions:
  "\<forall>r\<in>set rs. region_ok r \<Longrightarrow> j < PMM_MAX_PAGES \<Longrightarrow>
     page_used (fst (fold (\<lambda>r (s, t). (pmm_free_region (mr_base r) (mr_len r) s, t + mr_len r)) rs (s, t))) j
       \<longleftrightarrow> page_used s j \<and> \<not> (\<exists>r\<in>set rs. page_inside j r)"
  by (induction rs arbitrary: s t) (auto simp: page_used_free_region)

lemma page_used_fold_reserve:
  "\<forall>r\<in>set rs. region_ok r \<Longrightarrow> j < PMM_MAX_PAGES \<Longrightarrow>
     page_used (fold (\<lambda>r. pmm_reserve_region (mr_base r) (mr_len r)) rs s) j
       \<longleftrightarrow> page_used s j \<or> (\<exists>r\<in>set rs. page_touches j r)"
  by (induction rs arbitrary: s) (auto simp: page_used_reserve_region)

lemma page_used_all_reserved: "j < PMM_MAX_PAGES \<Longrightarrow> page_used (pmm_all_reserved s) j"
proof -
  assume "j < PMM_MAX_PAGES"
  then have "j div 8 < PMM_MAX_PAGES div 8" by (simp add: PMM_MAX_PAGES_def)
  moreover have "bit (0xFF :: u8) (j mod 8)" using byte_full_iff [of "0xFF"] by simp
  ultimately show ?thesis by (simp add: page_used_bit pmm_all_reserved_def)
qed

lemma refcount_fold_if [simp]:
  "pmm_refcount (fold (\<lambda>idx s. if P idx then clear_page_bit idx s else s) xs s) = pmm_refcount s"
  "pmm_refcount (fold (\<lambda>idx s. if P idx then set_page_bit idx s else s) xs s) = pmm_refcount s"
  by (induction xs arbitrary: s) auto

lemma refcount_regions [simp]:
  "pmm_refcount (pmm_free_region b l s) = pmm_refcount s"
  "pmm_refcount (pmm_reserve_region b l s) = pmm_refcount s"
  by (simp_all add: pmm_free_region_def pmm_reserve_region_def Let_def)

lemma refcount_fold_regions [simp]:
  "pmm_refcount (fst (fold (\<lambda>r (s, t). (pmm_free_region (mr_base r) (mr_len r) s, t + mr_len r)) rs (s, t)))
     = pmm_refcount s"
  "pmm_refcount (fold (\<lambda>r. pmm_reserve_region (mr_base r) (mr_len r)) rs s') = pmm_refcount s'"
  by (induction rs arbitrary: s t s') auto

lemma pmm_init_used:
  assumes "\<forall>r\<in>set regions \<union> set reserved \<union> {kernel_image ke}. region_ok r" "j < PMM_MAX_PAGES"
  shows "page_used (fst (pmm_init regions reserved ke s)) j \<longleftrightarrow>
    \<not> (\<exists>r\<in>set regions. page_inside j r)
    \<or> (\<exists>r\<in>set reserved \<union> {kernel_image ke}. page_touches j r)"
proof -
  have k: "page_used (pmm_reserve_region ARCH_KERNEL_PHYS_BASE (ke - ARCH_KERNEL_VIRT_BASE) t) j
      \<longleftrightarrow> page_used t j \<or> page_touches j (kernel_image ke)" for t
    using page_used_reserve_region [of "kernel_image ke" j t] assms
    by (simp add: kernel_image_def)
  show ?thesis
    using assms by (auto simp: pmm_init_def Let_def case_prod_unfold k page_used_fold_reserve
        page_used_fold_free_regions [unfolded case_prod_unfold] page_used_all_reserved)
qed

lemma pmm_init_refcount: "pmm_refcount (fst (pmm_init regions reserved ke s)) = pmm_refcount s"
  by (simp add: pmm_init_def Let_def case_prod_unfold pmm_all_reserved_def
      refcount_fold_regions [unfolded case_prod_unfold])

section \<open>Counting\<close>

lemma count_set_bits_byte:
  "count_set_bits b = length (filter (bit b) [0..<8])"
proof -
  have "list_all (\<lambda>n. count_set_bits (word_of_int n) = length (filter (bit (word_of_int n :: u8)) [0..<8]))
      [0..255]"
    by code_simp
  then have "\<forall>n\<in>{0..255}. count_set_bits (word_of_int n)
      = length (filter (bit (word_of_int n :: u8)) [0..<8])"
    by (simp only: list_all_iff set_upto)
  moreover have "uint b \<in> {0..255}" using uint_lt2p [of b] by simp
  ultimately have "count_set_bits (word_of_int (uint b))
      = length (filter (bit (word_of_int (uint b) :: u8)) [0..<8])"
    by blast
  then show ?thesis by simp
qed

lemma clear_bits_byte:
  "count_set_bits (NOT b) = length (filter (\<lambda>k. \<not> bit b k) [0..<8])"
proof -
  have "filter (bit (NOT b)) [0..<8] = filter (\<lambda>k. \<not> bit b k) [0..<8]"
    by (rule filter_cong) (auto simp: bit_simps)
  then show ?thesis by (simp add: count_set_bits_byte)
qed

lemma free_pages_prefix:
  "fold (\<lambda>i n. n + of_nat (count_set_bits (NOT (pmm_bitmap s i)))) [0..<m] (0 :: u64)
     = of_nat (length (filter (\<lambda>j. \<not> page_used s j) [0..<8 * m]))"
proof (induction m)
  case (Suc m)
  have "[0..<8 * Suc m] = [0..<8 * m] @ [8 * m..<8 * m + 8]"
    using upt_add_eq_append [of 0 "8 * m" 8] by (simp add: add.commute)
  moreover have "[8 * m..<8 * m + 8] = map (\<lambda>k. k + 8 * m) [0..<8]"
    by (simp add: map_add_upt add.commute)
  moreover have "filter (\<lambda>j. \<not> page_used s j) (map (\<lambda>k. k + 8 * m) [0..<8])
      = map (\<lambda>k. k + 8 * m) (filter (\<lambda>k. \<not> bit (pmm_bitmap s m) k) [0..<8])"
    unfolding filter_map by (rule arg_cong [where f = "map _"], rule filter_cong)
      (auto simp: page_used_bit)
  moreover have "[0..<Suc m] = [0..<m] @ [m]" by simp
  ultimately show ?case using Suc by (simp add: clear_bits_byte del: upt_Suc)
qed simp

lemma pmm_avail_image:
  "pmm_avail s = (\<lambda>j. of_nat j * PAGE_SIZE) ` {j. j < PMM_MAX_PAGES \<and> \<not> page_used s j}"
proof (intro set_eqI iffI)
  fix a
  assume a: "a \<in> pmm_avail s"
  then have "unat a div 4096 < PMM_MAX_PAGES" "managed a" by (auto simp: pmm_avail_def managed_unat)
  moreover from this have "a = of_nat (unat a div 4096) * PAGE_SIZE"
    using page_addr_eq_iff [of "unat a div 4096" a] by simp
  ultimately show "a \<in> (\<lambda>j. of_nat j * PAGE_SIZE) ` {j. j < PMM_MAX_PAGES \<and> \<not> page_used s j}"
    using a by (auto simp: pmm_abs_defs)
next
  fix a
  assume "a \<in> (\<lambda>j. of_nat j * PAGE_SIZE) ` {j. j < PMM_MAX_PAGES \<and> \<not> page_used s j}"
  then show "a \<in> pmm_avail s"
    by (auto simp: pmm_abs_defs managed_page_addr unat_page_addr)
qed

lemma card_pmm_avail: "card (pmm_avail s) = card {j. j < PMM_MAX_PAGES \<and> \<not> page_used s j}"
proof -
  have "inj_on (\<lambda>j. of_nat j * PAGE_SIZE) {j. j < PMM_MAX_PAGES \<and> \<not> page_used s j}"
  proof (rule inj_onI)
    fix x y
    assume xy: "x \<in> {j. j < PMM_MAX_PAGES \<and> \<not> page_used s j}" "y \<in> {j. j < PMM_MAX_PAGES \<and> \<not> page_used s j}"
      and eq: "of_nat x * PAGE_SIZE = of_nat y * PAGE_SIZE"
    show "x = y" using xy unat_page_addr [of x] unat_page_addr [of y] unfolding eq by simp
  qed
  then show ?thesis unfolding pmm_avail_image by (rule card_image)
qed

section \<open>Properties\<close>

text \<open>C23. \<^verbatim>\<open>pmm_init\<close> hands over exactly the right memory: starting from the zero-filled image,
  a page can be allocated afterwards if and only if it lies entirely inside one of the usable regions
  of the boot memory map and touches neither a platform-reserved region nor the kernel image;
  no page has an owner; and the state satisfies the allocator's invariant, in particular
  page 0 is never handed out, as soon as a reserved region covers it.  The regions must end
  below \<open>2\<^sup>6\<^sup>4 - 4095\<close>, so that rounding their bounds does not wrap.\<close>

theorem pmm_init_exact:
  assumes "\<forall>r\<in>set regions \<union> set reserved \<union> {kernel_image ke}. region_ok r"
    and "\<exists>r\<in>set reserved. page_touches 0 r"
  defines "s \<equiv> fst (pmm_init regions reserved ke pmm_bss)"
  shows "pmm_wf s
    \<and> pmm_avail s = (\<lambda>j. of_nat j * PAGE_SIZE) ` {j. j < PMM_MAX_PAGES
        \<and> (\<exists>r\<in>set regions. page_inside j r)
        \<and> \<not> (\<exists>r\<in>set reserved \<union> {kernel_image ke}. page_touches j r)}
    \<and> (\<forall>a. pmm_owners s a = 0)"
proof -
  have rc: "pmm_refcount s = (\<lambda>_. 0)" by (simp add: s_def pmm_init_refcount pmm_bss_def)
  have "0 < PMM_MAX_PAGES" by (simp add: PMM_MAX_PAGES_def)
  then have "page_used s 0" using assms(1,2) by (auto simp: s_def pmm_init_used)
  then have "pmm_wf s" by (simp add: pmm_wf_def rc)
  moreover have "{j. j < PMM_MAX_PAGES \<and> \<not> page_used s j} = {j. j < PMM_MAX_PAGES
        \<and> (\<exists>r\<in>set regions. page_inside j r)
        \<and> \<not> (\<exists>r\<in>set reserved \<union> {kernel_image ke}. page_touches j r)}"
    using assms(1) by (auto simp: s_def pmm_init_used)
  ultimately show ?thesis unfolding pmm_avail_image by (simp add: pmm_owners_def rc)
qed

definition demo_ram :: mem_region where "demo_ram = \<lparr>mr_base = 0, mr_len = 0x10000000\<rparr>"
definition demo_low :: mem_region where "demo_low = \<lparr>mr_base = 0, mr_len = 0x100000\<rparr>"

theorem pmm_init_exact_witness:
  "0x800000 \<in> pmm_avail (fst (pmm_init [demo_ram] [demo_low] 0xFFFFFFFF80600000 pmm_bss))"
proof -
  have j: "of_nat 2048 * PAGE_SIZE = 0x800000" by (simp add: PAGE_SIZE_def)
  have r: "\<forall>r\<in>set [demo_ram] \<union> set [demo_low] \<union> {kernel_image 0xFFFFFFFF80600000}. region_ok r"
    by (simp add: region_ok_def kernel_image_def demo_ram_def demo_low_def
        ARCH_KERNEL_PHYS_BASE_def ARCH_KERNEL_VIRT_BASE_def)
  have t: "\<exists>r\<in>set [demo_low]. page_touches 0 r" by (simp add: page_touches_def demo_low_def)
  show ?thesis
    unfolding j [symmetric] conjunct1 [OF conjunct2 [OF pmm_init_exact [OF r t]]]
    by (rule imageI) (simp add: page_inside_def page_touches_def demo_ram_def demo_low_def
        kernel_image_def ARCH_KERNEL_PHYS_BASE_def ARCH_KERNEL_VIRT_BASE_def PMM_MAX_PAGES_def)
qed

text \<open>C6. The physical page allocator never hands out a page that somebody still owns: from a
  state that satisfies the invariant, run any sequence of \<^verbatim>\<open>pmm_alloc_page\<close>, \<^verbatim>\<open>pmm_ref_page\<close>
  and \<^verbatim>\<open>pmm_free_page\<close> calls in which a page with \<open>n\<close> owners is released fewer than \<open>n\<close> times.
  If no call panics, none of the allocations returned that page, the page still has at
  least the remaining number of owners, and the invariant holds again.\<close>

theorem owned_page_not_reallocated:
  assumes "pmm_wf s"
    and "length (filter (\<lambda>p. p = Release a) ops) < pmm_owners s a"
    and "page_ops pmm_alloc_page pmm_ref_page pmm_free_page ops s = Ret (s', as)"
  shows "pmm_wf s' \<and> a \<notin> set as
    \<and> pmm_owners s a - length (filter (\<lambda>p. p = Release a) ops) \<le> pmm_owners s' a"
  using assms by (rule pa.owned_page_kept)

definition demo_pmm :: pmm where
  "demo_pmm = \<lparr>pmm_bitmap = (\<lambda>i. if i = 0 then 0x0B else 0xFF),
     pmm_refcount = (\<lambda>i. if i = 1 then 2 else if i = 3 then 1 else 0), s_total_usable_bytes = 0\<rparr>"

theorem owned_page_not_reallocated_witness:
  "\<exists>s' as. page_ops pmm_alloc_page pmm_ref_page pmm_free_page
       [Release 0x1000, Alloc, Release 0x3000, Alloc] demo_pmm = Ret (s', as)
     \<and> as = [0x2000, 0x3000] \<and> 0x1000 \<notin> set as \<and> 1 \<le> pmm_owners s' 0x1000"
proof -
  let ?ops = "[Release 0x1000, Alloc, Release 0x3000, Alloc]"
  have wf: "pmm_wf demo_pmm"
    by (auto simp: pmm_wf_def demo_pmm_def page_used_def)
  have o2: "pmm_owners demo_pmm 0x1000 = 2"
    by (simp add: pmm_owners_def demo_pmm_def managed_def PAGE_SIZE_def PMM_MAX_PAGES_def)
  then have n: "length (filter (\<lambda>p. p = Release 0x1000) ?ops) < pmm_owners demo_pmm 0x1000"
    by simp
  have r: "(case page_ops pmm_alloc_page pmm_ref_page pmm_free_page ?ops demo_pmm of
      Ret (s', as) \<Rightarrow> as = [0x2000, 0x3000] | Panic m \<Rightarrow> False)"
    by (simp add: demo_pmm_def pmm_free_page_def pmm_alloc_page_def page_used_def clear_page_bit_def
        scan_bytes.simps scan_bits.simps PAGE_SIZE_def PMM_MAX_PAGES_def)
  then obtain s' as where o: "page_ops pmm_alloc_page pmm_ref_page pmm_free_page ?ops demo_pmm = Ret (s', as)"
    and as: "as = [0x2000, 0x3000]"
    by (auto split: kres.splits)
  show ?thesis using owned_page_not_reallocated [OF wf n o] o o2 as by auto
qed

text \<open>C24. \<^verbatim>\<open>pmm_alloc_page\<close> is a correct first-fit allocator: it fails, with return value 0 and
  the state untouched, exactly when no page is available; otherwise it returns the lowest
  available page, takes precisely that page out of the available ones, makes the caller
  its only owner, leaves the owners of every other page alone and keeps the invariant.\<close>

theorem pmm_alloc_page_first_fit:
  assumes "pmm_wf s"
  shows "if pmm_avail s = {} then pmm_alloc_page s = (s, 0)
    else \<exists>s' a. pmm_alloc_page s = (s', a) \<and> a \<in> pmm_avail s \<and> (\<forall>b\<in>pmm_avail s. a \<le> b)
      \<and> pmm_wf s' \<and> pmm_avail s' = pmm_avail s - {a} \<and> pmm_owners s' = (pmm_owners s)(a := 1)"
proof (cases rule: pmm_alloc_page_cases [of s])
  case (page pg)
  let ?a = "of_nat pg * PAGE_SIZE" and ?s' = "fst (pmm_alloc_page s)"
  have "pg \<noteq> 0" using page(2) assms by (metis pmm_wf_def)
  then have "?a \<noteq> 0" using page(1) by (simp add: page_addr_eq_0_iff)
  then have A: "pmm_wf ?s' \<and> ?a \<in> pmm_avail s \<and> pmm_avail ?s' = pmm_avail s - {?a}
      \<and> pmm_owners ?s' = (pmm_owners s)(?a := 1)"
    using assms page(4) by (intro alloc_page_refines) auto
  moreover have "?a \<le> b" if "b \<in> pmm_avail s" for b
  proof -
    have "\<not> unat b div 4096 < pg" using that page(3) by (auto simp: pmm_abs_defs)
    then have "pg * 4096 \<le> unat b" by (simp add: page_floor_gt_iff not_less)
    then show ?thesis by (simp add: word_le_nat_alt unat_page_addr [OF page(1)])
  qed
  moreover have "pmm_alloc_page s = (?s', ?a)" using page(4) by simp
  moreover have "pmm_avail s \<noteq> {}" using A by blast
  ultimately show ?thesis by (metis (no_types, lifting))
next
  case oom
  then have "pmm_avail s = {}" by (auto simp: pmm_abs_defs managed_unat)
  then show ?thesis using oom by simp
qed

theorem pmm_alloc_page_first_fit_witness:
  "pmm_avail demo_pmm \<noteq> {} \<and> pmm_wf (fst (pmm_alloc_page demo_pmm))"
proof -
  have wf: "pmm_wf demo_pmm"
    by (auto simp: pmm_wf_def demo_pmm_def page_used_def)
  have "0x2000 \<in> pmm_avail demo_pmm"
    by (simp add: pmm_avail_def demo_pmm_def managed_def page_used_def PAGE_SIZE_def PMM_MAX_PAGES_def)
  then have "pmm_avail demo_pmm \<noteq> {}" by blast
  then show ?thesis using pmm_alloc_page_first_fit [OF wf] by auto
qed

text \<open>The number reported by \<^verbatim>\<open>pmm_free_pages\<close>, computed byte by byte by repeatedly clearing
  the lowest set bit of the inverted bitmap, is the number of pages that can be allocated.\<close>

theorem pmm_free_pages_counts_avail: "unat (pmm_free_pages s) = card (pmm_avail s)"
proof -
  have "8 * (PMM_MAX_PAGES div 8) = PMM_MAX_PAGES" by (simp add: PMM_MAX_PAGES_def)
  then have "pmm_free_pages s = of_nat (length (filter (\<lambda>j. \<not> page_used s j) [0..<PMM_MAX_PAGES]))"
    using free_pages_prefix [of s "PMM_MAX_PAGES div 8"] by (simp add: pmm_free_pages_def)
  moreover have "length (filter (\<lambda>j. \<not> page_used s j) [0..<PMM_MAX_PAGES]) \<le> PMM_MAX_PAGES"
    by (metis length_filter_le length_upt minus_nat.diff_0)
  moreover have "length (filter (\<lambda>j. \<not> page_used s j) [0..<PMM_MAX_PAGES])
      = card {j. j < PMM_MAX_PAGES \<and> \<not> page_used s j}"
    by (subst distinct_card [symmetric]) (auto intro: arg_cong [where f = card])
  ultimately show ?thesis
    by (simp add: card_pmm_avail unat_of_nat PMM_MAX_PAGES_def)
qed

text \<open>\<^verbatim>\<open>u64_to_dec\<close> prints the decimal representation of its argument: reading the digits back
  gives the number, every character is a digit, and the at most 20 digits fit the local
  array \<^verbatim>\<open>tmp[20]\<close>, so the first loop never writes past it.\<close>

theorem u64_to_dec_correct:
  "dec_value (rev (u64_to_dec v)) = unat v
   \<and> list_all (\<lambda>c. CHR ''0'' \<le> c \<and> c \<le> CHR ''9'') (u64_to_dec v)
   \<and> length (dec_digits_rev (unat v)) \<le> 20"
proof -
  have "list_all (\<lambda>c. CHR ''0'' \<le> c \<and> c \<le> CHR ''9'') (u64_to_dec v)"
    using dec_digits_are_digits [of "unat v"] by (simp add: u64_to_dec_def list_all_iff)
  moreover have "length (dec_digits_rev (unat v)) \<le> 20"
    using unsigned_less [of v, where ?'a = nat] by (simp add: dec_digits_length)
  ultimately show ?thesis by (simp add: u64_to_dec_value)
qed

end
