(* ===== verification/Vmm.thy ===== *)
theory Vmm
  imports Pmm
begin

text \<open>
  The x86-64 virtual memory manager, \<^verbatim>\<open>kernel/mm/vmm.c\<close>.  Physical memory is a function from
  frame addresses to the 512 words of a frame; a frame is reached in the code through a window
  whose page-table entry is \<open>phys | 3\<close>, so an access through \<^verbatim>\<open>vmm_window_map(phys)\<close> reads and
  writes the frame \<^verbatim>\<open>ARCH_PTE_ADDR(phys)\<close>.  TLB maintenance has no effect on this state.  The
  window lock makes every operation atomic; the places where the long loops of fork and exec
  release it briefly are not interleaved with other operations here.
\<close>

section \<open>Data\<close>

definition VMM_FLAG_PRESENT :: u64 where "VMM_FLAG_PRESENT = 1"
definition VMM_FLAG_WRITABLE :: u64 where "VMM_FLAG_WRITABLE = 2"
definition VMM_FLAG_USER :: u64 where "VMM_FLAG_USER = 4"
definition VMM_FLAG_WC :: u64 where "VMM_FLAG_WC = 8"
definition VMM_FLAG_UCMINUS :: u64 where "VMM_FLAG_UCMINUS = 16"
definition VMM_FLAG_COW :: u64 where "VMM_FLAG_COW = 0x200"
definition VMM_FLAG_NX :: u64 where "VMM_FLAG_NX = 0x8000000000000000"
definition PTE_PS :: u64 where "PTE_PS = 0x80"
definition PTE_FLAG_BITS :: u64 where "PTE_FLAG_BITS = 0x8000000000000FFF"

definition ARCH_PTE_ADDR :: "u64 \<Rightarrow> u64" where
  "ARCH_PTE_ADDR e = e AND 0x000FFFFFFFFFF000"

definition arch_pte_from_flags :: "u64 \<Rightarrow> u64" where
  "arch_pte_from_flags flags = flags"

type_synonym frame = "nat \<Rightarrow> u64"

record vmm =
  vm_mem :: "u64 \<Rightarrow> frame"
  vm_pmm :: pmm
  s_pml4_phys :: u64

text \<open>Word access through the window.\<close>

definition vm_rd :: "vmm \<Rightarrow> u64 \<Rightarrow> nat \<Rightarrow> u64" where
  "vm_rd s phys i = vm_mem s (ARCH_PTE_ADDR phys) i"

definition vm_wr :: "u64 \<Rightarrow> nat \<Rightarrow> u64 \<Rightarrow> vmm \<Rightarrow> vmm" where
  "vm_wr phys i v s = s\<lparr>vm_mem := (vm_mem s)(ARCH_PTE_ADDR phys :=
     (vm_mem s (ARCH_PTE_ADDR phys))(i := v))\<rparr>"

definition zero_words :: "frame \<Rightarrow> frame" where
  "zero_words f = (\<lambda>i. if i < 512 then 0 else f i)"

definition vm_zero :: "u64 \<Rightarrow> vmm \<Rightarrow> vmm" where
  "vm_zero phys s = s\<lparr>vm_mem := (vm_mem s)(ARCH_PTE_ADDR phys :=
     zero_words (vm_mem s (ARCH_PTE_ADDR phys)))\<rparr>"

definition vm_copy :: "u64 \<Rightarrow> u64 \<Rightarrow> vmm \<Rightarrow> vmm" where
  "vm_copy dst src s = s\<lparr>vm_mem := (vm_mem s)(ARCH_PTE_ADDR dst := (\<lambda>i.
     if i < 512 then vm_rd s src i else vm_rd s dst i))\<rparr>"

definition present :: "u64 \<Rightarrow> bool" where
  "present e \<longleftrightarrow> e AND VMM_FLAG_PRESENT \<noteq> 0"

definition pml4_index :: "u64 \<Rightarrow> nat" where
  "pml4_index virt = unat (drop_bit 39 virt AND 0x1FF)"
definition pdpt_index :: "u64 \<Rightarrow> nat" where
  "pdpt_index virt = unat (drop_bit 30 virt AND 0x1FF)"
definition pd_index :: "u64 \<Rightarrow> nat" where
  "pd_index virt = unat (drop_bit 21 virt AND 0x1FF)"
definition pt_index :: "u64 \<Rightarrow> nat" where
  "pt_index virt = unat (drop_bit 12 virt AND 0x1FF)"

section \<open>Page-table pages\<close>

definition alloc_table :: "vmm \<Rightarrow> vmm \<times> u64" where
  "alloc_table s = (case pmm_alloc_page (vm_pmm s) of (p, phys) \<Rightarrow>
     if phys = 0 then (s\<lparr>vm_pmm := p\<rparr>, 0)
     else (vm_zero phys (s\<lparr>vm_pmm := p\<rparr>), phys))"

definition alloc_table_early :: "vmm \<Rightarrow> (vmm \<times> u64) kres" where
  "alloc_table_early s = (case pmm_alloc_page (vm_pmm s) of (p, phys) \<Rightarrow>
     if phys = 0 then Panic ''[VMM] FAIL: out of memory allocating page table''
     else Ret (vm_zero phys (s\<lparr>vm_pmm := p\<rparr>), phys))"

definition ensure_table_phys :: "u64 \<Rightarrow> nat \<Rightarrow> u64 \<Rightarrow> vmm \<Rightarrow> vmm \<times> u64" where
  "ensure_table_phys parent_phys idx extra_flags s =
    (let entry = vm_rd s parent_phys idx in
     if \<not> present entry then
       (case alloc_table s of (s1, child) \<Rightarrow>
         if child = 0 then (s1, 0)
         else (vm_wr parent_phys idx
                 (child OR arch_pte_from_flags (VMM_FLAG_PRESENT OR VMM_FLAG_WRITABLE OR extra_flags)) s1,
               child))
     else (s, ARCH_PTE_ADDR entry))"

section \<open>Kernel mappings\<close>

definition kernel_pte :: "u64 \<Rightarrow> u64" where
  "kernel_pte phys = phys OR arch_pte_from_flags (VMM_FLAG_PRESENT OR VMM_FLAG_WRITABLE)"

text \<open>The stores of \<^verbatim>\<open>vmm_init\<close> once the five tables are allocated.\<close>

definition vmm_init_tables :: "u64 \<Rightarrow> u64 \<Rightarrow> u64 \<Rightarrow> u64 \<Rightarrow> u64 \<Rightarrow> u64 \<Rightarrow> vmm \<Rightarrow> vmm" where
  "vmm_init_tables pml4 pdpt_lo pd_lo pdpt_hi pd_hi win_phys s =
    (let s = vm_wr pml4 0 (kernel_pte pdpt_lo) s;
         s = vm_wr pdpt_lo 0 (kernel_pte pd_lo) s;
         s = fold (\<lambda>i. vm_wr pd_lo i (kernel_pte (push_bit 21 (of_nat i)) OR PTE_PS)) [0..<512] s;
         s = vm_wr pml4 511 (kernel_pte pdpt_hi) s;
         s = vm_wr pdpt_hi 510 (kernel_pte pd_hi) s;
         s = vm_wr pd_hi 0 (kernel_pte 0x000000 OR PTE_PS) s;
         s = vm_wr pd_hi 1 (kernel_pte 0x200000 OR PTE_PS) s;
         s = vm_wr pd_hi 2 (kernel_pte 0x400000 OR PTE_PS) s;
         s = vm_wr pd_hi 3 (kernel_pte win_phys) s
     in s\<lparr>s_pml4_phys := pml4\<rparr>)"

text \<open>\<open>win_phys\<close> is the physical address of the static table \<^verbatim>\<open>s_window_pt\<close>, set by the linker.\<close>

definition vmm_init :: "u64 \<Rightarrow> vmm \<Rightarrow> vmm kres" where
  "vmm_init win_phys s =
    (case alloc_table_early s of Panic m \<Rightarrow> Panic m | Ret (s, pml4) \<Rightarrow>
    (case alloc_table_early s of Panic m \<Rightarrow> Panic m | Ret (s, pdpt_lo) \<Rightarrow>
    (case alloc_table_early s of Panic m \<Rightarrow> Panic m | Ret (s, pd_lo) \<Rightarrow>
    (case alloc_table_early s of Panic m \<Rightarrow> Panic m | Ret (s, pdpt_hi) \<Rightarrow>
    (case alloc_table_early s of Panic m \<Rightarrow> Panic m | Ret (s, pd_hi) \<Rightarrow>
       Ret (vmm_init_tables pml4 pdpt_lo pd_lo pdpt_hi pd_hi win_phys s))))))"

definition vmm_map_page :: "u64 \<Rightarrow> u64 \<Rightarrow> u64 \<Rightarrow> vmm \<Rightarrow> vmm kres" where
  "vmm_map_page virt phys flags s =
    (if virt AND (PAGE_SIZE - 1) \<noteq> 0 then Panic ''[VMM] FAIL: vmm_map_page virt not aligned''
     else if phys AND (PAGE_SIZE - 1) \<noteq> 0 then Panic ''[VMM] FAIL: vmm_map_page phys not aligned''
     else case ensure_table_phys (s_pml4_phys s) (pml4_index virt) 0 s of (s1, pdpt_phys) \<Rightarrow>
     if pdpt_phys = 0 then Panic ''[VMM] FAIL: out of memory in vmm_map_page''
     else case ensure_table_phys pdpt_phys (pdpt_index virt) 0 s1 of (s2, pd_phys) \<Rightarrow>
     if pd_phys = 0 then Panic ''[VMM] FAIL: out of memory in vmm_map_page''
     else case ensure_table_phys pd_phys (pd_index virt) 0 s2 of (s3, pt_phys) \<Rightarrow>
     if pt_phys = 0 then Panic ''[VMM] FAIL: out of memory in vmm_map_page''
     else if present (vm_rd s3 pt_phys (pt_index virt)) then Panic ''[VMM] FAIL: vmm_map_page double-map''
     else Ret (vm_wr pt_phys (pt_index virt) (phys OR arch_pte_from_flags (flags OR VMM_FLAG_PRESENT)) s3))"

definition vmm_unmap_page :: "u64 \<Rightarrow> vmm \<Rightarrow> vmm kres" where
  "vmm_unmap_page virt s =
    (if virt AND (PAGE_SIZE - 1) \<noteq> 0 then Panic ''[VMM] FAIL: vmm_unmap_page virt not aligned''
     else let pml4e = vm_rd s (s_pml4_phys s) (pml4_index virt) in
     if \<not> present pml4e then Panic ''[VMM] FAIL: vmm_unmap_page not mapped (pml4)''
     else let pdpte = vm_rd s (ARCH_PTE_ADDR pml4e) (pdpt_index virt) in
     if \<not> present pdpte then Panic ''[VMM] FAIL: vmm_unmap_page not mapped (pdpt)''
     else let pde = vm_rd s (ARCH_PTE_ADDR pdpte) (pd_index virt) in
     if \<not> present pde then Panic ''[VMM] FAIL: vmm_unmap_page not mapped (pd)''
     else if pde AND PTE_PS \<noteq> 0
     then Panic ''[VMM] FAIL: vmm_unmap_page called on huge-page-backed address''
     else let pte = vm_rd s (ARCH_PTE_ADDR pde) (pt_index virt) in
     if \<not> present pte then Panic ''[VMM] FAIL: vmm_unmap_page not mapped (pt)''
     else Ret (vm_wr (ARCH_PTE_ADDR pde) (pt_index virt) 0 s))"

definition vmm_phys_of :: "u64 \<Rightarrow> vmm \<Rightarrow> u64 kres" where
  "vmm_phys_of virt s =
    (let pml4e = vm_rd s (s_pml4_phys s) (pml4_index virt) in
     if \<not> present pml4e then Panic ''[VMM] FAIL: vmm_phys_of not mapped (pml4)''
     else let pdpte = vm_rd s (ARCH_PTE_ADDR pml4e) (pdpt_index virt) in
     if \<not> present pdpte then Panic ''[VMM] FAIL: vmm_phys_of not mapped (pdpt)''
     else let pde = vm_rd s (ARCH_PTE_ADDR pdpte) (pd_index virt) in
     if \<not> present pde then Panic ''[VMM] FAIL: vmm_phys_of not mapped (pd)''
     else if pde AND PTE_PS \<noteq> 0
     then Panic ''[VMM] FAIL: vmm_phys_of called on huge-page-backed address''
     else let pte = vm_rd s (ARCH_PTE_ADDR pde) (pt_index virt) in
     if \<not> present pte then Panic ''[VMM] FAIL: vmm_phys_of not mapped (pt)''
     else Ret (ARCH_PTE_ADDR pte))"

definition vmm_teardown_identity :: "vmm \<Rightarrow> vmm" where
  "vmm_teardown_identity s = vm_wr (s_pml4_phys s) 0 0 s"

definition vmm_get_master_pml4 :: "vmm \<Rightarrow> u64" where
  "vmm_get_master_pml4 s = s_pml4_phys s"

section \<open>User mappings\<close>

definition vmm_create_user_pml4 :: "vmm \<Rightarrow> vmm \<times> u64" where
  "vmm_create_user_pml4 s = (case alloc_table s of (s1, new_pml4) \<Rightarrow>
     if new_pml4 = 0 then (s1, 0)
     else (fold (\<lambda>i. vm_wr new_pml4 (256 + i) (vm_rd s1 (s_pml4_phys s1) (256 + i))) [0..<256] s1,
           new_pml4))"

definition vmm_map_user_page_nolock :: "u64 \<Rightarrow> u64 \<Rightarrow> u64 \<Rightarrow> u64 \<Rightarrow> vmm \<Rightarrow> (vmm \<times> int) kres" where
  "vmm_map_user_page_nolock pml4_phys virt phys flags s =
    (case ensure_table_phys pml4_phys (pml4_index virt) VMM_FLAG_USER s of (s1, pdpt_phys) \<Rightarrow>
     if pdpt_phys = 0 then Ret (s1, -1)
     else case ensure_table_phys pdpt_phys (pdpt_index virt) VMM_FLAG_USER s1 of (s2, pd_phys) \<Rightarrow>
     if pd_phys = 0 then Ret (s2, -1)
     else case ensure_table_phys pd_phys (pd_index virt) VMM_FLAG_USER s2 of (s3, pt_phys) \<Rightarrow>
     if pt_phys = 0 then Ret (s3, -1)
     else if present (vm_rd s3 pt_phys (pt_index virt))
     then Panic ''[VMM] FAIL: vmm_map_user_page double-map''
     else Ret (vm_wr pt_phys (pt_index virt)
                 (phys OR arch_pte_from_flags (flags OR VMM_FLAG_PRESENT)) s3, 0))"

definition vmm_map_user_page :: "u64 \<Rightarrow> u64 \<Rightarrow> u64 \<Rightarrow> u64 \<Rightarrow> vmm \<Rightarrow> vmm kres" where
  "vmm_map_user_page pml4_phys virt phys flags s =
    (if virt AND (PAGE_SIZE - 1) \<noteq> 0 then Panic ''[VMM] FAIL: vmm_map_user_page virt not aligned''
     else if phys AND (PAGE_SIZE - 1) \<noteq> 0
     then Panic ''[VMM] FAIL: vmm_map_user_page phys not aligned''
     else case vmm_map_user_page_nolock pml4_phys virt phys flags s of
       Panic m \<Rightarrow> Panic m
     | Ret (s1, r) \<Rightarrow>
         if r < 0 then Panic ''[VMM] FAIL: out of memory in vmm_map_user_page'' else Ret s1)"

definition vmm_zero_page :: "u64 \<Rightarrow> vmm \<Rightarrow> vmm" where
  "vmm_zero_page phys s = vm_zero phys s"

definition vmm_phys_of_user_nolock :: "u64 \<Rightarrow> u64 \<Rightarrow> vmm \<Rightarrow> u64" where
  "vmm_phys_of_user_nolock pml4_phys virt s =
    (let pml4e = vm_rd s pml4_phys (pml4_index virt) in
     if \<not> present pml4e then 0
     else let pdpte = vm_rd s (ARCH_PTE_ADDR pml4e) (pdpt_index virt) in
     if \<not> present pdpte then 0
     else let pde = vm_rd s (ARCH_PTE_ADDR pdpte) (pd_index virt) in
     if \<not> present pde \<or> pde AND PTE_PS \<noteq> 0 then 0
     else let pte = vm_rd s (ARCH_PTE_ADDR pde) (pt_index virt) in
     if present pte then ARCH_PTE_ADDR pte else 0)"

definition vmm_phys_of_user :: "u64 \<Rightarrow> u64 \<Rightarrow> vmm \<Rightarrow> u64" where
  "vmm_phys_of_user pml4_phys virt s = vmm_phys_of_user_nolock pml4_phys virt s"

definition vmm_phys_of_user_raw :: "u64 \<Rightarrow> u64 \<Rightarrow> vmm \<Rightarrow> u64" where
  "vmm_phys_of_user_raw pml4_phys virt s =
    (let pml4e = vm_rd s pml4_phys (pml4_index virt) in
     if \<not> present pml4e then 0
     else let pdpte = vm_rd s (ARCH_PTE_ADDR pml4e) (pdpt_index virt) in
     if \<not> present pdpte then 0
     else let pde = vm_rd s (ARCH_PTE_ADDR pdpte) (pd_index virt) in
     if \<not> present pde \<or> pde AND PTE_PS \<noteq> 0 then 0
     else let pte = vm_rd s (ARCH_PTE_ADDR pde) (pt_index virt) in
     if pte \<noteq> 0 then ARCH_PTE_ADDR pte else 0)"

definition vmm_unmap_user_page :: "u64 \<Rightarrow> u64 \<Rightarrow> vmm \<Rightarrow> vmm" where
  "vmm_unmap_user_page pml4_phys virt s =
    (let pml4e = vm_rd s pml4_phys (pml4_index virt) in
     if \<not> present pml4e then s
     else let pdpte = vm_rd s (ARCH_PTE_ADDR pml4e) (pdpt_index virt) in
     if \<not> present pdpte then s
     else let pde = vm_rd s (ARCH_PTE_ADDR pdpte) (pd_index virt) in
     if \<not> present pde \<or> pde AND PTE_PS \<noteq> 0 then s
     else if present (vm_rd s (ARCH_PTE_ADDR pde) (pt_index virt))
     then vm_wr (ARCH_PTE_ADDR pde) (pt_index virt) 0 s
     else s)"

definition vmm_set_user_prot :: "u64 \<Rightarrow> u64 \<Rightarrow> u64 \<Rightarrow> vmm \<Rightarrow> vmm \<times> int" where
  "vmm_set_user_prot pml4_phys virt flags s =
    (let pml4e = vm_rd s pml4_phys (pml4_index virt) in
     if \<not> present pml4e then (s, -1)
     else let pdpte = vm_rd s (ARCH_PTE_ADDR pml4e) (pdpt_index virt) in
     if \<not> present pdpte then (s, -1)
     else let pde = vm_rd s (ARCH_PTE_ADDR pdpte) (pd_index virt) in
     if \<not> present pde \<or> pde AND PTE_PS \<noteq> 0 then (s, -1)
     else let old = vm_rd s (ARCH_PTE_ADDR pde) (pt_index virt) in
     if \<not> present old \<and> flags = 0 then (s, 0)
     else if \<not> present old then (s, -1)
     else let phys = ARCH_PTE_ADDR old in
     (vm_wr (ARCH_PTE_ADDR pde) (pt_index virt)
        (if flags = 0 then phys else phys OR arch_pte_from_flags flags) s, 0))"

section \<open>Copying and sharing an address space\<close>

definition user_va :: "nat \<Rightarrow> nat \<Rightarrow> nat \<Rightarrow> nat \<Rightarrow> u64" where
  "user_va a b c d = push_bit 39 (of_nat a) OR push_bit 30 (of_nat b)
     OR push_bit 21 (of_nat c) OR push_bit 12 (of_nat d)"

text \<open>Which leaf entries the two fork routines skip: absent, kernel, and device memory.\<close>

definition fork_skips :: "u64 \<Rightarrow> bool" where
  "fork_skips pte \<longleftrightarrow> \<not> present pte \<or> pte AND VMM_FLAG_USER = 0
     \<or> pte AND (VMM_FLAG_WC OR VMM_FLAG_UCMINUS) \<noteq> 0"

definition copy_pte :: "u64 \<Rightarrow> u64 \<Rightarrow> u64 \<Rightarrow> nat \<Rightarrow> vmm \<Rightarrow> (vmm \<times> int) kres" where
  "copy_pte dst_pml4 va pt_phys pti s =
    (let pte = vm_rd s pt_phys pti in
     if fork_skips pte then Ret (s, 0)
     else let src_phys = pte AND NOT PTE_FLAG_BITS; flags = pte AND PTE_FLAG_BITS in
     case pmm_alloc_page (vm_pmm s) of (p, dst_phys) \<Rightarrow>
     if dst_phys = 0 then Ret (s\<lparr>vm_pmm := p\<rparr>, -1)
     else case vmm_map_user_page_nolock dst_pml4 va dst_phys flags
                 (vm_copy dst_phys src_phys (s\<lparr>vm_pmm := p\<rparr>)) of
       Panic m \<Rightarrow> Panic m
     | Ret (s1, r) \<Rightarrow>
         if r < 0 then (case pmm_free_page dst_phys (vm_pmm s1) of
             Panic m \<Rightarrow> Panic m | Ret p1 \<Rightarrow> Ret (s1\<lparr>vm_pmm := p1\<rparr>, -1))
         else Ret (s1, 0))"

definition cow_pte :: "u64 \<Rightarrow> u64 \<Rightarrow> u64 \<Rightarrow> nat \<Rightarrow> vmm \<Rightarrow> (vmm \<times> int) kres" where
  "cow_pte dst_pml4 va pt_phys pti s =
    (let pte = vm_rd s pt_phys pti in
     if fork_skips pte then Ret (s, 0)
     else let phys = pte AND NOT PTE_FLAG_BITS; flags = pte AND PTE_FLAG_BITS;
              cow = flags AND VMM_FLAG_WRITABLE \<noteq> 0;
              new_flags = (if cow then (flags AND NOT VMM_FLAG_WRITABLE) OR VMM_FLAG_COW else flags);
              s1 = (if cow then vm_wr pt_phys pti (phys OR new_flags) s else s) in
     case vmm_map_user_page_nolock dst_pml4 va phys new_flags s1 of
       Panic m \<Rightarrow> Panic m
     | Ret (s2, r) \<Rightarrow>
         if r < 0 then Ret (s2, -1)
         else case pmm_ref_page phys (vm_pmm s2) of
           Panic m \<Rightarrow> Panic m | Ret p \<Rightarrow> Ret (s2\<lparr>vm_pmm := p\<rparr>, 0))"

text \<open>The walk that both share: all present tables of the user half, in address order.\<close>

definition user_walk ::
    "(u64 \<Rightarrow> u64 \<Rightarrow> nat \<Rightarrow> vmm \<Rightarrow> (vmm \<times> int) kres) \<Rightarrow> u64 \<Rightarrow> vmm \<Rightarrow> (vmm \<times> int) kres" where
  "user_walk body src_pml4 s = for_each (\<lambda>a s.
    let pml4e = vm_rd s src_pml4 a in
    if \<not> present pml4e then Ret (s, 0)
    else for_each (\<lambda>b s.
      let pdpte = vm_rd s (ARCH_PTE_ADDR pml4e) b in
      if \<not> present pdpte then Ret (s, 0)
      else for_each (\<lambda>c s.
        let pde = vm_rd s (ARCH_PTE_ADDR pdpte) c in
        if \<not> present pde then Ret (s, 0)
        else for_each (\<lambda>d s. body (user_va a b c d) (ARCH_PTE_ADDR pde) d s) [0..<512] s)
      [0..<512] s) [0..<512] s) [0..<256] s"

definition vmm_copy_user_pages :: "u64 \<Rightarrow> u64 \<Rightarrow> vmm \<Rightarrow> (vmm \<times> int) kres" where
  "vmm_copy_user_pages src_pml4 dst_pml4 s = user_walk (copy_pte dst_pml4) src_pml4 s"

definition vmm_cow_user_pages :: "u64 \<Rightarrow> u64 \<Rightarrow> vmm \<Rightarrow> (vmm \<times> int) kres" where
  "vmm_cow_user_pages src_pml4 dst_pml4 s = user_walk (cow_pte dst_pml4) src_pml4 s"

definition vmm_cow_fault_handle :: "u64 \<Rightarrow> u64 \<Rightarrow> vmm \<Rightarrow> (vmm \<times> int) kres" where
  "vmm_cow_fault_handle pml4_phys fault_va s =
    (let pml4e = vm_rd s pml4_phys (pml4_index fault_va) in
     if \<not> present pml4e then Ret (s, -1)
     else let pdpte = vm_rd s (ARCH_PTE_ADDR pml4e) (pdpt_index fault_va) in
     if \<not> present pdpte then Ret (s, -1)
     else let pde = vm_rd s (ARCH_PTE_ADDR pdpte) (pd_index fault_va) in
     if \<not> present pde then Ret (s, -1)
     else let pt_phys = ARCH_PTE_ADDR pde; pte = vm_rd s pt_phys (pt_index fault_va) in
     if \<not> present pte \<or> pte AND VMM_FLAG_USER = 0 \<or> pte AND VMM_FLAG_COW = 0
        \<or> pte AND VMM_FLAG_WRITABLE \<noteq> 0 then Ret (s, -1)
     else let old_phys = pte AND NOT PTE_FLAG_BITS; flags = pte AND PTE_FLAG_BITS in
     case pmm_alloc_page (vm_pmm s) of (p, new_phys) \<Rightarrow>
     if new_phys = 0 then Ret (s\<lparr>vm_pmm := p\<rparr>, -2)
     else let s1 = vm_copy new_phys old_phys (s\<lparr>vm_pmm := p\<rparr>);
              new_flags = (flags AND NOT VMM_FLAG_COW) OR VMM_FLAG_WRITABLE;
              s2 = vm_wr pt_phys (pt_index fault_va) (new_phys OR new_flags) s1 in
     case pmm_free_page old_phys (vm_pmm s2) of
       Panic m \<Rightarrow> Panic m | Ret p1 \<Rightarrow> Ret (s2\<lparr>vm_pmm := p1\<rparr>, 0))"

section \<open>Bytes of a user page\<close>

definition word_byte :: "u64 \<Rightarrow> nat \<Rightarrow> u8" where
  "word_byte w k = ucast (drop_bit (8 * k) w)"

definition set_word_byte :: "nat \<Rightarrow> u8 \<Rightarrow> u64 \<Rightarrow> u64" where
  "set_word_byte k b w = (w AND NOT (push_bit (8 * k) 0xFF)) OR push_bit (8 * k) (ucast b)"

definition vm_rd_byte :: "vmm \<Rightarrow> u64 \<Rightarrow> nat \<Rightarrow> u8" where
  "vm_rd_byte s phys off = word_byte (vm_rd s phys (off div 8)) (off mod 8)"

definition vm_wr_byte :: "u64 \<Rightarrow> nat \<Rightarrow> u8 \<Rightarrow> vmm \<Rightarrow> vmm" where
  "vm_wr_byte phys off b s =
     vm_wr phys (off div 8) (set_word_byte (off mod 8) b (vm_rd s phys (off div 8))) s"

fun vm_wr_bytes :: "u64 \<Rightarrow> nat \<Rightarrow> u8 list \<Rightarrow> vmm \<Rightarrow> vmm" where
  "vm_wr_bytes phys off [] s = s"
| "vm_wr_bytes phys off (b # bs) s = vm_wr_bytes phys (Suc off) bs (vm_wr_byte phys off b s)"

text \<open>
  The loop of \<^verbatim>\<open>vmm_write_user_bytes\<close>; \<open>src\<close> holds the bytes that are still to be written.
\<close>

definition page_off :: "u64 \<Rightarrow> nat" where
  "page_off va = unat (va AND 0xFFF)"

definition write_chunk :: "u64 \<Rightarrow> u8 list \<Rightarrow> nat" where
  "write_chunk va src = min (4096 - page_off va) (length src)"

lemma page_off_less: "page_off va < 4096"
  by (simp add: page_off_def and_4095_mod)

function vmm_write_user_bytes :: "u64 \<Rightarrow> u64 \<Rightarrow> u8 list \<Rightarrow> vmm \<Rightarrow> vmm \<times> int" where
  "vmm_write_user_bytes pml4_phys va src s =
    (if src = [] then (s, 0)
     else if vmm_phys_of_user_nolock pml4_phys (va AND NOT 0xFFF) s = 0 then (s, -1)
     else vmm_write_user_bytes pml4_phys (va + of_nat (write_chunk va src)) (drop (write_chunk va src) src)
       (vm_wr_bytes (vmm_phys_of_user_nolock pml4_phys (va AND NOT 0xFFF) s) (page_off va)
          (take (write_chunk va src) src) s))"
  by auto
termination
proof (relation "measure (\<lambda>(p, va, src, s). length src)", goal_cases)
  case (2 p va src s)
  then show ?case using page_off_less [of va] by (simp add: write_chunk_def)
qed simp

declare vmm_write_user_bytes.simps [simp del]

definition le_bytes :: "u64 \<Rightarrow> u8 list" where
  "le_bytes v = map (word_byte v) [0..<8]"

definition vmm_write_user_u64 :: "u64 \<Rightarrow> u64 \<Rightarrow> u64 \<Rightarrow> vmm \<Rightarrow> vmm \<times> int" where
  "vmm_write_user_u64 pml4_phys va val s = vmm_write_user_bytes pml4_phys va (le_bytes val) s"

section \<open>Releasing an address space\<close>

definition vm_free :: "u64 \<Rightarrow> vmm \<Rightarrow> (vmm \<times> int) kres" where
  "vm_free phys s = (case pmm_free_page phys (vm_pmm s) of
     Panic m \<Rightarrow> Panic m | Ret p \<Rightarrow> Ret (s\<lparr>vm_pmm := p\<rparr>, 0))"

definition then_free :: "u64 \<Rightarrow> (vmm \<times> int) kres \<Rightarrow> (vmm \<times> int) kres" where
  "then_free phys r = (case r of Panic m \<Rightarrow> Panic m | Ret (s, _) \<Rightarrow> vm_free phys s)"

definition free_pt :: "u64 \<Rightarrow> vmm \<Rightarrow> (vmm \<times> int) kres" where
  "free_pt pt_phys = for_each (\<lambda>l s.
     let pte = vm_rd s pt_phys l in
     if pte = 0 then Ret (s, 0)
     else if ARCH_PTE_ADDR pte \<noteq> 0 then vm_free (ARCH_PTE_ADDR pte) s
     else Ret (s, 0)) [0..<512]"

definition free_pd :: "u64 \<Rightarrow> vmm \<Rightarrow> (vmm \<times> int) kres" where
  "free_pd pd_phys = for_each (\<lambda>k s.
     let pde = vm_rd s pd_phys k in
     if \<not> present pde then Ret (s, 0)
     else if pde AND PTE_PS \<noteq> 0 then Ret (s, 0)
     else then_free (ARCH_PTE_ADDR pde) (free_pt (ARCH_PTE_ADDR pde) s)) [0..<512]"

definition free_pdpt :: "u64 \<Rightarrow> vmm \<Rightarrow> (vmm \<times> int) kres" where
  "free_pdpt pdpt_phys = for_each (\<lambda>j s.
     let pdpte = vm_rd s pdpt_phys j in
     if \<not> present pdpte then Ret (s, 0)
     else if pdpte AND PTE_PS \<noteq> 0 then Ret (s, 0)
     else then_free (ARCH_PTE_ADDR pdpte) (free_pd (ARCH_PTE_ADDR pdpte) s)) [0..<512]"

definition vmm_free_user_pml4 :: "u64 \<Rightarrow> vmm \<Rightarrow> (vmm \<times> int) kres" where
  "vmm_free_user_pml4 pml4_phys s = then_free pml4_phys (for_each (\<lambda>i s.
     let pml4e = vm_rd s pml4_phys i in
     if \<not> present pml4e then Ret (s, 0)
     else then_free (ARCH_PTE_ADDR pml4e) (free_pdpt (ARCH_PTE_ADDR pml4e) s)) [0..<256] s)"

definition clear_pt :: "u64 \<Rightarrow> vmm \<Rightarrow> (vmm \<times> int) kres" where
  "clear_pt pt_phys = for_each (\<lambda>l s.
     let pte = vm_rd s pt_phys l in
     if pte \<noteq> 0 then
       let s1 = vm_wr pt_phys l 0 s in
       if ARCH_PTE_ADDR pte \<noteq> 0 then vm_free (ARCH_PTE_ADDR pte) s1 else Ret (s1, 0)
     else Ret (s, 0)) [0..<512]"

definition vmm_free_user_pages :: "u64 \<Rightarrow> vmm \<Rightarrow> (vmm \<times> int) kres" where
  "vmm_free_user_pages pml4_phys s = for_each (\<lambda>a s.
    let pml4e = vm_rd s pml4_phys a in
    if \<not> present pml4e then Ret (s, 0)
    else for_each (\<lambda>b s.
      let pdpte = vm_rd s (ARCH_PTE_ADDR pml4e) b in
      if \<not> present pdpte then Ret (s, 0)
      else if pdpte AND PTE_PS \<noteq> 0 then Ret (s, 0)
      else for_each (\<lambda>c s.
        let pde = vm_rd s (ARCH_PTE_ADDR pdpte) c in
        if \<not> present pde then Ret (s, 0)
        else if pde AND PTE_PS \<noteq> 0 then Ret (s, 0)
        else clear_pt (ARCH_PTE_ADDR pde) s)
      [0..<512] s) [0..<512] s) [0..<256] s"

end
