(* ===== verification/Vmm_Tree.thy ===== *)
theory Vmm_Tree
  imports Vmm
begin

text \<open>
  Page-table trees.  A walk follows present entries from a root table along a list of indices.
  A tree is well formed on a set of paths if different paths lead to different tables, every
  table is a frame with an owner in the physical allocator, and no entry that should point to
  a page table is a huge page.  On such a tree the page-table entry of an address is a
  function of the address alone, and creating tables on demand does not change it.
\<close>

section \<open>Frame addresses\<close>

lemma pte_addr_mask: "ARCH_PTE_ADDR e = take_bit 52 e AND NOT 4095"
proof -
  have "(0x000FFFFFFFFFF000 :: u64) = mask 52 AND NOT 4095"
    by (simp add: mask_eq_exp_minus_1)
  then have "ARCH_PTE_ADDR e = (e AND mask 52) AND NOT 4095"
    by (simp add: ARCH_PTE_ADDR_def and.assoc)
  then show ?thesis by (simp only: take_bit_eq_mask)
qed

lemma pte_addr_managed [simp]:
  assumes "managed a"
  shows "ARCH_PTE_ADDR a = a"
proof -
  have u: "unat a < 2 ^ 52" "unat a mod 4096 = 0"
    using assms by (auto simp: managed_unat PMM_MAX_PAGES_def)
  have "unat (take_bit 52 a) = unat a"
    using u(1) by (simp add: unsigned_take_bit_eq take_bit_nat_eq_self)
  then have "take_bit 52 a = a" by (simp only: word_unat_eq_iff)
  then have "ARCH_PTE_ADDR a = a AND NOT 4095" by (simp only: pte_addr_mask)
  moreover have "unat (a AND NOT 4095) = unat a"
    unfolding and_not_4095_unat using u(2) by auto
  ultimately show ?thesis by (simp add: word_unat_eq_iff)
qed

lemma pte_addr_or: "ARCH_PTE_ADDR (a OR b) = ARCH_PTE_ADDR a OR ARCH_PTE_ADDR b"
  by (simp add: ARCH_PTE_ADDR_def bit.conj_disj_distrib2)

lemma pte_addr_idem [simp]: "ARCH_PTE_ADDR (ARCH_PTE_ADDR a) = ARCH_PTE_ADDR a"
  by (simp add: ARCH_PTE_ADDR_def and.assoc)

lemma and_or_distrib: "(a OR b) AND c = (a AND c) OR (b AND c)" for a b c :: "'a::len word"
  by (simp add: bit.conj_disj_distrib2)

lemma managed_low_bits:
  assumes "managed a" "c AND NOT 4095 = 0"
  shows "a AND c = 0"
proof -
  have "a AND 4095 = 0" using assms(1) by (simp add: managed_unat and_4095_eq_0_iff)
  moreover have "c = c AND 4095"
    using assms(2) by (metis and.right_idem bit.disj_zero_right bit.conj_disj_distrib
        bit.disj_cancel_right and.right_neutral)
  ultimately show ?thesis by (metis and.left_commute and_zero_eq)
qed

lemma present_or: "present (a OR b) \<longleftrightarrow> present a \<or> present b"
  by (simp add: present_def and_or_distrib or_eq_0_iff)

lemma not_present_0 [simp]: "\<not> present 0"
  by (simp add: present_def)

definition table_flags :: "u64 \<Rightarrow> u64" where
  "table_flags extra = VMM_FLAG_PRESENT OR VMM_FLAG_WRITABLE OR extra"

lemma table_entry:
  assumes "managed c" "extra \<in> {0, VMM_FLAG_USER}"
  shows "ARCH_PTE_ADDR (c OR table_flags extra) = c" "present (c OR table_flags extra)"
    "(c OR table_flags extra) AND PTE_PS = 0"
proof -
  have f: "ARCH_PTE_ADDR (table_flags extra) = 0" "present (table_flags extra)"
      "table_flags extra AND PTE_PS = 0"
    using assms(2) by (auto simp: table_flags_def ARCH_PTE_ADDR_def present_def VMM_FLAG_PRESENT_def
        VMM_FLAG_WRITABLE_def VMM_FLAG_USER_def PTE_PS_def)
  show "ARCH_PTE_ADDR (c OR table_flags extra) = c" using assms(1) f(1) by (simp add: pte_addr_or)
  show "present (c OR table_flags extra)" using f(2) by (simp add: present_or)
  show "(c OR table_flags extra) AND PTE_PS = 0"
    using f(3) managed_low_bits [OF assms(1), of PTE_PS] by (simp add: and_or_distrib PTE_PS_def)
qed

section \<open>Walks\<close>

fun walk :: "vmm \<Rightarrow> u64 \<Rightarrow> nat list \<Rightarrow> u64 option" where
  "walk s t [] = Some t"
| "walk s t (i # is) =
    (if present (vm_rd s t i) then walk s (ARCH_PTE_ADDR (vm_rd s t i)) is else None)"

lemma walk_append:
  "walk s t (p @ q) = (case walk s t p of None \<Rightarrow> None | Some u \<Rightarrow> walk s u q)"
  by (induction p arbitrary: t) auto

lemma walk_snoc:
  "walk s t (p @ [i]) = (case walk s t p of None \<Rightarrow> None | Some u \<Rightarrow>
     if present (vm_rd s u i) then Some (ARCH_PTE_ADDR (vm_rd s u i)) else None)"
  by (simp add: walk_append split: option.split)

definition vm_path :: "u64 \<Rightarrow> nat list" where
  "vm_path v = [pml4_index v, pdpt_index v, pd_index v]"

text \<open>The leaf entry of an address; an address without a page table has the empty entry.\<close>

definition pte_at :: "vmm \<Rightarrow> u64 \<Rightarrow> u64 \<Rightarrow> u64" where
  "pte_at s root v = (case walk s root (vm_path v) of None \<Rightarrow> 0 | Some pt \<Rightarrow> vm_rd s pt (pt_index v))"

definition same_page :: "u64 \<Rightarrow> u64 \<Rightarrow> bool" where
  "same_page v w \<longleftrightarrow> vm_path v = vm_path w \<and> pt_index v = pt_index w"

section \<open>Well-formed trees\<close>

definition on_paths :: "nat list set \<Rightarrow> nat list \<Rightarrow> bool" where
  "on_paths D p \<longleftrightarrow> (\<exists>q\<in>D. prefix p q)"

definition tables :: "nat list set \<Rightarrow> vmm \<Rightarrow> u64 \<Rightarrow> u64 set" where
  "tables D s root = {t. \<exists>p. on_paths D p \<and> walk s root p = Some t}"

definition tree_ok :: "nat list set \<Rightarrow> vmm \<Rightarrow> u64 \<Rightarrow> bool" where
  "tree_ok D s root \<longleftrightarrow>
     (\<forall>p q t. on_paths D p \<and> on_paths D q \<and> walk s root p = Some t \<and> walk s root q = Some t \<longrightarrow> p = q)
   \<and> (\<forall>t\<in>tables D s root. pmm_owners (vm_pmm s) t \<noteq> 0)
   \<and> (\<forall>p i t. on_paths D (p @ [i]) \<and> length p = 2 \<and> walk s root p = Some t \<and> present (vm_rd s t i)
        \<longrightarrow> vm_rd s t i AND PTE_PS = 0)"

lemma owned_managed: "pmm_owners p t \<noteq> 0 \<Longrightarrow> managed t"
  by (simp add: pmm_owners_def split: if_splits)

lemma on_paths_prefix: "on_paths D q \<Longrightarrow> prefix p q \<Longrightarrow> on_paths D p"
  unfolding on_paths_def using prefix_order.trans by blast

lemma on_paths_snocD: "on_paths D (p @ [i]) \<Longrightarrow> on_paths D p"
  by (erule on_paths_prefix) simp

lemma tree_ok_inj:
  "tree_ok D s root \<Longrightarrow> on_paths D p \<Longrightarrow> on_paths D q \<Longrightarrow> walk s root p = Some t \<Longrightarrow>
     walk s root q = Some t \<Longrightarrow> p = q"
  unfolding tree_ok_def by blast

lemma tree_ok_managed:
  "tree_ok D s root \<Longrightarrow> on_paths D p \<Longrightarrow> walk s root p = Some t \<Longrightarrow>
     pmm_owners (vm_pmm s) t \<noteq> 0 \<and> managed t"
  unfolding tree_ok_def tables_def using owned_managed by blast

lemma tree_ok_no_ps:
  "tree_ok D s root \<Longrightarrow> on_paths D (p @ [i]) \<Longrightarrow> length p = 2 \<Longrightarrow> walk s root p = Some t \<Longrightarrow>
     present (vm_rd s t i) \<Longrightarrow> vm_rd s t i AND PTE_PS = 0"
  unfolding tree_ok_def by blast

section \<open>Writes to a tree\<close>

lemma vm_rd_wr: "vm_rd (vm_wr T i v s) t j
    = (if ARCH_PTE_ADDR t = ARCH_PTE_ADDR T \<and> j = i then v else vm_rd s t j)"
  by (simp add: vm_rd_def vm_wr_def)

lemma vm_mem_wr: "f \<noteq> ARCH_PTE_ADDR T \<Longrightarrow> vm_mem (vm_wr T i v s) f = vm_mem s f"
  by (simp add: vm_wr_def)

lemma vm_wr_other [simp]:
  "vm_pmm (vm_wr T i v s) = vm_pmm s" "s_pml4_phys (vm_wr T i v s) = s_pml4_phys s"
  by (simp_all add: vm_wr_def)

lemma vm_rd_cong: "vm_mem s' (ARCH_PTE_ADDR t) = vm_mem s (ARCH_PTE_ADDR t) \<Longrightarrow> vm_rd s' t i = vm_rd s t i"
  by (simp add: vm_rd_def)

lemma walk_cong:
  assumes "\<And>t. t \<in> tables D s root \<Longrightarrow> vm_mem s' (ARCH_PTE_ADDR t) = vm_mem s (ARCH_PTE_ADDR t)"
    and "on_paths D q"
  shows "walk s' root q = walk s root q"
  using assms(2)
proof (induction q rule: rev_induct)
  case (snoc i q)
  then have q: "on_paths D q" by (rule_tac on_paths_snocD)
  show ?case
  proof (cases "walk s root q")
    case (Some t)
    then have "t \<in> tables D s root" using q by (auto simp: tables_def)
    then have "vm_rd s' t i = vm_rd s t i" using assms(1) by (intro vm_rd_cong)
    then show ?thesis using snoc.IH [OF q] Some by (simp add: walk_snoc)
  qed (use snoc.IH [OF q] in \<open>simp add: walk_snoc\<close>)
qed simp

text \<open>A write to entry \<open>i\<close> of the table at path \<open>P\<close> only affects walks through that entry.\<close>

lemma walk_wr:
  assumes ok: "tree_ok D s root" and P: "on_paths D P" "walk s root P = Some T"
    and q: "on_paths D q" "\<not> prefix (P @ [i]) q"
  shows "walk (vm_wr T i v s) root q = walk s root q"
  using q
proof (induction q rule: rev_induct)
  case (snoc j q)
  then have q: "on_paths D q" "\<not> prefix (P @ [i]) q" by (auto intro: on_paths_snocD)
  show ?case
  proof (cases "walk s root q")
    case (Some u)
    have "vm_rd (vm_wr T i v s) u j = vm_rd s u j"
    proof (rule ccontr)
      assume "\<not> ?thesis"
      then have "ARCH_PTE_ADDR u = ARCH_PTE_ADDR T" "j = i" by (auto simp: vm_rd_wr split: if_splits)
      moreover have "managed u" "managed T"
        using tree_ok_managed [OF ok] q(1) Some P by auto
      ultimately have "u = T" "j = i" by auto
      then have "q = P" using tree_ok_inj [OF ok q(1) P(1)] Some P(2) by simp
      then show False using snoc.prems(2) \<open>j = i\<close> by simp
    qed
    then show ?thesis using snoc.IH [OF q] Some by (simp add: walk_snoc)
  qed (use snoc.IH [OF q] in \<open>simp add: walk_snoc\<close>)
qed simp

section \<open>Allocating tables\<close>

lemma alloc_table_spec:
  assumes "pmm_wf (vm_pmm s)" "alloc_table s = (s1, c)"
  shows "c = 0 \<Longrightarrow> s1 = s"
    and "c \<noteq> 0 \<Longrightarrow> managed c \<and> c \<in> pmm_avail (vm_pmm s) \<and> pmm_owners (vm_pmm s) c = 0
      \<and> pmm_wf (vm_pmm s1) \<and> pmm_owners (vm_pmm s1) = (pmm_owners (vm_pmm s))(c := 1)
      \<and> pmm_avail (vm_pmm s1) = pmm_avail (vm_pmm s) - {c}
      \<and> vm_mem s1 = (vm_mem s)(c := zero_words (vm_mem s c)) \<and> s_pml4_phys s1 = s_pml4_phys s"
proof -
  obtain p a where p: "pmm_alloc_page (vm_pmm s) = (p, a)" by (cases "pmm_alloc_page (vm_pmm s)")
  then have c: "c = a" and s1: "a \<noteq> 0 \<Longrightarrow> s1 = vm_zero a (s\<lparr>vm_pmm := p\<rparr>)" "a = 0 \<Longrightarrow> s1 = s\<lparr>vm_pmm := p\<rparr>"
    using assms(2) by (auto simp: alloc_table_def split: if_splits)
  show "s1 = s" if "c = 0"
    using that c s1 p pa.alloc_oom [OF assms(1), of p] by simp
  assume "c \<noteq> 0"
  then have A: "a \<noteq> 0" using c by simp
  note X = pa.alloc_page [OF assms(1) p A]
  moreover have "managed a" using X by (simp add: pmm_avail_def)
  moreover have "pmm_owners (vm_pmm s) a = 0" using X pa.avail_unowned [OF assms(1), of a] by simp
  ultimately show "managed c \<and> c \<in> pmm_avail (vm_pmm s) \<and> pmm_owners (vm_pmm s) c = 0
      \<and> pmm_wf (vm_pmm s1) \<and> pmm_owners (vm_pmm s1) = (pmm_owners (vm_pmm s))(c := 1)
      \<and> pmm_avail (vm_pmm s1) = pmm_avail (vm_pmm s) - {c}
      \<and> vm_mem s1 = (vm_mem s)(c := zero_words (vm_mem s c)) \<and> s_pml4_phys s1 = s_pml4_phys s"
    using s1(1) [OF A] c by (simp add: vm_zero_def)
qed

text \<open>
  What creating tables on demand may do to a tree: it stays well formed, no leaf entry changes,
  every owned frame outside the tree keeps its contents, owners are kept, and the tables of the tree are the
  old ones and formerly available frames.
\<close>

definition grows :: "nat list set \<Rightarrow> u64 \<Rightarrow> vmm \<Rightarrow> vmm \<Rightarrow> bool" where
  "grows D root s s' \<longleftrightarrow>
     tree_ok D s' root \<and> pmm_wf (vm_pmm s') \<and> s_pml4_phys s' = s_pml4_phys s
   \<and> (\<forall>v. vm_path v \<in> D \<longrightarrow> pte_at s' root v = pte_at s root v)
   \<and> (\<forall>f. pmm_owners (vm_pmm s) f \<noteq> 0 \<longrightarrow> pmm_owners (vm_pmm s') f = pmm_owners (vm_pmm s) f)
   \<and> (\<forall>f. pmm_owners (vm_pmm s) f \<noteq> 0 \<and> f \<notin> tables D s root \<longrightarrow> vm_mem s' f = vm_mem s f)
   \<and> tables D s root \<subseteq> tables D s' root
   \<and> tables D s' root \<subseteq> tables D s root \<union> pmm_avail (vm_pmm s)
   \<and> pmm_avail (vm_pmm s') \<subseteq> pmm_avail (vm_pmm s)"

lemma grows_refl: "tree_ok D s root \<Longrightarrow> pmm_wf (vm_pmm s) \<Longrightarrow> grows D root s s"
  by (simp add: grows_def)

lemma grows_trans:
  assumes wf: "pmm_wf (vm_pmm s1)" and a: "grows D root s1 s2" and b: "grows D root s2 s3"
  shows "grows D root s1 s3"
proof -
  have "vm_mem s3 f = vm_mem s1 f" if f: "pmm_owners (vm_pmm s1) f \<noteq> 0" "f \<notin> tables D s1 root" for f
  proof -
    have "f \<notin> pmm_avail (vm_pmm s1)" using pa.owned_not_avail [OF wf] f(1) by blast
    then have "f \<notin> tables D s2 root" using a f(2) unfolding grows_def by blast
    moreover have "pmm_owners (vm_pmm s2) f \<noteq> 0" using a f(1) unfolding grows_def by simp
    ultimately have "vm_mem s3 f = vm_mem s2 f" using b unfolding grows_def by blast
    then show ?thesis using a f unfolding grows_def by metis
  qed
  then show ?thesis using a b unfolding grows_def by (auto 0 3)
qed

section \<open>Adding one table\<close>

definition path_set :: "nat list set \<Rightarrow> bool" where
  "path_set D \<longleftrightarrow> (\<forall>p\<in>D. length p = 3 \<and> (\<forall>i\<in>set p. i < 512))"

lemma path_set_less: "path_set D \<Longrightarrow> on_paths D p \<Longrightarrow> i \<in> set p \<Longrightarrow> i < 512"
  unfolding path_set_def on_paths_def using set_mono_prefix by blast

lemma path_set_length: "path_set D \<Longrightarrow> on_paths D p \<Longrightarrow> length p \<le> 3"
  unfolding path_set_def on_paths_def using prefix_length_le by fastforce

text \<open>\<open>s'\<close> is \<open>s\<close> with the new table \<open>c\<close> at entry \<open>i\<close> of the table \<open>parent\<close> at path \<open>P\<close>.\<close>

definition adds_table ::
    "nat list set \<Rightarrow> u64 \<Rightarrow> nat list \<Rightarrow> u64 \<Rightarrow> nat \<Rightarrow> u64 \<Rightarrow> u64 \<Rightarrow> vmm \<Rightarrow> vmm \<Rightarrow> bool" where
  "adds_table D root P parent i c extra s s' \<longleftrightarrow>
     path_set D \<and> tree_ok D s root \<and> pmm_wf (vm_pmm s) \<and> on_paths D (P @ [i])
   \<and> walk s root P = Some parent \<and> \<not> present (vm_rd s parent i)
   \<and> extra \<in> {0, VMM_FLAG_USER} \<and> c \<noteq> 0
   \<and> (\<exists>s1. alloc_table s = (s1, c) \<and> s' = vm_wr parent i (c OR table_flags extra) s1)"

lemma adds_table_facts:
  assumes "adds_table D root P parent i c extra s s'"
  shows "managed c" "c \<in> pmm_avail (vm_pmm s)" "pmm_owners (vm_pmm s) c = 0"
    "pmm_wf (vm_pmm s')" "pmm_owners (vm_pmm s') = (pmm_owners (vm_pmm s))(c := 1)"
    "pmm_avail (vm_pmm s') = pmm_avail (vm_pmm s) - {c}" "s_pml4_phys s' = s_pml4_phys s"
    "managed parent" "parent \<noteq> c" "parent \<in> tables D s root"
    "f \<noteq> parent \<Longrightarrow> f \<noteq> c \<Longrightarrow> vm_mem s' f = vm_mem s f"
    "j < 512 \<Longrightarrow> vm_rd s' c j = 0"
    "managed t \<Longrightarrow> t \<noteq> c \<Longrightarrow> vm_rd s' t j
       = (if t = parent \<and> j = i then c OR table_flags extra else vm_rd s t j)"
proof -
  obtain s1 where s1: "alloc_table s = (s1, c)" "s' = vm_wr parent i (c OR table_flags extra) s1"
    and A: "tree_ok D s root" "pmm_wf (vm_pmm s)" "on_paths D P" "walk s root P = Some parent" "c \<noteq> 0"
    using assms on_paths_snocD [of D P i] unfolding adds_table_def by blast
  note C = alloc_table_spec(2) [OF A(2) s1(1) A(5)]
  show "managed c" "c \<in> pmm_avail (vm_pmm s)" "pmm_owners (vm_pmm s) c = 0"
    "pmm_wf (vm_pmm s')" "pmm_owners (vm_pmm s') = (pmm_owners (vm_pmm s))(c := 1)"
    "pmm_avail (vm_pmm s') = pmm_avail (vm_pmm s) - {c}" "s_pml4_phys s' = s_pml4_phys s"
    using C s1(2) by simp_all
  have op: "pmm_owners (vm_pmm s) parent \<noteq> 0" "managed parent"
    using tree_ok_managed [OF A(1,3,4)] by simp_all
  show p: "managed parent" "parent \<noteq> c" using op C by (blast, metis)
  show "parent \<in> tables D s root" using A(3,4) unfolding tables_def by blast
  show "f \<noteq> parent \<Longrightarrow> f \<noteq> c \<Longrightarrow> vm_mem s' f = vm_mem s f"
    using C s1(2) p by (simp add: vm_mem_wr)
  show "j < 512 \<Longrightarrow> vm_rd s' c j = 0"
    using C s1(2) p by (simp add: vm_rd_wr) (simp add: vm_rd_def zero_words_def)
  show "managed t \<Longrightarrow> t \<noteq> c \<Longrightarrow> vm_rd s' t j
       = (if t = parent \<and> j = i then c OR table_flags extra else vm_rd s t j)"
    using C s1(2) p by (simp add: vm_rd_wr) (simp add: vm_rd_def)
qed

lemma adds_table_walk:
  assumes A: "adds_table D root P parent i c extra s s'" and q: "on_paths D q"
  shows "\<not> prefix (P @ [i]) q \<Longrightarrow> walk s' root q = walk s root q"
    and "walk s' root (P @ [i]) = Some c"
    and "strict_prefix (P @ [i]) q \<Longrightarrow> walk s' root q = None"
    and "prefix (P @ [i]) q \<Longrightarrow> walk s root q = None"
proof -
  note F = adds_table_facts [OF A]
  have B: "path_set D" "tree_ok D s root" "on_paths D (P @ [i])" "walk s root P = Some parent"
    "\<not> present (vm_rd s parent i)" "extra \<in> {0, VMM_FLAG_USER}"
    using A unfolding adds_table_def by auto
  have old: "walk s' root q = walk s root q" if "on_paths D q" "\<not> prefix (P @ [i]) q" for q
    using that
  proof (induction q rule: rev_induct)
    case (snoc j q)
    then have q: "on_paths D q" "\<not> prefix (P @ [i]) q" by (auto intro: on_paths_snocD)
    show ?case
    proof (cases "walk s root q")
      case (Some t)
      then have t: "managed t" "t \<noteq> c" using tree_ok_managed [OF B(2) q(1)] F(3) by auto
      have "vm_rd s' t j = vm_rd s t j"
        using F(13) [OF t] tree_ok_inj [OF B(2) q(1) on_paths_snocD [OF B(3)] Some] B(4) snoc.prems(2)
        by auto
      then show ?thesis using snoc.IH [OF q] Some by (simp add: walk_snoc)
    qed (use snoc.IH [OF q] in \<open>simp add: walk_snoc\<close>)
  qed simp
  show "walk s' root q = walk s root q" if "\<not> prefix (P @ [i]) q" using old q that by blast
  have "walk s' root P = Some parent"
    using old [OF on_paths_snocD [OF B(3)]] B(4) by simp
  then show c: "walk s' root (P @ [i]) = Some c"
    using F(13) [OF F(8,9), of i] table_entry [OF F(1) B(6)] by (simp add: walk_snoc)
  show "walk s' root q = None" if sp: "strict_prefix (P @ [i]) q"
  proof -
    obtain j r where qr: "q = (P @ [i]) @ j # r" using sp by (auto elim: strict_prefixE')
    have "vm_rd s' c j = 0" using path_set_less [OF B(1) q] qr by (intro F(12)) auto
    moreover have "walk s' root q = (case walk s' root (P @ [i]) of None \<Rightarrow> None
        | Some u \<Rightarrow> walk s' u (j # r))"
      unfolding qr by (rule walk_append)
    ultimately show ?thesis by (simp add: c)
  qed
  show "walk s root q = None" if pr: "prefix (P @ [i]) q"
  proof -
    obtain r where "q = (P @ [i]) @ r" using pr by (auto elim: prefixE)
    then have "walk s root q = (case walk s root (P @ [i]) of None \<Rightarrow> None | Some u \<Rightarrow> walk s u r)"
      by (simp only: walk_append)
    moreover have "walk s root (P @ [i]) = None" using B(4,5) by (simp add: walk_snoc)
    ultimately show ?thesis by simp
  qed
qed

lemma adds_table_walk_iff:
  assumes A: "adds_table D root P parent i c extra s s'" and q: "on_paths D q"
  shows "walk s' root q = Some t \<longleftrightarrow>
    q = P @ [i] \<and> t = c \<or> \<not> prefix (P @ [i]) q \<and> walk s root q = Some t"
proof -
  note W = adds_table_walk [OF A q]
  consider "q = P @ [i]" | "strict_prefix (P @ [i]) q" "q \<noteq> P @ [i]" | "\<not> prefix (P @ [i]) q" "q \<noteq> P @ [i]"
    by (metis prefix_order.le_neq_trans prefix_order.refl)
  then show ?thesis
  proof cases
    case 2
    then have "prefix (P @ [i]) q" by (rule_tac prefix_order.less_imp_le)
    then show ?thesis using W(3) [OF 2(1)] 2(2) by simp
  qed (use W(1,2) in auto)
qed

lemma adds_table_tables:
  assumes A: "adds_table D root P parent i c extra s s'"
  shows "tables D s' root = insert c (tables D s root)"
proof (intro set_eqI iffI)
  fix t
  assume "t \<in> tables D s' root"
  then obtain q where q: "on_paths D q" "walk s' root q = Some t" by (auto simp: tables_def)
  then show "t \<in> insert c (tables D s root)"
    unfolding adds_table_walk_iff [OF A q(1)] by (auto simp: tables_def)
next
  fix t
  assume t: "t \<in> insert c (tables D s root)"
  have "on_paths D (P @ [i])" using A by (simp add: adds_table_def)
  then have "c \<in> tables D s' root" using adds_table_walk(2) [OF A] by (auto simp: tables_def)
  moreover have "t \<in> tables D s' root" if "t \<in> tables D s root"
  proof -
    obtain q where q: "on_paths D q" "walk s root q = Some t" using \<open>t \<in> tables D s root\<close> by (auto simp: tables_def)
    note W = adds_table_walk [OF A q(1)]
    show ?thesis using W q by (cases "prefix (P @ [i]) q") (auto simp: tables_def)
  qed
  ultimately show "t \<in> tables D s' root" using t by blast
qed

lemma adds_table_tree_ok:
  assumes A: "adds_table D root P parent i c extra s s'"
  shows "tree_ok D s' root"
proof -
  note F = adds_table_facts [OF A]
  have B: "path_set D" "tree_ok D s root" "on_paths D (P @ [i])" "walk s root P = Some parent"
    "extra \<in> {0, VMM_FLAG_USER}"
    using A unfolding adds_table_def by auto
  note w = adds_table_walk_iff [OF A]
  have nc: "t \<noteq> c \<and> managed t" if "on_paths D p" "walk s root p = Some t" for p t
    using tree_ok_managed [OF B(2) that] F(3) by auto
  have "p = q" if "on_paths D p" "on_paths D q" "walk s' root p = Some t" "walk s' root q = Some t" for p q t
    using that nc tree_ok_inj [OF B(2)] unfolding w [OF that(1)] w [OF that(2)] by blast
  moreover have "pmm_owners (vm_pmm s') t \<noteq> 0" if "t \<in> tables D s' root" for t
    using that B(2) unfolding adds_table_tables [OF A] F(5) tree_ok_def by auto
  moreover have "vm_rd s' t k AND PTE_PS = 0"
    if p: "on_paths D (p @ [k])" "length p = 2" "walk s' root p = Some t" "present (vm_rd s' t k)" for p k t
  proof (cases "t = c")
    case True
    then have "vm_rd s' t k = 0" using path_set_less [OF B(1) p(1)] by (simp add: F(12))
    then show ?thesis by simp
  next
    case False
    then have o: "walk s root p = Some t" using p(3) w [OF on_paths_snocD [OF p(1)]] by simp
    have e: "vm_rd s' t k = (if t = parent \<and> k = i then c OR table_flags extra else vm_rd s t k)"
      using nc [OF on_paths_snocD [OF p(1)] o] by (intro F(13)) auto
    show ?thesis
      using tree_ok_no_ps [OF B(2) p(1,2) o] table_entry(3) [OF F(1) B(5)] p(4) unfolding e
      by (auto split: if_splits)
  qed
  ultimately show ?thesis unfolding tree_ok_def by blast
qed

lemma index_less:
  "pml4_index v < 512" "pdpt_index v < 512" "pd_index v < 512" "pt_index v < 512"
proof -
  have "unat (w AND 0x1FF) < 512" for w :: u64
  proof -
    have "w AND 0x1FF \<le> 0x1FF" by (rule word_and_le1)
    then have "unat (w AND 0x1FF) \<le> unat (0x1FF :: u64)" by (simp only: word_le_nat_alt)
    then show ?thesis by simp
  qed
  then show "pml4_index v < 512" "pdpt_index v < 512" "pd_index v < 512" "pt_index v < 512"
    by (simp_all add: pml4_index_def pdpt_index_def pd_index_def pt_index_def)
qed

lemma on_paths_full: "p \<in> D \<Longrightarrow> on_paths D p"
  by (auto simp: on_paths_def)

lemma adds_table_pte:
  assumes A: "adds_table D root P parent i c extra s s'" and v: "vm_path v \<in> D"
  shows "pte_at s' root v = pte_at s root v"
proof -
  note F = adds_table_facts [OF A]
  have B: "path_set D" "tree_ok D s root" "on_paths D (P @ [i])" "walk s root P = Some parent"
    using A unfolding adds_table_def by auto
  note d = on_paths_full [OF v]
  note W = adds_table_walk [OF A d]
  show ?thesis
  proof (cases "prefix (P @ [i]) (vm_path v)")
    case True
    then have "walk s root (vm_path v) = None" by (rule W(4))
    moreover have "walk s' root (vm_path v) \<in> {None, Some c}"
      using True adds_table_walk_iff [OF A d] by (cases "walk s' root (vm_path v)") auto
    ultimately show ?thesis using F(12) [OF index_less(4)] by (auto simp: pte_at_def)
  next
    case False
    have "vm_rd s' t j = vm_rd s t j" if t: "walk s root (vm_path v) = Some t" for t j
    proof -
      have "t \<noteq> c" "managed t" using tree_ok_managed [OF B(2) d t] F(3) by auto
      moreover have "t \<noteq> parent"
      proof
        assume "t = parent"
        then have "vm_path v = P" using tree_ok_inj [OF B(2) d on_paths_snocD [OF B(3)] t] B(4) by simp
        then show False using path_set_length [OF B(1,3)] by (auto simp: vm_path_def)
      qed
      ultimately show ?thesis by (simp add: F(13))
    qed
    then show ?thesis using W(1) [OF False] by (simp add: pte_at_def split: option.split)
  qed
qed

lemma adds_table_grows:
  assumes A: "adds_table D root P parent i c extra s s'"
  shows "grows D root s s'"
proof -
  note F = adds_table_facts [OF A]
  have "vm_mem s' f = vm_mem s f" if "pmm_owners (vm_pmm s) f \<noteq> 0" "f \<notin> tables D s root" for f
    using that F(3,10) by (intro F(11)) auto
  moreover have "pmm_owners (vm_pmm s') f = pmm_owners (vm_pmm s) f" if "pmm_owners (vm_pmm s) f \<noteq> 0" for f
    using that F(3,5) by auto
  ultimately show ?thesis
    unfolding grows_def adds_table_tables [OF A]
    using adds_table_tree_ok [OF A] adds_table_pte [OF A] F(2,4,6,7) by auto
qed

section \<open>Tables on demand\<close>

lemma ensure_table_spec:
  assumes D: "path_set D" "tree_ok D s root" "pmm_wf (vm_pmm s)" "on_paths D (P @ [i])"
      "walk s root P = Some parent" "extra \<in> {0, VMM_FLAG_USER}"
    and e: "ensure_table_phys parent i extra s = (s', c)"
  shows "grows D root s s' \<and> (c \<noteq> 0 \<longrightarrow> walk s' root (P @ [i]) = Some c)"
proof (cases "present (vm_rd s parent i)")
  case True
  then have "s' = s" "c = ARCH_PTE_ADDR (vm_rd s parent i)" using e by (auto simp: ensure_table_phys_def)
  then show ?thesis using True D by (simp add: grows_refl walk_snoc)
next
  case False
  obtain s1 c1 where a: "alloc_table s = (s1, c1)" by (cases "alloc_table s")
  show ?thesis
  proof (cases "c1 = 0")
    case True
    then show ?thesis using a False e D alloc_table_spec(1) [OF D(3) a]
      by (simp add: ensure_table_phys_def grows_refl)
  next
    case c1: False
    then have "c = c1" "s' = vm_wr parent i (c OR table_flags extra) s1"
      using a False e by (auto simp: ensure_table_phys_def table_flags_def arch_pte_from_flags_def)
    then have "adds_table D root P parent i c extra s s'"
      unfolding adds_table_def using D False a c1 by blast
    then show ?thesis using adds_table_grows adds_table_walk(2) [OF _ D(4)] by blast
  qed
qed

text \<open>The three calls of \<^verbatim>\<open>ensure_table_phys\<close> that every mapping function starts with.\<close>

definition ensure_path :: "u64 \<Rightarrow> u64 \<Rightarrow> u64 \<Rightarrow> vmm \<Rightarrow> vmm \<times> u64" where
  "ensure_path root virt extra s =
    (case ensure_table_phys root (pml4_index virt) extra s of (s1, pdpt_phys) \<Rightarrow>
     if pdpt_phys = 0 then (s1, 0)
     else case ensure_table_phys pdpt_phys (pdpt_index virt) extra s1 of (s2, pd_phys) \<Rightarrow>
     if pd_phys = 0 then (s2, 0)
     else ensure_table_phys pd_phys (pd_index virt) extra s2)"

lemma map_user_page_nolock_path:
  "vmm_map_user_page_nolock root virt phys flags s =
    (case ensure_path root virt VMM_FLAG_USER s of (s3, pt) \<Rightarrow>
     if pt = 0 then Ret (s3, -1)
     else if present (vm_rd s3 pt (pt_index virt)) then Panic ''[VMM] FAIL: vmm_map_user_page double-map''
     else Ret (vm_wr pt (pt_index virt) (phys OR flags OR VMM_FLAG_PRESENT) s3, 0))"
  by (auto simp: vmm_map_user_page_nolock_def ensure_path_def arch_pte_from_flags_def or.assoc
      split: prod.split)

lemma ensure_path_spec:
  assumes D: "path_set D" "tree_ok D s root" "pmm_wf (vm_pmm s)" "vm_path virt \<in> D"
      "extra \<in> {0, VMM_FLAG_USER}"
    and e: "ensure_path root virt extra s = (s', pt)"
  shows "grows D root s s' \<and> (pt \<noteq> 0 \<longrightarrow> walk s' root (vm_path virt) = Some pt)"
proof -
  have p3: "on_paths D ([pml4_index virt, pdpt_index virt] @ [pd_index virt])"
    using on_paths_full [OF D(4)] by (simp add: vm_path_def)
  have p2: "on_paths D ([pml4_index virt] @ [pdpt_index virt])" using on_paths_snocD [OF p3] by simp
  have p1: "on_paths D ([] @ [pml4_index virt])" using on_paths_snocD [OF p2] by simp
  obtain s1 t1 where e1: "ensure_table_phys root (pml4_index virt) extra s = (s1, t1)"
    by (cases "ensure_table_phys root (pml4_index virt) extra s")
  note G1 = ensure_table_spec [OF D(1-3) p1 _ D(5) e1, simplified]
  show ?thesis
  proof (cases "t1 = 0")
    case True
    then show ?thesis using G1 e e1 by (simp add: ensure_path_def)
  next
    case t1: False
    obtain s2 t2 where e2: "ensure_table_phys t1 (pdpt_index virt) extra s1 = (s2, t2)"
      by (cases "ensure_table_phys t1 (pdpt_index virt) extra s1")
    have ok1: "tree_ok D s1 root" "pmm_wf (vm_pmm s1)" "walk s1 root [pml4_index virt] = Some t1"
      using G1 t1 by (auto simp: grows_def)
    note G2 = ensure_table_spec [OF D(1) ok1(1,2) p2 ok1(3) D(5) e2, simplified]
    have g2: "grows D root s s2" using grows_trans [OF D(3)] G1 G2 by blast
    show ?thesis
    proof (cases "t2 = 0")
      case True
      then show ?thesis using g2 e e1 e2 t1 by (simp add: ensure_path_def)
    next
      case t2: False
      have ok2: "tree_ok D s2 root" "pmm_wf (vm_pmm s2)"
        "walk s2 root [pml4_index virt, pdpt_index virt] = Some t2"
        using G2 t2 by (auto simp: grows_def)
      have e3: "ensure_table_phys t2 (pd_index virt) extra s2 = (s', pt)"
        using e e1 e2 t1 t2 by (simp add: ensure_path_def)
      have G3: "grows D root s2 s' \<and> (pt \<noteq> 0 \<longrightarrow>
          walk s' root ([pml4_index virt, pdpt_index virt] @ [pd_index virt]) = Some pt)"
        by (rule ensure_table_spec [OF D(1) ok2(1,2) p3 ok2(3) D(5) e3])
      then show ?thesis using grows_trans [OF D(3) g2] by (auto simp: vm_path_def)
    qed
  qed
qed

section \<open>Writing a leaf entry\<close>

definition sets_pte :: "nat list set \<Rightarrow> u64 \<Rightarrow> u64 \<Rightarrow> u64 \<Rightarrow> vmm \<Rightarrow> vmm \<Rightarrow> bool" where
  "sets_pte D root v w s s' \<longleftrightarrow> tree_ok D s' root
   \<and> (\<forall>q. on_paths D q \<longrightarrow> walk s' root q = walk s root q)
   \<and> (\<forall>x. vm_path x \<in> D \<longrightarrow> pte_at s' root x = (if same_page x v then w else pte_at s root x))
   \<and> vm_pmm s' = vm_pmm s \<and> s_pml4_phys s' = s_pml4_phys s
   \<and> tables D s' root = tables D s root
   \<and> (\<forall>f. f \<notin> tables D s root \<longrightarrow> vm_mem s' f = vm_mem s f)"

lemma leaf_wr_sets_pte:
  assumes D: "path_set D" "tree_ok D s root" "vm_path v \<in> D" and pt: "walk s root (vm_path v) = Some pt"
  shows "sets_pte D root v w s (vm_wr pt (pt_index v) w s)"
proof -
  let ?s' = "vm_wr pt (pt_index v) w s"
  note d = on_paths_full [OF D(3)]
  have mpt: "managed pt" using tree_ok_managed [OF D(2) d pt] by simp
  have walks: "walk ?s' root q = walk s root q" if "on_paths D q" for q
  proof (rule walk_wr [OF D(2) d pt that])
    show "\<not> prefix (vm_path v @ [pt_index v]) q"
      using path_set_length [OF D(1) that] by (auto simp: vm_path_def dest!: prefix_length_le)
  qed
  then have tabs: "tables D ?s' root = tables D s root" by (auto simp: tables_def)
  have rd: "vm_rd ?s' t j = vm_rd s t j" if "on_paths D q" "walk s root q = Some t" "q \<noteq> vm_path v" for q t j
  proof -
    have "t \<noteq> pt" using tree_ok_inj [OF D(2) that(1) d that(2)] pt that(3) by auto
    then show ?thesis using tree_ok_managed [OF D(2) that(1,2)] mpt by (simp add: vm_rd_wr)
  qed
  have "tree_ok D ?s' root"
    unfolding tree_ok_def tabs
  proof (intro conjI allI impI)
    show "\<forall>t\<in>tables D s root. pmm_owners (vm_pmm ?s') t \<noteq> 0" using D(2) by (simp add: tree_ok_def)
  next
    fix p q t
    assume "on_paths D p \<and> on_paths D q \<and> walk ?s' root p = Some t \<and> walk ?s' root q = Some t"
    then show "p = q" using walks by (intro tree_ok_inj [OF D(2), of p q t]) auto
  next
    fix p i t
    assume a: "on_paths D (p @ [i]) \<and> length p = 2 \<and> walk ?s' root p = Some t \<and> present (vm_rd ?s' t i)"
    then have p: "on_paths D p" "walk s root p = Some t" "p \<noteq> vm_path v"
      using walks on_paths_snocD by (auto simp: vm_path_def)
    then show "vm_rd ?s' t i AND PTE_PS = 0"
      using rd [OF p] a tree_ok_no_ps [OF D(2), of p i t] by simp
  qed
  moreover have "pte_at ?s' root x = (if same_page x v then w else pte_at s root x)" if "vm_path x \<in> D" for x
  proof (cases "vm_path x = vm_path v")
    case True
    then show ?thesis using walks [OF d] pt by (simp add: pte_at_def same_page_def vm_rd_wr)
  next
    case False
    then show ?thesis using walks [OF on_paths_full [OF that]] rd [OF on_paths_full [OF that]]
      by (auto simp: pte_at_def same_page_def split: option.split)
  qed
  moreover have "vm_mem ?s' f = vm_mem s f" if "f \<notin> tables D s root" for f
  proof -
    have "pt \<in> tables D s root" using d pt by (auto simp: tables_def)
    then show ?thesis using that mpt by (intro vm_mem_wr) auto
  qed
  ultimately show ?thesis using walks by (simp add: sets_pte_def tabs)
qed

end
