(* ===== verification/Vmm_User.thy ===== *)
theory Vmm_User
  imports Vmm_Tree
begin

text \<open>
  User address spaces: what the functions of \<^verbatim>\<open>vmm.c\<close> that map, look up, unmap and protect a
  user page do to the page-table entries of the lower half, and the copy-on-write machinery of
  fork.  The state of an address space is the function \<open>pte_at\<close> from addresses to entries.
\<close>

section \<open>The user half\<close>

definition user_paths :: "nat list set" where
  "user_paths = {p. length p = 3 \<and> (\<forall>i\<in>set p. i < 512) \<and> hd p < 256}"

lemma path_set_user [simp]: "path_set user_paths"
  by (auto simp: path_set_def user_paths_def)

lemma user_path_iff: "vm_path v \<in> user_paths \<longleftrightarrow> pml4_index v < 256"
  using index_less [of v] by (auto simp: user_paths_def vm_path_def)

lemma index_div:
  "pml4_index v = unat v div 2 ^ 39 mod 512" "pdpt_index v = unat v div 2 ^ 30 mod 512"
  "pd_index v = unat v div 2 ^ 21 mod 512" "pt_index v = unat v div 2 ^ 12 mod 512"
proof -
  have "unat (drop_bit k v AND 0x1FF) = unat v div 2 ^ k mod 512" for k
  proof -
    have "drop_bit k v AND 0x1FF = take_bit 9 (drop_bit k v)"
      by (simp add: take_bit_eq_mask mask_eq_exp_minus_1)
    then have "unat (drop_bit k v AND 0x1FF) = take_bit 9 (drop_bit k (unat v))"
      using unsigned_less [of v, where ?'a = nat]
      by (simp only: unsigned_take_bit_eq) (simp add: unsigned_drop_bit_eq take_bit_nat_eq_self)
    then show ?thesis by (simp add: take_bit_eq_mod drop_bit_eq_div)
  qed
  then show "pml4_index v = unat v div 2 ^ 39 mod 512" "pdpt_index v = unat v div 2 ^ 30 mod 512"
    "pd_index v = unat v div 2 ^ 21 mod 512" "pt_index v = unat v div 2 ^ 12 mod 512"
    unfolding pml4_index_def pdpt_index_def pd_index_def pt_index_def by blast+
qed

text \<open>Pages with the same table indices and the same top bits are the same page.\<close>

lemma same_page_div:
  assumes "same_page v w" "unat v div 2 ^ 39 = unat w div 2 ^ 39"
  shows "unat v div 4096 = unat w div 4096"
proof -
  have idx: "unat v div 2 ^ 30 mod 512 = unat w div 2 ^ 30 mod 512"
    "unat v div 2 ^ 21 mod 512 = unat w div 2 ^ 21 mod 512"
    "unat v div 2 ^ 12 mod 512 = unat w div 2 ^ 12 mod 512"
    using assms(1) by (auto simp: same_page_def vm_path_def index_div)
  have join: "x div 2 ^ k = y div 2 ^ k" if "x div 2 ^ (k + 9) = y div 2 ^ (k + 9)" "x div 2 ^ k mod 512 = y div 2 ^ k mod 512"
    for x y k :: nat
  proof -
    have "x div 2 ^ (k + 9) = x div 2 ^ k div 512" "y div 2 ^ (k + 9) = y div 2 ^ k div 512"
      by (simp_all add: power_add div_mult2_eq)
    then show ?thesis using that by (metis div_mod_decomp)
  qed
  have "unat v div 2 ^ 30 = unat w div 2 ^ 30" using join [of "unat v" 30 "unat w"] idx(1) assms(2) by simp
  then have "unat v div 2 ^ 21 = unat w div 2 ^ 21" using join [of "unat v" 21 "unat w"] idx(2) by simp
  then have "unat v div 2 ^ 12 = unat w div 2 ^ 12" using join [of "unat v" 12 "unat w"] idx(3) by simp
  then show ?thesis by simp
qed

text \<open>Page addresses below \<open>2^47\<close>.\<close>

definition upage :: "u64 \<Rightarrow> bool" where
  "upage v \<longleftrightarrow> unat v < 2 ^ 47 \<and> 4096 dvd unat v"

lemma upage_va_ok: "upage v \<Longrightarrow> vm_path v \<in> user_paths"
proof -
  assume "upage v"
  then have "unat v div 2 ^ 39 < 256" by (simp add: upage_def div_less_iff_less_mult)
  then show ?thesis by (simp add: user_path_iff index_div)
qed

lemma upage_same:
  assumes "upage v" "upage w"
  shows "same_page v w \<longleftrightarrow> v = w"
proof
  assume s: "same_page v w"
  have "unat u div 2 ^ 39 < 512" if "upage u" for u using that by (simp add: upage_def div_less_iff_less_mult)
  then have "unat v div 2 ^ 39 = unat w div 2 ^ 39"
    using s assms by (simp add: same_page_def vm_path_def index_div)
  from same_page_div [OF s this] show "v = w"
    using assms by (metis upage_def dvd_div_mult_self word_unat_eq_iff)
qed (simp add: same_page_def)

abbreviation uspace_ok :: "vmm \<Rightarrow> u64 \<Rightarrow> bool" where
  "uspace_ok s root \<equiv> tree_ok user_paths s root"

abbreviation user_va_ok :: "u64 \<Rightarrow> bool" where
  "user_va_ok v \<equiv> vm_path v \<in> user_paths"

section \<open>Single pages\<close>

lemma walk_vm_path:
  "walk s root (vm_path v) =
    (let pml4e = vm_rd s root (pml4_index v) in
     if \<not> present pml4e then None
     else let pdpte = vm_rd s (ARCH_PTE_ADDR pml4e) (pdpt_index v) in
     if \<not> present pdpte then None
     else let pde = vm_rd s (ARCH_PTE_ADDR pdpte) (pd_index v) in
     if \<not> present pde then None else Some (ARCH_PTE_ADDR pde))"
  by (simp add: vm_path_def Let_def)

lemma walk_no_huge:
  assumes "tree_ok D s root" "vm_path v \<in> D"
    and "present (vm_rd s root (pml4_index v))"
    and "present (vm_rd s (ARCH_PTE_ADDR (vm_rd s root (pml4_index v))) (pdpt_index v))"
    and "present (vm_rd s (ARCH_PTE_ADDR (vm_rd s (ARCH_PTE_ADDR (vm_rd s root (pml4_index v)))
           (pdpt_index v))) (pd_index v))"
  shows "vm_rd s (ARCH_PTE_ADDR (vm_rd s (ARCH_PTE_ADDR (vm_rd s root (pml4_index v)))
           (pdpt_index v))) (pd_index v) AND PTE_PS = 0"
proof (rule tree_ok_no_ps [OF assms(1), of "[pml4_index v, pdpt_index v]"])
  show "on_paths D ([pml4_index v, pdpt_index v] @ [pd_index v])"
    using on_paths_full [OF assms(2)] by (simp add: vm_path_def)
qed (use assms in simp_all)

lemma phys_of_user_pte:
  assumes "tree_ok D s root" "vm_path v \<in> D"
  shows "vmm_phys_of_user_nolock root v s
    = (if present (pte_at s root v) then ARCH_PTE_ADDR (pte_at s root v) else 0)"
  using walk_no_huge [OF assms]
  by (simp add: vmm_phys_of_user_nolock_def pte_at_def walk_vm_path Let_def)

lemma phys_of_user_raw_pte:
  assumes "tree_ok D s root" "vm_path v \<in> D"
  shows "vmm_phys_of_user_raw root v s = ARCH_PTE_ADDR (pte_at s root v)"
  using walk_no_huge [OF assms]
  by (simp add: vmm_phys_of_user_raw_def pte_at_def walk_vm_path Let_def ARCH_PTE_ADDR_def)

lemma unmap_user_pte:
  assumes "path_set D" "tree_ok D s root" "vm_path v \<in> D"
  shows "if present (pte_at s root v) then sets_pte D root v 0 s (vmm_unmap_user_page root v s)
    else vmm_unmap_user_page root v s = s"
proof (cases "walk s root (vm_path v)")
  case None
  then show ?thesis
    by (auto simp: pte_at_def walk_vm_path vmm_unmap_user_page_def Let_def split: if_splits)
next
  case (Some pt)
  then have "vmm_unmap_user_page root v s =
      (if present (vm_rd s pt (pt_index v)) then vm_wr pt (pt_index v) 0 s else s)"
    using walk_no_huge [OF assms(2,3)]
    by (auto simp: walk_vm_path vmm_unmap_user_page_def Let_def split: if_splits)
  then show ?thesis using leaf_wr_sets_pte [OF assms Some, of 0] Some by (simp add: pte_at_def)
qed

lemma set_user_prot_pte:
  assumes "path_set D" "tree_ok D s root" "vm_path v \<in> D" "vmm_set_user_prot root v flags s = (s', r)"
  shows "if present (pte_at s root v)
    then r = 0 \<and> sets_pte D root v
      (if flags = 0 then ARCH_PTE_ADDR (pte_at s root v) else ARCH_PTE_ADDR (pte_at s root v) OR flags) s s'
    else s' = s \<and> (flags \<noteq> 0 \<longrightarrow> r = -1)"
proof (cases "walk s root (vm_path v)")
  case None
  then show ?thesis using assms(4)
    by (auto simp: pte_at_def walk_vm_path vmm_set_user_prot_def Let_def split: if_splits)
next
  case (Some pt)
  let ?e = "vm_rd s pt (pt_index v)"
  have "vmm_set_user_prot root v flags s =
      (if \<not> present ?e \<and> flags = 0 then (s, 0) else if \<not> present ?e then (s, -1)
       else (vm_wr pt (pt_index v) (if flags = 0 then ARCH_PTE_ADDR ?e else ARCH_PTE_ADDR ?e OR flags) s, 0))"
    using walk_no_huge [OF assms(2,3)] Some
    by (auto simp: walk_vm_path vmm_set_user_prot_def Let_def arch_pte_from_flags_def split: if_splits)
  then show ?thesis
    using assms(4) leaf_wr_sets_pte [OF assms(1-3) Some] Some by (auto simp: pte_at_def split: if_splits)
qed

lemma map_user_nolock_spec:
  assumes D: "path_set D" "tree_ok D s root" "pmm_wf (vm_pmm s)" "vm_path v \<in> D"
    and m: "vmm_map_user_page_nolock root v phys flags s = Ret (s', r)"
  shows "r = -1 \<and> grows D root s s' \<or>
    r = 0 \<and> \<not> present (pte_at s root v)
    \<and> (\<exists>s3. grows D root s s3 \<and> sets_pte D root v (phys OR flags OR VMM_FLAG_PRESENT) s3 s')"
proof -
  obtain s3 pt where e: "ensure_path root v VMM_FLAG_USER s = (s3, pt)"
    by (cases "ensure_path root v VMM_FLAG_USER s")
  have G: "grows D root s s3" "pt \<noteq> 0 \<Longrightarrow> walk s3 root (vm_path v) = Some pt"
    using ensure_path_spec [OF D _ e] by auto
  show ?thesis
  proof (cases "pt = 0")
    case True
    then show ?thesis using m e G(1) by (simp add: map_user_page_nolock_path)
  next
    case False
    then have w: "walk s3 root (vm_path v) = Some pt" by (rule G(2))
    have np: "\<not> present (vm_rd s3 pt (pt_index v))" "r = 0"
      "s' = vm_wr pt (pt_index v) (phys OR flags OR VMM_FLAG_PRESENT) s3"
      using m e False by (auto simp: map_user_page_nolock_path split: if_splits)
    have "pte_at s3 root v = pte_at s root v" "tree_ok D s3 root" using G(1) D(4) by (auto simp: grows_def)
    then have "\<not> present (pte_at s root v)" using np(1) w by (simp add: pte_at_def)
    moreover have "sets_pte D root v (phys OR flags OR VMM_FLAG_PRESENT) s3 s'"
      unfolding np(3) by (rule leaf_wr_sets_pte [OF D(1) \<open>tree_ok D s3 root\<close> D(4) w])
    ultimately show ?thesis using G(1) np(2) by blast
  qed
qed

section \<open>Other address spaces\<close>

lemma tree_ok_cong:
  assumes ok: "tree_ok D s root"
    and mem: "\<And>t. t \<in> tables D s root \<Longrightarrow> vm_mem s' t = vm_mem s t"
    and own: "\<And>t. t \<in> tables D s root \<Longrightarrow> pmm_owners (vm_pmm s') t \<noteq> 0"
  shows "tree_ok D s' root" "tables D s' root = tables D s root"
    "vm_path v \<in> D \<Longrightarrow> pte_at s' root v = pte_at s root v"
    "on_paths D q \<Longrightarrow> walk s' root q = walk s root q"
proof -
  have m: "ARCH_PTE_ADDR t = t" if "t \<in> tables D s root" for t
    using that ok owned_managed by (force simp: tree_ok_def)
  show w: "walk s' root q = walk s root q" if "on_paths D q" for q
    using that mem m by (intro walk_cong [of D]) simp_all
  have rd: "vm_rd s' t j = vm_rd s t j" if "on_paths D q" "walk s root q = Some t" for q t j
  proof (rule vm_rd_cong)
    have "t \<in> tables D s root" using that by (auto simp: tables_def)
    then show "vm_mem s' (ARCH_PTE_ADDR t) = vm_mem s (ARCH_PTE_ADDR t)" using mem m by simp
  qed
  show tabs: "tables D s' root = tables D s root" using w by (auto simp: tables_def)
  show "tree_ok D s' root"
    unfolding tree_ok_def tabs
  proof (intro conjI allI impI ballI)
    fix p q t
    assume "on_paths D p \<and> on_paths D q \<and> walk s' root p = Some t \<and> walk s' root q = Some t"
    then show "p = q" using w by (intro tree_ok_inj [OF ok, of p q t]) auto
  next
    fix p i t
    assume a: "on_paths D (p @ [i]) \<and> length p = 2 \<and> walk s' root p = Some t \<and> present (vm_rd s' t i)"
    then have p: "on_paths D p" "walk s root p = Some t" using w on_paths_snocD by auto
    then show "vm_rd s' t i AND PTE_PS = 0" using rd [OF p] a tree_ok_no_ps [OF ok, of p i t] by simp
  qed (rule own)
  show "pte_at s' root v = pte_at s root v" if "vm_path v \<in> D"
    using w [OF on_paths_full [OF that]] rd [OF on_paths_full [OF that]]
    by (simp add: pte_at_def split: option.split)
qed

text \<open>Two trees without a common table, and what it means that an operation leaves a tree alone.\<close>

definition apart :: "nat list set \<Rightarrow> vmm \<Rightarrow> u64 \<Rightarrow> nat list set \<Rightarrow> u64 \<Rightarrow> bool" where
  "apart D s root D2 r2 \<longleftrightarrow> tables D s root \<inter> tables D2 s r2 = {}"

definition untouched :: "nat list set \<Rightarrow> u64 \<Rightarrow> vmm \<Rightarrow> vmm \<Rightarrow> bool" where
  "untouched D2 r2 s s' \<longleftrightarrow> tree_ok D2 s' r2 \<and> tables D2 s' r2 = tables D2 s r2
     \<and> (\<forall>q. on_paths D2 q \<longrightarrow> walk s' r2 q = walk s r2 q)
     \<and> (\<forall>x. vm_path x \<in> D2 \<longrightarrow> pte_at s' r2 x = pte_at s r2 x)"

lemma untouched_trans: "untouched D2 r2 s1 s2 \<Longrightarrow> untouched D2 r2 s2 s3 \<Longrightarrow> untouched D2 r2 s1 s3"
  by (simp add: untouched_def)

lemma grows_untouched:
  assumes "pmm_wf (vm_pmm s)" "grows D root s s'" "tree_ok D2 s r2" "apart D s root D2 r2"
  shows "untouched D2 r2 s s'" "apart D s' root D2 r2"
proof -
  have t: "pmm_owners (vm_pmm s) t \<noteq> 0 \<and> t \<notin> tables D s root \<and> t \<notin> pmm_avail (vm_pmm s)"
    if "t \<in> tables D2 s r2" for t
    using that assms(3,4) pa.owned_not_avail [OF assms(1), of t] unfolding apart_def tree_ok_def by blast
  have "vm_mem s' t = vm_mem s t" "pmm_owners (vm_pmm s') t \<noteq> 0" if "t \<in> tables D2 s r2" for t
    using t [OF that] assms(2) unfolding grows_def by (blast, simp)
  note C = tree_ok_cong [OF assms(3) this]
  show U: "untouched D2 r2 s s'" unfolding untouched_def using C by blast
  have "tables D s' root \<subseteq> tables D s root \<union> pmm_avail (vm_pmm s)"
    using assms(2) by (simp add: grows_def)
  moreover have "tables D2 s' r2 = tables D2 s r2" using U by (simp add: untouched_def)
  ultimately show "apart D s' root D2 r2" using t unfolding apart_def by blast
qed

lemma sets_pte_untouched:
  assumes "sets_pte D root v w s s'" "tree_ok D2 s r2" "apart D s root D2 r2"
  shows "untouched D2 r2 s s'" "apart D s' root D2 r2"
proof -
  have "vm_mem s' t = vm_mem s t" "pmm_owners (vm_pmm s') t \<noteq> 0" if "t \<in> tables D2 s r2" for t
    using that assms unfolding sets_pte_def apart_def tree_ok_def by (blast, simp)
  note C = tree_ok_cong [OF assms(2) this]
  show U: "untouched D2 r2 s s'" unfolding untouched_def using C by blast
  then show "apart D s' root D2 r2"
    using assms(1,3) by (simp add: apart_def untouched_def sets_pte_def)
qed

section \<open>Mapping succeeds when memory is available\<close>

lemma finite_pmm_avail: "finite (pmm_avail p)"
  by (rule finite_subset [OF subset_UNIV]) simp

lemma ensure_table_success:
  assumes "pmm_wf (vm_pmm s)" "n < card (pmm_avail (vm_pmm s))" "tree_ok D s root"
    and "on_paths D (P @ [i])" "walk s root P = Some parent"
    and "ensure_table_phys parent i extra s = (s', c)"
  shows "c \<noteq> 0 \<and> n \<le> card (pmm_avail (vm_pmm s'))"
proof (cases "present (vm_rd s parent i)")
  case True
  then have "walk s root (P @ [i]) = Some c" "s' = s"
    using assms(5,6) by (auto simp: ensure_table_phys_def walk_snoc)
  moreover from this have "pmm_owners (vm_pmm s) c \<noteq> 0" using tree_ok_managed [OF assms(3,4)] by simp
  ultimately show ?thesis using pa.null_reserved [OF assms(1)] assms(2) by auto
next
  case False
  obtain s1 c1 where a: "alloc_table s = (s1, c1)" by (cases "alloc_table s")
  have "c1 \<noteq> 0"
  proof
    assume "c1 = 0"
    then have "pmm_alloc_page (vm_pmm s) = (vm_pmm s1, 0)"
      using a by (auto simp: alloc_table_def split: prod.splits if_splits)
    then have "pmm_avail (vm_pmm s) = {}" using pa.alloc_oom [OF assms(1)] by blast
    then show False using assms(2) by simp
  qed
  moreover have "c = c1" "vm_pmm s' = vm_pmm s1"
    using a False assms(6) \<open>c1 \<noteq> 0\<close> by (auto simp: ensure_table_phys_def)
  ultimately show ?thesis
    using alloc_table_spec(2) [OF assms(1) a] assms(2) finite_pmm_avail [of "vm_pmm s"] by simp
qed

lemma ensure_path_success:
  assumes D: "path_set D" "tree_ok D s root" "pmm_wf (vm_pmm s)" "vm_path virt \<in> D"
      "extra \<in> {0, VMM_FLAG_USER}" "n + 3 \<le> card (pmm_avail (vm_pmm s))"
  shows "snd (ensure_path root virt extra s) \<noteq> 0 \<and> n \<le> card (pmm_avail (vm_pmm (fst (ensure_path root virt extra s))))"
proof -
  have p3: "on_paths D ([pml4_index virt, pdpt_index virt] @ [pd_index virt])"
    using on_paths_full [OF D(4)] by (simp add: vm_path_def)
  have p2: "on_paths D ([pml4_index virt] @ [pdpt_index virt])" using on_paths_snocD [OF p3] by simp
  have p1: "on_paths D ([] @ [pml4_index virt])" using on_paths_snocD [OF p2] by simp
  obtain s1 t1 where e1: "ensure_table_phys root (pml4_index virt) extra s = (s1, t1)"
    by (cases "ensure_table_phys root (pml4_index virt) extra s")
  have c1: "t1 \<noteq> 0" "n + 2 \<le> card (pmm_avail (vm_pmm s1))"
    using ensure_table_success [OF D(3) _ D(2) p1 _ e1, of "n + 2"] D(6) by auto
  have ok1: "tree_ok D s1 root" "pmm_wf (vm_pmm s1)" "walk s1 root [pml4_index virt] = Some t1"
    using ensure_table_spec [OF D(1-3) p1 _ D(5) e1] c1 by (auto simp: grows_def)
  obtain s2 t2 where e2: "ensure_table_phys t1 (pdpt_index virt) extra s1 = (s2, t2)"
    by (cases "ensure_table_phys t1 (pdpt_index virt) extra s1")
  have c2: "t2 \<noteq> 0" "n + 1 \<le> card (pmm_avail (vm_pmm s2))"
    using ensure_table_success [OF ok1(2) _ ok1(1) p2 ok1(3) e2, of "n + 1"] c1(2) by auto
  have ok2: "tree_ok D s2 root" "pmm_wf (vm_pmm s2)"
    "walk s2 root [pml4_index virt, pdpt_index virt] = Some t2"
    using ensure_table_spec [OF D(1) ok1(1,2) p2 ok1(3) D(5) e2] c2 by (auto simp: grows_def)
  obtain s3 t3 where e3: "ensure_table_phys t2 (pd_index virt) extra s2 = (s3, t3)"
    by (cases "ensure_table_phys t2 (pd_index virt) extra s2")
  have "t3 \<noteq> 0 \<and> n \<le> card (pmm_avail (vm_pmm s3))"
    using ensure_table_success [OF ok2(2) _ ok2(1) p3 ok2(3) e3, of n] c2(2) by auto
  then show ?thesis using e1 e2 e3 c1 c2 by (simp add: ensure_path_def)
qed

section \<open>Copy on write\<close>

text \<open>An entry that a write fault may resolve.\<close>

definition cow_entry :: "u64 \<Rightarrow> bool" where
  "cow_entry e \<longleftrightarrow> present e \<and> e AND VMM_FLAG_USER \<noteq> 0 \<and> e AND VMM_FLAG_COW \<noteq> 0
     \<and> e AND VMM_FLAG_WRITABLE = 0"

definition entry_frame :: "u64 \<Rightarrow> u64" where
  "entry_frame e = e AND NOT PTE_FLAG_BITS"

definition entry_flags :: "u64 \<Rightarrow> u64" where
  "entry_flags e = e AND PTE_FLAG_BITS"

lemma cow_fault_unfold:
  "vmm_cow_fault_handle root v s =
    (if \<not> cow_entry (pte_at s root v) then Ret (s, -1)
     else case walk s root (vm_path v) of None \<Rightarrow> Ret (s, -1) | Some pt \<Rightarrow>
       (case pmm_alloc_page (vm_pmm s) of (p, new) \<Rightarrow>
         if new = 0 then Ret (s\<lparr>vm_pmm := p\<rparr>, -2)
         else let s2 = vm_wr pt (pt_index v)
                (new OR ((entry_flags (pte_at s root v) AND NOT VMM_FLAG_COW) OR VMM_FLAG_WRITABLE))
                (vm_copy new (entry_frame (pte_at s root v)) (s\<lparr>vm_pmm := p\<rparr>)) in
           case pmm_free_page (entry_frame (pte_at s root v)) (vm_pmm s2) of
             Panic m \<Rightarrow> Panic m | Ret p1 \<Rightarrow> Ret (s2\<lparr>vm_pmm := p1\<rparr>, 0)))"
proof (cases "walk s root (vm_path v)")
  case None
  then show ?thesis
    by (auto simp: vmm_cow_fault_handle_def walk_vm_path Let_def pte_at_def cow_entry_def split: if_splits)
next
  case (Some pt)
  have "vmm_cow_fault_handle root v s = (let pte = vm_rd s pt (pt_index v) in
     if \<not> present pte \<or> pte AND VMM_FLAG_USER = 0 \<or> pte AND VMM_FLAG_COW = 0
        \<or> pte AND VMM_FLAG_WRITABLE \<noteq> 0 then Ret (s, -1)
     else let old_phys = pte AND NOT PTE_FLAG_BITS; flags = pte AND PTE_FLAG_BITS in
     case pmm_alloc_page (vm_pmm s) of (p, new_phys) \<Rightarrow>
     if new_phys = 0 then Ret (s\<lparr>vm_pmm := p\<rparr>, -2)
     else let s1 = vm_copy new_phys old_phys (s\<lparr>vm_pmm := p\<rparr>);
              new_flags = (flags AND NOT VMM_FLAG_COW) OR VMM_FLAG_WRITABLE;
              s2 = vm_wr pt (pt_index v) (new_phys OR new_flags) s1 in
     case pmm_free_page old_phys (vm_pmm s2) of
       Panic m \<Rightarrow> Panic m | Ret p1 \<Rightarrow> Ret (s2\<lparr>vm_pmm := p1\<rparr>, 0))"
    using Some unfolding vmm_cow_fault_handle_def walk_vm_path Let_def
    by (auto split: if_splits simp del: vm_wr_other)
  moreover have "(\<not> present pte \<or> pte AND VMM_FLAG_USER = 0 \<or> pte AND VMM_FLAG_COW = 0
        \<or> pte AND VMM_FLAG_WRITABLE \<noteq> 0) = (\<not> cow_entry pte)" for pte
    by (auto simp: cow_entry_def)
  moreover have "pte_at s root v = vm_rd s pt (pt_index v)" using Some by (simp add: pte_at_def)
  ultimately show ?thesis using Some
    by (simp add: entry_frame_def entry_flags_def Let_def split: prod.split)
qed

lemma cow_fault_spec:
  assumes D: "path_set D" "tree_ok D s root" "pmm_wf (vm_pmm s)" "vm_path v \<in> D"
    and c: "cow_entry (pte_at s root v)"
    and old: "old = entry_frame (pte_at s root v)" "pmm_owners (vm_pmm s) old \<noteq> 0" "old \<notin> tables D s root"
    and av: "pmm_avail (vm_pmm s) \<noteq> {}"
  defines "w \<equiv> \<lambda>n. n OR ((entry_flags (pte_at s root v) AND NOT VMM_FLAG_COW) OR VMM_FLAG_WRITABLE)"
  shows "\<exists>s' new. vmm_cow_fault_handle root v s = Ret (s', 0) \<and> new \<in> pmm_avail (vm_pmm s)
    \<and> tree_ok D s' root \<and> pmm_wf (vm_pmm s') \<and> tables D s' root = tables D s root
    \<and> (\<forall>x. vm_path x \<in> D \<longrightarrow> pte_at s' root x = (if same_page x v then w new else pte_at s root x))
    \<and> (\<forall>i<512. vm_mem s' new i = vm_mem s old i)
    \<and> (\<forall>f. f \<noteq> new \<and> f \<notin> tables D s root \<longrightarrow> vm_mem s' f = vm_mem s f)
    \<and> pmm_owners (vm_pmm s') = (pmm_owners (vm_pmm s))(new := 1, old := pmm_owners (vm_pmm s) old - 1)"
proof -
  note d = on_paths_full [OF D(4)]
  obtain pt where pt: "walk s root (vm_path v) = Some pt"
    using c by (cases "walk s root (vm_path v)") (auto simp: pte_at_def cow_entry_def)
  obtain p new where al: "pmm_alloc_page (vm_pmm s) = (p, new)" by (cases "pmm_alloc_page (vm_pmm s)")
  have new: "new \<noteq> 0" using pa.alloc_oom [OF D(3)] al av by blast
  note A = pa.alloc_page [OF D(3) al new]
  have mnew: "managed new" using A by (simp add: pmm_avail_def)
  have newo: "pmm_owners (vm_pmm s) new = 0" using A pa.avail_unowned [OF D(3)] by blast
  define s1 where "s1 = vm_copy new old (s\<lparr>vm_pmm := p\<rparr>)"
  have mold: "managed old" using owned_managed [OF old(2)] .
  have s1: "vm_pmm s1 = p" "f \<noteq> new \<Longrightarrow> vm_mem s1 f = vm_mem s f"
    "i < 512 \<Longrightarrow> vm_mem s1 new i = vm_mem s old i" for f i
    using mnew mold by (auto simp: s1_def vm_copy_def vm_rd_def)
  have tb: "t \<noteq> new \<and> pmm_owners (vm_pmm s) t \<noteq> 0" if "t \<in> tables D s root" for t
    using that D(2) newo by (auto simp: tree_ok_def)
  have ok1: "tree_ok D s1 root" "tables D s1 root = tables D s root"
    "\<And>x. vm_path x \<in> D \<Longrightarrow> pte_at s1 root x = pte_at s root x"
    using tree_ok_cong [OF D(2), of s1] tb s1 A by auto
  have w1: "walk s1 root (vm_path v) = Some pt"
  proof -
    have "vm_mem s1 (ARCH_PTE_ADDR t) = vm_mem s (ARCH_PTE_ADDR t)" if "t \<in> tables D s root" for t
      using tb [OF that] owned_managed [of "vm_pmm s" t] s1(2) by simp
    then show ?thesis using walk_cong [of D s root s1, OF _ d] pt by simp
  qed
  define s2 where "s2 = vm_wr pt (pt_index v) (w new) s1"
  have S: "sets_pte D root v (w new) s1 s2"
    unfolding s2_def by (rule leaf_wr_sets_pte [OF D(1) ok1(1) D(4) w1])
  have p2: "vm_pmm s2 = p" using S s1(1) by (simp add: sets_pte_def)
  have ne: "old \<noteq> new" using old(2) newo by auto
  have "pmm_owners p old \<noteq> 0" using A ne old(2) by simp
  then obtain p1 where fr: "pmm_free_page old p = Ret p1" using pa.release_owned [of p old] A by auto
  have P1: "pmm_wf p1" "pmm_owners p1 = (pmm_owners p)(old := pmm_owners p old - 1)"
    using pa.release_page [OF _ fr] A by auto
  let ?s' = "s2\<lparr>vm_pmm := p1\<rparr>"
  have res: "vmm_cow_fault_handle root v s = Ret (?s', 0)"
    using c pt al new fr s1(1) unfolding cow_fault_unfold
    by (simp add: old(1) [symmetric] s1_def [symmetric] s2_def w_def)
  have t2: "pmm_owners (vm_pmm ?s') t \<noteq> 0" if "t \<in> tables D s2 root" for t
    using that S ok1(2) tb [of t] old(3) A P1 by (auto simp: sets_pte_def)
  have ok2: "tree_ok D ?s' root" "tables D ?s' root = tables D s2 root"
    "\<And>x. vm_path x \<in> D \<Longrightarrow> pte_at ?s' root x = pte_at s2 root x"
    using tree_ok_cong [of D s2 root ?s'] S t2 by (auto simp: sets_pte_def)
  have mem2: "vm_mem s2 f = vm_mem s1 f" if "f \<notin> tables D s root" for f
    using S that ok1(2) by (simp add: sets_pte_def)
  show ?thesis
  proof (intro exI conjI allI impI)
    show "vmm_cow_fault_handle root v s = Ret (?s', 0)" by (rule res)
    show "new \<in> pmm_avail (vm_pmm s)" using A by blast
    show "tree_ok D ?s' root" by (rule ok2(1))
    show "pmm_wf (vm_pmm ?s')" using P1 by simp
    show "tables D ?s' root = tables D s root" using ok2(2) S ok1(2) by (simp add: sets_pte_def)
    show "pte_at ?s' root x = (if same_page x v then w new else pte_at s root x)" if "vm_path x \<in> D" for x
      using ok2(3) [OF that] S ok1(3) [OF that] that by (simp add: sets_pte_def)
    show "vm_mem ?s' new i = vm_mem s old i" if "i < 512" for i
    proof -
      have "new \<notin> tables D s root" using tb by blast
      then show ?thesis using mem2 [of new] s1(3) [OF that] by simp
    qed
    show "vm_mem ?s' f = vm_mem s f" if "f \<noteq> new \<and> f \<notin> tables D s root" for f
      using mem2 [of f] s1(2) [of f] that by simp
    show "pmm_owners (vm_pmm ?s') = (pmm_owners (vm_pmm s))(new := 1, old := pmm_owners (vm_pmm s) old - 1)"
      using P1 A ne by (simp add: fun_upd_twist)
  qed
qed

end
