(* ===== verification/Vmm_Fork.thy ===== *)
theory Vmm_Fork
  imports Vmm_User
begin

text \<open>
  \<^verbatim>\<open>vmm_cow_user_pages\<close>: the four nested loops of fork visit every page of the user half once.
  The invariant of the walk says what the entries of parent and child and the owner counts
  are after a list of pages has been visited.
\<close>

section \<open>Page keys\<close>

type_synonym page_key = "nat \<times> nat \<times> nat \<times> nat"

definition page_key :: "u64 \<Rightarrow> page_key" where
  "page_key v = (pml4_index v, pdpt_index v, pd_index v, pt_index v)"

lemma same_page_key: "same_page v w \<longleftrightarrow> page_key v = page_key w"
  by (auto simp: same_page_def page_key_def vm_path_def)

lemma bit_of_small_nat: "n < 512 \<Longrightarrow> bit (of_nat n :: u64) k \<Longrightarrow> k < 9"
proof -
  assume n: "n < 512" and b: "bit (of_nat n :: u64) k"
  have "take_bit 9 n = n" using n by (simp add: take_bit_nat_eq_self)
  moreover have "bit n k" using b by (simp add: bit_simps)
  ultimately show "k < 9" by (metis bit_take_bit_iff)
qed

lemma index_of_field:
  fixes w :: u64
  assumes "n < 512" "\<And>k. k < 9 \<Longrightarrow> bit (drop_bit m w) k = bit (of_nat n :: u64) k"
  shows "unat (drop_bit m w AND 0x1FF) = n"
proof -
  have m: "(0x1FF :: u64) = mask 9" by (simp add: mask_eq_exp_minus_1)
  have "drop_bit m w AND 0x1FF = of_nat n"
    unfolding m by (rule bit_word_eqI) (use assms bit_of_small_nat in \<open>auto simp: bit_and_iff bit_mask_iff\<close>)
  then show ?thesis using assms(1) by (simp add: unat_of_nat)
qed

lemma page_key_user_va:
  assumes "a < 256" "b < 512" "c < 512" "d < 512"
  shows "page_key (user_va a b c d) = (a, b, c, d)"
proof -
  have bits: "bit (user_va a b c d) k \<longleftrightarrow> 39 \<le> k \<and> k < 64 \<and> bit (of_nat a :: u64) (k - 39)
      \<or> 30 \<le> k \<and> k < 64 \<and> bit (of_nat b :: u64) (k - 30)
      \<or> 21 \<le> k \<and> k < 64 \<and> bit (of_nat c :: u64) (k - 21)
      \<or> 12 \<le> k \<and> k < 64 \<and> bit (of_nat d :: u64) (k - 12)" for k
    by (auto simp: user_va_def bit_or_iff bit_push_bit_iff)
  note small = bit_of_small_nat [of a] bit_of_small_nat [OF assms(2)] bit_of_small_nat [OF assms(3)]
    bit_of_small_nat [OF assms(4)]
  have "unat (drop_bit 39 (user_va a b c d) AND 0x1FF) = a"
    by (rule index_of_field) (use assms small in \<open>force simp: bit_drop_bit_eq bits\<close>)+
  moreover have "unat (drop_bit 30 (user_va a b c d) AND 0x1FF) = b"
    by (rule index_of_field) (use assms small in \<open>force simp: bit_drop_bit_eq bits\<close>)+
  moreover have "unat (drop_bit 21 (user_va a b c d) AND 0x1FF) = c"
    by (rule index_of_field) (use assms small in \<open>force simp: bit_drop_bit_eq bits\<close>)+
  moreover have "unat (drop_bit 12 (user_va a b c d) AND 0x1FF) = d"
    by (rule index_of_field) (use assms small in \<open>force simp: bit_drop_bit_eq bits\<close>)+
  ultimately show ?thesis
    by (simp add: page_key_def pml4_index_def pdpt_index_def pd_index_def pt_index_def)
qed

section \<open>What fork does to an entry\<close>

definition shared_entry :: "u64 \<Rightarrow> u64" where
  "shared_entry e = (if entry_flags e AND VMM_FLAG_WRITABLE \<noteq> 0
     then entry_frame e OR ((entry_flags e AND NOT VMM_FLAG_WRITABLE) OR VMM_FLAG_COW) else e)"

definition parent_entry :: "u64 \<Rightarrow> u64" where
  "parent_entry e = (if fork_skips e then e else shared_entry e)"

definition child_entry :: "u64 \<Rightarrow> u64" where
  "child_entry e = (if fork_skips e then 0 else shared_entry e)"

lemma entry_parts: "entry_frame e OR entry_flags e = e"
  unfolding entry_frame_def entry_flags_def by (rule bit_word_eqI) (auto simp: bit_simps)

lemma bit_power_word: "bit (2 ^ m :: u64) k \<longleftrightarrow> k = m \<and> k < 64"
  by (auto simp: bit_exp_iff)

lemma bit_flags:
  "bit VMM_FLAG_PRESENT k \<longleftrightarrow> k = 0" "bit VMM_FLAG_WRITABLE k \<longleftrightarrow> k = 1"
  "bit VMM_FLAG_WC k \<longleftrightarrow> k = 3" "bit VMM_FLAG_UCMINUS k \<longleftrightarrow> k = 4" "bit VMM_FLAG_COW k \<longleftrightarrow> k = 9"
proof -
  have e: "VMM_FLAG_PRESENT = 2 ^ 0" "VMM_FLAG_WRITABLE = 2 ^ 1" "VMM_FLAG_WC = 2 ^ 3"
    "VMM_FLAG_UCMINUS = 2 ^ 4" "VMM_FLAG_COW = 2 ^ 9"
    by (simp_all add: VMM_FLAG_PRESENT_def VMM_FLAG_WRITABLE_def VMM_FLAG_WC_def VMM_FLAG_UCMINUS_def
        VMM_FLAG_COW_def)
  show "bit VMM_FLAG_PRESENT k \<longleftrightarrow> k = 0" "bit VMM_FLAG_WRITABLE k \<longleftrightarrow> k = 1"
    "bit VMM_FLAG_WC k \<longleftrightarrow> k = 3" "bit VMM_FLAG_UCMINUS k \<longleftrightarrow> k = 4" "bit VMM_FLAG_COW k \<longleftrightarrow> k = 9"
    unfolding e bit_power_word by auto
qed

lemma bit_flag_bits: "bit PTE_FLAG_BITS k \<longleftrightarrow> k < 12 \<or> k = 63"
proof -
  have e: "PTE_FLAG_BITS = mask 12 OR 2 ^ 63" by (simp add: PTE_FLAG_BITS_def mask_eq_exp_minus_1)
  show ?thesis unfolding e bit_or_iff bit_power_word bit_mask_iff by auto
qed

lemma flag_bit [simp]:
  "present e \<longleftrightarrow> bit e 0" "e AND VMM_FLAG_WRITABLE = 0 \<longleftrightarrow> \<not> bit e 1"
  "e AND VMM_FLAG_USER = 0 \<longleftrightarrow> \<not> bit e 2" "e AND VMM_FLAG_COW = 0 \<longleftrightarrow> \<not> bit e 9"
  using and_exp_eq_0_iff_not_bit [of e 0] and_exp_eq_0_iff_not_bit [of e 1]
    and_exp_eq_0_iff_not_bit [of e 2] and_exp_eq_0_iff_not_bit [of e 9]
  by (simp_all add: present_def VMM_FLAG_PRESENT_def VMM_FLAG_WRITABLE_def VMM_FLAG_USER_def
      VMM_FLAG_COW_def)

lemma bit_shared_entry:
  "bit (shared_entry e) k \<longleftrightarrow> (if bit e 1 then k = 9 \<or> k \<noteq> 1 \<and> bit e k else bit e k)"
proof (cases "bit e 1")
  case True
  then show ?thesis using bit_imp_le_length [of e k]
    by (auto simp: shared_entry_def entry_flags_def entry_frame_def bit_simps bit_flag_bits bit_flags)
next
  case False
  then show ?thesis by (simp add: shared_entry_def entry_flags_def bit_simps)
qed

lemma shared_entry_facts:
  "present (shared_entry e) = present e" "shared_entry e AND VMM_FLAG_WRITABLE = 0"
  "fork_skips (shared_entry e) = fork_skips e"
  "present e \<Longrightarrow> shared_entry e OR VMM_FLAG_PRESENT = shared_entry e"
proof -
  show "present (shared_entry e) = present e" "shared_entry e AND VMM_FLAG_WRITABLE = 0"
    by (auto simp: bit_shared_entry)
  have "shared_entry e AND (VMM_FLAG_WC OR VMM_FLAG_UCMINUS) = e AND (VMM_FLAG_WC OR VMM_FLAG_UCMINUS)"
    by (intro bit_word_eqI) (auto simp: bit_simps bit_shared_entry bit_flags)
  then show "fork_skips (shared_entry e) = fork_skips e"
    by (simp add: fork_skips_def bit_shared_entry)
  show "shared_entry e OR VMM_FLAG_PRESENT = shared_entry e" if "present e"
    using that by (intro bit_word_eqI) (auto simp: bit_simps bit_shared_entry bit_flags)
qed

lemma shared_entry_parts: "entry_frame e OR entry_flags (shared_entry e) = shared_entry e"
  by (intro bit_word_eqI)
     (auto simp: entry_frame_def entry_flags_def bit_simps bit_flag_bits bit_shared_entry)

section \<open>One page\<close>

lemma map_user_nolock_status:
  "vmm_map_user_page_nolock Q v phys flags s = Ret (s', r) \<Longrightarrow> r \<in> {-1, 0}"
  by (auto simp: map_user_page_nolock_path split: prod.splits if_splits)

lemma cow_pte_skip: "fork_skips (vm_rd s pt i) \<Longrightarrow> cow_pte Q v pt i s = Ret (s, 0)"
  by (simp add: cow_pte_def)

lemma cow_pte_share:
  assumes "\<not> fork_skips e" "e = vm_rd s pt i" "cow_pte Q v pt i s = Ret (s', 0)"
  obtains s2 p where "vmm_map_user_page_nolock Q v (entry_frame e) (entry_flags (shared_entry e))
      (if bit e 1 then vm_wr pt i (shared_entry e) s else s) = Ret (s2, 0)"
    "pmm_ref_page (entry_frame e) (vm_pmm s2) = Ret p" "s' = s2\<lparr>vm_pmm := p\<rparr>"
proof -
  have fl: "entry_flags e AND VMM_FLAG_WRITABLE \<noteq> 0 \<longleftrightarrow> bit e 1"
    by (simp add: entry_flags_def bit_simps bit_flag_bits)
  have fl': "bit (entry_flags e) (Suc 0) \<longleftrightarrow> bit e (Suc 0)"
    by (simp add: entry_flags_def bit_simps bit_flag_bits)
  have nf: "(if entry_flags e AND VMM_FLAG_WRITABLE \<noteq> 0
      then (entry_flags e AND NOT VMM_FLAG_WRITABLE) OR VMM_FLAG_COW else entry_flags e)
      = entry_flags (shared_entry e)"
    unfolding fl
    by (intro bit_word_eqI) (auto simp: entry_flags_def bit_simps bit_flag_bits bit_shared_entry bit_flags)
  have sh: "entry_frame e OR entry_flags (shared_entry e) = shared_entry e"
    by (rule shared_entry_parts)
  have X: "cow_pte Q v pt i s = (case vmm_map_user_page_nolock Q v (entry_frame e)
      (entry_flags (shared_entry e)) (if bit e 1 then vm_wr pt i (shared_entry e) s else s) of
       Panic m \<Rightarrow> Panic m
     | Ret (s2, r) \<Rightarrow> if r < 0 then Ret (s2, -1)
         else case pmm_ref_page (entry_frame e) (vm_pmm s2) of
           Panic m \<Rightarrow> Panic m | Ret p \<Rightarrow> Ret (s2\<lparr>vm_pmm := p\<rparr>, 0))"
    unfolding cow_pte_def Let_def entry_frame_def [symmetric] entry_flags_def [symmetric]
      assms(2) [symmetric] nf using assms(1) by (simp add: fl' sh)
  have "(case vmm_map_user_page_nolock Q v (entry_frame e)
      (entry_flags (shared_entry e)) (if bit e 1 then vm_wr pt i (shared_entry e) s else s) of
       Panic m \<Rightarrow> Panic m
     | Ret (s2, r) \<Rightarrow> if r < 0 then Ret (s2, -1)
         else case pmm_ref_page (entry_frame e) (vm_pmm s2) of
           Panic m \<Rightarrow> Panic m | Ret p \<Rightarrow> Ret (s2\<lparr>vm_pmm := p\<rparr>, 0)) = Ret (s', 0 :: int)"
    by (rule trans [OF sym [OF X] assms(3)])
  then obtain s2 r p where "vmm_map_user_page_nolock Q v (entry_frame e)
      (entry_flags (shared_entry e)) (if bit e 1 then vm_wr pt i (shared_entry e) s else s) = Ret (s2, r)"
    "\<not> r < 0" "pmm_ref_page (entry_frame e) (vm_pmm s2) = Ret p" "s' = s2\<lparr>vm_pmm := p\<rparr>"
    by (simp split: kres.splits prod.splits if_splits)
  moreover from this have "r = 0" using map_user_nolock_status by fastforce
  ultimately show ?thesis using that by blast
qed

section \<open>The invariant of the walk\<close>

definition shares :: "vmm \<Rightarrow> u64 \<Rightarrow> u64 \<Rightarrow> page_key \<Rightarrow> bool" where
  "shares s R f = (\<lambda>(a, b, c, d). \<not> fork_skips (pte_at s R (user_va a b c d))
     \<and> entry_frame (pte_at s R (user_va a b c d)) = f)"

definition fork_inv :: "vmm \<Rightarrow> u64 \<Rightarrow> u64 \<Rightarrow> page_key list \<Rightarrow> vmm \<Rightarrow> bool" where
  "fork_inv s0 R Q vs s \<longleftrightarrow>
     uspace_ok s R \<and> uspace_ok s Q \<and> apart user_paths s R user_paths Q \<and> pmm_wf (vm_pmm s)
   \<and> (\<forall>q. on_paths user_paths q \<longrightarrow> walk s R q = walk s0 R q)
   \<and> (\<forall>x. user_va_ok x \<longrightarrow> pte_at s R x
        = (if page_key x \<in> set vs then parent_entry (pte_at s0 R x) else pte_at s0 R x))
   \<and> (\<forall>x. user_va_ok x \<longrightarrow> pte_at s Q x
        = (if page_key x \<in> set vs then child_entry (pte_at s0 R x) else 0))
   \<and> (\<forall>f. pmm_owners (vm_pmm s0) f \<noteq> 0 \<longrightarrow> pmm_owners (vm_pmm s) f
        = pmm_owners (vm_pmm s0) f + length (filter (shares s0 R f) vs))"

lemma pte_at_page: "page_key x = page_key y \<Longrightarrow> pte_at s R x = pte_at s R y"
  by (simp add: page_key_def pte_at_def vm_path_def)

lemma apart_sym: "apart D s R E Q \<Longrightarrow> apart E s Q D R"
  by (auto simp: apart_def)

lemma sets_pte_id:
  assumes "tree_ok D s R" "pte_at s R v = w"
  shows "sets_pte D R v w s s"
proof -
  have "pte_at s R x = w" if "same_page x v" for x
    using pte_at_page [of x v s R] that assms(2) by (simp add: same_page_key)
  then show ?thesis using assms(1) by (simp add: sets_pte_def)
qed

lemma ref_keeps_tree:
  assumes "tree_ok D s R" "pmm_wf (vm_pmm s)" "pmm_ref_page f (vm_pmm s) = Ret p"
  shows "untouched D R s (s\<lparr>vm_pmm := p\<rparr>)"
proof -
  have "pmm_owners p t \<noteq> 0" if "pmm_owners (vm_pmm s) t \<noteq> 0" for t
    using pa.share_page [OF assms(2,3)] that by auto
  then have "pmm_owners (vm_pmm (s\<lparr>vm_pmm := p\<rparr>)) t \<noteq> 0" if "t \<in> tables D s R" for t
    using that assms(1) by (auto simp: tree_ok_def)
  then show ?thesis using tree_ok_cong [OF assms(1), of "s\<lparr>vm_pmm := p\<rparr>"] by (auto simp: untouched_def)
qed

lemma fork_inv_skip:
  assumes "fork_inv s0 R Q vs s"
    and "\<And>a b c d. (a, b, c, d) \<in> set ks \<Longrightarrow> fork_skips (pte_at s0 R (user_va a b c d))
      \<and> page_key (user_va a b c d) = (a, b, c, d)"
  shows "fork_inv s0 R Q (vs @ ks) s"
proof -
  have k: "fork_skips (pte_at s0 R x)" if "page_key x \<in> set ks" for x
  proof -
    obtain a b c d where abcd: "page_key x = (a, b, c, d)" by (cases "page_key x")
    then have "page_key x = page_key (user_va a b c d)" "fork_skips (pte_at s0 R (user_va a b c d))"
      using assms(2) that by auto
    then show ?thesis using pte_at_page by metis
  qed
  have "filter (shares s0 R f) ks = []" for f
    using assms(2) by (auto simp: filter_empty_conv shares_def)
  then show ?thesis
    using assms(1) k by (auto simp: fork_inv_def parent_entry_def child_entry_def)
qed

lemma fork_step_fresh:
  assumes I: "fork_inv s0 R Q vs s" and v: "user_va_ok v" "page_key v = (a, b, c, d)" "v = user_va a b c d"
    and pt: "walk s0 R (vm_path v) = Some pt" and nk: "(a, b, c, d) \<notin> set vs"
    and sk: "\<not> fork_skips (pte_at s0 R v)" and st: "cow_pte Q v pt d s = Ret (s', 0)"
  shows "fork_inv s0 R Q (vs @ [(a, b, c, d)]) s'"
proof -
  let ?U = user_paths
  define e where "e = pte_at s0 R v"
  have I': "uspace_ok s R" "uspace_ok s Q" "apart ?U s R ?U Q" "pmm_wf (vm_pmm s)"
    using I by (simp_all add: fork_inv_def)
  have ws: "walk s R (vm_path v) = Some pt"
    using I pt on_paths_full [OF v(1)] by (simp add: fork_inv_def)
  have d: "d = pt_index v" using v(2) by (simp add: page_key_def)
  have es: "pte_at s R v = e" using I nk v by (simp add: fork_inv_def e_def)
  then have erd: "e = vm_rd s pt d" using ws d by (simp add: pte_at_def)
  have nsk: "\<not> fork_skips e" using sk by (simp add: e_def)
  have pe: "present e" using sk by (auto simp: e_def fork_skips_def)
  define s1 where "s1 = (if bit e 1 then vm_wr pt d (shared_entry e) s else s)"
  obtain s2 p where m: "vmm_map_user_page_nolock Q v (entry_frame e) (entry_flags (shared_entry e)) s1 = Ret (s2, 0)"
    and rf: "pmm_ref_page (entry_frame e) (vm_pmm s2) = Ret p" and s': "s' = s2\<lparr>vm_pmm := p\<rparr>"
    unfolding s1_def by (rule cow_pte_share [OF nsk erd st])
  have S1: "sets_pte ?U R v (shared_entry e) s s1"
  proof (cases "bit e 1")
    case True
    then show ?thesis unfolding s1_def d using leaf_wr_sets_pte [OF path_set_user I'(1) v(1) ws] by simp
  next
    case False
    then have "shared_entry e = e" by (intro bit_word_eqI) (simp add: bit_shared_entry)
    then show ?thesis using False sets_pte_id [OF I'(1) es] by (simp add: s1_def)
  qed
  note Q1 = sets_pte_untouched [OF S1 I'(2,3)]
  have ok1: "uspace_ok s1 R" "uspace_ok s1 Q" "pmm_wf (vm_pmm s1)" "vm_pmm s1 = vm_pmm s"
    using S1 Q1 I'(4) by (auto simp: sets_pte_def untouched_def)
  obtain s3 where G: "grows ?U Q s1 s3"
    and S2: "sets_pte ?U Q v (entry_frame e OR entry_flags (shared_entry e) OR VMM_FLAG_PRESENT) s3 s2"
    using map_user_nolock_spec [OF path_set_user ok1(2,3) v(1) m] by auto
  have w2: "entry_frame e OR entry_flags (shared_entry e) OR VMM_FLAG_PRESENT = shared_entry e"
    using shared_entry_parts [of e] shared_entry_facts(4) [OF pe] by (simp add: or.assoc [symmetric])
  note R3 = grows_untouched [OF ok1(3) G ok1(1) apart_sym [OF Q1(2)]]
  have ok3: "uspace_ok s3 R" "pmm_wf (vm_pmm s3)" using R3 G by (auto simp: untouched_def grows_def)
  note R2 = sets_pte_untouched [OF S2 ok3(1) R3(2)]
  have ok2: "uspace_ok s2 R" "uspace_ok s2 Q" "vm_pmm s2 = vm_pmm s3" "pmm_wf (vm_pmm s2)"
    using R2 S2 ok3 by (auto simp: untouched_def sets_pte_def)
  have RR: "untouched ?U R s1 s'" and QQ: "untouched ?U Q s2 s'"
    using untouched_trans [OF R3(1) untouched_trans [OF R2(1) ref_keeps_tree [OF ok2(1,4) rf]]]
      ref_keeps_tree [OF ok2(2,4) rf] by (simp_all add: s')
  have ap: "apart ?U s' R ?U Q"
    using apart_sym [OF R2(2)] RR QQ R2(1) R3(1) by (simp add: apart_def untouched_def)
  have own: "pmm_owners (vm_pmm s') f = pmm_owners (vm_pmm s) f + (if f = entry_frame e then 1 else 0)"
    if "pmm_owners (vm_pmm s) f \<noteq> 0" for f
    using that G ok1(4) ok2(3) pa.share_page [OF ok2(4) rf] by (auto simp: grows_def s')
  have sh: "shares s0 R f (a, b, c, d) \<longleftrightarrow> f = entry_frame e" for f
    using sk v(3) by (auto simp: shares_def e_def)
  have same: "same_page x v \<longleftrightarrow> page_key x = (a, b, c, d)" for x using v(2) by (simp add: same_page_key)
  have eq0: "pte_at s0 R x = e" if "page_key x = (a, b, c, d)" for x
    using pte_at_page [of x v s0 R] that v(2) by (simp add: e_def)
  have pR: "pte_at s' R x = (if page_key x = (a, b, c, d) then shared_entry e else pte_at s R x)"
    if "user_va_ok x" for x
    using that RR S1 same by (simp add: untouched_def sets_pte_def)
  have pQ: "pte_at s' Q x = (if page_key x = (a, b, c, d) then shared_entry e else pte_at s Q x)"
    if "user_va_ok x" for x
    using that QQ S2 G Q1 same by (simp add: untouched_def sets_pte_def grows_def w2)
  have "walk s' R q = walk s0 R q" if "on_paths ?U q" for q
    using that RR S1 I by (simp add: untouched_def sets_pte_def fork_inv_def)
  moreover have "pmm_owners (vm_pmm s') f
      = pmm_owners (vm_pmm s0) f + length (filter (shares s0 R f) (vs @ [(a, b, c, d)]))"
    if f: "pmm_owners (vm_pmm s0) f \<noteq> 0" for f
  proof -
    have "pmm_owners (vm_pmm s) f = pmm_owners (vm_pmm s0) f + length (filter (shares s0 R f) vs)"
      using I f by (simp add: fork_inv_def)
    then show ?thesis using own [of f] f sh by auto
  qed
  moreover have "uspace_ok s' R" "uspace_ok s' Q" "pmm_wf (vm_pmm s')"
    using RR QQ pa.share_page [OF ok2(4) rf] by (auto simp: untouched_def s')
  ultimately show ?thesis
    unfolding fork_inv_def using ap pR pQ I eq0 sk
    by (auto simp: fork_inv_def parent_entry_def child_entry_def e_def [symmetric])
qed

lemma fork_skips_0 [simp]: "fork_skips 0"
  by (simp add: fork_skips_def)

lemma user_va_path:
  assumes "a < 256" "b < 512" "c < 512" "d < 512"
  shows "vm_path (user_va a b c d) = [a, b, c]" "pt_index (user_va a b c d) = d"
    "user_va_ok (user_va a b c d)"
  using page_key_user_va [OF assms] assms by (auto simp: page_key_def vm_path_def user_paths_def)

lemma fork_step:
  assumes I: "fork_inv s0 R Q vs s" and r: "a < 256" "b < 512" "c < 512" "d < 512"
    and pt: "walk s0 R [a, b, c] = Some pt" and st: "cow_pte Q (user_va a b c d) pt d s = Ret (s', 0)"
  shows "fork_inv s0 R Q (vs @ [(a, b, c, d)]) s'"
proof -
  define v where "v = user_va a b c d"
  note V = user_va_path [OF r, folded v_def] page_key_user_va [OF r, folded v_def]
  have w0: "walk s0 R (vm_path v) = Some pt" using pt V(1) by simp
  have ws: "walk s R (vm_path v) = Some pt" using I w0 on_paths_full [OF V(3)] by (simp add: fork_inv_def)
  have e: "vm_rd s pt d = pte_at s R v" using ws V(2) by (simp add: pte_at_def)
  have skip: "fork_inv s0 R Q (vs @ [(a, b, c, d)]) s'" if "fork_skips (pte_at s0 R v)"
      "fork_skips (pte_at s R v)"
  proof -
    have "s' = s" using st cow_pte_skip [of s pt d] that(2) e by simp
    then show ?thesis using fork_inv_skip [OF I, of "[(a, b, c, d)]"] that V(4) by (simp add: v_def)
  qed
  show ?thesis
  proof (cases "fork_skips (pte_at s0 R v)")
    case True
    moreover have "pte_at s R v = pte_at s0 R v"
      using I V(3) True by (simp add: fork_inv_def parent_entry_def)
    ultimately show ?thesis using skip by simp
  next
    case False
    have "(a, b, c, d) \<notin> set vs"
    proof
      assume k: "(a, b, c, d) \<in> set vs"
      let ?e = "shared_entry (pte_at s0 R v)"
      have R: "pte_at s R v = ?e" "pte_at s Q v = ?e"
        using I V(3,4) False k by (auto simp: fork_inv_def parent_entry_def child_entry_def)
      have "\<not> fork_skips ?e" using False by (simp add: shared_entry_facts)
      then obtain s2 where "vmm_map_user_page_nolock Q v (entry_frame ?e) (entry_flags (shared_entry ?e))
          (if bit ?e 1 then vm_wr pt d (shared_entry ?e) s else s) = Ret (s2, 0)"
        using cow_pte_share [of ?e s pt d Q v s'] e R(1) st unfolding v_def by metis
      moreover have "\<not> bit ?e 1" by (simp add: bit_shared_entry)
      ultimately have m: "vmm_map_user_page_nolock Q v (entry_frame ?e) (entry_flags (shared_entry ?e)) s
          = Ret (s2, 0)" by simp
      have "uspace_ok s Q" "pmm_wf (vm_pmm s)" using I by (simp_all add: fork_inv_def)
      then have "\<not> present ?e" using map_user_nolock_spec [OF path_set_user _ _ V(3) m] R(2) by auto
      moreover have "present (pte_at s0 R v)" using False by (auto simp: fork_skips_def)
      ultimately show False using shared_entry_facts(1) [of "pte_at s0 R v"] by blast
    qed
    then show ?thesis
      using fork_step_fresh [OF I V(3,4) v_def w0 _ False] st v_def by simp
  qed
qed

section \<open>The loops\<close>

definition pt_keys :: "nat \<Rightarrow> nat \<Rightarrow> nat \<Rightarrow> page_key list" where
  "pt_keys a b c = concat (map (\<lambda>d. [(a, b, c, d)]) [0..<512])"
definition pd_keys :: "nat \<Rightarrow> nat \<Rightarrow> page_key list" where
  "pd_keys a b = concat (map (pt_keys a b) [0..<512])"
definition pdpt_keys :: "nat \<Rightarrow> page_key list" where
  "pdpt_keys a = concat (map (pd_keys a) [0..<512])"
definition user_keys :: "page_key list" where
  "user_keys = concat (map pdpt_keys [0..<256])"

lemma keys_range:
  "(a', b', c', d') \<in> set (pt_keys a b c) \<longleftrightarrow> a' = a \<and> b' = b \<and> c' = c \<and> d' < 512"
  "(a', b', c', d') \<in> set (pd_keys a b) \<longleftrightarrow> a' = a \<and> b' = b \<and> c' < 512 \<and> d' < 512"
  "(a', b', c', d') \<in> set (pdpt_keys a) \<longleftrightarrow> a' = a \<and> b' < 512 \<and> c' < 512 \<and> d' < 512"
  "(a', b', c', d') \<in> set user_keys \<longleftrightarrow> a' < 256 \<and> b' < 512 \<and> c' < 512 \<and> d' < 512"
proof -
  show p: "(a', b', c', d') \<in> set (pt_keys a b c) \<longleftrightarrow> a' = a \<and> b' = b \<and> c' = c \<and> d' < 512" for a b c
    by (auto simp: pt_keys_def)
  show q: "(a', b', c', d') \<in> set (pd_keys a b) \<longleftrightarrow> a' = a \<and> b' = b \<and> c' < 512 \<and> d' < 512" for a b
    by (auto simp: pd_keys_def p)
  show r: "(a', b', c', d') \<in> set (pdpt_keys a) \<longleftrightarrow> a' = a \<and> b' < 512 \<and> c' < 512 \<and> d' < 512" for a
    by (auto simp: pdpt_keys_def q)
  show "(a', b', c', d') \<in> set user_keys \<longleftrightarrow> a' < 256 \<and> b' < 512 \<and> c' < 512 \<and> d' < 512"
    by (auto simp: user_keys_def r)
qed

lemma absent_table_skips:
  assumes "walk s R p = None" "prefix p (vm_path v)"
  shows "fork_skips (pte_at s R v)"
proof -
  obtain q where "vm_path v = p @ q" using assms(2) by (auto elim: prefixE)
  then have "walk s R (vm_path v) = None" using assms(1) by (simp add: walk_append)
  then show ?thesis by (simp add: pte_at_def)
qed

lemma fork_skip_table:
  assumes I: "fork_inv s0 R Q vs s" and w: "walk s0 R p = None"
    and ks: "\<And>a b c d. (a, b, c, d) \<in> set ks \<Longrightarrow>
      prefix p [a, b, c] \<and> a < 256 \<and> b < 512 \<and> c < 512 \<and> d < 512"
  shows "fork_inv s0 R Q (vs @ ks) s"
proof (rule fork_inv_skip [OF I], goal_cases)
  case (1 a b c d)
  then have r: "a < 256" "b < 512" "c < 512" "d < 512" "prefix p [a, b, c]" using ks by blast+
  then show ?case
    using absent_table_skips [OF w, of "user_va a b c d"] user_va_path(1) [OF r(1-4)]
      page_key_user_va [OF r(1-4)] by simp
qed

text \<open>The entry read at path \<open>p\<close> during the walk is the one of the initial state.\<close>

lemma fork_inv_entry:
  assumes I: "fork_inv s0 R Q vs s" and t: "walk s0 R p = Some t" and p: "on_paths user_paths (p @ [i])"
  shows "walk s0 R (p @ [i]) = (if present (vm_rd s t i) then Some (ARCH_PTE_ADDR (vm_rd s t i)) else None)"
proof -
  have "walk s0 R (p @ [i]) = walk s R (p @ [i])" "walk s R p = Some t"
    using I p t on_paths_snocD [OF p] by (simp_all add: fork_inv_def)
  then show ?thesis by (simp add: walk_snoc)
qed

lemma on_user_paths:
  "a < 256 \<Longrightarrow> on_paths user_paths [a]" "a < 256 \<Longrightarrow> b < 512 \<Longrightarrow> on_paths user_paths [a, b]"
  "a < 256 \<Longrightarrow> b < 512 \<Longrightarrow> c < 512 \<Longrightarrow> on_paths user_paths [a, b, c]"
proof -
  have full: "on_paths user_paths [a, b, c]" if "a < 256" "b < 512" "c < 512" for a b c
    using that by (intro on_paths_full) (simp add: user_paths_def)
  then show "a < 256 \<Longrightarrow> b < 512 \<Longrightarrow> c < 512 \<Longrightarrow> on_paths user_paths [a, b, c]" by blast
  show "a < 256 \<Longrightarrow> b < 512 \<Longrightarrow> on_paths user_paths [a, b]"
    using on_paths_prefix [OF full [of a b 0]] by simp
  show "a < 256 \<Longrightarrow> on_paths user_paths [a]"
    using on_paths_prefix [OF full [of a 0 0]] by simp
qed

definition cow_pt :: "u64 \<Rightarrow> nat \<Rightarrow> nat \<Rightarrow> nat \<Rightarrow> u64 \<Rightarrow> vmm \<Rightarrow> (vmm \<times> int) kres" where
  "cow_pt Q a b c pt = for_each (\<lambda>d s. cow_pte Q (user_va a b c d) pt d s) [0..<512]"

definition cow_pd :: "u64 \<Rightarrow> nat \<Rightarrow> nat \<Rightarrow> u64 \<Rightarrow> vmm \<Rightarrow> (vmm \<times> int) kres" where
  "cow_pd Q a b pd = for_each (\<lambda>c s. let e = vm_rd s pd c in
     if \<not> present e then Ret (s, 0) else cow_pt Q a b c (ARCH_PTE_ADDR e) s) [0..<512]"

definition cow_pdpt :: "u64 \<Rightarrow> nat \<Rightarrow> u64 \<Rightarrow> vmm \<Rightarrow> (vmm \<times> int) kres" where
  "cow_pdpt Q a pdpt = for_each (\<lambda>b s. let e = vm_rd s pdpt b in
     if \<not> present e then Ret (s, 0) else cow_pd Q a b (ARCH_PTE_ADDR e) s) [0..<512]"

lemma cow_user_pages_levels:
  "vmm_cow_user_pages R Q s = for_each (\<lambda>a s. let e = vm_rd s R a in
     if \<not> present e then Ret (s, 0) else cow_pdpt Q a (ARCH_PTE_ADDR e) s) [0..<256] s"
  by (simp only: vmm_cow_user_pages_def user_walk_def cow_pdpt_def cow_pd_def cow_pt_def Let_def)

lemma fork_pt:
  assumes "fork_inv s0 R Q vs s" "a < 256" "b < 512" "c < 512" "walk s0 R [a, b, c] = Some pt"
    and "cow_pt Q a b c pt s = Ret (s', 0)"
  shows "fork_inv s0 R Q (vs @ pt_keys a b c) s'"
  unfolding pt_keys_def
  by (rule for_each_invariant [OF assms(6) [unfolded cow_pt_def], where J = "fork_inv s0 R Q", OF assms(1)])
     (use assms(2-5) in \<open>auto intro: fork_step\<close>)

lemma fork_pd:
  assumes "fork_inv s0 R Q vs s" "a < 256" "b < 512" "walk s0 R [a, b] = Some pd"
    and "cow_pd Q a b pd s = Ret (s', 0)"
  shows "fork_inv s0 R Q (vs @ pd_keys a b) s'"
  unfolding pd_keys_def
proof (rule for_each_invariant [OF assms(5) [unfolded cow_pd_def], where J = "fork_inv s0 R Q", OF assms(1)])
  fix c vs s s'
  assume c: "c \<in> set [0..<512]" and I: "fork_inv s0 R Q vs s"
    and st: "(let e = vm_rd s pd c in if \<not> present e then Ret (s, 0)
      else cow_pt Q a b c (ARCH_PTE_ADDR e) s) = Ret (s', 0)"
  have w: "walk s0 R [a, b, c] = (if present (vm_rd s pd c) then Some (ARCH_PTE_ADDR (vm_rd s pd c)) else None)"
    using fork_inv_entry [OF I assms(4), of c] on_user_paths(3) [OF assms(2,3), of c] c by simp
  show "fork_inv s0 R Q (vs @ pt_keys a b c) s'"
  proof (cases "present (vm_rd s pd c)")
    case True
    then show ?thesis using st w c by (intro fork_pt [OF I assms(2,3)]) (auto simp del: flag_bit)
  next
    case False
    then have n: "s' = s" "walk s0 R [a, b, c] = None" using st w by simp_all
    show ?thesis unfolding n(1)
      by (rule fork_skip_table [OF I n(2)]) (use c assms(2,3) in \<open>simp add: keys_range\<close>)
  qed
qed

lemma fork_pdpt:
  assumes "fork_inv s0 R Q vs s" "a < 256" "walk s0 R [a] = Some pdpt"
    and "cow_pdpt Q a pdpt s = Ret (s', 0)"
  shows "fork_inv s0 R Q (vs @ pdpt_keys a) s'"
  unfolding pdpt_keys_def
proof (rule for_each_invariant [OF assms(4) [unfolded cow_pdpt_def], where J = "fork_inv s0 R Q", OF assms(1)])
  fix b vs s s'
  assume b: "b \<in> set [0..<512]" and I: "fork_inv s0 R Q vs s"
    and st: "(let e = vm_rd s pdpt b in if \<not> present e then Ret (s, 0)
      else cow_pd Q a b (ARCH_PTE_ADDR e) s) = Ret (s', 0)"
  have w: "walk s0 R [a, b] = (if present (vm_rd s pdpt b) then Some (ARCH_PTE_ADDR (vm_rd s pdpt b)) else None)"
    using fork_inv_entry [OF I assms(3), of b] on_user_paths(2) [OF assms(2), of b] b by simp
  show "fork_inv s0 R Q (vs @ pd_keys a b) s'"
  proof (cases "present (vm_rd s pdpt b)")
    case True
    then show ?thesis using st w b by (intro fork_pd [OF I assms(2)]) (auto simp del: flag_bit)
  next
    case False
    then have n: "s' = s" "walk s0 R [a, b] = None" using st w by simp_all
    show ?thesis unfolding n(1)
      by (rule fork_skip_table [OF I n(2)]) (use b assms(2) in \<open>simp add: keys_range\<close>)
  qed
qed

lemma fork_all:
  assumes "fork_inv s0 R Q [] s" "vmm_cow_user_pages R Q s = Ret (s', 0)"
  shows "fork_inv s0 R Q user_keys s'"
proof -
  have "fork_inv s0 R Q ([] @ concat (map pdpt_keys [0..<256])) s'"
  proof (rule for_each_invariant [OF assms(2) [unfolded cow_user_pages_levels],
        where J = "fork_inv s0 R Q", OF assms(1)])
    fix a vs s s'
    assume a: "a \<in> set [0..<256]" and I: "fork_inv s0 R Q vs s"
      and st: "(let e = vm_rd s R a in if \<not> present e then Ret (s, 0)
        else cow_pdpt Q a (ARCH_PTE_ADDR e) s) = Ret (s', 0)"
    have w: "walk s0 R [a] = (if present (vm_rd s R a) then Some (ARCH_PTE_ADDR (vm_rd s R a)) else None)"
      using fork_inv_entry [OF I, of "[]" R a] on_user_paths(1) [of a] a by simp
    show "fork_inv s0 R Q (vs @ pdpt_keys a) s'"
    proof (cases "present (vm_rd s R a)")
      case True
      then show ?thesis using st w a by (intro fork_pdpt [OF I]) (auto simp del: flag_bit)
    next
      case False
      then have n: "s' = s" "walk s0 R [a] = None" using st w by simp_all
      show ?thesis unfolding n(1)
        by (rule fork_skip_table [OF I n(2)]) (use a in \<open>simp add: keys_range\<close>)
    qed
  qed
  then show ?thesis by (simp add: user_keys_def)
qed

end
