(* ===== verification/Vmm_Props.thy ===== *)
theory Vmm_Props
  imports Vmm_Fork
begin

text \<open>
  What the user half of the virtual memory manager guarantees, stated over the leaf entries of
  an address space and the owner counts of the frames, with a small concrete machine that
  satisfies the hypotheses.
\<close>

section \<open>A small machine\<close>

text \<open>The address space at \<open>0x5000\<close> has the entry \<open>e\<close> for the page \<open>0x1000\<close>; the one at \<open>0xA000\<close> is
  empty; the frame \<open>0x9000\<close> has \<open>n\<close> owners and the pages from \<open>0xB000\<close> to \<open>0xF000\<close> are free.\<close>

definition demo_space :: "u64 \<Rightarrow> u8 \<Rightarrow> vmm" where
  "demo_space e n = \<lparr>vm_mem = (\<lambda>f i.
       if f = 0x5000 \<and> i = 0 then 0x6007 else if f = 0x6000 \<and> i = 0 then 0x7007
       else if f = 0x7000 \<and> i = 0 then 0x8007 else if f = 0x8000 \<and> i = 1 then e else 0),
     vm_pmm = \<lparr>pmm_bitmap = (\<lambda>i. if i = 1 then 0x07 else 0xFF),
       pmm_refcount = (\<lambda>i. if i = 9 then n else if 5 \<le> i \<and> i \<le> 10 then 1 else 0), s_total_usable_bytes = 0\<rparr>,
     s_pml4_phys = 0x4000\<rparr>"

abbreviation demo_vm :: vmm where
  "demo_vm \<equiv> demo_space 0x9007 1"

lemma demo_rd:
  "vm_rd (demo_space e n) 0x5000 i = (if i = 0 then 0x6007 else 0)"
  "vm_rd (demo_space e n) 0x6000 i = (if i = 0 then 0x7007 else 0)"
  "vm_rd (demo_space e n) 0x7000 i = (if i = 0 then 0x8007 else 0)"
  "vm_rd (demo_space e n) 0x8000 i = (if i = 1 then e else 0)"
  "vm_rd (demo_space e n) 0xA000 i = 0"
  by (simp_all add: vm_rd_def demo_space_def ARCH_PTE_ADDR_def)

lemma demo_addr:
  "ARCH_PTE_ADDR 0x6007 = 0x6000" "ARCH_PTE_ADDR 0x7007 = 0x7000" "ARCH_PTE_ADDR 0x8007 = 0x8000"
  by (simp_all add: ARCH_PTE_ADDR_def)

lemma user_path_length: "on_paths user_paths p \<Longrightarrow> length p \<le> 3"
  by (rule path_set_length) simp_all

lemma demo_walk:
  assumes "length p \<le> 3"
  shows "walk (demo_space e n) 0x5000 p = Some t \<longleftrightarrow>
    (p, t) \<in> {([], 0x5000), ([0], 0x6000), ([0, 0], 0x7000), ([0, 0, 0], 0x8000)}"
proof -
  consider "p = []" | a where "p = [a]" | a b where "p = [a, b]" | a b c where "p = [a, b, c]"
    using assms by (metis length_0_conv length_Suc_conv le_SucE le_zero_eq numeral_3_eq_3)
  then show ?thesis by cases (auto simp: demo_rd demo_addr)
qed

lemma demo_walk_child: "walk (demo_space e n) 0xA000 p = Some t \<longleftrightarrow> p = [] \<and> t = 0xA000"
  by (cases p) (auto simp: demo_rd)

lemma demo_owners:
  "pmm_owners (vm_pmm (demo_space e n)) a = 
    (if a = 0x9000 then unat n else if a \<in> {0x5000, 0x6000, 0x7000, 0x8000, 0xA000} then 1 else 0)"
proof (cases "managed a \<and> 5 \<le> unat a div 4096 \<and> unat a div 4096 \<le> 10")
  case True
  then have "unat a mod 4096 = 0" by (simp add: managed_unat)
  then have "unat a = 4096 * (unat a div 4096)" using mult_div_mod_eq [of 4096 "unat a"] by simp
  moreover have "unat a div 4096 \<in> {5, 6, 7, 8, 9, 10}" using True by auto
  ultimately have "unat a \<in> {0x5000, 0x6000, 0x7000, 0x8000, 0x9000, 0xA000}" by auto
  then have "a \<in> {0x5000, 0x6000, 0x7000, 0x8000, 0x9000, 0xA000}" by (auto simp: word_unat_eq_iff)
  then show ?thesis using True by (auto simp: pmm_owners_def demo_space_def unat_div_4096 PAGE_SIZE_def)
next
  case False
  then have "a \<notin> {0x5000, 0x6000, 0x7000, 0x8000, 0x9000, 0xA000}"
    by (auto simp: managed_unat PMM_MAX_PAGES_def)
  then show ?thesis using False by (auto simp: pmm_owners_def demo_space_def unat_div_4096 PAGE_SIZE_def)
qed

lemma demo_pmm_wf: "pmm_wf (vm_pmm (demo_space e n))"
proof -
  have "page_used (vm_pmm (demo_space e n)) i" if "5 \<le> i" "i \<le> 10" for i
  proof -
    have "i \<in> {5, 6, 7, 8, 9, 10}" using that by auto
    then show ?thesis by (auto simp: page_used_def demo_space_def)
  qed
  then show ?thesis by (auto simp: pmm_wf_def page_used_def demo_space_def)
qed

lemma demo_tables:
  "tables user_paths (demo_space e n) 0x5000 = {0x5000, 0x6000, 0x7000, 0x8000}"
  "tables user_paths (demo_space e n) 0xA000 = {0xA000}"
proof -
  have o: "on_paths user_paths []" using on_paths_prefix [OF on_user_paths(1) [of 0], of "[]"] by simp
  have w: "on_paths user_paths p \<and> walk (demo_space e n) 0x5000 p = Some t \<longleftrightarrow>
      (p, t) \<in> {([], 0x5000), ([0], 0x6000), ([0, 0], 0x7000), ([0, 0, 0], 0x8000)}" for p t
    using demo_walk [of p e n t] user_path_length [of p] o on_user_paths(1) [of 0] on_user_paths(2) [of 0 0]
      on_user_paths(3) [of 0 0 0] by auto
  show "tables user_paths (demo_space e n) 0x5000 = {0x5000, 0x6000, 0x7000, 0x8000}"
    unfolding tables_def w by auto
  show "tables user_paths (demo_space e n) 0xA000 = {0xA000}"
    using o by (auto simp: tables_def demo_walk_child)
qed

lemma demo_spaces:
  "uspace_ok (demo_space e n) 0x5000" "uspace_ok (demo_space e n) 0xA000" "apart user_paths (demo_space e n) 0x5000 user_paths 0xA000"
proof -
  have "vm_rd (demo_space e n) t i AND PTE_PS = 0"
    if "walk (demo_space e n) 0x5000 p = Some t" "length p = 2" "present (vm_rd (demo_space e n) t i)" for p t i
    using that demo_walk [of p e n t] by (auto simp: demo_rd PTE_PS_def split: if_splits)
  then show "uspace_ok (demo_space e n) 0x5000"
    using demo_walk user_path_length by (auto simp: tree_ok_def demo_tables demo_owners)
  show "uspace_ok (demo_space e n) 0xA000"
    by (auto simp: tree_ok_def demo_tables demo_owners demo_walk_child demo_rd)
  show "apart user_paths (demo_space e n) 0x5000 user_paths 0xA000" by (simp add: apart_def demo_tables)
qed

lemma demo_free_pages: "{0xB000, 0xC000, 0xD000} \<subseteq> pmm_avail (vm_pmm (demo_space e n))"
  by (simp add: pmm_avail_def managed_def page_used_def demo_space_def PAGE_SIZE_def PMM_MAX_PAGES_def)

lemma demo_pte:
  "vm_path 0x1000 = [0, 0, 0]" "user_va_ok 0x1000" "pte_at (demo_space e n) 0x5000 0x1000 = e"
  "pte_at (demo_space e n) 0xA000 x = 0"
proof -
  show p: "vm_path 0x1000 = [0, 0, 0]"
    by (simp add: vm_path_def pml4_index_def pdpt_index_def pd_index_def)
  then show "user_va_ok 0x1000" by (simp add: user_paths_def)
  show "pte_at (demo_space e n) 0x5000 0x1000 = e"
    by (simp add: pte_at_def p demo_rd demo_addr pt_index_def)
  show "pte_at (demo_space e n) 0xA000 x = 0" by (simp add: pte_at_def vm_path_def demo_rd)
qed

section \<open>Mapping a page\<close>

text \<open>C29. \<^verbatim>\<open>vmm_map_user_page\<close> on page-aligned arguments, for a user address that is not mapped, with
  three free pages at hand (the most page tables it can need) succeeds without a panic.  Then that page
  has exactly the requested frame and flags, every other page of the address space keeps its
  entry, no frame loses or gains an owner unless it was free, and every other address space
  that shares no table with this one keeps all its entries.\<close>

theorem vmm_map_user_page_exact:
  assumes "uspace_ok s root" "pmm_wf (vm_pmm s)" "user_va_ok v"
    and "v AND 0xFFF = 0" "phys AND 0xFFF = 0"
    and "\<not> present (pte_at s root v)" "3 \<le> card (pmm_avail (vm_pmm s))"
    and "uspace_ok s other" "apart user_paths s root user_paths other"
  shows "\<exists>s'. vmm_map_user_page root v phys flags s = Ret s'
    \<and> uspace_ok s' root \<and> pmm_wf (vm_pmm s')
    \<and> (\<forall>x. user_va_ok x \<longrightarrow> pte_at s' root x
         = (if same_page x v then phys OR flags OR VMM_FLAG_PRESENT else pte_at s root x))
    \<and> (\<forall>f. pmm_owners (vm_pmm s) f \<noteq> 0 \<longrightarrow> pmm_owners (vm_pmm s') f = pmm_owners (vm_pmm s) f)
    \<and> uspace_ok s' other \<and> apart user_paths s' root user_paths other
    \<and> (\<forall>x. user_va_ok x \<longrightarrow> pte_at s' other x = pte_at s other x)"
proof -
  obtain s3 pt where e: "ensure_path root v VMM_FLAG_USER s = (s3, pt)"
    by (cases "ensure_path root v VMM_FLAG_USER s")
  have pt: "pt \<noteq> 0" using ensure_path_success [OF path_set_user assms(1-3), of VMM_FLAG_USER 0] assms(7) e by force
  have G: "grows user_paths root s s3" "walk s3 root (vm_path v) = Some pt"
    using ensure_path_spec [OF path_set_user assms(1-3) _ e] pt by auto
  have np: "\<not> present (vm_rd s3 pt (pt_index v))"
  proof -
    have "pte_at s3 root v = pte_at s root v" using G(1) assms(3) by (simp add: grows_def)
    then show ?thesis using G(2) assms(6) by (simp add: pte_at_def)
  qed
  then obtain s' where m: "vmm_map_user_page_nolock root v phys flags s = Ret (s', 0)"
    using e pt by (simp add: map_user_page_nolock_path)
  obtain s4 where G4: "grows user_paths root s s4"
    and S: "sets_pte user_paths root v (phys OR flags OR VMM_FLAG_PRESENT) s4 s'"
    using map_user_nolock_spec [OF path_set_user assms(1-3) m] by auto
  note U = grows_untouched [OF assms(2) G4 assms(8,9)]
  have ok4: "uspace_ok s4 other" using U by (simp add: untouched_def)
  note U' = sets_pte_untouched [OF S ok4 U(2)]
  have "vmm_map_user_page root v phys flags s = Ret s'"
    using m assms(4,5) by (simp add: vmm_map_user_page_def PAGE_SIZE_def)
  then show ?thesis
    using G4 S U U' assms(3)
    by (intro exI [of _ s']) (simp add: grows_def sets_pte_def untouched_def)
qed

theorem vmm_map_user_page_exact_witness:
  "\<exists>s'. vmm_map_user_page 0xA000 0x1000 0xE000 6 demo_vm = Ret s'
     \<and> pte_at s' 0xA000 0x1000 = 0xE007 \<and> pte_at s' 0x5000 0x1000 = 0x9007"
proof -
  have "card {0xB000, 0xC000, 0xD000 :: u64} \<le> card (pmm_avail (vm_pmm demo_vm))"
    by (rule card_mono [OF finite_pmm_avail demo_free_pages])
  then have c: "3 \<le> card (pmm_avail (vm_pmm demo_vm))" by simp
  have a: "\<not> present (pte_at demo_vm 0xA000 0x1000)" "apart user_paths demo_vm 0xA000 user_paths 0x5000"
    using demo_pte(4) apart_sym [OF demo_spaces(3)] by simp_all
  show ?thesis
    using vmm_map_user_page_exact [where phys = "0xE000" and flags = 6, OF demo_spaces(2) demo_pmm_wf
        demo_pte(2) _ _ a(1) c demo_spaces(1) a(2)] demo_pte
    by (auto simp: same_page_def VMM_FLAG_PRESENT_def)
qed

section \<open>Fork\<close>

lemma distinct_concat_disjoint:
  assumes "\<And>x. distinct (f x)" "\<And>x y. x \<noteq> y \<Longrightarrow> set (f x) \<inter> set (f y) = {}" "distinct xs"
  shows "distinct (concat (map f xs))"
  using assms(3)
proof (induction xs)
  case (Cons x xs)
  then have "set (f x) \<inter> set (f y) = {}" if "y \<in> set xs" for y
    using that Cons.prems assms(2) [of x y] by auto
  then have "set (f x) \<inter> set (concat (map f xs)) = {}" by auto
  then show ?case using Cons assms(1) by simp
qed simp

lemma distinct_user_keys: "distinct user_keys"
proof -
  have p: "distinct (pt_keys a b c)" for a b c
    unfolding pt_keys_def by (rule distinct_concat_disjoint [OF _ _ distinct_upt]) auto
  have q: "distinct (pd_keys a b)" for a b
    unfolding pd_keys_def by (rule distinct_concat_disjoint [OF p _ distinct_upt]) (auto simp: keys_range)
  have r: "distinct (pdpt_keys a)" for a
    unfolding pdpt_keys_def by (rule distinct_concat_disjoint [OF q _ distinct_upt]) (auto simp: keys_range)
  show ?thesis
    unfolding user_keys_def by (rule distinct_concat_disjoint [OF r _ distinct_upt]) (auto simp: keys_range)
qed

lemma fork_start:
  assumes "uspace_ok s R" "uspace_ok s Q" "apart user_paths s R user_paths Q" "pmm_wf (vm_pmm s)"
    and "\<forall>x. user_va_ok x \<longrightarrow> pte_at s Q x = 0"
  shows "fork_inv s R Q [] s"
  using assms by (simp add: fork_inv_def)

lemma user_va_key: "user_va_ok x \<Longrightarrow> page_key x \<in> set user_keys"
  using index_less [of x] by (simp add: page_key_def keys_range user_path_iff)

text \<open>C3. Copy-on-write fork.  When \<^verbatim>\<open>vmm_cow_user_pages\<close> reports success for two well-formed
  address spaces without a common page table, the child empty before, the two afterwards
  agree on every shareable page of the parent (present, user, not device memory): same
  frame, same flags, and not writable in either, a page that was writable being marked
  copy-on-write.  Device and kernel pages stay as they were in the parent and are absent
  in the child.  Every frame that had an owner gains exactly one owner per page that
  maps it.  Both address spaces, the page tables and the allocator are well-formed again.\<close>

theorem vmm_cow_fork_exact:
  assumes "uspace_ok s R" "uspace_ok s Q" "apart user_paths s R user_paths Q" "pmm_wf (vm_pmm s)"
    and "\<forall>x. user_va_ok x \<longrightarrow> pte_at s Q x = 0" "vmm_cow_user_pages R Q s = Ret (s', 0)"
  shows "uspace_ok s' R \<and> uspace_ok s' Q \<and> apart user_paths s' R user_paths Q \<and> pmm_wf (vm_pmm s')
    \<and> (\<forall>x. user_va_ok x \<longrightarrow> (if fork_skips (pte_at s R x)
         then pte_at s' R x = pte_at s R x \<and> pte_at s' Q x = 0
         else pte_at s' R x = pte_at s' Q x \<and> entry_frame (pte_at s' R x) = entry_frame (pte_at s R x)
           \<and> entry_flags (pte_at s' R x) = (if entry_flags (pte_at s R x) AND VMM_FLAG_WRITABLE \<noteq> 0
                then (entry_flags (pte_at s R x) AND NOT VMM_FLAG_WRITABLE) OR VMM_FLAG_COW
                else entry_flags (pte_at s R x))
           \<and> pte_at s' R x AND VMM_FLAG_WRITABLE = 0))
    \<and> (\<forall>f. pmm_owners (vm_pmm s) f \<noteq> 0 \<longrightarrow> pmm_owners (vm_pmm s') f
         = pmm_owners (vm_pmm s) f + card {k \<in> set user_keys. shares s R f k})"
proof -
  have I: "fork_inv s R Q user_keys s'"
    by (rule fork_all [OF fork_start [OF assms(1-5)] assms(6)])
  have fr: "entry_frame (shared_entry e) = entry_frame e" for e
    by (intro bit_word_eqI) (auto simp: entry_frame_def bit_simps bit_flag_bits bit_shared_entry)
  have fl: "entry_flags (shared_entry e) = (if entry_flags e AND VMM_FLAG_WRITABLE \<noteq> 0
      then (entry_flags e AND NOT VMM_FLAG_WRITABLE) OR VMM_FLAG_COW else entry_flags e)" for e
    by (intro bit_word_eqI)
       (auto simp: entry_flags_def bit_simps bit_flag_bits bit_shared_entry bit_flags)
  have n: "length (filter (shares s R f) user_keys) = card {k \<in> set user_keys. shares s R f k}" for f
    using distinct_card [OF distinct_filter [OF distinct_user_keys], of "shares s R f"] by simp
  have e: "pte_at s' R x = parent_entry (pte_at s R x)" "pte_at s' Q x = child_entry (pte_at s R x)"
    if "user_va_ok x" for x using I that user_va_key by (simp_all add: fork_inv_def)
  show ?thesis
  proof (intro conjI allI impI)
    fix x assume x: "user_va_ok x"
    show "if fork_skips (pte_at s R x)
         then pte_at s' R x = pte_at s R x \<and> pte_at s' Q x = 0
         else pte_at s' R x = pte_at s' Q x \<and> entry_frame (pte_at s' R x) = entry_frame (pte_at s R x)
           \<and> entry_flags (pte_at s' R x) = (if entry_flags (pte_at s R x) AND VMM_FLAG_WRITABLE \<noteq> 0
                then (entry_flags (pte_at s R x) AND NOT VMM_FLAG_WRITABLE) OR VMM_FLAG_COW
                else entry_flags (pte_at s R x))
           \<and> pte_at s' R x AND VMM_FLAG_WRITABLE = 0"
      unfolding e [OF x] parent_entry_def child_entry_def using fr fl shared_entry_facts(2) by auto
  next
    fix f assume "pmm_owners (vm_pmm s) f \<noteq> 0"
    then show "pmm_owners (vm_pmm s') f
         = pmm_owners (vm_pmm s) f + card {k \<in> set user_keys. shares s R f k}"
      using I n by (simp add: fork_inv_def)
  qed (use I in \<open>simp_all add: fork_inv_def\<close>)
qed

lemmas demo_eval = cow_pte_def fork_skips_def Let_def vmm_map_user_page_nolock_def ensure_table_phys_def
  alloc_table_def pmm_alloc_page_def page_used_def scan_bytes.simps scan_bits.simps PAGE_SIZE_def
  PMM_MAX_PAGES_def set_page_bit_def vm_rd_def vm_wr_def vm_zero_def zero_words_def ARCH_PTE_ADDR_def
  pml4_index_def pdpt_index_def pd_index_def pt_index_def arch_pte_from_flags_def pmm_ref_page_def
  VMM_FLAG_PRESENT_def VMM_FLAG_WRITABLE_def VMM_FLAG_USER_def VMM_FLAG_COW_def VMM_FLAG_WC_def
  VMM_FLAG_UCMINUS_def PTE_FLAG_BITS_def demo_space_def

lemma demo_cow_pte:
  "case cow_pte 0xA000 0x1000 0x8000 1 demo_vm of Panic m \<Rightarrow> False
   | Ret (s', r) \<Rightarrow> r = 0 \<and> (\<forall>i. vm_rd s' 0x5000 i = (if i = 0 then 0x6007 else 0)
       \<and> vm_rd s' 0x6000 i = (if i = 0 then 0x7007 else 0)
       \<and> vm_rd s' 0x7000 i = (if i = 0 then 0x8007 else 0)
       \<and> vm_rd s' 0x8000 i = (if i = 1 then 0x9205 else 0))"
  by (simp add: demo_eval)

lemma demo_fork: "\<exists>s'. vmm_cow_user_pages 0x5000 0xA000 demo_vm = Ret (s', 0)"
proof -
  obtain s' where c: "cow_pte 0xA000 0x1000 0x8000 1 demo_vm = Ret (s', 0)"
    and r: "\<And>i. vm_rd s' 0x5000 i = (if i = 0 then 0x6007 else 0)"
      "\<And>i. vm_rd s' 0x6000 i = (if i = 0 then 0x7007 else 0)"
      "\<And>i. vm_rd s' 0x7000 i = (if i = 0 then 0x8007 else 0)"
      "\<And>i. vm_rd s' 0x8000 i = (if i = 1 then 0x9205 else 0)"
    using demo_cow_pte by (auto split: kres.splits)
  have va: "user_va 0 0 0 1 = 0x1000" by (simp add: user_va_def)
  have pt: "cow_pt 0xA000 0 0 0 0x8000 demo_vm = Ret (s', 0)"
    unfolding cow_pt_def
    by (rule for_each_single [of 1]) (use c va r in \<open>simp_all add: cow_pte_skip demo_rd\<close>)
  have pd: "cow_pd 0xA000 0 0 0x7000 demo_vm = Ret (s', 0)"
    unfolding cow_pd_def
    by (rule for_each_single [of 0]) (use pt r in \<open>simp_all add: demo_rd demo_addr\<close>)
  have pdpt: "cow_pdpt 0xA000 0 0x6000 demo_vm = Ret (s', 0)"
    unfolding cow_pdpt_def
    by (rule for_each_single [of 0]) (use pd r in \<open>simp_all add: demo_rd demo_addr\<close>)
  have "vmm_cow_user_pages 0x5000 0xA000 demo_vm = Ret (s', 0)"
    unfolding cow_user_pages_levels
    by (rule for_each_single [of 0]) (use pdpt r in \<open>simp_all add: demo_rd demo_addr\<close>)
  then show ?thesis by blast
qed

theorem vmm_cow_fork_exact_witness:
  "\<exists>s'. vmm_cow_user_pages 0x5000 0xA000 demo_vm = Ret (s', 0)
     \<and> pte_at s' 0x5000 0x1000 = pte_at s' 0xA000 0x1000
     \<and> entry_frame (pte_at s' 0xA000 0x1000) = 0x9000 \<and> entry_flags (pte_at s' 0xA000 0x1000) = 0x205"
proof -
  obtain s' where f: "vmm_cow_user_pages 0x5000 0xA000 demo_vm = Ret (s', 0)" using demo_fork by blast
  have z: "\<forall>x. user_va_ok x \<longrightarrow> pte_at demo_vm 0xA000 x = 0" using demo_pte(4) by simp
  have k: "\<not> fork_skips (pte_at demo_vm 0x5000 0x1000)"
    by (simp add: demo_pte fork_skips_def VMM_FLAG_WC_def VMM_FLAG_UCMINUS_def)
  note F = vmm_cow_fork_exact [OF demo_spaces(1-3) demo_pmm_wf z f]
  have "pte_at s' 0x5000 0x1000 = pte_at s' 0xA000 0x1000 \<and> entry_frame (pte_at s' 0x5000 0x1000) = 0x9000
      \<and> entry_flags (pte_at s' 0x5000 0x1000) = 0x205"
    using F [THEN conjunct2, THEN conjunct2, THEN conjunct2, THEN conjunct2, THEN conjunct1, rule_format,
        OF demo_pte(2)] k
    by (auto simp: demo_pte entry_frame_def entry_flags_def PTE_FLAG_BITS_def VMM_FLAG_WRITABLE_def
        VMM_FLAG_COW_def)
  then show ?thesis using f by auto
qed

section \<open>Write faults\<close>

lemma managed_entry:
  assumes "managed f"
  shows "entry_frame (f OR entry_flags g) = f" "entry_flags (f OR entry_flags g) = entry_flags g"
proof -
  have hi: "bit f k \<Longrightarrow> 12 \<le> k \<and> k < 52" for k
  proof -
    assume b: "bit f k"
    have "(0x000FFFFFFFFFF000 :: u64) = mask 52 AND NOT (mask 12)" by (simp add: mask_eq_exp_minus_1)
    then have "f = f AND (mask 52 AND NOT (mask 12))" using assms by (metis ARCH_PTE_ADDR_def pte_addr_managed)
    then show "12 \<le> k \<and> k < 52" using b by (metis bit_and_iff bit_mask_iff bit_not_iff not_le)
  qed
  then have lo: "k < 12 \<Longrightarrow> \<not> bit f k" for k by force
  show "entry_frame (f OR entry_flags g) = f" "entry_flags (f OR entry_flags g) = entry_flags g"
    using hi [of 63] lo
    by (auto intro!: bit_word_eqI simp: entry_frame_def entry_flags_def bit_simps bit_flag_bits)
qed

lemma resolved_flags:
  "(entry_flags e AND NOT VMM_FLAG_COW) OR VMM_FLAG_WRITABLE
    = entry_flags ((e AND NOT VMM_FLAG_COW) OR VMM_FLAG_WRITABLE)"
  by (intro bit_word_eqI) (auto simp: entry_flags_def bit_simps bit_flag_bits bit_flags)

text \<open>C16. A write to a copy-on-write page: when a page is free, \<^verbatim>\<open>vmm_cow_fault_handle\<close> succeeds and the
  faulting address space gets a frame of its own, which was free before, has this page
  as its only owner and holds a copy of the shared frame; the page is writable and no longer
  copy-on-write.  The shared frame loses exactly one owner.  No other page of this address
  space changes, another address space keeps all its entries, and the contents of
  every frame that was in use, page tables of this address space apart, stay the same.\<close>

theorem vmm_cow_fault_private:
  assumes "uspace_ok s R" "pmm_wf (vm_pmm s)" "user_va_ok v" "cow_entry (pte_at s R v)"
    and "old = entry_frame (pte_at s R v)" "pmm_owners (vm_pmm s) old \<noteq> 0"
    and "old \<notin> tables user_paths s R" "old \<notin> tables user_paths s Q"
    and "pmm_avail (vm_pmm s) \<noteq> {}"
    and "uspace_ok s Q" "apart user_paths s R user_paths Q"
  shows "\<exists>s' new. vmm_cow_fault_handle R v s = Ret (s', 0) \<and> new \<in> pmm_avail (vm_pmm s)
    \<and> entry_frame (pte_at s' R v) = new
    \<and> entry_flags (pte_at s' R v) = (entry_flags (pte_at s R v) AND NOT VMM_FLAG_COW) OR VMM_FLAG_WRITABLE
    \<and> (\<forall>i<512. vm_mem s' new i = vm_mem s old i)
    \<and> pmm_owners (vm_pmm s') = (pmm_owners (vm_pmm s))(new := 1, old := pmm_owners (vm_pmm s) old - 1)
    \<and> uspace_ok s' R \<and> pmm_wf (vm_pmm s') \<and> uspace_ok s' Q
    \<and> (\<forall>x. user_va_ok x \<and> \<not> same_page x v \<longrightarrow> pte_at s' R x = pte_at s R x)
    \<and> (\<forall>x. user_va_ok x \<longrightarrow> pte_at s' Q x = pte_at s Q x)
    \<and> (\<forall>f. pmm_owners (vm_pmm s) f \<noteq> 0 \<and> f \<notin> tables user_paths s R \<longrightarrow> vm_mem s' f = vm_mem s f)"
proof -
  let ?w = "\<lambda>n. n OR ((entry_flags (pte_at s R v) AND NOT VMM_FLAG_COW) OR VMM_FLAG_WRITABLE)"
  obtain s' new where S: "vmm_cow_fault_handle R v s = Ret (s', 0)" "new \<in> pmm_avail (vm_pmm s)"
    "uspace_ok s' R" "pmm_wf (vm_pmm s')"
    "\<And>x. user_va_ok x \<Longrightarrow> pte_at s' R x = (if same_page x v then ?w new else pte_at s R x)"
    "\<And>i. i < 512 \<Longrightarrow> vm_mem s' new i = vm_mem s old i"
    "\<And>f. f \<noteq> new \<Longrightarrow> f \<notin> tables user_paths s R \<Longrightarrow> vm_mem s' f = vm_mem s f"
    "pmm_owners (vm_pmm s') = (pmm_owners (vm_pmm s))(new := 1, old := pmm_owners (vm_pmm s) old - 1)"
    using cow_fault_spec [OF path_set_user assms(1-7,9)] by (elim exE conjE) blast
  have mem: "vm_mem s' f = vm_mem s f" if "pmm_owners (vm_pmm s) f \<noteq> 0" "f \<notin> tables user_paths s R" for f
    using S(2,7) that pa.avail_unowned [OF assms(2)] by metis
  have t: "pmm_owners (vm_pmm s) t \<noteq> 0 \<and> t \<notin> tables user_paths s R \<and> t \<noteq> old"
    if "t \<in> tables user_paths s Q" for t
    using that assms(8,10,11) unfolding apart_def tree_ok_def by blast
  have own: "pmm_owners (vm_pmm s') t \<noteq> 0" if "t \<in> tables user_paths s Q" for t
    using t [OF that] by (simp add: S(8))
  have memQ: "vm_mem s' t = vm_mem s t" if "t \<in> tables user_paths s Q" for t
    using mem t [OF that] by blast
  note Q = tree_ok_cong [OF assms(10) memQ own]
  have "same_page v v" by (simp add: same_page_def)
  then have e: "pte_at s' R v = new OR entry_flags ((pte_at s R v AND NOT VMM_FLAG_COW) OR VMM_FLAG_WRITABLE)"
    using S(5) [OF assms(3)] by (simp add: resolved_flags)
  have mn: "managed new" using S(2) by (simp add: pmm_avail_def)
  note parts = managed_entry [OF mn, folded e]
  show ?thesis
    by (intro exI [of _ s'] exI [of _ new] conjI allI impI)
       (use S mem Q e managed_entry [OF mn] in \<open>auto simp: resolved_flags\<close>)
qed

theorem vmm_cow_fault_private_witness:
  "\<exists>s' new. vmm_cow_fault_handle 0x5000 0x1000 (demo_space 0x9205 2) = Ret (s', 0)
     \<and> entry_frame (pte_at s' 0x5000 0x1000) = new \<and> entry_flags (pte_at s' 0x5000 0x1000) = 7
     \<and> pmm_owners (vm_pmm s') new = 1 \<and> pmm_owners (vm_pmm s') 0x9000 = 1"
proof -
  let ?s = "demo_space 0x9205 2"
  have c: "cow_entry (pte_at ?s 0x5000 0x1000)" by (simp add: demo_pte cow_entry_def)
  have o: "0x9000 = entry_frame (pte_at ?s 0x5000 0x1000)" "pmm_owners (vm_pmm ?s) 0x9000 \<noteq> 0"
    "0x9000 \<notin> tables user_paths ?s 0x5000" "0x9000 \<notin> tables user_paths ?s 0xA000"
    by (simp_all add: demo_pte entry_frame_def PTE_FLAG_BITS_def demo_owners demo_tables)
  have a: "pmm_avail (vm_pmm ?s) \<noteq> {}" using demo_free_pages by blast
  have n: "new \<noteq> 0x9000" if "new \<in> pmm_avail (vm_pmm ?s)" for new
    using that pa.avail_unowned [OF demo_pmm_wf] o(2) by metis
  show ?thesis
    using vmm_cow_fault_private [OF demo_spaces(1) demo_pmm_wf demo_pte(2) c o a demo_spaces(2,3)] n
    by (fastforce simp: demo_pte entry_flags_def PTE_FLAG_BITS_def VMM_FLAG_COW_def VMM_FLAG_WRITABLE_def
        demo_owners)
qed

end
