(* ===== verification/Memfd.thy ===== *)
theory Memfd
  imports Vmm_Props
begin

text \<open>
  Anonymous shared memory files, \<^verbatim>\<open>kernel/fs/memfd.c\<close>, with the open file records of
  \<^verbatim>\<open>kernel/fs/vfs.h\<close>.  The table \<^verbatim>\<open>s_memfds\<close> is a function from slot numbers; the frames that the
  slots hold belong to the physical allocator inside the virtual memory state.  The lock is
  dropped while \<^verbatim>\<open>memfd_truncate\<close> allocates; a call is modelled as running without
  interference.
\<close>

section \<open>Open files\<close>

definition PROC_MAX_FDS :: nat where "PROC_MAX_FDS = 16"

text \<open>\<open>vf_ops\<close> is the address of a driver's operation table; 0 marks a free slot.\<close>

record vfs_file =
  vf_ops :: u64
  vf_priv :: u64
  vf_offset :: u64
  vf_size :: u64
  vf_flags :: u32

section \<open>Memory files\<close>

definition MEMFD_MAX :: nat where "MEMFD_MAX = 16"
definition MEMFD_PAGES_MAX :: nat where "MEMFD_PAGES_MAX = 2048"

record memfd =
  mf_in_use :: bool
  mf_refcount :: u32
  mf_name :: string
  phys_pages :: "nat \<Rightarrow> u64"
  page_count :: u32
  mf_size :: u64

type_synonym memfds = "nat \<Rightarrow> memfd"

record mfs =
  s_memfds :: memfds
  mf_vm :: vmm

definition memfd_get :: "u32 \<Rightarrow> mfs \<Rightarrow> memfd option" where
  "memfd_get fid s =
    (if MEMFD_MAX \<le> unat fid then None
     else if \<not> mf_in_use (s_memfds s (unat fid)) then None
     else Some (s_memfds s (unat fid)))"

definition upd_memfd :: "nat \<Rightarrow> (memfd \<Rightarrow> memfd) \<Rightarrow> mfs \<Rightarrow> mfs" where
  "upd_memfd i f s = s\<lparr>s_memfds := (s_memfds s)(i := f (s_memfds s i))\<rparr>"

text \<open>The bytes that the read loop copies, from position \<open>pos\<close> of the file on.\<close>

definition mf_chunk :: "u64 \<Rightarrow> nat \<Rightarrow> nat" where
  "mf_chunk pos rest = min (4096 - unat (pos mod 4096)) rest"

function mf_bytes :: "memfd \<Rightarrow> vmm \<Rightarrow> u64 \<Rightarrow> nat \<Rightarrow> u8 list" where
  "mf_bytes mf vm pos rest =
    (if rest = 0 then []
     else (if ucast (pos div 4096) < page_count mf \<and> phys_pages mf (unat (ucast (pos div 4096) :: u32)) \<noteq> 0
           then map (\<lambda>i. vm_rd_byte vm (phys_pages mf (unat (ucast (pos div 4096) :: u32)))
                           (unat (pos mod 4096) + i)) [0..<mf_chunk pos rest]
           else replicate (mf_chunk pos rest) 0)
        @ mf_bytes mf vm (pos + of_nat (mf_chunk pos rest)) (rest - mf_chunk pos rest))"
  by auto
termination
proof (relation "measure (\<lambda>(mf, vm, pos, rest). rest)", goal_cases)
  case (2 mf vm pos rest)
  have "unat (pos mod 4096) < 4096" by (simp add: unat_mod)
  then show ?case using 2 by (simp add: mf_chunk_def)
qed simp

declare mf_bytes.simps [simp del]

definition memfd_vfs_read :: "u64 \<Rightarrow> u64 \<Rightarrow> u64 \<Rightarrow> mfs \<Rightarrow> int \<times> u8 list" where
  "memfd_vfs_read priv off len s =
    (case memfd_get (ucast priv) s of
       None \<Rightarrow> (-9, [])
     | Some mf \<Rightarrow>
         if mf_size mf \<le> off then (0, [])
         else let len' = (if mf_size mf < off + len then mf_size mf - off else len) in
           (sint (ucast len' :: 32 word), mf_bytes mf (mf_vm s) off (unat len')))"

definition memfd_vfs_write :: "u64 \<Rightarrow> int" where
  "memfd_vfs_write priv = -38"

definition mf_free_pages :: "memfd \<Rightarrow> vmm \<Rightarrow> (vmm \<times> int) kres" where
  "mf_free_pages mf = for_each (\<lambda>i vm.
     if phys_pages mf i \<noteq> 0 then vm_free (phys_pages mf i) vm else Ret (vm, 0)) [0..<unat (page_count mf)]"

definition memfd_vfs_close :: "u64 \<Rightarrow> mfs \<Rightarrow> mfs kres" where
  "memfd_vfs_close priv s =
    (let i = unat (ucast priv :: u32) in
     if MEMFD_MAX \<le> i \<or> \<not> mf_in_use (s_memfds s i) then Ret s
     else let s1 = upd_memfd i (\<lambda>mf. mf\<lparr>mf_refcount := mf_refcount mf - 1\<rparr>) s in
       if 0 < mf_refcount (s_memfds s1 i) then Ret s1
       else case mf_free_pages (s_memfds s1 i) (mf_vm s1) of
         Panic m \<Rightarrow> Panic m
       | Ret (vm, _) \<Rightarrow> Ret ((upd_memfd i (\<lambda>mf. mf\<lparr>mf_in_use := False\<rparr>) s1)\<lparr>mf_vm := vm\<rparr>))"

definition memfd_vfs_dup :: "u64 \<Rightarrow> mfs \<Rightarrow> mfs" where
  "memfd_vfs_dup priv s =
    (let i = unat (ucast priv :: u32) in
     if i < MEMFD_MAX \<and> mf_in_use (s_memfds s i)
     then upd_memfd i (\<lambda>mf. mf\<lparr>mf_refcount := mf_refcount mf + 1\<rparr>) s else s)"

text \<open>Size, block count and mode of \<^verbatim>\<open>memfd_vfs_stat\<close>; the other fields are zero but for the block size 4096.\<close>

definition memfd_vfs_stat :: "u64 \<Rightarrow> mfs \<Rightarrow> u64 \<times> u64 \<times> u32" where
  "memfd_vfs_stat priv s = (case memfd_get (ucast priv) s of
     None \<Rightarrow> (0, 0, 0x8180)
   | Some mf \<Rightarrow> (mf_size mf, ucast (page_count mf * 8), 0x8180))"

definition fresh_memfd :: "string \<Rightarrow> memfd" where
  "fresh_memfd name = \<lparr>mf_in_use = True, mf_refcount = 1, mf_name = take 31 name, phys_pages = (\<lambda>_. 0),
     page_count = 0, mf_size = 0\<rparr>"

definition memfd_alloc :: "string \<Rightarrow> mfs \<Rightarrow> mfs \<times> int" where
  "memfd_alloc name s =
    (case find (\<lambda>i. \<not> mf_in_use (s_memfds s i)) [0..<MEMFD_MAX] of
       None \<Rightarrow> (s, -1)
     | Some i \<Rightarrow> (upd_memfd i (\<lambda>_. fresh_memfd name) s, int i))"

text \<open>The growing loop of \<^verbatim>\<open>memfd_truncate\<close>.\<close>

definition mf_grow_one :: "nat \<Rightarrow> nat \<Rightarrow> mfs \<Rightarrow> (mfs \<times> int) kres" where
  "mf_grow_one fid i s =
    (case pmm_alloc_page (vm_pmm (mf_vm s)) of (p, phys) \<Rightarrow>
     if phys = 0 then Ret (s\<lparr>mf_vm := (mf_vm s)\<lparr>vm_pmm := p\<rparr>\<rparr>, -12)
     else Ret (upd_memfd fid (\<lambda>mf. mf\<lparr>phys_pages := (phys_pages mf)(i := phys)\<rparr>)
                 (s\<lparr>mf_vm := vm_zero phys ((mf_vm s)\<lparr>vm_pmm := p\<rparr>)\<rparr>), 0))"

definition mf_shrink_one :: "nat \<Rightarrow> nat \<Rightarrow> mfs \<Rightarrow> (mfs \<times> int) kres" where
  "mf_shrink_one fid i s =
    (if phys_pages (s_memfds s fid) i \<noteq> 0
     then case vm_free (phys_pages (s_memfds s fid) i) (mf_vm s) of
            Panic m \<Rightarrow> Panic m
          | Ret (vm, _) \<Rightarrow>
              Ret (upd_memfd fid (\<lambda>mf. mf\<lparr>phys_pages := (phys_pages mf)(i := 0)\<rparr>) (s\<lparr>mf_vm := vm\<rparr>), 0)
     else Ret (s, 0))"

definition memfd_truncate :: "u32 \<Rightarrow> u64 \<Rightarrow> mfs \<Rightarrow> (mfs \<times> int) kres" where
  "memfd_truncate fid sz s =
    (case memfd_get fid s of
       None \<Rightarrow> Ret (s, -9)
     | Some mf \<Rightarrow>
         let new_pages = (ucast ((sz + 4095) div 4096) :: u32) in
         if MEMFD_PAGES_MAX < unat new_pages then Ret (s, -12)
         else case for_each (mf_grow_one (unat fid)) [unat (page_count mf)..<unat new_pages] s of
           Panic m \<Rightarrow> Panic m
         | Ret (s1, r) \<Rightarrow>
             if r \<noteq> 0 then Ret (s1, r)
             else case for_each (mf_shrink_one (unat fid))
                         [unat new_pages..<unat (page_count (s_memfds s1 (unat fid)))] s1 of
               Panic m \<Rightarrow> Panic m
             | Ret (s2, _) \<Rightarrow>
                 Ret (upd_memfd (unat fid) (\<lambda>mf. mf\<lparr>page_count := new_pages, mf_size := sz\<rparr>) s2, 0))"

section \<open>Files of a process\<close>

definition g_memfd_ops :: u64 where "g_memfd_ops = 1"

definition memfd_from_fd :: "int \<Rightarrow> (nat \<Rightarrow> vfs_file) \<Rightarrow> mfs \<Rightarrow> memfd option" where
  "memfd_from_fd fd fds s =
    (if fd < 0 \<or> int PROC_MAX_FDS \<le> fd then None
     else if vf_ops (fds (nat fd)) \<noteq> g_memfd_ops then None
     else memfd_get (ucast (vf_priv (fds (nat fd)))) s)"

definition memfd_open_fd :: "u32 \<Rightarrow> (nat \<Rightarrow> vfs_file) \<Rightarrow> (nat \<Rightarrow> vfs_file) \<times> int" where
  "memfd_open_fd fid fds =
    (case find (\<lambda>i. vf_ops (fds i) = 0) [0..<PROC_MAX_FDS] of
       None \<Rightarrow> (fds, -1)
     | Some i \<Rightarrow> (fds(i := \<lparr>vf_ops = g_memfd_ops, vf_priv = ucast fid, vf_offset = 0, vf_size = 0,
                            vf_flags = 0\<rparr>), int i))"

section \<open>Contents\<close>

text \<open>Byte \<open>b\<close> of a file.  Reading is the byte-wise specification, page boundaries notwithstanding.\<close>

definition mf_byte :: "memfd \<Rightarrow> vmm \<Rightarrow> nat \<Rightarrow> u8" where
  "mf_byte mf vm b =
    (if b div 4096 < unat (page_count mf) \<and> phys_pages mf (b div 4096) \<noteq> 0
     then vm_rd_byte vm (phys_pages mf (b div 4096)) (b mod 4096) else 0)"

lemma mf_bytes_spec:
  "unat pos + rest < 2 ^ 44 \<Longrightarrow> mf_bytes mf vm pos rest = map (mf_byte mf vm) [unat pos..<unat pos + rest]"
proof (induction mf vm pos rest rule: mf_bytes.induct)
  case (1 mf vm pos rest)
  let ?c = "mf_chunk pos rest"
  show ?case
  proof (cases "rest = 0")
    case False
    have pm: "unat (pos mod 4096) = unat pos mod 4096" by (simp add: unat_mod)
    have c: "0 < ?c" "?c \<le> rest" "unat pos mod 4096 + ?c \<le> 4096"
      using False by (simp_all add: mf_chunk_def pm)
    have pd: "unat (ucast (pos div 4096) :: u32) = unat pos div 4096"
    proof -
      have "unat pos div 4096 < 2 ^ 32" using 1(2) by simp
      then show ?thesis by (simp add: unsigned_ucast_eq take_bit_nat_eq_self unat_div)
    qed
    have b: "(unat pos + i) div 4096 = unat pos div 4096" "(unat pos + i) mod 4096 = unat pos mod 4096 + i"
      if "i < ?c" for i
    proof -
      have "unat pos + i = 4096 * (unat pos div 4096) + (unat pos mod 4096 + i)" by simp
      moreover have "unat pos mod 4096 + i < 4096" using that c by simp
      ultimately show "(unat pos + i) div 4096 = unat pos div 4096" "(unat pos + i) mod 4096 = unat pos mod 4096 + i"
        by (metis div_mult_self4 div_less add_0_right zero_neq_numeral, metis mod_mult_self4 mod_less)
    qed
    have lt: "ucast (pos div 4096) < page_count mf \<longleftrightarrow> unat pos div 4096 < unat (page_count mf)"
      by (simp add: word_less_nat_alt pd)
    have here: "map (mf_byte mf vm) [unat pos..<unat pos + ?c]
      = (if unat pos div 4096 < unat (page_count mf) \<and> phys_pages mf (unat pos div 4096) \<noteq> 0
         then map (\<lambda>i. vm_rd_byte vm (phys_pages mf (unat pos div 4096)) (unat pos mod 4096 + i)) [0..<?c]
         else replicate ?c 0)"
      by (rule nth_equalityI) (auto simp: mf_byte_def b)
    have up: "unat (pos + of_nat ?c) = unat pos + ?c"
      using 1(2) c by (subst unat_plus_no_wrap) (simp_all add: unat_of_nat)
    have "mf_bytes mf vm (pos + of_nat ?c) (rest - ?c) = map (mf_byte mf vm) [unat pos + ?c..<unat pos + rest]"
      using 1(1) [OF False] 1(2) c up by simp
    moreover have "[unat pos..<unat pos + rest] = [unat pos..<unat pos + ?c] @ [unat pos + ?c..<unat pos + rest]"
      using c upt_add_eq_append [of "unat pos" "unat pos + ?c" "rest - ?c"] by simp
    ultimately show ?thesis
      by (subst mf_bytes.simps) (simp add: False here pd lt pm)
  qed (simp add: mf_bytes.simps)
qed

section \<open>Truncation\<close>

text \<open>Well-formedness: the frames in use by the files are owned and distinct.\<close>

definition mf_cells :: "mfs \<Rightarrow> (nat \<times> nat) set" where
  "mf_cells s = {(i, j). i < MEMFD_MAX \<and> mf_in_use (s_memfds s i) \<and> j < unat (page_count (s_memfds s i))}"

definition mf_frame :: "mfs \<Rightarrow> nat \<times> nat \<Rightarrow> u64" where
  "mf_frame s = (\<lambda>(i, j). phys_pages (s_memfds s i) j)"

definition mfs_ok :: "mfs \<Rightarrow> bool" where
  "mfs_ok s \<longleftrightarrow> pmm_wf (vm_pmm (mf_vm s)) \<and> inj_on (mf_frame s) (mf_cells s)
     \<and> (\<forall>c\<in>mf_cells s. pmm_owners (vm_pmm (mf_vm s)) (mf_frame s c) = 1)"

text \<open>The state after the frames \<open>P a\<close>, \<open>\<dots>\<close>, \<open>P (a + k - 1)\<close> have been added to file \<open>f\<close>.\<close>

definition grown :: "nat \<Rightarrow> nat \<Rightarrow> nat \<Rightarrow> mfs \<Rightarrow> (nat \<Rightarrow> u64) \<Rightarrow> mfs \<Rightarrow> bool" where
  "grown f a k s P s' \<longleftrightarrow>
     s_memfds s' = (s_memfds s)(f := (s_memfds s f)\<lparr>phys_pages := P\<rparr>)
     \<and> pmm_wf (vm_pmm (mf_vm s'))
     \<and> (\<forall>j. j \<notin> {a..<a + k} \<longrightarrow> P j = phys_pages (s_memfds s f) j)
     \<and> inj_on P {a..<a + k} \<and> P ` {a..<a + k} \<subseteq> pmm_avail (vm_pmm (mf_vm s))
     \<and> pmm_avail (vm_pmm (mf_vm s')) = pmm_avail (vm_pmm (mf_vm s)) - P ` {a..<a + k}
     \<and> (\<forall>g. pmm_owners (vm_pmm (mf_vm s')) g =
           (if g \<in> P ` {a..<a + k} then 1 else pmm_owners (vm_pmm (mf_vm s)) g))
     \<and> (\<forall>g. g \<notin> P ` {a..<a + k} \<longrightarrow> vm_mem (mf_vm s') g = vm_mem (mf_vm s) g)
     \<and> (\<forall>g\<in>P ` {a..<a + k}. \<forall>i<512. vm_mem (mf_vm s') g i = 0)"

lemma mf_grow_step:
  assumes G: "grown f a k s P s'" and al: "pmm_alloc_page (vm_pmm (mf_vm s')) = (p, phys)" "phys \<noteq> 0"
  shows "\<exists>P' s''. mf_grow_one f (a + k) s' = Ret (s'', 0) \<and> grown f a (Suc k) s P' s''"
proof -
  have wf: "pmm_wf (vm_pmm (mf_vm s'))" using G by (simp add: grown_def)
  note A = pa.alloc_page [OF wf al]
  have ar: "ARCH_PTE_ADDR phys = phys" using A by (simp add: pmm_avail_def pte_addr_managed)
  let ?P = "P(a + k := phys)"
  let ?s = "upd_memfd f (\<lambda>mf. mf\<lparr>phys_pages := (phys_pages mf)(a + k := phys)\<rparr>)
              (s'\<lparr>mf_vm := vm_zero phys ((mf_vm s')\<lparr>vm_pmm := p\<rparr>)\<rparr>)"
  have new: "phys \<notin> P ` {a..<a + k}" "phys \<in> pmm_avail (vm_pmm (mf_vm s))" using A G by (auto simp: grown_def)
  have im: "?P ` {a..<a + Suc k} = insert phys (P ` {a..<a + k})"
    by (auto simp: atLeastLessThanSuc image_iff)
  have P: "inj_on P {a..<a + k}" using G by (simp add: grown_def)
  have "inj_on ?P {a..<a + k}" by (rule iffD2 [OF inj_on_cong P]) simp
  moreover have "?P ` {a..<a + k} = P ` {a..<a + k}" by (rule image_cong) simp_all
  ultimately have inj: "inj_on ?P {a..<a + Suc k}"
    using new(1) by (simp add: atLeastLessThanSuc)
  have "grown f a (Suc k) s ?P ?s"
    unfolding grown_def im
  proof (intro conjI)
    show "s_memfds ?s = (s_memfds s)(f := (s_memfds s f)\<lparr>phys_pages := ?P\<rparr>)"
      using G by (simp add: grown_def upd_memfd_def)
    show "inj_on ?P {a..<a + Suc k}" by (rule inj)
    show "pmm_wf (vm_pmm (mf_vm ?s))" using A by (simp add: upd_memfd_def vm_zero_def)
    show "\<forall>j. j \<notin> {a..<a + Suc k} \<longrightarrow> ?P j = phys_pages (s_memfds s f) j"
      using G by (auto simp: grown_def)
    show "insert phys (P ` {a..<a + k}) \<subseteq> pmm_avail (vm_pmm (mf_vm s))" using G new by (simp add: grown_def)
    show "pmm_avail (vm_pmm (mf_vm ?s)) = pmm_avail (vm_pmm (mf_vm s)) - insert phys (P ` {a..<a + k})"
      using G A by (auto simp: grown_def upd_memfd_def vm_zero_def)
    show "\<forall>g. pmm_owners (vm_pmm (mf_vm ?s)) g
        = (if g \<in> insert phys (P ` {a..<a + k}) then 1 else pmm_owners (vm_pmm (mf_vm s)) g)"
      using G A by (simp add: grown_def upd_memfd_def vm_zero_def)
    show "\<forall>g. g \<notin> insert phys (P ` {a..<a + k}) \<longrightarrow> vm_mem (mf_vm ?s) g = vm_mem (mf_vm s) g"
      using G by (simp add: grown_def upd_memfd_def vm_zero_def ar)
    show "\<forall>g\<in>insert phys (P ` {a..<a + k}). \<forall>i<512. vm_mem (mf_vm ?s) g i = 0"
      using G by (simp add: grown_def upd_memfd_def vm_zero_def zero_words_def ar)
  qed
  then show ?thesis using al by (auto simp: mf_grow_one_def)
qed

lemma mf_grow_loop:
  assumes "pmm_wf (vm_pmm (mf_vm s))"
  shows "\<exists>s' r P. for_each (mf_grow_one f) [a..<a + k] s = Ret (s', r)
    \<and> (if k \<le> card (pmm_avail (vm_pmm (mf_vm s))) then r = 0 \<and> grown f a k s P s'
       else r = -12 \<and> grown f a (card (pmm_avail (vm_pmm (mf_vm s)))) s P s')"
proof (induction k)
  case 0
  have "grown f a 0 s (phys_pages (s_memfds s f)) s" using assms by (simp add: grown_def)
  then show ?case by auto
next
  case (Suc k)
  let ?A = "pmm_avail (vm_pmm (mf_vm s))"
  obtain s' r P where IH: "for_each (mf_grow_one f) [a..<a + k] s = Ret (s', r)"
    "if k \<le> card ?A then r = 0 \<and> grown f a k s P s' else r = -12 \<and> grown f a (card ?A) s P s'"
    using Suc by blast
  show ?case
  proof (cases "k \<le> card ?A")
    case False
    then show ?thesis using IH by (auto simp: for_each_append)
  next
    case True
    then have G: "r = 0" "grown f a k s P s'" using IH(2) by auto
    obtain p phys where al: "pmm_alloc_page (vm_pmm (mf_vm s')) = (p, phys)"
      by (cases "pmm_alloc_page (vm_pmm (mf_vm s'))")
    have wf: "pmm_wf (vm_pmm (mf_vm s'))" using G by (simp add: grown_def)
    have card: "card (pmm_avail (vm_pmm (mf_vm s'))) = card ?A - k"
      using G(2) by (simp add: grown_def card_Diff_subset card_image)
    show ?thesis
    proof (cases "phys = 0")
      case True
      then have "p = vm_pmm (mf_vm s')" "card ?A = k" using pa.alloc_oom [OF wf, of p] al card \<open>k \<le> card ?A\<close> by auto
      moreover have "mf_grow_one f (a + k) s' = Ret (s', -12)"
        using al True \<open>p = _\<close> by (simp add: mf_grow_one_def)
      ultimately show ?thesis using IH(1) G by (auto simp: for_each_append)
    next
      case False
      then have "Suc k \<le> card ?A"
        using conjunct1 [OF conjunct2 [OF pa.alloc_page [OF wf al]]] card
          card_gt_0_iff [of "pmm_avail (vm_pmm (mf_vm s'))"] by fastforce
      moreover obtain P' s'' where "mf_grow_one f (a + k) s' = Ret (s'', 0)" "grown f a (Suc k) s P' s''"
        using mf_grow_step [OF G(2) al False] by blast
      ultimately show ?thesis using IH(1) G(1) by (auto simp: for_each_append)
    qed
  qed
qed

text \<open>The state after the frames \<open>n\<close> to \<open>n + k - 1\<close> of file \<open>f\<close> have been released.\<close>

definition shrunk :: "nat \<Rightarrow> nat \<Rightarrow> nat \<Rightarrow> mfs \<Rightarrow> mfs \<Rightarrow> bool" where
  "shrunk f n k s s' \<longleftrightarrow>
     s_memfds s' = (s_memfds s)(f := (s_memfds s f)\<lparr>phys_pages :=
        \<lambda>j. if j \<in> {n..<n + k} then 0 else phys_pages (s_memfds s f) j\<rparr>)
     \<and> pmm_wf (vm_pmm (mf_vm s')) \<and> vm_mem (mf_vm s') = vm_mem (mf_vm s)
     \<and> pmm_avail (vm_pmm (mf_vm s')) = pmm_avail (vm_pmm (mf_vm s)) \<union> phys_pages (s_memfds s f) ` {n..<n + k}
     \<and> (\<forall>g. pmm_owners (vm_pmm (mf_vm s')) g =
           (if g \<in> phys_pages (s_memfds s f) ` {n..<n + k} then 0 else pmm_owners (vm_pmm (mf_vm s)) g))"

lemma mf_shrink_loop:
  assumes wf: "pmm_wf (vm_pmm (mf_vm s))"
    and fr: "\<And>j. n \<le> j \<Longrightarrow> j < n + k \<Longrightarrow> pmm_owners (vm_pmm (mf_vm s)) (phys_pages (s_memfds s f) j) = 1"
    and inj: "inj_on (phys_pages (s_memfds s f)) {n..<n + k}"
  shows "\<exists>s'. for_each (mf_shrink_one f) [n..<n + k] s = Ret (s', 0) \<and> shrunk f n k s s'"
  using fr inj
proof (induction k)
  case 0
  then show ?case using wf by (simp add: shrunk_def)
next
  case (Suc k)
  let ?P = "phys_pages (s_memfds s f)" and ?o = "\<lambda>s. pmm_owners (vm_pmm (mf_vm s))"
  have "inj_on ?P {n..<n + k}" using Suc.prems(2) by (rule inj_on_subset) auto
  then obtain s' where IH: "for_each (mf_shrink_one f) [n..<n + k] s = Ret (s', 0)" "shrunk f n k s s'"
    using Suc.IH Suc.prems(1) by (metis less_Suc_eq add_Suc_right)
  have nin: "?P (n + k) \<notin> ?P ` {n..<n + k}" using Suc.prems(2) by (simp add: atLeastLessThanSuc)
  have own: "?o s' (?P (n + k)) = 1" using IH(2) nin Suc.prems(1) by (simp add: shrunk_def)
  have wf': "pmm_wf (vm_pmm (mf_vm s'))" using IH(2) by (simp add: shrunk_def)
  have nz: "?P (n + k) \<noteq> 0" using own pa.null_reserved [OF wf'] by auto
  have P': "phys_pages (s_memfds s' f) (n + k) = ?P (n + k)" using IH(2) by (simp add: shrunk_def)
  obtain p where fp: "pmm_free_page (?P (n + k)) (vm_pmm (mf_vm s')) = Ret p"
    using pa.release_owned [OF wf'] own by (metis zero_neq_one)
  note R = pa.release_page [OF wf' fp]
  let ?s = "upd_memfd f (\<lambda>mf. mf\<lparr>phys_pages := (phys_pages mf)(n + k := 0)\<rparr>) (s'\<lparr>mf_vm := (mf_vm s')\<lparr>vm_pmm := p\<rparr>\<rparr>)"
  have "mf_shrink_one f (n + k) s' = Ret (?s, 0)"
    using P' nz fp by (simp add: mf_shrink_one_def vm_free_def)
  moreover have "shrunk f n (Suc k) s ?s"
    unfolding shrunk_def
  proof (intro conjI)
    show "s_memfds ?s = (s_memfds s)(f := (s_memfds s f)\<lparr>phys_pages :=
        \<lambda>j. if j \<in> {n..<n + Suc k} then 0 else ?P j\<rparr>)"
      using IH(2) by (auto simp: shrunk_def upd_memfd_def fun_eq_iff)
    show "pmm_avail (vm_pmm (mf_vm ?s)) = pmm_avail (vm_pmm (mf_vm s)) \<union> ?P ` {n..<n + Suc k}"
      using IH(2) R own by (auto simp: shrunk_def upd_memfd_def atLeastLessThanSuc)
    show "\<forall>g. ?o ?s g = (if g \<in> ?P ` {n..<n + Suc k} then 0 else ?o s g)"
      using IH(2) R own by (auto simp: shrunk_def upd_memfd_def atLeastLessThanSuc)
  qed (use IH(2) R in \<open>simp_all add: shrunk_def upd_memfd_def\<close>)
  ultimately show ?case using IH(1) by (auto simp: for_each_append)
qed

definition mf_resized :: "nat \<Rightarrow> u32 \<Rightarrow> u64 \<Rightarrow> mfs \<Rightarrow> mfs" where
  "mf_resized f c z = upd_memfd f (\<lambda>mf. mf\<lparr>page_count := c, mf_size := z\<rparr>)"

lemma mf_byte_cong:
  assumes "\<And>j. j < unat (page_count mf) \<Longrightarrow> phys_pages mf' j = phys_pages mf j
      \<and> vm_mem vm' (ARCH_PTE_ADDR (phys_pages mf j)) = vm_mem vm (ARCH_PTE_ADDR (phys_pages mf j))"
    and "b < 4096 * unat (page_count mf)" "b < 4096 * unat (page_count mf')"
  shows "mf_byte mf' vm' b = mf_byte mf vm b"
proof -
  have "b div 4096 < unat (page_count mf)" "b div 4096 < unat (page_count mf')" using assms(2,3) by simp_all
  then show ?thesis using assms(1) by (simp add: mf_byte_def vm_rd_byte_def vm_rd_def)
qed

lemma mf_byte_zero:
  assumes "\<And>i. i < 512 \<Longrightarrow> vm_mem vm (ARCH_PTE_ADDR (phys_pages mf (b div 4096))) i = 0"
  shows "mf_byte mf vm b = 0"
proof -
  have "b mod 4096 div 8 < 512" by (simp add: div_less_iff_less_mult)
  then show ?thesis using assms by (simp add: mf_byte_def vm_rd_byte_def vm_rd_def word_byte_def)
qed

text \<open>Other files, and the kept part of the file itself, keep their bytes.\<close>

definition bytes_kept :: "nat \<Rightarrow> nat \<Rightarrow> mfs \<Rightarrow> mfs \<Rightarrow> bool" where
  "bytes_kept f m s s' \<longleftrightarrow> (\<forall>i<MEMFD_MAX. mf_in_use (s_memfds s i) \<longrightarrow>
     (\<forall>b < 4096 * (if i = f then m else unat (page_count (s_memfds s i))).
        mf_byte (s_memfds s' i) (mf_vm s') b = mf_byte (s_memfds s i) (mf_vm s) b))"

lemma mfs_frame:
  assumes "mfs_ok s" "i < MEMFD_MAX" "mf_in_use (s_memfds s i)" "j < unat (page_count (s_memfds s i))"
  shows "pmm_owners (vm_pmm (mf_vm s)) (phys_pages (s_memfds s i) j) = 1"
    "phys_pages (s_memfds s i) j \<notin> pmm_avail (vm_pmm (mf_vm s))"
    "ARCH_PTE_ADDR (phys_pages (s_memfds s i) j) = phys_pages (s_memfds s i) j"
proof -
  show o: "pmm_owners (vm_pmm (mf_vm s)) (phys_pages (s_memfds s i) j) = 1"
    using assms by (auto simp: mfs_ok_def mf_cells_def mf_frame_def)
  then show "phys_pages (s_memfds s i) j \<notin> pmm_avail (vm_pmm (mf_vm s))"
    using assms(1) pa.owned_not_avail by (simp add: mfs_ok_def)
  show "ARCH_PTE_ADDR (phys_pages (s_memfds s i) j) = phys_pages (s_memfds s i) j"
    using o owned_managed [of "vm_pmm (mf_vm s)"] by (intro pte_addr_managed) simp
qed

lemma mfs_frame_inj:
  assumes "mfs_ok s" "i < MEMFD_MAX" "mf_in_use (s_memfds s i)" "j < unat (page_count (s_memfds s i))"
    "i' < MEMFD_MAX" "mf_in_use (s_memfds s i')" "j' < unat (page_count (s_memfds s i'))"
    "phys_pages (s_memfds s i) j = phys_pages (s_memfds s i') j'"
  shows "i = i' \<and> j = j'"
  using assms inj_onD [of "mf_frame s" "mf_cells s" "(i, j)" "(i', j')"]
  by (simp add: mfs_ok_def mf_cells_def mf_frame_def)

lemma mf_grown_ok:
  assumes ok: "mfs_ok s" and f: "f < MEMFD_MAX" "mf_in_use (s_memfds s f)"
    and G: "grown f (unat (page_count (s_memfds s f))) k s P s'"
    and c: "unat c = unat (page_count (s_memfds s f)) + k'" "k' \<le> k"
  shows "mfs_ok (mf_resized f c z s')"
    "bytes_kept f (unat (page_count (s_memfds s f))) s (mf_resized f c z s')"
    "4096 * unat (page_count (s_memfds s f)) \<le> b \<Longrightarrow> b < 4096 * unat c \<Longrightarrow>
       mf_byte (s_memfds (mf_resized f c z s') f) (mf_vm (mf_resized f c z s')) b = 0"
proof -
  let ?a = "unat (page_count (s_memfds s f))" and ?s = "mf_resized f c z s'"
  let ?N = "P ` {?a..<?a + k}"
  have mem: "s_memfds ?s i = (if i = f then (s_memfds s f)\<lparr>phys_pages := P, page_count := c, mf_size := z\<rparr>
      else s_memfds s i)" and vm: "mf_vm ?s = mf_vm s'" for i
    using G by (simp_all add: grown_def mf_resized_def upd_memfd_def)
  have P: "j < ?a \<Longrightarrow> P j = phys_pages (s_memfds s f) j" for j using G by (simp add: grown_def)
  have own: "pmm_owners (vm_pmm (mf_vm s')) g = (if g \<in> ?N then 1 else pmm_owners (vm_pmm (mf_vm s)) g)" for g
    using G by (simp add: grown_def)
  have N: "?N \<subseteq> pmm_avail (vm_pmm (mf_vm s))" "inj_on P {?a..<?a + k}" using G by (simp_all add: grown_def)
  have cell: "(i, j) \<in> mf_cells ?s \<Longrightarrow> (i, j) \<in> mf_cells s \<and> mf_frame ?s (i, j) = mf_frame s (i, j)
      \<or> i = f \<and> ?a \<le> j \<and> j < ?a + k \<and> mf_frame ?s (i, j) = P j" for i j
    using P [of j] c f by (auto simp: mf_cells_def mf_frame_def mem split: if_splits)
  have old: "mf_frame s x \<notin> ?N" "pmm_owners (vm_pmm (mf_vm s)) (mf_frame s x) = 1" if "x \<in> mf_cells s" for x
    using that N(1) mfs_frame(1,2) [OF ok, of "fst x" "snd x"] by (auto simp: mf_cells_def mf_frame_def)
  have o1: "pmm_owners (vm_pmm (mf_vm ?s)) (mf_frame ?s x) = 1" if "x \<in> mf_cells ?s" for x
    using cell [of "fst x" "snd x"] that own old [of x] by (auto simp: vm)
  moreover have "inj_on (mf_frame ?s) (mf_cells ?s)"
  proof (rule inj_onI)
    fix x y assume xy: "x \<in> mf_cells ?s" "y \<in> mf_cells ?s" "mf_frame ?s x = mf_frame ?s y"
    have cx: "x \<in> mf_cells s \<and> mf_frame ?s x = mf_frame s x
        \<or> fst x = f \<and> snd x \<in> {?a..<?a + k} \<and> mf_frame ?s x = P (snd x)"
      and cy: "y \<in> mf_cells s \<and> mf_frame ?s y = mf_frame s y
        \<or> fst y = f \<and> snd y \<in> {?a..<?a + k} \<and> mf_frame ?s y = P (snd y)"
      using cell [of "fst x" "snd x"] cell [of "fst y" "snd y"] xy by auto
    have oo: "x = y" if "x \<in> mf_cells s" "y \<in> mf_cells s" "mf_frame s x = mf_frame s y"
      using ok that by (auto simp: mfs_ok_def dest: inj_onD)
    have nn: "x = y" if "fst x = f" "fst y = f" "snd x \<in> {?a..<?a + k}" "snd y \<in> {?a..<?a + k}" "P (snd x) = P (snd y)"
      using inj_onD [OF N(2)] that by (simp add: prod_eq_iff)
    have no: "mf_frame s u \<noteq> P j" if "u \<in> mf_cells s" "j \<in> {?a..<?a + k}" for u j
      using old(1) [OF that(1)] that(2) by blast
    show "x = y" using cx cy xy(3) oo nn no [of x "snd y"] no [of y "snd x"] by argo
  qed
  moreover have "pmm_wf (vm_pmm (mf_vm ?s))" using G by (simp add: vm grown_def)
  ultimately show "mfs_ok ?s" by (simp add: mfs_ok_def)
  have keep: "vm_mem (mf_vm s') g = vm_mem (mf_vm s) g" if "g \<notin> ?N" for g using G that by (simp add: grown_def)
  show "bytes_kept f ?a s ?s"
    unfolding bytes_kept_def
  proof (intro allI impI)
    fix i b assume i: "i < MEMFD_MAX" "mf_in_use (s_memfds s i)"
      and b: "b < 4096 * (if i = f then ?a else unat (page_count (s_memfds s i)))"
    show "mf_byte (s_memfds ?s i) (mf_vm ?s) b = mf_byte (s_memfds s i) (mf_vm s) b"
    proof (rule mf_byte_cong)
      fix j assume j: "j < unat (page_count (s_memfds s i))"
      note fr = mfs_frame [OF ok i j]
      then have "phys_pages (s_memfds s i) j \<notin> ?N" using N(1) by blast
      then show "phys_pages (s_memfds ?s i) j = phys_pages (s_memfds s i) j
        \<and> vm_mem (mf_vm ?s) (ARCH_PTE_ADDR (phys_pages (s_memfds s i) j))
          = vm_mem (mf_vm s) (ARCH_PTE_ADDR (phys_pages (s_memfds s i) j))"
        using keep fr(3) P j by (auto simp: vm mem)
    qed (use b c in \<open>auto simp: mem split: if_splits\<close>)
  qed
  assume b: "4096 * ?a \<le> b" "b < 4096 * unat c"
  then have "b div 4096 \<in> {?a..<?a + k}" using c by auto
  moreover have "P (b div 4096) \<in> pmm_avail (vm_pmm (mf_vm s))" using N(1) calculation by blast
  then have "managed (P (b div 4096))" by (simp add: pmm_avail_def)
  ultimately show "mf_byte (s_memfds ?s f) (mf_vm ?s) b = 0"
    using G by (intro mf_byte_zero) (auto simp: mem vm grown_def)
qed

lemma mf_shrunk_ok:
  assumes ok: "mfs_ok s" and f: "f < MEMFD_MAX" "mf_in_use (s_memfds s f)"
    and S: "shrunk f (unat c) k s s'" and c: "unat (page_count (s_memfds s f)) = unat c + k"
  shows "mfs_ok (mf_resized f c z s')" "bytes_kept f (unat c) s (mf_resized f c z s')"
proof -
  let ?s = "mf_resized f c z s'" and ?D = "phys_pages (s_memfds s f) ` {unat c..<unat c + k}"
  have mem: "s_memfds ?s i = (if i = f then (s_memfds s f)\<lparr>phys_pages :=
        \<lambda>j. if j \<in> {unat c..<unat c + k} then 0 else phys_pages (s_memfds s f) j, page_count := c, mf_size := z\<rparr>
      else s_memfds s i)" and vm: "mf_vm ?s = mf_vm s'" for i
    using S by (simp_all add: shrunk_def mf_resized_def upd_memfd_def)
  have cell: "mf_cells ?s \<subseteq> mf_cells s" "x \<in> mf_cells ?s \<Longrightarrow> mf_frame ?s x = mf_frame s x" for x
    using c f by (auto simp: mf_cells_def mf_frame_def mem split: if_splits)
  have nd: "mf_frame s x \<notin> ?D" if "x \<in> mf_cells ?s" for x
  proof
    assume "mf_frame s x \<in> ?D"
    then obtain j where j: "j \<in> {unat c..<unat c + k}" "phys_pages (s_memfds s (fst x)) (snd x) = phys_pages (s_memfds s f) j"
      by (auto simp: mf_frame_def split: prod.splits)
    have "fst x < MEMFD_MAX" "mf_in_use (s_memfds s (fst x))" "snd x < unat (page_count (s_memfds s (fst x)))"
      using that cell(1) by (auto simp: mf_cells_def)
    then have "fst x = f \<and> snd x = j" using mfs_frame_inj [OF ok _ _ _ f _ j(2)] j(1) c by simp
    then show False using that j(1) by (auto simp: mf_cells_def mem)
  qed
  have "inj_on (mf_frame s) (mf_cells ?s)" using ok cell(1) by (auto simp: mfs_ok_def intro: inj_on_subset)
  then have "inj_on (mf_frame ?s) (mf_cells ?s)" by (rule iffD2 [OF inj_on_cong, rotated]) (rule cell(2))
  moreover have "pmm_owners (vm_pmm (mf_vm ?s)) (mf_frame ?s x) = 1" if "x \<in> mf_cells ?s" for x
    using nd [OF that] cell(1) cell(2) [OF that] that S ok by (auto simp: vm shrunk_def mfs_ok_def)
  ultimately show "mfs_ok ?s" using S by (simp add: mfs_ok_def vm shrunk_def)
  show "bytes_kept f (unat c) s ?s"
    unfolding bytes_kept_def
  proof (intro allI impI)
    fix i b assume i: "i < MEMFD_MAX" "mf_in_use (s_memfds s i)"
      and b: "b < 4096 * (if i = f then unat c else unat (page_count (s_memfds s i)))"
    have m: "vm_mem (mf_vm ?s) = vm_mem (mf_vm s)" using S by (simp add: vm shrunk_def)
    have "b div 4096 < unat c" if "i = f" using b that by simp
    then show "mf_byte (s_memfds ?s i) (mf_vm ?s) b = mf_byte (s_memfds s i) (mf_vm s) b"
      using c by (cases "i = f") (auto simp: mf_byte_def vm_rd_byte_def vm_rd_def m mem)
  qed
qed

lemma memfd_getE:
  assumes "memfd_get fid s = Some mf"
  obtains "unat fid < MEMFD_MAX" "mf_in_use (s_memfds s (unat fid))" "mf = s_memfds s (unat fid)"
  using assms by (auto simp: memfd_get_def split: if_splits)

lemma mf_resized_same:
  "mf_resized f (page_count (s_memfds s f)) (mf_size (s_memfds s f)) s = s"
  by (simp add: mf_resized_def upd_memfd_def)

definition new_page_count :: "u64 \<Rightarrow> nat" where
  "new_page_count sz = (unat sz + 4095) mod 2 ^ 64 div 4096 mod 2 ^ 32"

lemma new_page_count: "unat (ucast ((sz + 4095) div 4096) :: u32) = new_page_count sz"
  by (simp add: new_page_count_def unsigned_ucast_eq take_bit_eq_mod unat_div unat_word_ariths)

lemma truncate_grow:
  assumes ok: "mfs_ok s" and mf: "memfd_get fid s = Some mf"
    and n: "unat (page_count mf) \<le> new_page_count sz" "new_page_count sz \<le> MEMFD_PAGES_MAX"
  defines "k \<equiv> new_page_count sz - unat (page_count mf)"
  shows "\<exists>s' r. memfd_truncate fid sz s = Ret (s', r) \<and> mfs_ok s' \<and> bytes_kept (unat fid) (unat (page_count mf)) s s'
    \<and> (if k \<le> card (pmm_avail (vm_pmm (mf_vm s)))
       then r = 0 \<and> (\<exists>P. s_memfds s' = (s_memfds s)(unat fid := mf\<lparr>phys_pages := P,
                page_count := of_nat (new_page_count sz), mf_size := sz\<rparr>))
         \<and> (\<forall>b. 4096 * unat (page_count mf) \<le> b \<longrightarrow> b < 4096 * new_page_count sz
                 \<longrightarrow> mf_byte (s_memfds s' (unat fid)) (mf_vm s') b = 0)
         \<and> card (pmm_avail (vm_pmm (mf_vm s'))) = card (pmm_avail (vm_pmm (mf_vm s))) - k
       else r = -12 \<and> (\<exists>P. s_memfds s' = (s_memfds s)(unat fid := mf\<lparr>phys_pages := P\<rparr>))
         \<and> pmm_avail (vm_pmm (mf_vm s')) = {})"
proof -
  let ?f = "unat fid" and ?c = "ucast ((sz + 4095) div 4096) :: u32" and ?A = "pmm_avail (vm_pmm (mf_vm s))"
  from mf have f: "?f < MEMFD_MAX" "mf_in_use (s_memfds s ?f)" and m: "mf = s_memfds s ?f"
    by (auto elim: memfd_getE)
  have wf: "pmm_wf (vm_pmm (mf_vm s))" using ok by (simp add: mfs_ok_def)
  have c: "?c = of_nat (new_page_count sz)" by (simp flip: new_page_count)
  have uc: "unat ?c = unat (page_count mf) + k" using n(1) by (simp add: new_page_count k_def)
  obtain s1 r P where L: "for_each (mf_grow_one ?f) [unat (page_count mf)..<unat ?c] s = Ret (s1, r)"
    "if k \<le> card ?A then r = 0 \<and> grown ?f (unat (page_count mf)) k s P s1
     else r = -12 \<and> grown ?f (unat (page_count mf)) (card ?A) s P s1"
    using mf_grow_loop [OF wf, of ?f "unat (page_count mf)" k] uc by auto
  have T: "memfd_truncate fid sz s = (if r \<noteq> 0 then Ret (s1, r) else
      case for_each (mf_shrink_one ?f) [unat ?c..<unat (page_count (s_memfds s1 ?f))] s1 of
        Panic m \<Rightarrow> Panic m | Ret (s2, _) \<Rightarrow> Ret (mf_resized ?f ?c sz s2, 0))"
    unfolding mf_resized_def using mf n(2) L(1) by (simp add: memfd_truncate_def Let_def new_page_count)
  show ?thesis
  proof (cases "k \<le> card ?A")
    case True
    then have G: "r = 0" "grown ?f (unat (page_count (s_memfds s ?f))) k s P s1" using L(2) m by auto
    have "page_count (s_memfds s1 ?f) = page_count mf" using G(2) m by (simp add: grown_def)
    then have "memfd_truncate fid sz s = Ret (mf_resized ?f ?c sz s1, 0)" using T G(1) uc by simp
    moreover note mf_grown_ok [OF ok f G(2), where c = ?c and k' = k and z = sz]
    moreover have "card (pmm_avail (vm_pmm (mf_vm s1))) = card ?A - k"
      using G(2) by (simp add: grown_def card_Diff_subset card_image)
    moreover have "s_memfds (mf_resized ?f ?c sz s1) = (s_memfds s)(?f := mf\<lparr>phys_pages := P,
        page_count := of_nat (new_page_count sz), mf_size := sz\<rparr>)" "mf_vm (mf_resized ?f ?c sz s1) = mf_vm s1"
      using G(2) m by (simp_all add: grown_def mf_resized_def upd_memfd_def c)
    ultimately show ?thesis using True uc m by (auto simp: new_page_count)
  next
    case False
    then have G: "r = -12" "grown ?f (unat (page_count (s_memfds s ?f))) (card ?A) s P s1" using L(2) m by auto
    have "card (pmm_avail (vm_pmm (mf_vm s1))) = card ?A - card ?A"
      using G(2) by (simp add: grown_def card_Diff_subset card_image)
    then have "pmm_avail (vm_pmm (mf_vm s1)) = {}" by simp
    moreover have s1: "s_memfds s1 = (s_memfds s)(?f := mf\<lparr>phys_pages := P\<rparr>)" using G(2) m by (simp add: grown_def)
    moreover have "mf_resized ?f (page_count mf) (mf_size mf) s1 = s1"
      using mf_resized_same [of ?f s1] s1 by simp
    moreover note mf_grown_ok(1,2) [OF ok f G(2), where c = "page_count mf" and k' = 0 and z = "mf_size mf"]
    ultimately show ?thesis using T G(1) False m by auto
  qed
qed

lemma truncate_shrink:
  assumes ok: "mfs_ok s" and mf: "memfd_get fid s = Some mf"
    and n: "new_page_count sz < unat (page_count mf)" "new_page_count sz \<le> MEMFD_PAGES_MAX"
  shows "\<exists>s'. memfd_truncate fid sz s = Ret (s', 0) \<and> mfs_ok s' \<and> bytes_kept (unat fid) (new_page_count sz) s s'
    \<and> (\<exists>P. s_memfds s' = (s_memfds s)(unat fid := mf\<lparr>phys_pages := P,
          page_count := of_nat (new_page_count sz), mf_size := sz\<rparr>))
    \<and> card (pmm_avail (vm_pmm (mf_vm s'))) = card (pmm_avail (vm_pmm (mf_vm s))) + (unat (page_count mf) - new_page_count sz)"
proof -
  let ?f = "unat fid" and ?c = "ucast ((sz + 4095) div 4096) :: u32" and ?A = "pmm_avail (vm_pmm (mf_vm s))"
  let ?P = "phys_pages (s_memfds s ?f)"
  from mf have f: "?f < MEMFD_MAX" "mf_in_use (s_memfds s ?f)" and m: "mf = s_memfds s ?f"
    by (auto elim: memfd_getE)
  have wf: "pmm_wf (vm_pmm (mf_vm s))" using ok by (simp add: mfs_ok_def)
  have c: "?c = of_nat (new_page_count sz)" by (simp flip: new_page_count)
  obtain k where k: "unat (page_count (s_memfds s ?f)) = unat ?c + k"
    using n(1) m by (metis new_page_count less_imp_add_positive)
  have fr: "pmm_owners (vm_pmm (mf_vm s)) (?P j) = 1" "?P j \<notin> ?A" if "j < unat ?c + k" for j
    using mfs_frame [OF ok f, of j] that k by simp_all
  have inj: "inj_on ?P {unat ?c..<unat ?c + k}"
    using mfs_frame_inj [OF ok f _ f] k by (auto simp: inj_on_def)
  obtain s1 where S: "for_each (mf_shrink_one ?f) [unat ?c..<unat ?c + k] s = Ret (s1, 0)" "shrunk ?f (unat ?c) k s s1"
    using mf_shrink_loop [OF wf _ inj] fr(1) by auto
  have "memfd_truncate fid sz s = Ret (mf_resized ?f ?c sz s1, 0)"
    using mf n S(1) k m by (simp add: memfd_truncate_def Let_def new_page_count mf_resized_def)
  moreover note mf_shrunk_ok [OF ok f S(2) k, where z = sz]
  moreover have "card (pmm_avail (vm_pmm (mf_vm s1))) = card ?A + k"
  proof -
    have "?A \<inter> ?P ` {unat ?c..<unat ?c + k} = {}" using fr(2) by auto
    then show ?thesis using S(2) inj by (simp add: shrunk_def card_Un_disjoint card_image)
  qed
  moreover have "\<exists>P. s_memfds (mf_resized ?f ?c sz s1) = (s_memfds s)(?f := mf\<lparr>phys_pages := P,
      page_count := of_nat (new_page_count sz), mf_size := sz\<rparr>)"
    using S(2) m by (auto simp: shrunk_def mf_resized_def upd_memfd_def c)
  moreover have "mf_vm (mf_resized ?f ?c sz s1) = mf_vm s1" by (simp add: mf_resized_def upd_memfd_def)
  ultimately show ?thesis using k m by (auto simp: new_page_count)
qed


definition demo_mfs :: mfs where
  "demo_mfs = \<lparr>s_memfds = (\<lambda>i. if i = 0 then fresh_memfd ''a'' else (fresh_memfd ''b'')\<lparr>mf_in_use := False\<rparr>),
     mf_vm = demo_vm\<rparr>"

lemma demo_mfs_ok: "mfs_ok demo_mfs"
proof -
  have "mf_cells demo_mfs = {}" by (auto simp: demo_mfs_def mf_cells_def fresh_memfd_def split: if_splits)
  then show ?thesis using demo_pmm_wf by (simp add: mfs_ok_def demo_mfs_def)
qed


end
