(* ===== verification/Mem_Syscalls.thy ===== *)
theory Mem_Syscalls
  imports Cap_Syscalls Vma Va_Freelist Memfd
begin

text \<open>
  The memory system calls of \<^verbatim>\<open>kernel/syscall/sys_memory.c\<close>: \<^verbatim>\<open>brk\<close>, \<^verbatim>\<open>mmap\<close>, \<^verbatim>\<open>munmap\<close>, \<^verbatim>\<open>mprotect\<close>,
  \<^verbatim>\<open>memfd_create\<close> and \<^verbatim>\<open>ftruncate\<close>, on the page tables of \<^verbatim>\<open>Vmm\<close>, the address-space map of \<^verbatim>\<open>Vma\<close> and the
  memory files of \<^verbatim>\<open>Memfd\<close>.  The state holds the fields of the calling process that the calls
  use.  The read operation of an open file is a function of the file's operation table,
  with a driver state of its own.
\<close>

section \<open>State\<close>

definition MMAP_FREE_MAX :: nat where "MMAP_FREE_MAX = 64"

record mmap_free =
  mfr_base :: u64
  mfr_len :: u64

record mm =
  pml4_phys :: u64
  mm_fds :: "nat \<Rightarrow> vfs_file"
  mm_caps :: "cap_slot list"
  brk :: u64
  brk_base :: u64
  mmap_base :: u64
  mmap_frees :: "mmap_free list"
  mm_vp :: vma_proc
  mm_vmas :: vma_store
  mm_mf :: mfs

abbreviation mm_vm :: "mm \<Rightarrow> vmm" where "mm_vm s \<equiv> mf_vm (mm_mf s)"

definition set_vm :: "vmm \<Rightarrow> mm \<Rightarrow> mm" where
  "set_vm vm s = s\<lparr>mm_mf := (mm_mf s)\<lparr>mf_vm := vm\<rparr>\<rparr>"

definition on_vmas :: "(vma_store \<times> vma_proc \<Rightarrow> vma_store \<times> vma_proc) \<Rightarrow> mm \<Rightarrow> mm" where
  "on_vmas f s = (case f (mm_vmas s, mm_vp s) of (h, p) \<Rightarrow> s\<lparr>mm_vmas := h, mm_vp := p\<rparr>)"

definition VMA_HEAP :: u8 where "VMA_HEAP = 3"
definition VMA_MMAP :: u8 where "VMA_MMAP = 5"
definition VMA_SHARED :: u8 where "VMA_SHARED = 8"
definition MAP_SHARED :: u64 where "MAP_SHARED = 1"
definition MAP_FIXED :: u64 where "MAP_FIXED = 0x10"
definition MAP_ANONYMOUS :: u64 where "MAP_ANONYMOUS = 0x20"
definition PROT_READ :: u64 where "PROT_READ = 1"
definition PROT_WRITE :: u64 where "PROT_WRITE = 2"
definition PROT_EXEC :: u64 where "PROT_EXEC = 4"

definition page_up :: "u64 \<Rightarrow> u64" where
  "page_up x = (x + 4095) AND NOT 4095"

text \<open>The addresses that \<^verbatim>\<open>for (va = a; va < b; va += 4096)\<close> visits, for \<open>b\<close> below the top page.\<close>

definition va_range :: "u64 \<Rightarrow> u64 \<Rightarrow> u64 list" where
  "va_range a b = (if a < b then map (\<lambda>i. a + of_nat i * 4096) [0..<(unat (b - a) + 4095) div 4096] else [])"

section \<open>Heap\<close>

text \<open>\<^verbatim>\<open>pmm_alloc_page\<close>, \<^verbatim>\<open>vmm_zero_page\<close> and \<^verbatim>\<open>vmm_map_user_page\<close>, with a failure value for no memory.\<close>

definition map_fresh :: "u64 \<Rightarrow> u64 \<Rightarrow> u64 \<Rightarrow> vmm \<Rightarrow> (vmm \<times> int) kres" where
  "map_fresh root flags va vm = (case pmm_alloc_page (vm_pmm vm) of (p, phys) \<Rightarrow>
     if phys = 0 then Ret (vm\<lparr>vm_pmm := p\<rparr>, -12)
     else case vmm_map_user_page root va phys flags (vmm_zero_page phys (vm\<lparr>vm_pmm := p\<rparr>)) of
       Panic m \<Rightarrow> Panic m | Ret vm' \<Rightarrow> Ret (vm', 0))"

definition unmap_free :: "u64 \<Rightarrow> u64 \<Rightarrow> vmm \<Rightarrow> (vmm \<times> int) kres" where
  "unmap_free root va vm =
    (let phys = vmm_phys_of_user root va vm in
     if phys \<noteq> 0 then vm_free phys (vmm_unmap_user_page root va vm) else Ret (vm, 0))"

definition find_heap :: "mm \<Rightarrow> nat option" where
  "find_heap s = find (\<lambda>i. ve_type (mm_vmas s (vma_table (mm_vp s)) i) = VMA_HEAP) [0..<vma_count (mm_vp s)]"

definition set_heap_len :: "nat \<Rightarrow> mm \<Rightarrow> mm" where
  "set_heap_len vi s =
    (let a = vma_table (mm_vp s); t = mm_vmas s a in
     s\<lparr>mm_vmas := (mm_vmas s)(a := t(vi := (t vi)\<lparr>ve_len := brk s - ve_base (t vi)\<rparr>))\<rparr>)"

definition brk_grow :: "u64 \<Rightarrow> mm \<Rightarrow> (mm \<times> u64) kres" where
  "brk_grow arg1 s =
    (case for_each (map_fresh (pml4_phys s) (VMM_FLAG_PRESENT OR VMM_FLAG_USER OR VMM_FLAG_WRITABLE))
            (va_range (brk s) arg1) (mm_vm s) of
       Panic m \<Rightarrow> Panic m
     | Ret (vm, r) \<Rightarrow>
         if r \<noteq> 0 then Ret (set_vm vm s, brk s)
         else let old_brk = brk s; s1 = (set_vm vm s)\<lparr>brk := arg1\<rparr>;
                  s2 = (if vma_table (mm_vp s1) = 0 then s1
                        else case find_heap s1 of
                          Some vi \<Rightarrow> set_heap_len vi s1
                        | None \<Rightarrow> on_vmas (vma_insert old_brk (brk s1 - old_brk) 3 VMA_HEAP) s1) in
              Ret (s2, brk s2))"

definition brk_shrink :: "u64 \<Rightarrow> mm \<Rightarrow> (mm \<times> u64) kres" where
  "brk_shrink arg1 s =
    (case for_each (unmap_free (pml4_phys s)) (va_range arg1 (brk s)) (mm_vm s) of
       Panic m \<Rightarrow> Panic m
     | Ret (vm, _) \<Rightarrow>
         let s1 = (set_vm vm s)\<lparr>brk := arg1\<rparr>;
             s2 = (if vma_table (mm_vp s1) = 0 then s1
                   else case find_heap s1 of
                     None \<Rightarrow> s1
                   | Some vi \<Rightarrow>
                       let e = mm_vmas s1 (vma_table (mm_vp s1)) vi in
                       if brk s1 \<le> ve_base e then on_vmas (vma_remove (ve_base e) (ve_len e)) s1
                       else set_heap_len vi s1) in
         Ret (s2, brk s2))"

definition sys_brk :: "u64 \<Rightarrow> mm \<Rightarrow> (mm \<times> u64) kres" where
  "sys_brk arg1 s =
    (if arg1 = 0 then Ret (s, brk s)
     else if 0x00007FFFFFFFFFFF \<le> arg1 then Ret (s, brk s)
     else if arg1 < brk_base s then Ret (s, brk s)
     else let arg1 = page_up arg1 in
       if brk s < arg1 then brk_grow arg1 s
       else if arg1 < brk s then brk_shrink arg1 s
       else Ret (s, brk s))"

section \<open>Free list of address ranges\<close>

definition mmap_free_insert :: "u64 \<Rightarrow> u64 \<Rightarrow> mmap_free list \<Rightarrow> mmap_free list" where
  "mmap_free_insert base len fl =
    (case find (\<lambda>i. mfr_base (fl ! i) + mfr_len (fl ! i) = base \<or> base + len = mfr_base (fl ! i))
       [0..<length fl] of
       Some i \<Rightarrow>
         if mfr_base (fl ! i) + mfr_len (fl ! i) = base
         then let fl1 = fl[i := (fl ! i)\<lparr>mfr_len := mfr_len (fl ! i) + len\<rparr>] in
              (case find (\<lambda>j. j \<noteq> i \<and> mfr_base (fl1 ! i) + mfr_len (fl1 ! i) = mfr_base (fl1 ! j))
                      [0..<length fl1] of
                 None \<Rightarrow> fl1
               | Some j \<Rightarrow> swap_remove j
                   (fl1[i := (fl1 ! i)\<lparr>mfr_len := mfr_len (fl1 ! i) + mfr_len (fl1 ! j)\<rparr>]))
         else let fl1 = fl[i := \<lparr>mfr_base = base, mfr_len = mfr_len (fl ! i) + len\<rparr>] in
              (case find (\<lambda>j. j \<noteq> i \<and> mfr_base (fl1 ! j) + mfr_len (fl1 ! j) = mfr_base (fl1 ! i))
                      [0..<length fl1] of
                 None \<Rightarrow> fl1
               | Some j \<Rightarrow> swap_remove i
                   (fl1[j := (fl1 ! j)\<lparr>mfr_len := mfr_len (fl1 ! j) + mfr_len (fl1 ! i)\<rparr>]))
     | None \<Rightarrow> if length fl < MMAP_FREE_MAX then fl @ [\<lparr>mfr_base = base, mfr_len = len\<rparr>] else fl)"

definition mmap_free_alloc :: "u64 \<Rightarrow> mmap_free list \<Rightarrow> mmap_free list \<times> u64" where
  "mmap_free_alloc len fl = (case best_fit len (map mfr_len fl) 0 None (-1) of
     None \<Rightarrow> (fl, 0)
   | Some best \<Rightarrow>
       let e = fl ! best; base = mfr_base e in
       if mfr_len e = len then (swap_remove best fl, base)
       else (fl[best := \<lparr>mfr_base = mfr_base e + len, mfr_len = mfr_len e - len\<rparr>], base))"

section \<open>Mapping\<close>

definition mmap_flags :: "u64 \<Rightarrow> u64" where
  "mmap_flags prot =
    (let f0 = VMM_FLAG_PRESENT OR VMM_FLAG_USER OR VMM_FLAG_NX;
         f1 = (if prot AND PROT_WRITE \<noteq> 0 then f0 OR VMM_FLAG_WRITABLE else f0) in
     if prot AND PROT_EXEC \<noteq> 0 then f1 AND NOT VMM_FLAG_NX else f1)"

text \<open>The choice of the base address; an error number or a state and a base.\<close>

definition mmap_place :: "u64 \<Rightarrow> u64 \<Rightarrow> bool \<Rightarrow> mm \<Rightarrow> (mm \<times> (u64 + u64)) kres" where
  "mmap_place addr len is_fixed s =
    (if is_fixed then
       if addr AND 0xFFF \<noteq> 0 then Ret (s, Inl (neg_errno 22))
       else if 0x800000000000 \<le> addr \<or> 0x800000000000 < addr + len \<or> addr + len < addr
       then Ret (s, Inl (neg_errno 22))
       else case for_each (unmap_free (pml4_phys s)) (va_range addr (addr + len)) (mm_vm s) of
              Panic m \<Rightarrow> Panic m
            | Ret (vm, _) \<Rightarrow> Ret (on_vmas (vma_remove addr len) (set_vm vm s), Inr addr)
     else if addr \<noteq> 0 then Ret (s, Inl (neg_errno 22))
     else case mmap_free_alloc len (mmap_frees s) of (fl, b) \<Rightarrow>
       let base = (if b = 0 then mmap_base s else b); s1 = s\<lparr>mmap_frees := fl\<rparr> in
       if USER_ADDR_MAX < base + len \<or> base + len < base then Ret (s1, Inl (neg_errno 12))
       else Ret (s1, Inr base))"

definition bump_base :: "bool \<Rightarrow> u64 \<Rightarrow> u64 \<Rightarrow> mm \<Rightarrow> mm" where
  "bump_base is_fixed base len s =
    (if \<not> is_fixed \<and> mmap_base s \<le> base then s\<lparr>mmap_base := base + len\<rparr> else s)"

definition map_shared_one :: "memfd \<Rightarrow> u64 \<Rightarrow> u64 \<Rightarrow> u64 \<Rightarrow> u64 \<Rightarrow> vmm \<Rightarrow> (vmm \<times> int) kres" where
  "map_shared_one mf root base flags va vm =
    (let pi = (ucast ((va - base) div 4096) :: u32) in
     if page_count mf \<le> pi \<or> phys_pages mf (unat pi) = 0 then Ret (vm, -22)
     else case vmm_map_user_page root va (phys_pages mf (unat pi)) flags vm of
       Panic m \<Rightarrow> Panic m | Ret vm' \<Rightarrow> Ret (vm', 0))"

definition mmap_shared :: "bool \<Rightarrow> u64 \<Rightarrow> u64 \<Rightarrow> u64 \<Rightarrow> u64 \<Rightarrow> mm \<Rightarrow> (mm \<times> u64) kres" where
  "mmap_shared is_fixed base len prot fd s =
    (let i = unat (ucast fd :: u32) in
     if PROC_MAX_FDS \<le> i \<or> vf_ops (mm_fds s i) = 0 \<or> vf_ops (mm_fds s i) \<noteq> g_memfd_ops
     then Ret (s, neg_errno 22)
     else case memfd_get (ucast (vf_priv (mm_fds s i))) (mm_mf s) of
       None \<Rightarrow> Ret (s, neg_errno 22)
     | Some mf \<Rightarrow>
         if ucast (page_count mf) * 4096 < len then Ret (s, neg_errno 22)
         else case for_each (map_shared_one mf (pml4_phys s) base (mmap_flags prot))
                     (va_range base (base + len)) (mm_vm s) of
           Panic m \<Rightarrow> Panic m
         | Ret (vm, r) \<Rightarrow>
             if r \<noteq> 0 then Ret (set_vm vm s, neg_errno 22)
             else Ret (on_vmas (vma_insert base len (ucast (prot AND 7)) VMA_SHARED)
                    (bump_base is_fixed base len (set_vm vm s)), base))"

text \<open>One page of a private mapping; on failure the pages before it are given back.\<close>

definition mmap_fill_one :: "u64 \<Rightarrow> u64 \<Rightarrow> u64 \<Rightarrow> u64 \<Rightarrow> vmm \<Rightarrow> (vmm \<times> int) kres" where
  "mmap_fill_one root base flags va vm =
    (case map_fresh root flags va vm of
       Panic m \<Rightarrow> Panic m
     | Ret (vm', r) \<Rightarrow>
         if r = 0 then Ret (vm', 0)
         else case for_each (unmap_free root) (va_range base va) vm' of
           Panic m \<Rightarrow> Panic m | Ret (vm2, _) \<Rightarrow> Ret (vm2, -12))"

text \<open>The copy loop of a file-backed mapping; \<open>rd\<close> is the driver's read.\<close>

function mmap_copy ::
    "(u64 \<Rightarrow> u64 \<Rightarrow> 'k \<Rightarrow> 'k \<times> int \<times> u8 list) \<Rightarrow> u64 \<Rightarrow> u64 \<Rightarrow> u64 \<Rightarrow> nat \<Rightarrow> nat \<Rightarrow> 'k \<times> vmm \<Rightarrow> 'k \<times> vmm" where
  "mmap_copy rd root base off copied file_bytes (k, vm) =
    (if copied < file_bytes
     then case rd (off + of_nat copied) (of_nat (min 4096 (file_bytes - copied))) k of (k', rr, bs) \<Rightarrow>
       if rr \<le> 0 then (k', vm)
       else mmap_copy rd root base off (copied + nat rr) file_bytes
              (k', fst (vmm_write_user_bytes root (base + of_nat copied) (take (nat rr) bs) vm))
     else (k, vm))"
  by auto
termination
  by (relation "measure (\<lambda>(rd, root, base, off, copied, fb, kv). fb - copied)") auto

declare mmap_copy.simps [simp del]

definition mmap_file_bytes :: "vfs_file \<Rightarrow> u64 \<Rightarrow> u64 \<Rightarrow> u64" where
  "mmap_file_bytes f off len =
    (if 0 < vf_size f \<and> off < vf_size f
     then if vf_size f - off < len then vf_size f - off else len
     else if 0 < vf_size f \<and> vf_size f \<le> off then 0 else len)"

text \<open>\<open>vread ops priv off len k\<close> is the read of the operation table \<open>ops\<close>, if it has one.\<close>

type_synonym 'k vread = "u64 \<Rightarrow> (u64 \<Rightarrow> u64 \<Rightarrow> u64 \<Rightarrow> 'k \<Rightarrow> 'k \<times> int \<times> u8 list) option"

definition mmap_file :: "'k vread \<Rightarrow> u64 \<Rightarrow> u64 \<Rightarrow> u64 \<Rightarrow> u64 \<Rightarrow> 'k \<times> mm \<Rightarrow> 'k \<times> mm" where
  "mmap_file vread fd off base len = (\<lambda>(k, s).
    let i = unat (ucast fd :: u32) in
    if i < PROC_MAX_FDS \<and> vf_ops (mm_fds s i) \<noteq> 0
    then case vread (vf_ops (mm_fds s i)) of
      None \<Rightarrow> (k, s)
    | Some rd \<Rightarrow>
        (case mmap_copy (rd (vf_priv (mm_fds s i))) (pml4_phys s) base off 0
            (unat (mmap_file_bytes (mm_fds s i) off len)) (k, mm_vm s) of
          (k', vm) \<Rightarrow> (k', set_vm vm s))
    else (k, s))"

definition sys_mmap ::
    "'k vread \<Rightarrow> u64 \<Rightarrow> u64 \<Rightarrow> u64 \<Rightarrow> u64 \<Rightarrow> u64 \<Rightarrow> u64 \<Rightarrow> 'k \<times> mm \<Rightarrow> (('k \<times> mm) \<times> u64) kres" where
  "sys_mmap vread addr arg2 prot flags fd off = (\<lambda>(k, s).
    let len = page_up arg2;
        file_backed = (flags AND MAP_ANONYMOUS = 0 \<and> fd \<noteq> -1);
        is_fixed = (flags AND MAP_FIXED \<noteq> 0 \<and> addr \<noteq> 0) in
    if len = 0 then Ret ((k, s), neg_errno 22)
    else if prot AND NOT (PROT_READ OR PROT_WRITE OR PROT_EXEC) \<noteq> 0 then Ret ((k, s), neg_errno 22)
    else if \<not> file_backed \<and> flags AND MAP_ANONYMOUS = 0 then Ret ((k, s), neg_errno 22)
    else if file_backed \<and> off AND 0xFFF \<noteq> 0 then Ret ((k, s), neg_errno 22)
    else case mmap_place addr len is_fixed s of
      Panic m \<Rightarrow> Panic m
    | Ret (s1, Inl e) \<Rightarrow> Ret ((k, s1), e)
    | Ret (s1, Inr base) \<Rightarrow>
        if flags AND MAP_SHARED \<noteq> 0 \<and> file_backed
        then (case mmap_shared is_fixed base len prot fd s1 of
                Panic m \<Rightarrow> Panic m | Ret (s2, r) \<Rightarrow> Ret ((k, s2), r))
        else case for_each (mmap_fill_one (pml4_phys s1) base (mmap_flags prot))
                    (va_range base (base + len)) (mm_vm s1) of
          Panic m \<Rightarrow> Panic m
        | Ret (vm, r) \<Rightarrow>
            if r \<noteq> 0 then Ret ((k, set_vm vm s1), neg_errno 12)
            else case (if file_backed then mmap_file vread fd off base len (k, set_vm vm s1)
                       else (k, set_vm vm s1)) of
              (k', s2) \<Rightarrow> Ret ((k', on_vmas (vma_insert base len (ucast (prot AND 7)) VMA_MMAP)
                (bump_base is_fixed base len s2)), base))"

section \<open>Unmapping and protection\<close>

definition is_shared_vma :: "u64 \<Rightarrow> mm \<Rightarrow> bool" where
  "is_shared_vma addr s \<longleftrightarrow> vma_table (mm_vp s) \<noteq> 0 \<and>
     list_ex (\<lambda>i. let v = mm_vmas s (vma_table (mm_vp s)) i in
        ve_base v = addr \<and> ve_type v = VMA_SHARED) [0..<vma_count (mm_vp s)]"

definition munmap_one :: "u64 \<Rightarrow> bool \<Rightarrow> u64 \<Rightarrow> vmm \<Rightarrow> (vmm \<times> int) kres" where
  "munmap_one root shared va vm =
    (let phys = vmm_phys_of_user_raw root va vm in
     if phys \<noteq> 0
     then let vm1 = vmm_unmap_user_page root va vm in
          if \<not> shared then vm_free phys vm1 else Ret (vm1, 0)
     else Ret (vm, 0))"

definition sys_munmap :: "u64 \<Rightarrow> u64 \<Rightarrow> mm \<Rightarrow> (mm \<times> u64) kres" where
  "sys_munmap arg1 arg2 s =
    (if arg1 AND 0xFFF \<noteq> 0 then Ret (s, neg_errno 22)
     else let len = page_up arg2 in
     if 0x00007FFFFFFFFFFF \<le> arg1 \<or> 0x00007FFFFFFFFFFF < arg1 + len \<or> arg1 + len < arg1
     then Ret (s, neg_errno 22)
     else case for_each (munmap_one (pml4_phys s) (is_shared_vma arg1 s)) (va_range arg1 (arg1 + len)) (mm_vm s) of
       Panic m \<Rightarrow> Panic m
     | Ret (vm, _) \<Rightarrow>
         Ret (on_vmas (vma_remove arg1 len)
           ((set_vm vm s)\<lparr>mmap_frees := mmap_free_insert arg1 len (mmap_frees s)\<rparr>), 0))"

definition mprotect_flags :: "u64 \<Rightarrow> u64" where
  "mprotect_flags prot = (if prot = 0 then 0 else mmap_flags prot)"

definition sys_mprotect :: "u64 \<Rightarrow> u64 \<Rightarrow> u64 \<Rightarrow> mm \<Rightarrow> mm \<times> u64" where
  "sys_mprotect addr len prot s =
    (if addr AND 0xFFF \<noteq> 0 then (s, neg_errno 22)
     else let rlen = page_up len in
     if rlen = 0 then (s, 0)
     else if USER_ADDR_MAX < addr + rlen \<or> addr + rlen < addr then (s, neg_errno 22)
     else let vm = fold (\<lambda>va vm. fst (vmm_set_user_prot (pml4_phys s) va (mprotect_flags prot) vm))
                     (va_range addr (addr + rlen)) (mm_vm s) in
       (on_vmas (vma_update_prot addr rlen (ucast (prot AND 7))) (set_vm vm s), 0))"

section \<open>Memory files\<close>

text \<open>\<open>umem\<close> is the caller's memory; the copy stops at a zero byte or after 31 characters.\<close>

definition memfd_name :: "u64 \<Rightarrow> (u64 \<Rightarrow> u8) \<Rightarrow> string" where
  "memfd_name name_ptr umem =
    (if name_ptr \<noteq> 0 \<and> user_ptr_valid name_ptr 1
     then map (\<lambda>c. char_of (unat c)) (takeWhile (\<lambda>c. c \<noteq> 0) (map (\<lambda>i. umem (name_ptr + of_nat i)) [0..<31]))
     else [])"

definition sys_memfd_create :: "u64 \<Rightarrow> (u64 \<Rightarrow> u8) \<Rightarrow> mm \<Rightarrow> mm \<times> u64" where
  "sys_memfd_create name_ptr umem s =
    (if check_caps (mm_caps s) CAP_KIND_IPC CAP_RIGHTS_READ \<noteq> 0 then (s, neg_errno ENOCAP)
     else case memfd_alloc (memfd_name name_ptr umem) (mm_mf s) of (mf, mid) \<Rightarrow>
       if mid < 0 then (s\<lparr>mm_mf := mf\<rparr>, neg_errno 24)
       else case memfd_open_fd (of_int mid) (mm_fds s) of (fds, fd) \<Rightarrow>
         if fd < 0
         then (s\<lparr>mm_mf := (if memfd_get (of_int mid) mf = None then mf
                  else upd_memfd (nat mid) (\<lambda>m. m\<lparr>mf_refcount := 0, mf_in_use := False\<rparr>) mf)\<rparr>, neg_errno 24)
         else (s\<lparr>mm_mf := mf, mm_fds := fds\<rparr>, of_int fd))"

definition sys_ftruncate :: "u64 \<Rightarrow> u64 \<Rightarrow> mm \<Rightarrow> (mm \<times> u64) kres" where
  "sys_ftruncate fd_arg length' s =
    (let fd = sint (ucast fd_arg :: 32 word) in
     case memfd_from_fd fd (mm_fds s) (mm_mf s) of
       None \<Rightarrow> Ret (s, neg_errno 22)
     | Some _ \<Rightarrow>
         case memfd_truncate (ucast (vf_priv (mm_fds s (nat fd)))) length' (mm_mf s) of
           Panic m \<Rightarrow> Panic m
         | Ret (mf, rc) \<Rightarrow> Ret (s\<lparr>mm_mf := mf\<rparr>, if rc < 0 then of_int rc else 0))"

end
