(* ===== verification/Mem_Props.thy ===== *)
theory Mem_Props
  imports Mem_Syscalls
begin

text \<open>
  What the memory system calls do to an address space: loops over ranges of pages first, one
  lemma for filling a range with fresh frames and one for releasing it, then the calls.
\<close>

section \<open>Ranges of pages\<close>

lemma va_range_props:
  assumes "4096 dvd unat a" "unat b \<le> 2 ^ 47"
  shows "distinct (va_range a b)" "v \<in> set (va_range a b) \<Longrightarrow> upage v"
    "4096 dvd unat b \<Longrightarrow> v \<in> set (va_range a b) \<longleftrightarrow> 4096 dvd unat v \<and> a \<le> v \<and> v < b"
proof -
  let ?n = "(unat (b - a) + 4095) div 4096"
  have u: "unat (a + of_nat i * 4096 :: u64) = unat a + i * 4096 \<and> unat a + i * 4096 < unat b" if "i < ?n" "a < b" for i
  proof -
    have "unat (b - a) = unat b - unat a" using that(2) by (intro unat_minus_le) simp
    moreover have "i * 4096 < unat (b - a)" using that(1) by simp
    ultimately have lt: "unat a + i * 4096 < unat b" by simp
    then have "unat (of_nat i * 4096 :: u64) = i * 4096" using assms(2) by (simp add: unat_word_ariths unat_of_nat)
    then show ?thesis using lt assms(2) by (subst unat_plus_no_wrap) simp_all
  qed
  show "distinct (va_range a b)"
  proof (cases "a < b")
    case True
    have "inj_on (\<lambda>i. a + of_nat i * 4096) {..<?n}"
      by (rule inj_onI) (use u [OF _ True] in \<open>metis add_left_cancel lessThan_iff mult_cancel2 zero_neq_numeral\<close>)
    then show ?thesis using True by (simp add: va_range_def distinct_map atLeast0LessThan)
  qed (simp add: va_range_def)
  show "upage v" if v: "v \<in> set (va_range a b)"
  proof -
    obtain i where "i < ?n" "a < b" "v = a + of_nat i * 4096" using v by (auto simp: va_range_def split: if_splits)
    then show ?thesis using u [of i] assms by (auto simp: upage_def)
  qed
  assume b: "4096 dvd unat b"
  show "v \<in> set (va_range a b) \<longleftrightarrow> 4096 dvd unat v \<and> a \<le> v \<and> v < b"
  proof
    assume "v \<in> set (va_range a b)"
    then obtain i where "i < ?n" "a < b" "v = a + of_nat i * 4096" by (auto simp: va_range_def split: if_splits)
    then show "4096 dvd unat v \<and> a \<le> v \<and> v < b" using u [of i] assms by (auto simp: word_le_nat_alt word_less_nat_alt)
  next
    assume v: "4096 dvd unat v \<and> a \<le> v \<and> v < b"
    then have ab: "a < b" by auto
    obtain i where i: "unat v = unat a + 4096 * i"
      using v assms(1) by (metis dvd_diff_nat dvd_def le_add_diff_inverse word_le_nat_alt)
    have "unat (b - a) = unat b - unat a" using ab by (intro unat_minus_le) simp
    moreover have "unat v < unat b" using v by (simp add: word_less_nat_alt)
    ultimately have "i < ?n" using i by linarith
    moreover have "v = a + of_nat i * 4096" using u [OF \<open>i < ?n\<close> ab] i by (simp add: word_unat_eq_iff mult.commute)
    ultimately show "v \<in> set (va_range a b)" using ab by (auto simp: va_range_def)
  qed
qed

section \<open>Releasing pages\<close>

definition raw_frames :: "vmm \<Rightarrow> u64 \<Rightarrow> u64 list \<Rightarrow> u64 set" where
  "raw_frames vm R vs = (\<lambda>v. ARCH_PTE_ADDR (pte_at vm R v)) ` set vs - {0}"

text \<open>The frames behind the pages \<open>vs\<close> are distinct, owned, and not page tables.\<close>

definition releasable :: "vmm \<Rightarrow> u64 \<Rightarrow> u64 list \<Rightarrow> bool" where
  "releasable vm R vs \<longleftrightarrow> distinct vs \<and> (\<forall>v\<in>set vs. upage v)
     \<and> (\<forall>v\<in>set vs. ARCH_PTE_ADDR (pte_at vm R v) \<noteq> 0 \<longrightarrow>
          pmm_owners (vm_pmm vm) (ARCH_PTE_ADDR (pte_at vm R v)) \<noteq> 0
          \<and> ARCH_PTE_ADDR (pte_at vm R v) \<notin> tables user_paths vm R)
     \<and> (\<forall>v\<in>set vs. present (pte_at vm R v) \<longrightarrow> ARCH_PTE_ADDR (pte_at vm R v) \<noteq> 0)
     \<and> inj_on (\<lambda>v. ARCH_PTE_ADDR (pte_at vm R v)) {v \<in> set vs. ARCH_PTE_ADDR (pte_at vm R v) \<noteq> 0}"

definition space_ok :: "vmm \<Rightarrow> u64 \<Rightarrow> bool" where
  "space_ok vm R \<longleftrightarrow> uspace_ok vm R \<and> pmm_wf (vm_pmm vm)"

definition on_pages :: "u64 list \<Rightarrow> u64 \<Rightarrow> bool" where
  "on_pages vs x \<longleftrightarrow> (\<exists>v\<in>set vs. same_page x v)"

text \<open>What a release of \<open>ws\<close> leaves: entries that were present are cleared, others stay.\<close>

definition released :: "vmm \<Rightarrow> u64 \<Rightarrow> bool \<Rightarrow> u64 list \<Rightarrow> vmm \<Rightarrow> bool" where
  "released vm0 R shared ws vm \<longleftrightarrow> space_ok vm R \<and> tables user_paths vm R = tables user_paths vm0 R
     \<and> (\<forall>x. user_va_ok x \<longrightarrow> pte_at vm R x
          = (if on_pages ws x \<and> present (pte_at vm0 R x) then 0 else pte_at vm0 R x))
     \<and> (\<forall>g. pmm_owners (vm_pmm vm) g = pmm_owners (vm_pmm vm0) g
          - (if \<not> shared \<and> g \<in> raw_frames vm0 R ws then 1 else 0))
     \<and> (\<forall>g. g \<notin> tables user_paths vm0 R \<longrightarrow> vm_mem vm g = vm_mem vm0 g)"

lemma present_zero [simp]: "\<not> present 0"
  by (simp add: present_def)

lemma munmap_step:
  assumes U: "released vm0 R shared ws vm" and r: "releasable vm0 R (ws @ [v])"
  shows "\<exists>vm'. munmap_one R shared v vm = Ret (vm', 0) \<and> released vm0 R shared (ws @ [v]) vm'"
proof -
  let ?T = "tables user_paths vm0 R" and ?e = "pte_at vm0 R v"
  let ?f = "ARCH_PTE_ADDR ?e"
  have ok: "uspace_ok vm R" "pmm_wf (vm_pmm vm)" "tables user_paths vm R = ?T"
    using U by (simp_all add: released_def space_ok_def)
  have up: "upage v" "\<And>w. w \<in> set ws \<Longrightarrow> upage w" "v \<notin> set ws" using r by (auto simp: releasable_def)
  have va: "user_va_ok v" by (rule upage_va_ok [OF up(1)])
  have "\<not> on_pages ws v" using up upage_same by (auto simp: on_pages_def)
  then have e: "pte_at vm R v = ?e" using U va by (simp add: released_def)
  have raw: "vmm_phys_of_user_raw R v vm = ?f" using phys_of_user_raw_pte [OF ok(1) va] e by simp
  define vm1 where "vm1 = vmm_unmap_user_page R v vm"
  have un: "if present ?e then sets_pte user_paths R v 0 vm vm1 else vm1 = vm"
    using unmap_user_pte [OF path_set_user ok(1) va] e by (simp add: vm1_def)
  have on: "on_pages (ws @ [v]) x \<longleftrightarrow> on_pages ws x \<or> same_page x v" for x by (auto simp: on_pages_def)
  have sp: "pte_at vm0 R x = ?e" if "same_page x v" for x using that by (simp add: same_page_def pte_at_def split: option.split)
  have p1: "pte_at vm1 R x = (if on_pages (ws @ [v]) x \<and> present (pte_at vm0 R x) then 0 else pte_at vm0 R x)"
    if "user_va_ok x" for x
    using un U that sp [of x] on [of x] by (auto simp: sets_pte_def released_def split: if_splits)
  have t1: "uspace_ok vm1 R" "tables user_paths vm1 R = ?T" "vm_pmm vm1 = vm_pmm vm"
    "\<And>g. g \<notin> ?T \<Longrightarrow> vm_mem vm1 g = vm_mem vm0 g"
    using un U ok by (auto simp: sets_pte_def released_def split: if_splits)
  have fr: "raw_frames vm0 R (ws @ [v]) = raw_frames vm0 R ws \<union> ({?f} - {0})" by (auto simp: raw_frames_def)
  have one: "munmap_one R shared v vm = (if ?f = 0 then Ret (vm, 0) else if shared then Ret (vm1, 0) else vm_free ?f vm1)"
    by (simp add: munmap_one_def raw Let_def vm1_def)
  show ?thesis
  proof (cases "?f = 0 \<or> shared")
    case True
    have "?f = 0 \<Longrightarrow> vm1 = vm" using r un by (auto simp: releasable_def split: if_splits)
    then have "munmap_one R shared v vm = Ret (vm1, 0)" using one True by auto
    moreover have "shared \<or> raw_frames vm0 R (ws @ [v]) = raw_frames vm0 R ws" using True fr by auto
    then have "pmm_owners (vm_pmm vm1) g = pmm_owners (vm_pmm vm0) g
        - (if \<not> shared \<and> g \<in> raw_frames vm0 R (ws @ [v]) then 1 else 0)" for g
      using U t1(3) by (auto simp: released_def)
    ultimately show ?thesis using t1 p1 ok(2) by (auto simp: released_def space_ok_def)
  next
    case False
    have f: "pmm_owners (vm_pmm vm0) ?f \<noteq> 0" "?f \<notin> ?T" using r False by (auto simp: releasable_def)
    have fresh: "?f \<notin> raw_frames vm0 R ws"
    proof
      assume "?f \<in> raw_frames vm0 R ws"
      then obtain w where w: "w \<in> set ws" "ARCH_PTE_ADDR (pte_at vm0 R w) = ?f" "?f \<noteq> 0" by (auto simp: raw_frames_def)
      have "inj_on (\<lambda>v. ARCH_PTE_ADDR (pte_at vm0 R v)) {u \<in> set (ws @ [v]). ARCH_PTE_ADDR (pte_at vm0 R u) \<noteq> 0}"
        using r by (simp only: releasable_def)
      then have "w = v" by (rule inj_onD) (use w in auto)
      then show False using w(1) up(3) by simp
    qed
    have of: "pmm_owners (vm_pmm vm1) ?f = pmm_owners (vm_pmm vm0) ?f"
      using U t1(3) fresh by (simp add: released_def)
    then obtain p where p: "pmm_free_page ?f (vm_pmm vm1) = Ret p"
      using pa.release_owned [of "vm_pmm vm1" ?f] f(1) ok(2) t1(3) by auto
    have wf1: "pmm_wf (vm_pmm vm1)" using ok(2) t1(3) by simp
    note R = pa.release_page [OF wf1 p]
    let ?vm' = "vm1\<lparr>vm_pmm := p\<rparr>"
    have own: "pmm_owners p g = pmm_owners (vm_pmm vm0) g - (if g \<in> raw_frames vm0 R (ws @ [v]) then 1 else 0)" for g
      using R U t1(3) fr False fresh by (auto simp: released_def)
    have tb: "pmm_owners p t \<noteq> 0" if "t \<in> tables user_paths vm1 R" for t
    proof -
      have "pmm_owners (vm_pmm vm1) t \<noteq> 0" using that t1(1) by (simp add: tree_ok_def)
      moreover have "t \<noteq> ?f" using that t1(2) f(2) by auto
      ultimately show ?thesis using R by simp
    qed
    note C = tree_ok_cong [OF t1(1), of ?vm']
    have "space_ok ?vm' R" "tables user_paths ?vm' R = ?T" "user_va_ok x \<Longrightarrow> pte_at ?vm' R x = pte_at vm1 R x" for x
      using C tb t1(2) R by (auto simp: space_ok_def)
    then have "released vm0 R shared (ws @ [v]) ?vm'"
      using p1 t1(4) own False by (simp add: released_def)
    then show ?thesis using one False p by (simp add: vm_free_def)
  qed
qed

lemma releasable_prefix:
  assumes "releasable vm R (vs @ us)"
  shows "releasable vm R vs"
proof -
  have "inj_on (\<lambda>v. ARCH_PTE_ADDR (pte_at vm R v)) {v \<in> set vs. ARCH_PTE_ADDR (pte_at vm R v) \<noteq> 0}"
    by (rule inj_on_subset [of _ "{v \<in> set (vs @ us). ARCH_PTE_ADDR (pte_at vm R v) \<noteq> 0}"])
       (use assms in \<open>auto simp: releasable_def\<close>)
  then show ?thesis using assms by (simp add: releasable_def)
qed

lemma munmap_loop:
  assumes "space_ok vm0 R" "releasable vm0 R vs"
  shows "\<exists>vm. for_each (munmap_one R shared) vs vm0 = Ret (vm, 0) \<and> released vm0 R shared vs vm"
  using assms(2)
proof (induction vs rule: rev_induct)
  case Nil
  show ?case using assms(1) by (simp add: released_def on_pages_def raw_frames_def)
next
  case (snoc v vs)
  have "releasable vm0 R vs" by (rule releasable_prefix [OF snoc.prems])
  then obtain vm where "for_each (munmap_one R shared) vs vm0 = Ret (vm, 0)" "released vm0 R shared vs vm"
    using snoc.IH by blast
  then show ?case using munmap_step [OF _ snoc.prems] by (fastforce simp: for_each_append)
qed

text \<open>\<open>unmap_free\<close> differs only on entries that are neither present nor without a frame.\<close>

lemma unmap_free_munmap:
  assumes "uspace_ok vm R" "user_va_ok v" "present (pte_at vm R v) \<or> ARCH_PTE_ADDR (pte_at vm R v) = 0"
  shows "unmap_free R v vm = munmap_one R False v vm"
  using assms phys_of_user_pte [OF assms(1,2)] phys_of_user_raw_pte [OF assms(1,2)]
  by (auto simp: unmap_free_def munmap_one_def vmm_phys_of_user_def Let_def)

section \<open>Filling pages\<close>

definition map_oom :: "'a kres \<Rightarrow> bool" where
  "map_oom r \<longleftrightarrow> r = Panic ''[VMM] FAIL: out of memory in vmm_map_user_page''"

text \<open>The state after the pages \<open>vs\<close> have been backed by fresh zeroed frames \<open>F v\<close>.\<close>

definition filled :: "vmm \<Rightarrow> u64 \<Rightarrow> u64 \<Rightarrow> u64 list \<Rightarrow> (u64 \<Rightarrow> u64) \<Rightarrow> vmm \<Rightarrow> bool" where
  "filled vm0 R flags vs F vm \<longleftrightarrow> space_ok vm R
     \<and> (\<forall>x. user_va_ok x \<longrightarrow> \<not> on_pages vs x \<longrightarrow> pte_at vm R x = pte_at vm0 R x)
     \<and> (\<forall>v\<in>set vs. pte_at vm R v = F v OR flags OR VMM_FLAG_PRESENT)
     \<and> inj_on F (set vs) \<and> F ` set vs \<subseteq> pmm_avail (vm_pmm vm0)
     \<and> (\<forall>v\<in>set vs. pmm_owners (vm_pmm vm) (F v) = 1 \<and> F v \<notin> tables user_paths vm R
          \<and> F v \<notin> pmm_avail (vm_pmm vm) \<and> (\<forall>i<512. vm_mem vm (F v) i = 0))
     \<and> (\<forall>g. pmm_owners (vm_pmm vm0) g \<noteq> 0 \<longrightarrow> pmm_owners (vm_pmm vm) g = pmm_owners (vm_pmm vm0) g)
     \<and> (\<forall>g. pmm_owners (vm_pmm vm0) g \<noteq> 0 \<longrightarrow> g \<notin> tables user_paths vm0 R \<longrightarrow> vm_mem vm g = vm_mem vm0 g)
     \<and> tables user_paths vm R \<subseteq> tables user_paths vm0 R \<union> pmm_avail (vm_pmm vm0)
     \<and> pmm_avail (vm_pmm vm) \<subseteq> pmm_avail (vm_pmm vm0)"

text \<open>Adding a page table entry for a page that is not mapped.\<close>

lemma map_user_cases:
  assumes "uspace_ok s R" "pmm_wf (vm_pmm s)" "upage v" "phys AND 0xFFF = 0" "\<not> present (pte_at s R v)"
  obtains (oom) "map_oom (vmm_map_user_page R v phys flags s)" "card (pmm_avail (vm_pmm s)) < 3"
  | (mapped) s3 s' where "vmm_map_user_page R v phys flags s = Ret s'" "grows user_paths R s s3"
      "sets_pte user_paths R v (phys OR flags OR VMM_FLAG_PRESENT) s3 s'"
      "card (pmm_avail (vm_pmm s)) \<le> card (pmm_avail (vm_pmm s')) + 3"
proof -
  have va: "user_va_ok v" by (rule upage_va_ok [OF assms(3)])
  have al: "v AND 0xFFF = 0" using assms(3) by (simp add: upage_def and_4095_eq_0_iff)
  obtain s3 pt where e: "ensure_path R v VMM_FLAG_USER s = (s3, pt)" by (cases "ensure_path R v VMM_FLAG_USER s")
  have G: "grows user_paths R s s3" "pt \<noteq> 0 \<Longrightarrow> walk s3 R (vm_path v) = Some pt"
    using ensure_path_spec [OF path_set_user assms(1,2) va _ e] by auto
  have um: "vmm_map_user_page R v phys flags s = (case vmm_map_user_page_nolock R v phys flags s of
      Panic m \<Rightarrow> Panic m | Ret (s1, r) \<Rightarrow>
        if r < 0 then Panic ''[VMM] FAIL: out of memory in vmm_map_user_page'' else Ret s1)"
    using al assms(4) by (simp add: vmm_map_user_page_def PAGE_SIZE_def)
  have bud: "pt \<noteq> 0 \<and> n \<le> card (pmm_avail (vm_pmm s3))" if "n + 3 \<le> card (pmm_avail (vm_pmm s))" for n
    using ensure_path_success [OF path_set_user assms(1,2) va _ that, of VMM_FLAG_USER] e by simp
  show ?thesis
  proof (cases "pt = 0")
    case True
    then have "card (pmm_avail (vm_pmm s)) < 3" using bud [of 0] by force
    then show ?thesis using oom um e True by (simp add: map_user_page_nolock_path map_oom_def)
  next
    case False
    have "pte_at s3 R v = pte_at s R v" using G(1) va by (simp add: grows_def)
    then have "\<not> present (vm_rd s3 pt (pt_index v))" using G(2) [OF False] assms(5) by (simp add: pte_at_def)
    then obtain s' where m: "vmm_map_user_page_nolock R v phys flags s = Ret (s', 0)" and pm: "vm_pmm s' = vm_pmm s3"
      using e False by (simp add: map_user_page_nolock_path vm_wr_def)
    obtain t3 where "grows user_paths R s t3" "sets_pte user_paths R v (phys OR flags OR VMM_FLAG_PRESENT) t3 s'"
      using map_user_nolock_spec [OF path_set_user assms(1,2) va m] by auto
    moreover have "card (pmm_avail (vm_pmm s)) \<le> card (pmm_avail (vm_pmm s')) + 3"
      using bud [of "card (pmm_avail (vm_pmm s)) - 3"] pm by (cases "3 \<le> card (pmm_avail (vm_pmm s))") auto
    ultimately show ?thesis using mapped um m by simp
  qed
qed

text \<open>The page \<open>v\<close> gets the entry \<open>e\<close> for a fresh zeroed frame \<open>f\<close>.\<close>

definition adds_page :: "vmm \<Rightarrow> u64 \<Rightarrow> u64 \<Rightarrow> u64 \<Rightarrow> u64 \<Rightarrow> vmm \<Rightarrow> bool" where
  "adds_page vm R v e f s' \<longleftrightarrow> space_ok s' R
     \<and> (\<forall>x. user_va_ok x \<longrightarrow> pte_at s' R x = (if same_page x v then e else pte_at vm R x))
     \<and> f \<in> pmm_avail (vm_pmm vm) \<and> f \<notin> tables user_paths vm R
     \<and> pmm_avail (vm_pmm s') \<subseteq> pmm_avail (vm_pmm vm) - {f}
     \<and> tables user_paths s' R \<subseteq> tables user_paths vm R \<union> (pmm_avail (vm_pmm vm) - {f})
     \<and> (\<forall>g. pmm_owners (vm_pmm vm) g \<noteq> 0 \<longrightarrow> pmm_owners (vm_pmm s') g = pmm_owners (vm_pmm vm) g)
     \<and> pmm_owners (vm_pmm s') f = 1 \<and> (\<forall>i<512. vm_mem s' f i = 0)
     \<and> (\<forall>g. pmm_owners (vm_pmm vm) g \<noteq> 0 \<longrightarrow> g \<notin> tables user_paths vm R \<longrightarrow> vm_mem s' g = vm_mem vm g)
     \<and> card (pmm_avail (vm_pmm vm)) \<le> card (pmm_avail (vm_pmm s')) + 4"

lemma alloc_zeroed:
  assumes ok: "uspace_ok vm R" "pmm_wf (vm_pmm vm)" and al: "pmm_alloc_page (vm_pmm vm) = (p, f)" "f \<noteq> 0"
  defines "vm1 \<equiv> vmm_zero_page f (vm\<lparr>vm_pmm := p\<rparr>)"
  shows "uspace_ok vm1 R" "pmm_wf (vm_pmm vm1)" "f AND 0xFFF = 0" "tables user_paths vm1 R = tables user_paths vm R"
    "user_va_ok x \<Longrightarrow> pte_at vm1 R x = pte_at vm R x" "f \<in> pmm_avail (vm_pmm vm)" "f \<notin> tables user_paths vm R"
    "pmm_avail (vm_pmm vm1) = pmm_avail (vm_pmm vm) - {f}" "pmm_owners (vm_pmm vm1) = (pmm_owners (vm_pmm vm))(f := 1)"
    "pmm_owners (vm_pmm vm) f = 0" "g \<noteq> f \<Longrightarrow> vm_mem vm1 g = vm_mem vm g" "i < 512 \<Longrightarrow> vm_mem vm1 f i = 0"
proof -
  note A = pa.alloc_page [OF ok(2) al]
  have mf: "managed f" "ARCH_PTE_ADDR f = f" using A by (simp_all add: pmm_avail_def)
  show f0: "pmm_owners (vm_pmm vm) f = 0" using A pa.avail_unowned [OF ok(2)] by blast
  have p: "vm_pmm vm1 = p" by (simp add: vm1_def vmm_zero_page_def vm_zero_def)
  show m1: "g \<noteq> f \<Longrightarrow> vm_mem vm1 g = vm_mem vm g" for g by (simp add: vm1_def vmm_zero_page_def vm_zero_def mf)
  show "i < 512 \<Longrightarrow> vm_mem vm1 f i = 0" by (simp add: vm1_def vmm_zero_page_def vm_zero_def zero_words_def mf)
  show ft: "f \<notin> tables user_paths vm R" using f0 ok(1) by (auto simp: tree_ok_def)
  show "f \<in> pmm_avail (vm_pmm vm)" "pmm_avail (vm_pmm vm1) = pmm_avail (vm_pmm vm) - {f}" "pmm_wf (vm_pmm vm1)"
    "pmm_owners (vm_pmm vm1) = (pmm_owners (vm_pmm vm))(f := 1)" using A p by simp_all
  show "f AND 0xFFF = 0" using mf by (simp add: managed_unat and_4095_eq_0_iff)
  have "vm_mem vm1 t = vm_mem vm t" "pmm_owners (vm_pmm vm1) t \<noteq> 0" if "t \<in> tables user_paths vm R" for t
  proof -
    have "t \<noteq> f" "pmm_owners (vm_pmm vm) t \<noteq> 0" using that ft ok(1) by (auto simp: tree_ok_def)
    then show "vm_mem vm1 t = vm_mem vm t" "pmm_owners (vm_pmm vm1) t \<noteq> 0" using p m1 A by simp_all
  qed
  note C = tree_ok_cong [OF ok(1), of vm1, OF this]
  show "uspace_ok vm1 R" "tables user_paths vm1 R = tables user_paths vm R" "user_va_ok x \<Longrightarrow> pte_at vm1 R x = pte_at vm R x"
    using C by auto
qed

lemma map_fresh_cases:
  assumes ok: "space_ok vm R" and v: "upage v" "\<not> present (pte_at vm R v)"
  obtains (oom) "map_oom (map_fresh R flags v vm)" "card (pmm_avail (vm_pmm vm)) < 4"
  | (enomem) "map_fresh R flags v vm = Ret (vm, -12)" "pmm_avail (vm_pmm vm) = {}"
  | (mapped) s' f where "map_fresh R flags v vm = Ret (s', 0)" "adds_page vm R v (f OR flags OR VMM_FLAG_PRESENT) f s'"
proof -
  have ok': "uspace_ok vm R" "pmm_wf (vm_pmm vm)" using ok by (simp_all add: space_ok_def)
  have va: "user_va_ok v" by (rule upage_va_ok [OF v(1)])
  obtain p f where al: "pmm_alloc_page (vm_pmm vm) = (p, f)" by (cases "pmm_alloc_page (vm_pmm vm)")
  show ?thesis
  proof (cases "f = 0")
    case True
    then show ?thesis using enomem al pa.alloc_oom [OF ok'(2)] by (simp add: map_fresh_def)
  next
    case False
    define vm1 where "vm1 = vmm_zero_page f (vm\<lparr>vm_pmm := p\<rparr>)"
    note Z = alloc_zeroed [OF ok' al False, folded vm1_def]
    have mfr: "map_fresh R flags v vm = (case vmm_map_user_page R v f flags vm1 of
        Panic m \<Rightarrow> Panic m | Ret vm' \<Rightarrow> Ret (vm', 0))" using al False by (simp add: map_fresh_def vm1_def)
    have np1: "\<not> present (pte_at vm1 R v)" using v(2) Z(5) va by simp
    have cd: "card (pmm_avail (vm_pmm vm)) = Suc (card (pmm_avail (vm_pmm vm1)))"
      unfolding Z(8) by (rule card_Suc_Diff1 [OF finite_pmm_avail Z(6), symmetric])
    show ?thesis
    proof (rule map_user_cases [OF Z(1,2) v(1) Z(3) np1, of flags])
      assume "map_oom (vmm_map_user_page R v f flags vm1)" "card (pmm_avail (vm_pmm vm1)) < 3"
      then show ?thesis using oom mfr cd by (simp add: map_oom_def)
    next
      fix s3 s'
      assume m: "vmm_map_user_page R v f flags vm1 = Ret s'" and G: "grows user_paths R vm1 s3"
        and S: "sets_pte user_paths R v (f OR flags OR VMM_FLAG_PRESENT) s3 s'"
        and bud: "card (pmm_avail (vm_pmm vm1)) \<le> card (pmm_avail (vm_pmm s')) + 3"
      have mem: "vm_mem s' g = vm_mem vm1 g" if "pmm_owners (vm_pmm vm1) g \<noteq> 0" "g \<notin> tables user_paths vm1 R" for g
      proof -
        have "g \<notin> pmm_avail (vm_pmm vm1)" using that(1) pa.owned_not_avail [OF Z(2)] by blast
        then have "g \<notin> tables user_paths s3 R" using that(2) G by (auto simp: grows_def)
        then show ?thesis using that G S by (simp add: grows_def sets_pte_def)
      qed
      have nf: "g \<noteq> f" if "pmm_owners (vm_pmm vm) g \<noteq> 0" for g using that Z(10) by auto
      have "adds_page vm R v (f OR flags OR VMM_FLAG_PRESENT) f s'"
        unfolding adds_page_def
      proof (intro conjI allI impI)
        show "card (pmm_avail (vm_pmm vm)) \<le> card (pmm_avail (vm_pmm s')) + 4" using bud cd by simp
        show "vm_mem s' g = vm_mem vm g" if "pmm_owners (vm_pmm vm) g \<noteq> 0" "g \<notin> tables user_paths vm R" for g
          using that mem [of g] nf Z(4,9,11) by simp
        show "vm_mem s' f i = 0" if "i < 512" for i using that mem [of f] Z(4,7,9,12) by simp
        show "pmm_owners (vm_pmm s') g = pmm_owners (vm_pmm vm) g" if "pmm_owners (vm_pmm vm) g \<noteq> 0" for g
          using that nf Z(9) G S by (simp add: grows_def sets_pte_def)
        show "tables user_paths s' R \<subseteq> tables user_paths vm R \<union> (pmm_avail (vm_pmm vm) - {f})"
          using G S Z(4,8) by (simp add: grows_def sets_pte_def)
      qed (use G S Z in \<open>auto simp: space_ok_def grows_def sets_pte_def\<close>)
      then show ?thesis using mapped mfr m by simp
    qed
  qed
qed

lemma filled_snoc:
  assumes wf0: "pmm_wf (vm_pmm vm0)" and F: "filled vm0 R flags vs F vm" and v: "upage v" "\<forall>w\<in>set vs. upage w" "v \<notin> set vs"
    and A: "adds_page vm R v (f OR flags OR VMM_FLAG_PRESENT) f s'"
  shows "filled vm0 R flags (vs @ [v]) (F(v := f)) s'"
proof -
  let ?o = "\<lambda>s. pmm_owners (vm_pmm s)" and ?a = "\<lambda>s. pmm_avail (vm_pmm s)" and ?T = "\<lambda>s. tables user_paths s R"
  have F0: "F ` set vs \<subseteq> ?a vm0" "?a vm \<subseteq> ?a vm0" "inj_on F (set vs)" "?T vm \<subseteq> ?T vm0 \<union> ?a vm0"
    using F by (simp_all add: filled_def)
  have A0: "f \<in> ?a vm" "?a s' \<subseteq> ?a vm - {f}" "?T s' \<subseteq> ?T vm \<union> (?a vm - {f})" "f \<notin> ?T vm" "?o s' f = 1"
    using A by (simp_all add: adds_page_def)
  have old: "?o vm (F w) = 1" "F w \<notin> ?T vm" "F w \<notin> ?a vm" "i < 512 \<Longrightarrow> vm_mem vm (F w) i = 0" if "w \<in> set vs" for w i
    using that F by (auto simp: filled_def)
  have F': "(F(v := f)) w = F w" if "w \<in> set vs" for w using that v(3) by auto
  show ?thesis
    unfolding filled_def
  proof (intro conjI allI ballI impI)
    have "inj_on (F(v := f)) (set vs)" by (rule iffD2 [OF inj_on_cong F0(3)]) (rule F')
    moreover have "F(v := f) ` set vs = F ` set vs" by (rule image_cong [OF refl F'])
    ultimately show "inj_on (F(v := f)) (set (vs @ [v]))" using old(3) A0(1) v(3) by auto
    show "(F(v := f)) ` set (vs @ [v]) \<subseteq> ?a vm0" using F0(1,2) A0(1) by auto
    show "?T s' \<subseteq> ?T vm0 \<union> ?a vm0" "?a s' \<subseteq> ?a vm0" using A0 F0 by blast+
    show "space_ok s' R" using A by (simp add: adds_page_def)
  next
    fix x assume x: "user_va_ok x" "\<not> on_pages (vs @ [v]) x"
    then have "\<not> same_page x v" "\<not> on_pages vs x" by (auto simp: on_pages_def)
    then show "pte_at s' R x = pte_at vm0 R x" using A F x(1) by (simp add: adds_page_def filled_def)
  next
    fix w assume w: "w \<in> set (vs @ [v])"
    have "w = v \<or> w \<in> set vs \<and> w \<noteq> v \<and> \<not> same_page w v" "user_va_ok w" using w v upage_same upage_va_ok by auto
    then show "pte_at s' R w = (F(v := f)) w OR flags OR VMM_FLAG_PRESENT"
      using A F by (auto simp: adds_page_def filled_def same_page_def)
    show "?o s' ((F(v := f)) w) = 1" using w old(1) A by (cases "w = v") (auto simp: adds_page_def)
    show "(F(v := f)) w \<notin> ?T s'" using w old(2,3) A0 by (cases "w = v") auto
    show "(F(v := f)) w \<notin> ?a s'" using w old(3) A0(2) by (cases "w = v") auto
    show "vm_mem s' ((F(v := f)) w) i = 0" if "i < 512" for i
      using w old that A by (cases "w = v") (auto simp: adds_page_def)
  next
    fix g assume g: "?o vm0 g \<noteq> 0"
    have ov: "?o vm g = ?o vm0 g" using F g by (simp add: filled_def)
    then show "?o s' g = ?o vm0 g" using A g by (simp add: adds_page_def)
    assume t: "g \<notin> ?T vm0"
    have "g \<notin> ?a vm0" using g pa.owned_not_avail [OF wf0] by blast
    then have "g \<notin> ?T vm" using t F0(4) by blast
    then show "vm_mem s' g = vm_mem vm0 g" using A F g t ov by (simp add: adds_page_def filled_def)
  qed
qed

text \<open>Giving back pages that are mapped or were never used.\<close>

lemma unmap_loop:
  assumes ok: "space_ok vm0 R" and r: "releasable vm0 R vs"
    and p: "\<forall>v\<in>set vs. present (pte_at vm0 R v) \<or> ARCH_PTE_ADDR (pte_at vm0 R v) = 0"
  shows "\<exists>vm. for_each (unmap_free R) vs vm0 = Ret (vm, 0) \<and> released vm0 R False vs vm"
  using r p
proof (induction vs rule: rev_induct)
  case Nil
  show ?case using ok by (simp add: released_def on_pages_def raw_frames_def)
next
  case (snoc v vs)
  obtain vm where vm: "for_each (unmap_free R) vs vm0 = Ret (vm, 0)" "released vm0 R False vs vm"
    using snoc.IH releasable_prefix [OF snoc.prems(1)] snoc.prems(2) by auto
  have va: "user_va_ok v" "\<not> on_pages vs v"
    using snoc.prems(1) upage_va_ok upage_same by (auto simp: releasable_def on_pages_def)
  then have "pte_at vm R v = pte_at vm0 R v" "uspace_ok vm R" using vm(2) by (auto simp: released_def space_ok_def)
  then have "unmap_free R v vm = munmap_one R False v vm"
    using snoc.prems(2) va(1) by (intro unmap_free_munmap) auto
  then show ?case using vm munmap_step [OF vm(2) snoc.prems(1)] by (fastforce simp: for_each_append)
qed

lemma pte_addr_flags:
  assumes "f \<in> pmm_avail p" "ARCH_PTE_ADDR flags = 0"
  shows "ARCH_PTE_ADDR (f OR flags OR VMM_FLAG_PRESENT) = f" "present (f OR flags OR VMM_FLAG_PRESENT)"
proof -
  have "ARCH_PTE_ADDR VMM_FLAG_PRESENT = 0" by (simp add: ARCH_PTE_ADDR_def VMM_FLAG_PRESENT_def)
  then show "ARCH_PTE_ADDR (f OR flags OR VMM_FLAG_PRESENT) = f"
    using assms by (simp add: pte_addr_or pmm_avail_def)
  show "present (f OR flags OR VMM_FLAG_PRESENT)" by (simp add: bit_simps bit_flags)
qed

text \<open>Filled pages can be released, and then all entries and owners are as they were.\<close>

lemma filled_releasable:
  assumes F: "filled vm0 R flags vs F vm" and z: "\<forall>v\<in>set vs. upage v" "distinct vs"
    and fl: "ARCH_PTE_ADDR flags = 0" and wf0: "pmm_wf (vm_pmm vm0)"
  shows "releasable vm R vs" "raw_frames vm R vs = F ` set vs" "\<forall>v\<in>set vs. present (pte_at vm R v)"
proof -
  have e: "pte_at vm R v = F v OR flags OR VMM_FLAG_PRESENT" "F v \<in> pmm_avail (vm_pmm vm0)" if "v \<in> set vs" for v
    using that F by (auto simp: filled_def)
  have fr: "ARCH_PTE_ADDR (pte_at vm R v) = F v" "present (pte_at vm R v)" if "v \<in> set vs" for v
    using pte_addr_flags [OF e(2) fl] e(1) that by auto
  have F1: "pmm_owners (vm_pmm vm) (F v) = 1" "F v \<notin> tables user_paths vm R" if "v \<in> set vs" for v
    using that F by (auto simp: filled_def)
  have nz: "F v \<noteq> 0" if "v \<in> set vs" for v using e(2) [OF that] pa.null_reserved [OF wf0] by auto
  have inj: "inj_on (\<lambda>v. ARCH_PTE_ADDR (pte_at vm R v)) (set vs)"
    by (rule iffD2 [OF inj_on_cong]) (use F fr in \<open>auto simp: filled_def\<close>)
  show "releasable vm R vs" using z fr F1 nz inj by (auto simp: releasable_def intro: inj_on_subset)
  show "raw_frames vm R vs = F ` set vs" using fr(1) nz by (auto simp: raw_frames_def image_iff)
  show "\<forall>v\<in>set vs. present (pte_at vm R v)" using fr(2) by blast
qed

definition restored :: "vmm \<Rightarrow> u64 \<Rightarrow> vmm \<Rightarrow> bool" where
  "restored vm0 R vm \<longleftrightarrow> space_ok vm R \<and> (\<forall>x. user_va_ok x \<longrightarrow> pte_at vm R x = pte_at vm0 R x)
     \<and> (\<forall>g. pmm_owners (vm_pmm vm0) g \<noteq> 0 \<longrightarrow> pmm_owners (vm_pmm vm) g = pmm_owners (vm_pmm vm0) g)"

lemma filled_restored:
  assumes F: "filled vm0 R flags vs F vm" and z: "\<forall>v\<in>set vs. upage v" "distinct vs" "\<forall>v\<in>set vs. pte_at vm0 R v = 0"
    and fl: "ARCH_PTE_ADDR flags = 0" and wf0: "pmm_wf (vm_pmm vm0)" and u: "released vm R False vs vm'"
  shows "restored vm0 R vm'" "v \<in> set vs \<Longrightarrow> pmm_owners (vm_pmm vm') (F v) = 0"
proof -
  note rel = filled_releasable [OF F z(1,2) fl wf0]
  have own: "pmm_owners (vm_pmm vm') g = pmm_owners (vm_pmm vm) g - (if g \<in> F ` set vs then 1 else 0)" for g
    using u rel(2) by (simp add: released_def)
  have F1: "pmm_owners (vm_pmm vm) (F v) = 1" "F v \<in> pmm_avail (vm_pmm vm0)" if "v \<in> set vs" for v
    using that F by (auto simp: filled_def)
  then show "v \<in> set vs \<Longrightarrow> pmm_owners (vm_pmm vm') (F v) = 0" using own by simp
  have "g \<notin> F ` set vs" if "pmm_owners (vm_pmm vm0) g \<noteq> 0" for g
    using F1(2) pa.owned_not_avail [OF wf0 that] by blast
  moreover have "pte_at vm' R x = pte_at vm0 R x" if x: "user_va_ok x" for x
  proof (cases "on_pages vs x")
    case True
    then obtain v where v: "v \<in> set vs" "same_page x v" by (auto simp: on_pages_def)
    have same: "pte_at s R x = pte_at s R v" for s using v(2) by (simp add: same_page_def pte_at_def split: option.split)
    have "pte_at vm' R x = 0" using u x True same [of vm] rel(3) v(1) by (simp add: released_def)
    then show ?thesis using same [of vm0] z(3) v(1) by simp
  next
    case False
    then show ?thesis using u F x by (simp add: released_def filled_def)
  qed
  moreover have "space_ok vm' R" using u by (simp add: released_def)
  moreover have "pmm_owners (vm_pmm vm) g = pmm_owners (vm_pmm vm0) g" if "pmm_owners (vm_pmm vm0) g \<noteq> 0" for g
    using that F by (simp add: filled_def)
  ultimately show "restored vm0 R vm'" using own by (simp add: restored_def)
qed

lemma va_range_take:
  assumes "i \<le> n" "unat a + 4096 * n < 2 ^ 64"
  shows "va_range a (a + of_nat i * 4096) = map (\<lambda>j. a + of_nat j * 4096) [0..<i]"
proof (cases "i = 0")
  case False
  have u: "unat (of_nat i * 4096 :: u64) = 4096 * i" using assms by (simp add: unat_word_ariths unat_of_nat)
  then have "unat (a + of_nat i * 4096) = unat a + 4096 * i" using assms by (subst unat_plus_no_wrap) simp_all
  then have "a < a + of_nat i * 4096" using False by (simp add: word_less_nat_alt)
  then show ?thesis using u by (simp add: va_range_def)
qed (simp add: va_range_def)

text \<open>The outcomes of mapping fresh pages.\<close>

lemma mmap_fill_loop:
  assumes ok: "space_ok vm0 R" and a: "4096 dvd unat a" "unat a + 4096 * n < 2 ^ 47" and fl: "ARCH_PTE_ADDR flags = 0"
    and z: "\<forall>i<n. pte_at vm0 R (a + of_nat i * 4096) = 0"
  defines "vs i \<equiv> map (\<lambda>j. a + of_nat j * 4096) [0..<i]"
  shows "i \<le> n \<Longrightarrow> map_oom (for_each (mmap_fill_one R a flags) (vs i) vm0)
    \<or> (\<exists>vm. for_each (mmap_fill_one R a flags) (vs i) vm0 = Ret (vm, -12) \<and> restored vm0 R vm)
    \<or> (\<exists>vm F. for_each (mmap_fill_one R a flags) (vs i) vm0 = Ret (vm, 0) \<and> filled vm0 R flags (vs i) F vm)"
proof (induction i)
  case 0
  have "filled vm0 R flags [] F vm0" for F using ok by (simp add: filled_def on_pages_def)
  then show ?case by (auto simp: vs_def)
next
  case (Suc i)
  let ?v = "a + of_nat i * 4096"
  have vs: "vs (Suc i) = vs i @ [?v]" by (simp add: vs_def)
  have wf0: "pmm_wf (vm_pmm vm0)" using ok by (simp add: space_ok_def)
  have up: "upage (a + of_nat j * 4096)" "unat (a + of_nat j * 4096 :: u64) = unat a + 4096 * j" if "j \<le> i" for j
  proof -
    have "unat (of_nat j * 4096 :: u64) = 4096 * j" using that Suc.prems a by (simp add: unat_word_ariths unat_of_nat)
    then show "unat (a + of_nat j * 4096 :: u64) = unat a + 4096 * j"
      using that Suc.prems a by (subst unat_plus_no_wrap) simp_all
    then show "upage (a + of_nat j * 4096)" using that Suc.prems a by (simp add: upage_def)
  qed
  have nin: "?v \<notin> set (vs i)"
  proof
    assume "?v \<in> set (vs i)"
    then obtain j where "j < i" "?v = a + of_nat j * 4096" by (auto simp: vs_def)
    then show False using up(2) [of i] up(2) [of j] by simp
  qed
  have "inj_on (\<lambda>j. a + of_nat j * 4096) (set [0..<i])"
  proof (rule inj_onI)
    fix x y assume x: "x \<in> set [0..<i]" and y: "y \<in> set [0..<i]" and e: "a + of_nat x * 4096 = a + of_nat y * 4096"
    have "x \<le> i" "y \<le> i" using x y by simp_all
    from arg_cong [OF e, of unat, unfolded up(2) [OF this(1)] up(2) [OF this(2)]] show "x = y" by simp
  qed
  then have ups: "\<forall>w\<in>set (vs i). upage w" "distinct (vs i)" using up(1) by (auto simp: vs_def distinct_map)
  have zs: "\<forall>w\<in>set (vs i). pte_at vm0 R w = 0" using z Suc.prems by (auto simp: vs_def)
  have "i \<le> n" using Suc.prems by simp
  from Suc.IH [OF this] show ?case
  proof (elim disjE exE conjE)
    fix vm F
    assume L: "for_each (mmap_fill_one R a flags) (vs i) vm0 = Ret (vm, 0)" and F: "filled vm0 R flags (vs i) F vm"
    have sp: "space_ok vm R" using F by (simp add: filled_def)
    have "\<not> on_pages (vs i) ?v" using nin ups upage_same up(1) by (auto simp: on_pages_def)
    then have "pte_at vm R ?v = 0" using F upage_va_ok [OF up(1)] z Suc.prems by (simp add: filled_def)
    then have np: "\<not> present (pte_at vm R ?v)" by simp
    have r: "va_range a ?v = vs i" unfolding vs_def by (rule va_range_take [of i n]) (use Suc.prems a in simp_all)
    show ?thesis
    proof (cases rule: map_fresh_cases [OF sp up(1) [OF order_refl] np, of flags, case_names oom enomem mapped])
      case oom
      then have "map_oom (mmap_fill_one R a flags ?v vm)" by (simp add: mmap_fill_one_def map_oom_def)
      then show ?thesis using L by (auto simp: vs for_each_append map_oom_def)
    next
      case enomem
      note rel = filled_releasable [OF F ups fl wf0]
      obtain vm' where u: "for_each (unmap_free R) (vs i) vm = Ret (vm', 0)" "released vm R False (vs i) vm'"
        using unmap_loop [OF sp rel(1)] rel(3) by blast
      have "restored vm0 R vm'" by (rule filled_restored(1) [OF F ups zs fl wf0 u(2)])
      moreover have "mmap_fill_one R a flags ?v vm = Ret (vm', -12)"
        using enomem r u(1) by (simp add: mmap_fill_one_def)
      ultimately show ?thesis using L by (auto simp: vs for_each_append)
    next
      case (mapped s' f)
      then have "mmap_fill_one R a flags ?v vm = Ret (s', 0)" by (simp add: mmap_fill_one_def)
      moreover have "filled vm0 R flags (vs (Suc i)) (F(?v := f)) s'"
        unfolding vs by (rule filled_snoc [OF wf0 F up(1) [OF order_refl] ups(1) nin mapped(2)])
      ultimately show ?thesis using L by (auto simp: vs for_each_append)
    qed
  qed (auto simp: vs for_each_append map_oom_def)
qed

section \<open>The calls\<close>

lemma page_up_dvd: "4096 dvd unat (page_up x)"
  unfolding page_up_def and_not_4095_unat by simp

lemma mmap_flags_addr: "ARCH_PTE_ADDR (mmap_flags prot) = 0" "mmap_flags prot AND VMM_FLAG_PRESENT \<noteq> 0"
  by (simp_all add: mmap_flags_def Let_def ARCH_PTE_ADDR_def VMM_FLAG_PRESENT_def VMM_FLAG_USER_def
      VMM_FLAG_NX_def VMM_FLAG_WRITABLE_def)

text \<open>Pages of a range that a call has accepted.\<close>

lemma call_range:
  assumes "4096 dvd unat a" "4096 dvd unat len" "unat a + unat len \<le> 2 ^ 47"
  shows "va_range a (a + len) = map (\<lambda>j. a + of_nat j * 4096) [0..<unat len div 4096]"
    "unat (a + len) = unat a + unat len"
proof -
  obtain n where n: "unat len = 4096 * n" using assms(2) by (auto simp: dvd_def)
  have "len = of_nat (4096 * n)" unfolding n [symmetric] by simp
  then have l: "len = of_nat n * 4096" by (simp add: mult.commute)
  have "unat a + 4096 * n < 2 ^ 64" using n assms(3) by simp
  then show "va_range a (a + len) = map (\<lambda>j. a + of_nat j * 4096) [0..<unat len div 4096]"
    using va_range_take [of n n a] n unfolding l by simp
  show "unat (a + len) = unat a + unat len" using assms(3) by (subst unat_plus_no_wrap) simp_all
qed

lemma sys_mmap_anon_unfold:
  assumes len: "len = page_up arg2" "len \<noteq> 0" and args: "prot AND NOT 7 = 0" "flags AND MAP_ANONYMOUS \<noteq> 0"
    and base: "mmap_free_alloc len (mmap_frees s) = (fl, b)" "base = (if b = 0 then mmap_base s else b)"
      "4096 dvd unat base" "unat base + unat len \<le> unat USER_ADDR_MAX"
  shows "sys_mmap vread 0 arg2 prot flags fd off (k, s) =
    (case for_each (mmap_fill_one (pml4_phys s) base (mmap_flags prot)) (va_range base (base + len)) (mm_vm s) of
      Panic m \<Rightarrow> Panic m
    | Ret (vm, r) \<Rightarrow>
        if r \<noteq> 0 then Ret ((k, set_vm vm (s\<lparr>mmap_frees := fl\<rparr>)), neg_errno 12)
        else Ret ((k, on_vmas (vma_insert base len (ucast (prot AND 7)) VMA_MMAP)
               (bump_base False base len (set_vm vm (s\<lparr>mmap_frees := fl\<rparr>)))), base))"
    "va_range base (base + len) = map (\<lambda>j. base + of_nat j * 4096) [0..<unat len div 4096]"
proof -
  have d: "4096 dvd unat len" using len(1) page_up_dvd by simp
  have b47: "unat base + unat len \<le> 2 ^ 47" using base(4) by (simp add: USER_ADDR_MAX_def)
  note R = call_range [OF base(3) d b47]
  show "va_range base (base + len) = map (\<lambda>j. base + of_nat j * 4096) [0..<unat len div 4096]" by (rule R(1))
  have pl: "mmap_place 0 len False s = Ret (s\<lparr>mmap_frees := fl\<rparr>, Inr base)"
    using base R(2) by (simp add: mmap_place_def Let_def word_less_nat_alt)
  have pr: "prot AND NOT (PROT_READ OR PROT_WRITE OR PROT_EXEC) = 0"
    using args(1) by (simp add: PROT_READ_def PROT_WRITE_def PROT_EXEC_def)
  show "sys_mmap vread 0 arg2 prot flags fd off (k, s) =
    (case for_each (mmap_fill_one (pml4_phys s) base (mmap_flags prot)) (va_range base (base + len)) (mm_vm s) of
      Panic m \<Rightarrow> Panic m
    | Ret (vm, r) \<Rightarrow>
        if r \<noteq> 0 then Ret ((k, set_vm vm (s\<lparr>mmap_frees := fl\<rparr>)), neg_errno 12)
        else Ret ((k, on_vmas (vma_insert base len (ucast (prot AND 7)) VMA_MMAP)
               (bump_base False base len (set_vm vm (s\<lparr>mmap_frees := fl\<rparr>)))), base))"
    using len args(2) pl pr by (simp add: sys_mmap_def Let_def split: kres.split)
qed

lemma sys_mmap_anon:
  assumes ok: "space_ok (mm_vm s) (pml4_phys s)" and len: "len = page_up arg2" "len \<noteq> 0"
    and args: "prot AND NOT 7 = 0" "flags AND MAP_ANONYMOUS \<noteq> 0"
    and base: "mmap_free_alloc len (mmap_frees s) = (fl, b)" "base = (if b = 0 then mmap_base s else b)"
      "4096 dvd unat base" "unat base + unat len \<le> unat USER_ADDR_MAX"
    and z: "\<forall>v\<in>set (va_range base (base + len)). pte_at (mm_vm s) (pml4_phys s) v = 0"
  shows "map_oom (sys_mmap vread 0 arg2 prot flags fd off (k, s))
    \<or> (\<exists>vm. sys_mmap vread 0 arg2 prot flags fd off (k, s) = Ret ((k, set_vm vm (s\<lparr>mmap_frees := fl\<rparr>)), neg_errno 12)
          \<and> restored (mm_vm s) (pml4_phys s) vm)
    \<or> (\<exists>vm F. sys_mmap vread 0 arg2 prot flags fd off (k, s)
            = Ret ((k, on_vmas (vma_insert base len (ucast (prot AND 7)) VMA_MMAP)
                (bump_base False base len (set_vm vm (s\<lparr>mmap_frees := fl\<rparr>)))), base)
          \<and> filled (mm_vm s) (pml4_phys s) (mmap_flags prot) (va_range base (base + len)) F vm)"
proof -
  note U = sys_mmap_anon_unfold(1) [OF len args base, of vread fd off k] sys_mmap_anon_unfold(2) [OF len args base]
  have "unat base + unat len < 2 ^ 47" using base(4) by (simp add: USER_ADDR_MAX_def)
  moreover have "4096 dvd unat len" using len(1) page_up_dvd by simp
  ultimately have lt: "unat base + 4096 * (unat len div 4096) < 2 ^ 47" by simp
  show ?thesis
    using mmap_fill_loop [OF ok base(3) lt mmap_flags_addr(1), of "unat len div 4096" prot] z U
    by (auto simp: map_oom_def)
qed

text \<open>A range that \<^verbatim>\<open>munmap\<close> and \<^verbatim>\<open>mprotect\<close> accept.\<close>

definition user_range :: "u64 \<Rightarrow> u64 \<Rightarrow> bool" where
  "user_range a len \<longleftrightarrow> 4096 dvd unat a \<and> unat a + unat len < unat USER_ADDR_MAX"

lemma user_range_facts:
  assumes "user_range a (page_up x)"
  shows "a AND 0xFFF = 0" "\<not> 0x00007FFFFFFFFFFF \<le> a" "\<not> 0x00007FFFFFFFFFFF < a + page_up x" "\<not> a + page_up x < a"
    "va_range a (a + page_up x) = map (\<lambda>j. a + of_nat j * 4096) [0..<unat (page_up x) div 4096]"
    "distinct (va_range a (a + page_up x))" "v \<in> set (va_range a (a + page_up x)) \<Longrightarrow> upage v"
proof -
  have a: "4096 dvd unat a" "unat a + unat (page_up x) < 0x7FFFFFFFFFFF"
    using assms by (simp_all add: user_range_def USER_ADDR_MAX_def)
  have le: "unat a + unat (page_up x) \<le> 2 ^ 47" using a(2) by simp
  note R = call_range [OF a(1) page_up_dvd le]
  show "va_range a (a + page_up x) = map (\<lambda>j. a + of_nat j * 4096) [0..<unat (page_up x) div 4096]" by (rule R(1))
  have "unat (a + page_up x) \<le> 2 ^ 47" using R(2) le by simp
  note P = va_range_props [OF a(1) this]
  show "distinct (va_range a (a + page_up x))" by (rule P(1))
  show "v \<in> set (va_range a (a + page_up x)) \<Longrightarrow> upage v" by (rule P(2))
  show "a AND 0xFFF = 0" using a(1) by (simp add: and_4095_eq_0_iff)
  show "\<not> 0x00007FFFFFFFFFFF \<le> a" "\<not> 0x00007FFFFFFFFFFF < a + page_up x" "\<not> a + page_up x < a"
    using a(2) R(2) by (simp_all add: word_le_nat_alt word_less_nat_alt)
qed

lemma sys_munmap_range:
  assumes ok: "space_ok (mm_vm s) (pml4_phys s)" and r: "user_range a (page_up arg2)"
    and rel: "releasable (mm_vm s) (pml4_phys s) (va_range a (a + page_up arg2))"
  shows "\<exists>vm. sys_munmap a arg2 s = Ret (on_vmas (vma_remove a (page_up arg2))
        ((set_vm vm s)\<lparr>mmap_frees := mmap_free_insert a (page_up arg2) (mmap_frees s)\<rparr>), 0)
    \<and> released (mm_vm s) (pml4_phys s) (is_shared_vma a s) (va_range a (a + page_up arg2)) vm"
  using munmap_loop [OF ok rel, of "is_shared_vma a s"] user_range_facts(1-4) [OF r]
  by (auto simp: sys_munmap_def Let_def)

definition protected_entry :: "u64 \<Rightarrow> u64 \<Rightarrow> u64" where
  "protected_entry flags e = (if flags = 0 then ARCH_PTE_ADDR e else ARCH_PTE_ADDR e OR flags)"

lemma mprotect_loop:
  assumes ok: "space_ok vm0 R" and v: "distinct vs" "\<forall>v\<in>set vs. upage v"
  shows "let vm = fold (\<lambda>va vm. fst (vmm_set_user_prot R va flags vm)) vs vm0 in space_ok vm R
    \<and> vm_pmm vm = vm_pmm vm0 \<and> tables user_paths vm R = tables user_paths vm0 R
    \<and> (\<forall>x. user_va_ok x \<longrightarrow> pte_at vm R x
        = (if on_pages vs x \<and> present (pte_at vm0 R x) then protected_entry flags (pte_at vm0 R x) else pte_at vm0 R x))
    \<and> (\<forall>g. g \<notin> tables user_paths vm0 R \<longrightarrow> vm_mem vm g = vm_mem vm0 g)"
  using v
proof (induction vs rule: rev_induct)
  case Nil
  then show ?case using ok by (simp add: on_pages_def)
next
  case (snoc v vs)
  define vm where "vm = fold (\<lambda>va vm. fst (vmm_set_user_prot R va flags vm)) vs vm0"
  have IH: "space_ok vm R" "vm_pmm vm = vm_pmm vm0" "tables user_paths vm R = tables user_paths vm0 R"
    "\<And>x. user_va_ok x \<Longrightarrow> pte_at vm R x
        = (if on_pages vs x \<and> present (pte_at vm0 R x) then protected_entry flags (pte_at vm0 R x) else pte_at vm0 R x)"
    "\<And>g. g \<notin> tables user_paths vm0 R \<Longrightarrow> vm_mem vm g = vm_mem vm0 g"
    using snoc by (auto simp: vm_def Let_def)
  have va: "user_va_ok v" "\<not> on_pages vs v" using snoc.prems upage_va_ok upage_same by (auto simp: on_pages_def)
  obtain vm' r where s: "vmm_set_user_prot R v flags vm = (vm', r)" by (cases "vmm_set_user_prot R v flags vm")
  have e: "pte_at vm R v = pte_at vm0 R v" using IH(4) va by simp
  have ok': "uspace_ok vm R" using IH(1) by (simp add: space_ok_def)
  have P: "if present (pte_at vm0 R v) then sets_pte user_paths R v (protected_entry flags (pte_at vm0 R v)) vm vm' else vm' = vm"
    using set_user_prot_pte [OF path_set_user ok' va(1) s] e by (auto simp: protected_entry_def split: if_splits)
  have on: "on_pages (vs @ [v]) x \<longleftrightarrow> on_pages vs x \<or> same_page x v" for x by (auto simp: on_pages_def)
  have sp: "pte_at s R x = pte_at s R v" if "same_page x v" for x s
    using that by (simp add: same_page_def pte_at_def split: option.split)
  have "pte_at vm' R x = (if on_pages (vs @ [v]) x \<and> present (pte_at vm0 R x)
      then protected_entry flags (pte_at vm0 R x) else pte_at vm0 R x)" if "user_va_ok x" for x
    using P IH(4) [OF that] that sp [of x] on [of x] by (auto simp: sets_pte_def split: if_splits)
  then show ?case using P IH(1-3,5) s by (auto simp: Let_def vm_def [symmetric] space_ok_def sets_pte_def split: if_splits)
qed

lemma on_vmas_keeps [simp]:
  "mm_mf (on_vmas f s) = mm_mf s" "pml4_phys (on_vmas f s) = pml4_phys s" "mmap_frees (on_vmas f s) = mmap_frees s"
  "mmap_base (on_vmas f s) = mmap_base s"
  by (simp_all add: on_vmas_def split: prod.split)

lemma set_vm_keeps [simp]:
  "mm_vm (set_vm vm s) = vm" "pml4_phys (set_vm vm s) = pml4_phys s" "mmap_frees (set_vm vm s) = mmap_frees s"
  "mmap_base (set_vm vm s) = mmap_base s"
  by (simp_all add: set_vm_def)

lemma bump_base_keeps [simp]:
  "mm_mf (bump_base b x l s) = mm_mf s" "pml4_phys (bump_base b x l s) = pml4_phys s"
  "mmap_frees (bump_base b x l s) = mmap_frees s"
  by (simp_all add: bump_base_def)

text \<open>C17. An anonymous mapping of a non-empty length with a valid protection, at a range that the kernel chooses from the
  free list or at the end of the mappings, in a well-formed address space.  The range lies in user space, its page-table entries are
  empty, and no shared mapping is recorded at its base.  If the call
  returns, either it reports ENOMEM and every page-table entry and every owned frame is as before, or it returns
  the chosen base, the pages of the range and only those have got distinct fresh frames full of
  zeros with the requested protection, and \<^verbatim>\<open>munmap\<close> of the range succeeds and restores every entry and the
  owner count of every frame that was in use.  Not restored are the page tables allocated on the way, which stay, the end of the
  mappings, and the free list, to which the range is added.\<close>

theorem mmap_munmap_roundtrip:
  assumes "space_ok (mm_vm s) (pml4_phys s)" and "page_up arg2 \<noteq> 0"
    and "prot AND NOT 7 = 0" "flags AND MAP_ANONYMOUS \<noteq> 0"
    and "mmap_free_alloc (page_up arg2) (mmap_frees s) = (fl, b)" "base = (if b = 0 then mmap_base s else b)"
      "4096 dvd unat base" "unat base + unat (page_up arg2) \<le> unat USER_ADDR_MAX"
    and "\<forall>v\<in>set (va_range base (base + page_up arg2)). pte_at (mm_vm s) (pml4_phys s) v = 0"
    and "sys_mmap vread 0 arg2 prot flags fd off (k, s) = Ret ((k', s'), r)" "\<not> is_shared_vma base s'"
  shows "r = neg_errno 12 \<and> restored (mm_vm s) (pml4_phys s) (mm_vm s')
    \<or> r = base \<and> (\<exists>F. filled (mm_vm s) (pml4_phys s) (mmap_flags prot) (va_range base (base + page_up arg2)) F (mm_vm s'))
      \<and> (\<exists>s''. sys_munmap base arg2 s' = Ret (s'', 0) \<and> restored (mm_vm s) (pml4_phys s) (mm_vm s'')
           \<and> mmap_frees s'' = mmap_free_insert base (page_up arg2) fl)"
proof -
  let ?vs = "va_range base (base + page_up arg2)" and ?R = "pml4_phys s" and ?fl = "mmap_flags prot"
  note M = sys_mmap_anon [OF assms(1) refl assms(2-9), of vread fd off k]
  have "unat base + unat (page_up arg2) \<noteq> unat USER_ADDR_MAX"
  proof
    assume e: "unat base + unat (page_up arg2) = unat USER_ADDR_MAX"
    have "4096 dvd unat base + unat (page_up arg2)" by (rule dvd_add [OF assms(7) page_up_dvd])
    then show False unfolding e by (simp add: USER_ADDR_MAX_def)
  qed
  then have ur: "user_range base (page_up arg2)" using assms(7,8) by (simp add: user_range_def)
  note R = user_range_facts [OF ur]
  have wf0: "pmm_wf (vm_pmm (mm_vm s))" using assms(1) by (simp add: space_ok_def)
  from M assms(10) consider (err) "r = neg_errno 12" "restored (mm_vm s) ?R (mm_vm s')"
    | (ok) F where "r = base" "filled (mm_vm s) ?R ?fl ?vs F (mm_vm s')" "pml4_phys s' = ?R" "mmap_frees s' = fl"
    by (auto simp: map_oom_def)
  then show ?thesis
  proof cases
    case ok
    have up: "\<forall>v\<in>set ?vs. upage v" using R(7) by blast
    note rel = filled_releasable [OF ok(2) up R(6) mmap_flags_addr(1) wf0]
    have sp: "space_ok (mm_vm s') (pml4_phys s')" using ok by (simp add: filled_def)
    obtain vm where "sys_munmap base arg2 s' = Ret (on_vmas (vma_remove base (page_up arg2))
        ((set_vm vm s')\<lparr>mmap_frees := mmap_free_insert base (page_up arg2) (mmap_frees s')\<rparr>), 0)"
      "released (mm_vm s') ?R False ?vs vm"
      using sys_munmap_range [OF sp ur] rel(1) ok(3) assms(11) by auto
    moreover from filled_restored(1) [OF ok(2) up R(6) assms(9) mmap_flags_addr(1) wf0 this(2)]
    have "restored (mm_vm s) ?R vm" .
    ultimately show ?thesis using ok by auto
  qed simp
qed

text \<open>C33. \<^verbatim>\<open>munmap\<close> of a page-aligned range of user space in a well-formed address space, where the frames behind the range
  are owned, distinct and not page tables, succeeds.  Entries of the range that
  were present are cleared; an entry that \<^verbatim>\<open>mprotect(PROT_NONE)\<close> had made non-present keeps its old value.  Every frame behind the
  range, also behind such an entry, loses one owner, unless a shared mapping is recorded at the base of the range: then no frame does.
  No other entry, owner or frame content outside of the page tables changes, and the range goes to the free list.\<close>

theorem sys_munmap_exact:
  assumes "space_ok (mm_vm s) (pml4_phys s)" "user_range a (page_up arg2)"
    and "releasable (mm_vm s) (pml4_phys s) (va_range a (a + page_up arg2))"
  shows "\<exists>s'. sys_munmap a arg2 s = Ret (s', 0) \<and> space_ok (mm_vm s') (pml4_phys s')
    \<and> mmap_frees s' = mmap_free_insert a (page_up arg2) (mmap_frees s)
    \<and> (\<forall>x. user_va_ok x \<longrightarrow> pte_at (mm_vm s') (pml4_phys s) x
         = (if on_pages (va_range a (a + page_up arg2)) x \<and> present (pte_at (mm_vm s) (pml4_phys s) x)
            then 0 else pte_at (mm_vm s) (pml4_phys s) x))
    \<and> (\<forall>g. pmm_owners (vm_pmm (mm_vm s')) g = pmm_owners (vm_pmm (mm_vm s)) g
         - (if \<not> is_shared_vma a s \<and> g \<in> raw_frames (mm_vm s) (pml4_phys s) (va_range a (a + page_up arg2)) then 1 else 0))
    \<and> (\<forall>g. g \<notin> tables user_paths (mm_vm s) (pml4_phys s) \<longrightarrow> vm_mem (mm_vm s') g = vm_mem (mm_vm s) g)"
  using sys_munmap_range [OF assms] by (fastforce simp: released_def)

text \<open>C34. \<^verbatim>\<open>mprotect\<close> of a user range succeeds and replaces the flags of exactly the present pages of the
  range by the requested ones; frames, owners and contents stay.  In particular a page that an earlier
  \<^verbatim>\<open>PROT_NONE\<close> made non-present stays so, and a copy-on-write page becomes writable while its frame is still shared.\<close>

theorem sys_mprotect_exact:
  assumes "space_ok (mm_vm s) (pml4_phys s)" "user_range a (page_up len)" "page_up len \<noteq> 0"
  shows "\<exists>s'. sys_mprotect a len prot s = (s', 0) \<and> space_ok (mm_vm s') (pml4_phys s')
    \<and> vm_pmm (mm_vm s') = vm_pmm (mm_vm s)
    \<and> (\<forall>x. user_va_ok x \<longrightarrow> pte_at (mm_vm s') (pml4_phys s) x
         = (if on_pages (va_range a (a + page_up len)) x \<and> present (pte_at (mm_vm s) (pml4_phys s) x)
            then protected_entry (mprotect_flags prot) (pte_at (mm_vm s) (pml4_phys s) x)
            else pte_at (mm_vm s) (pml4_phys s) x))
    \<and> (\<forall>g. g \<notin> tables user_paths (mm_vm s) (pml4_phys s) \<longrightarrow> vm_mem (mm_vm s') g = vm_mem (mm_vm s) g)"
proof -
  note R = user_range_facts [OF assms(2)]
  have up: "\<forall>v\<in>set (va_range a (a + page_up len)). upage v" using R(7) by blast
  have "\<not> USER_ADDR_MAX < a + page_up len" using R(3) by (simp add: USER_ADDR_MAX_def)
  then show ?thesis
    using mprotect_loop [OF assms(1) R(6) up, of "mprotect_flags prot"] R(1,4) assms(3)
    by (simp add: sys_mprotect_def Let_def)
qed

section \<open>Mapping a range twice\<close>

lemma vmm_map_user_double:
  assumes "space_ok s R" "upage v" "phys AND 0xFFF = 0" "present (pte_at s R v)"
  shows "vmm_map_user_page R v phys flags s = Panic ''[VMM] FAIL: vmm_map_user_page double-map''"
proof -
  have va: "user_va_ok v" by (rule upage_va_ok [OF assms(2)])
  have al: "v AND 0xFFF = 0" using assms(2) by (simp add: upage_def and_4095_eq_0_iff)
  obtain pt where w: "walk s R (vm_path v) = Some pt"
    using assms(4) by (cases "walk s R (vm_path v)") (simp_all add: pte_at_def)
  have ok: "uspace_ok s R" using assms(1) by (simp add: space_ok_def)
  have nz: "t \<noteq> 0" if "on_paths user_paths q" "walk s R q = Some t" for q t
  proof -
    have "t \<in> tables user_paths s R" using that by (auto simp: tables_def)
    then show ?thesis using ok pa.null_reserved [of "vm_pmm s"] assms(1) by (auto simp: tree_ok_def space_ok_def)
  qed
  have p3: "on_paths user_paths ([pml4_index v, pdpt_index v] @ [pd_index v])"
    using on_paths_full [OF va] by (simp add: vm_path_def)
  have p2: "on_paths user_paths ([pml4_index v] @ [pdpt_index v])" using on_paths_snocD [OF p3] by simp
  have p1: "on_paths user_paths [pml4_index v]" by (rule on_paths_snocD [OF p2])
  have ep: "ensure_path R v VMM_FLAG_USER s = (s, pt)"
    using w nz [OF p1] nz [OF p2] by (auto simp: ensure_path_def ensure_table_phys_def walk_vm_path Let_def split: if_splits)
  have "pt \<noteq> 0" using nz [OF on_paths_full [OF va] w] .
  then have "vmm_map_user_page_nolock R v phys flags s = Panic ''[VMM] FAIL: vmm_map_user_page double-map''"
    using ep w assms(4) by (simp add: map_user_page_nolock_path pte_at_def)
  then show ?thesis using al assms(3) by (simp add: vmm_map_user_page_def PAGE_SIZE_def)
qed

lemma one_page:
  assumes "user_range a 4096"
  shows "va_range a (a + 4096) = [a]" "upage a" "user_range a (page_up 4096)" "page_up 4096 = 4096" "4096 dvd unat a"
    "unat a + unat (4096 :: u64) \<le> unat USER_ADDR_MAX" "a \<noteq> neg_errno 12"
proof -
  show p: "page_up 4096 = 4096" by (simp add: page_up_def)
  show ur: "user_range a (page_up 4096)" using assms by (simp add: p)
  note R = user_range_facts [OF ur]
  show vs: "va_range a (a + 4096) = [a]" using R(5) by (simp add: p)
  show "upage a" using R(7) vs by (simp add: p)
  show "4096 dvd unat a" and le: "unat a + unat (4096 :: u64) \<le> unat USER_ADDR_MAX" using assms by (simp_all add: user_range_def)
  show "a \<noteq> neg_errno 12" using le by (auto simp: neg_errno_def USER_ADDR_MAX_def)
qed

lemma munmap_unmapped:
  assumes ok: "space_ok (mm_vm s) (pml4_phys s)" and a: "user_range a 4096" and z: "pte_at (mm_vm s) (pml4_phys s) a = 0"
  shows "\<exists>s'. sys_munmap a 4096 s = Ret (s', 0) \<and> mm_vm s' = mm_vm s \<and> pml4_phys s' = pml4_phys s
    \<and> mmap_frees s' = mmap_free_insert a 4096 (mmap_frees s)"
proof -
  note P = one_page [OF a]
  note R = user_range_facts [OF P(3)]
  have "uspace_ok (mm_vm s) (pml4_phys s)" using ok by (simp add: space_ok_def)
  from phys_of_user_raw_pte [OF this upage_va_ok [OF P(2)]]
  have "munmap_one (pml4_phys s) sh a (mm_vm s) = Ret (mm_vm s, 0)" for sh
    using z by (simp add: munmap_one_def ARCH_PTE_ADDR_def)
  then show ?thesis using R(1-4) P(1,4) by (simp add: sys_munmap_def Let_def)
qed

text \<open>With four free frames a page can be mapped.\<close>

lemma sys_mmap_one_page:
  assumes ok: "space_ok (mm_vm s) (pml4_phys s)" and args: "prot AND NOT 7 = 0" "flags AND MAP_ANONYMOUS \<noteq> 0"
    and base: "mmap_free_alloc 4096 (mmap_frees s) = (fl, b)" "a = (if b = 0 then mmap_base s else b)" "user_range a 4096"
    and z: "pte_at (mm_vm s) (pml4_phys s) a = 0" and m: "4 \<le> card (pmm_avail (vm_pmm (mm_vm s)))"
  shows "\<exists>s' f. sys_mmap vread 0 4096 prot flags fd off (k, s) = Ret ((k, s'), a)
    \<and> adds_page (mm_vm s) (pml4_phys s) a (f OR mmap_flags prot OR VMM_FLAG_PRESENT) f (mm_vm s')
    \<and> pml4_phys s' = pml4_phys s \<and> mmap_frees s' = fl \<and> mm_vp s' = snd (vma_insert a 4096 (ucast (prot AND 7)) VMA_MMAP (mm_vmas s, mm_vp s))"
proof -
  note P = one_page [OF base(3)]
  have np: "\<not> present (pte_at (mm_vm s) (pml4_phys s) a)" using z by simp
  obtain vm f where f: "map_fresh (pml4_phys s) (mmap_flags prot) a (mm_vm s) = Ret (vm, 0)"
    "adds_page (mm_vm s) (pml4_phys s) a (f OR mmap_flags prot OR VMM_FLAG_PRESENT) f vm"
    by (rule map_fresh_cases [OF ok P(2) np, of "mmap_flags prot"]) (use m in auto)
  have "sys_mmap vread 0 4096 prot flags fd off (k, s) =
      Ret ((k, on_vmas (vma_insert a 4096 (ucast (prot AND 7)) VMA_MMAP) (bump_base False a 4096 (set_vm vm (s\<lparr>mmap_frees := fl\<rparr>)))), a)"
    using sys_mmap_anon_unfold(1) [OF P(4) [symmetric] _ args base(1,2) P(5,6), of vread fd off k] P(1) f(1)
    by (simp add: mmap_fill_one_def)
  then show ?thesis using f(2) by (auto simp: on_vmas_def bump_base_def set_vm_def split: prod.split)
qed

lemma free_twice:
  assumes "a \<noteq> 0"
  shows "mmap_free_insert a 4096 (mmap_free_insert a 4096 []) = [\<lparr>mfr_base = a, mfr_len = 4096\<rparr>, \<lparr>mfr_base = a, mfr_len = 4096\<rparr>]"
    "mmap_free_alloc 4096 [\<lparr>mfr_base = a, mfr_len = 4096\<rparr>, \<lparr>mfr_base = a, mfr_len = 4096\<rparr>] = ([\<lparr>mfr_base = a, mfr_len = 4096\<rparr>], a)"
    "mmap_free_alloc 4096 [\<lparr>mfr_base = a, mfr_len = 4096\<rparr>] = ([], a)"
  by (simp_all add: mmap_free_insert_def mmap_free_alloc_def MMAP_FREE_MAX_def swap_remove_def)

text \<open>C35. Unmapping the same unmapped page twice records it twice in the free list.  With five free frames, the
  next mapping of a page gets it and the one after that gets it again: the page tables
  refuse the second entry and the kernel panics.  Four calls that need no capability are enough.\<close>

theorem munmap_twice_panics:
  assumes "space_ok (mm_vm s) (pml4_phys s)" "user_range a 4096" "a \<noteq> 0" "pte_at (mm_vm s) (pml4_phys s) a = 0"
    and "mmap_frees s = []" "prot AND NOT 7 = 0" "flags AND MAP_ANONYMOUS \<noteq> 0" "5 \<le> card (pmm_avail (vm_pmm (mm_vm s)))"
  shows "\<exists>s1 s2 s3. sys_munmap a 4096 s = Ret (s1, 0) \<and> sys_munmap a 4096 s1 = Ret (s2, 0)
    \<and> sys_mmap vread 0 4096 prot flags fd off (k, s2) = Ret ((k, s3), a)
    \<and> sys_mmap vread 0 4096 prot flags fd off (k, s3) = Panic ''[VMM] FAIL: vmm_map_user_page double-map''"
proof -
  note P = one_page [OF assms(2)]
  obtain s1 where s1: "sys_munmap a 4096 s = Ret (s1, 0)" "mm_vm s1 = mm_vm s" "pml4_phys s1 = pml4_phys s"
    "mmap_frees s1 = mmap_free_insert a 4096 []" using munmap_unmapped [OF assms(1,2,4)] assms(5) by auto
  obtain s2 where s2: "sys_munmap a 4096 s1 = Ret (s2, 0)" "mm_vm s2 = mm_vm s" "pml4_phys s2 = pml4_phys s"
    "mmap_frees s2 = mmap_free_insert a 4096 (mmap_free_insert a 4096 [])"
    using munmap_unmapped [of s1 a] s1 assms(1,2,4) by auto
  note fl = free_twice [OF assms(3)]
  obtain s3 f where s3: "sys_mmap vread 0 4096 prot flags fd off (k, s2) = Ret ((k, s3), a)"
    "adds_page (mm_vm s) (pml4_phys s) a (f OR mmap_flags prot OR VMM_FLAG_PRESENT) f (mm_vm s3)"
    "pml4_phys s3 = pml4_phys s" "mmap_frees s3 = [\<lparr>mfr_base = a, mfr_len = 4096\<rparr>]"
    using sys_mmap_one_page [of s2 prot flags "[\<lparr>mfr_base = a, mfr_len = 4096\<rparr>]" a a vread fd off k] assms s2 fl by auto
  have sp: "uspace_ok (mm_vm s3) (pml4_phys s)" "pmm_wf (vm_pmm (mm_vm s3))" using s3(2) by (simp_all add: adds_page_def space_ok_def)
  have pr: "present (pte_at (mm_vm s3) (pml4_phys s) a)"
    using s3(2) upage_va_ok [OF P(2)] pte_addr_flags(2) [OF _ mmap_flags_addr(1)] by (auto simp: adds_page_def same_page_def)
  have "pmm_avail (vm_pmm (mm_vm s3)) \<noteq> {}" using s3(2) assms(8) by (auto simp: adds_page_def)
  then obtain q g where al: "pmm_alloc_page (vm_pmm (mm_vm s3)) = (q, g)" "g \<noteq> 0"
    using pa.alloc_oom [OF sp(2)] by (metis prod.exhaust)
  note Z = alloc_zeroed [OF sp al]
  have "map_fresh (pml4_phys s) (mmap_flags prot) a (mm_vm s3) = Panic ''[VMM] FAIL: vmm_map_user_page double-map''"
    using vmm_map_user_double [OF _ P(2) Z(3)] Z(1,2) Z(5) [OF upage_va_ok [OF P(2)]] pr al
    by (simp add: map_fresh_def space_ok_def)
  then have "sys_mmap vread 0 4096 prot flags fd off (k, s3) = Panic ''[VMM] FAIL: vmm_map_user_page double-map''"
    using sys_mmap_anon_unfold(1) [OF P(4) [symmetric] _ assms(6,7), of s3 "[]" a a] fl(3) s3(3,4) P assms(3)
    by (simp add: mmap_fill_one_def)
  then show ?thesis using s1(1) s2(1) s3(1) by blast
qed

section \<open>Witnesses\<close>

definition demo_mm :: "u64 \<Rightarrow> u8 \<Rightarrow> mm" where
  "demo_mm e n = \<lparr>pml4_phys = 0x5000, mm_fds = (\<lambda>_. \<lparr>vf_ops = 0, vf_priv = 0, vf_offset = 0, vf_size = 0, vf_flags = 0\<rparr>),
     mm_caps = [], brk = 0x400000, brk_base = 0x400000, mmap_base = 0x10000, mmap_frees = [],
     mm_vp = \<lparr>vma_table = 0, vma_count = 0, vma_capacity = 0, vma_refcount = 0\<rparr>, mm_vmas = (\<lambda>_ _. \<lparr>ve_base = 0, ve_len = 0, ve_prot = 0, ve_type = 0\<rparr>),
     mm_mf = \<lparr>s_memfds = (\<lambda>_. (fresh_memfd [])\<lparr>mf_in_use := False\<rparr>), mf_vm = demo_space e n\<rparr>\<rparr>"

lemma demo_mm_fields [simp]:
  "mm_vm (demo_mm e n) = demo_space e n" "pml4_phys (demo_mm e n) = 0x5000" "mmap_frees (demo_mm e n) = []"
  "mmap_base (demo_mm e n) = 0x10000" "\<not> is_shared_vma a (demo_mm e n)"
  by (simp_all add: demo_mm_def is_shared_vma_def)

lemma demo_mm_ok: "space_ok (demo_space e n) 0x5000"
  using demo_spaces(1) demo_pmm_wf by (simp add: space_ok_def)

lemma demo_mm_pages:
  "va_range 0x1000 0x2000 = [0x1000]" "va_range 0x10000 0x11000 = [0x10000]" "page_up 4096 = 4096"
  "user_range 0x1000 4096" "user_range 0x10000 4096" "upage 0x1000" "upage 0x10000"
  "pte_at (demo_space e n) 0x5000 0x10000 = 0"
  by (simp_all add: va_range_def page_up_def user_range_def USER_ADDR_MAX_def upage_def pte_at_def walk_vm_path Let_def
      pml4_index_def pdpt_index_def pd_index_def pt_index_def demo_rd demo_addr)

lemma demo_mm_free: "5 \<le> card (pmm_avail (vm_pmm (demo_space e n)))"
proof -
  have "{0xB000, 0xC000, 0xD000, 0xE000, 0xF000 :: u64} \<subseteq> pmm_avail (vm_pmm (demo_space e n))"
    by (simp add: pmm_avail_def managed_def page_used_def demo_space_def PAGE_SIZE_def PMM_MAX_PAGES_def)
  from card_mono [OF finite_pmm_avail this] show ?thesis by simp
qed

theorem mmap_munmap_roundtrip_witness:
  "\<exists>s' s''. sys_mmap (\<lambda>_. None) 0 4096 3 0x22 (-1) 0 ((), demo_mm 0x9007 1) = Ret (((), s'), 0x10000)
    \<and> sys_munmap 0x10000 4096 s' = Ret (s'', 0) \<and> restored demo_vm 0x5000 (mm_vm s'')"
proof -
  have fl: "mmap_free_alloc 4096 [] = ([], 0)" by (simp add: mmap_free_alloc_def)
  have vp: "snd (vma_insert a l pr ty (mm_vmas (demo_mm e n), mm_vp (demo_mm e n))) = mm_vp (demo_mm e n)" for a l pr ty e n
    by (simp add: demo_mm_def vma_insert_def through_table_def)
  have "4 \<le> card (pmm_avail (vm_pmm demo_vm))" using demo_mm_free [of "0x9007" 1] by simp
  then obtain s' where s': "sys_mmap (\<lambda>_. None) 0 4096 3 0x22 (-1) 0 ((), demo_mm 0x9007 1) = Ret (((), s'), 0x10000)"
    "mm_vp s' = mm_vp (demo_mm 0x9007 1)"
    using sys_mmap_one_page [of "demo_mm 0x9007 1" 3 "0x22" "[]" 0 "0x10000" "\<lambda>_. None" "-1" 0 "()"] fl demo_mm_ok vp
    by (auto simp: demo_mm_pages MAP_ANONYMOUS_def)
  have ns: "\<not> is_shared_vma 0x10000 s'" using s'(2) by (simp add: is_shared_vma_def demo_mm_def)
  have ne: "(0x10000 :: u64) \<noteq> neg_errno 12" by (simp add: neg_errno_def)
  show ?thesis
    using mmap_munmap_roundtrip [where base = "0x10000" and fl = "[]" and b = 0, OF _ _ _ _ _ _ _ _ _ s'(1) ns] demo_mm_ok ne s'(1)
    by (auto simp: demo_mm_pages MAP_ANONYMOUS_def fl USER_ADDR_MAX_def)
qed

theorem sys_munmap_exact_witness:
  "\<exists>s'. sys_munmap 0x1000 4096 (demo_mm 0x9000 1) = Ret (s', 0) \<and> pte_at (mm_vm s') 0x5000 0x1000 = 0x9000
    \<and> pmm_owners (vm_pmm (mm_vm s')) 0x9000 = 0"
proof -
  have t: "tables user_paths (demo_space 0x9000 1) 0x5000 = {0x5000, 0x6000, 0x7000, 0x8000}" by (rule demo_tables)
  have e: "pte_at (demo_space 0x9000 1) 0x5000 0x1000 = 0x9000" by (rule demo_pte)
  have "releasable (demo_space 0x9000 1) 0x5000 [0x1000]"
    by (auto simp: releasable_def demo_mm_pages e t demo_owners ARCH_PTE_ADDR_def inj_on_def)
  moreover have "raw_frames (demo_space 0x9000 1) 0x5000 [0x1000] = {0x9000}" by (simp add: raw_frames_def e ARCH_PTE_ADDR_def)
  ultimately show ?thesis
    using sys_munmap_exact [of "demo_mm 0x9000 1" "0x1000" 4096] demo_mm_ok demo_pte(2)
    by (auto simp: demo_mm_pages e demo_owners present_def VMM_FLAG_PRESENT_def)
qed

text \<open>A copy-on-write page of a frame with two owners becomes writable.\<close>

theorem sys_mprotect_exact_witness:
  "\<exists>s'. sys_mprotect 0x1000 4096 3 (demo_mm 0x9205 2) = (s', 0) \<and> pte_at (mm_vm s') 0x5000 0x1000 = 0x8000000000009007
    \<and> pmm_owners (vm_pmm (mm_vm s')) 0x9000 = 2"
proof -
  have e: "pte_at (demo_space 0x9205 2) 0x5000 0x1000 = 0x9205" by (rule demo_pte)
  have "protected_entry (mprotect_flags 3) 0x9205 = 0x8000000000009007"
    by (simp add: protected_entry_def mprotect_flags_def mmap_flags_def Let_def ARCH_PTE_ADDR_def VMM_FLAG_PRESENT_def
        VMM_FLAG_USER_def VMM_FLAG_NX_def VMM_FLAG_WRITABLE_def PROT_WRITE_def PROT_EXEC_def)
  moreover have "on_pages [0x1000] 0x1000" by (simp add: on_pages_def same_page_def)
  ultimately show ?thesis
    using sys_mprotect_exact [of "demo_mm 0x9205 2" "0x1000" 4096 3] demo_mm_ok demo_pte(2)
    by (auto simp: demo_mm_pages e demo_owners present_def VMM_FLAG_PRESENT_def)
qed

theorem munmap_twice_panics_witness:
  "\<exists>s1 s2 s3. sys_munmap 0x10000 4096 (demo_mm 0x9007 1) = Ret (s1, 0) \<and> sys_munmap 0x10000 4096 s1 = Ret (s2, 0)
    \<and> sys_mmap (\<lambda>_. None) 0 4096 3 0x22 (-1) 0 ((), s2) = Ret (((), s3), 0x10000)
    \<and> sys_mmap (\<lambda>_. None) 0 4096 3 0x22 (-1) 0 ((), s3) = Panic ''[VMM] FAIL: vmm_map_user_page double-map''"
  by (rule munmap_twice_panics) (simp_all add: demo_mm_ok demo_mm_pages demo_mm_free MAP_ANONYMOUS_def)

end
