(* ===== verification/Sched.thy ===== *)
theory Sched
  imports Cap_Syscalls
begin

text \<open>
  The scheduler, \<^verbatim>\<open>kernel/sched/sched.c\<close>.  Tasks live in a store indexed by address.  Two lists are threaded through
  them: the circular list of all tasks (\<open>t_next\<close>) and the doubly linked list of running ones (\<open>next_run\<close>, \<open>prev_run\<close>),
  anchored at a sentinel.  Every operation is a function on this store; the task that
  is switched to is the new value of \<open>current\<close>.  The lock is part of the state, so that taking it twice shows.
\<close>

section \<open>Tasks\<close>

datatype task_state = TASK_RUNNING | TASK_BLOCKED | TASK_ZOMBIE | TASK_STOPPED

record k_sigaction =
  sa_handler :: u64
  sa_flags :: u64
  sa_restorer :: u64
  sa_mask :: u64

text \<open>\<^verbatim>\<open>aegis_task_t\<close> and, for user processes, the fields of \<^verbatim>\<open>aegis_process_t\<close> that scheduling and signals use.\<close>

record task =
  t_tid :: u32
  t_is_user :: bool
  t_state :: task_state
  waiting_for :: u32
  clear_child_tid :: u64
  sleep_deadline :: u64
  t_next :: u64
  next_run :: u64
  prev_run :: u64
  t_pid :: u32
  t_tgid :: u32
  t_ppid :: u32
  t_pgid :: u32
  t_sid :: u32
  stop_signum :: u32
  exit_status :: u64
  pending_signals :: u64
  signal_mask :: u64
  sigactions :: "nat \<Rightarrow> k_sigaction"
  t_caps :: "cap_slot list"
  t_fd_table :: u64

record sched =
  tk :: "u64 \<Rightarrow> task"
  current :: u64
  s_next_tid :: u32
  s_task_count :: u32
  s_sched_ready :: bool
  sched_lock :: bool

definition s_run_sentinel :: u64 where "s_run_sentinel = 1"

definition upd_task :: "u64 \<Rightarrow> (task \<Rightarrow> task) \<Rightarrow> sched \<Rightarrow> sched" where
  "upd_task a f s = s\<lparr>tk := (tk s)(a := f (tk s a))\<rparr>"

text \<open>The ticket lock is not recursive: a processor that takes it while holding it waits for itself.\<close>

definition lock_sched :: "sched \<Rightarrow> sched kres" where
  "lock_sched s = (if sched_lock s then Panic ''sched_lock: deadlock'' else Ret (s\<lparr>sched_lock := True\<rparr>))"

definition unlock_sched :: "sched \<Rightarrow> sched" where
  "unlock_sched s = s\<lparr>sched_lock := False\<rparr>"

section \<open>The run list\<close>

definition run_list_insert_locked :: "u64 \<Rightarrow> sched \<Rightarrow> sched" where
  "run_list_insert_locked t s =
    (if next_run (tk s t) \<noteq> 0 then s
     else let tail = prev_run (tk s s_run_sentinel);
              s1 = upd_task t (\<lambda>x. x\<lparr>prev_run := tail, next_run := s_run_sentinel\<rparr>) s;
              s2 = upd_task tail (\<lambda>x. x\<lparr>next_run := t\<rparr>) s1 in
       upd_task s_run_sentinel (\<lambda>x. x\<lparr>prev_run := t\<rparr>) s2)"

definition run_list_remove_locked :: "u64 \<Rightarrow> sched \<Rightarrow> sched" where
  "run_list_remove_locked t s =
    (if next_run (tk s t) = 0 then s
     else let s1 = upd_task (prev_run (tk s t)) (\<lambda>x. x\<lparr>next_run := next_run (tk s t)\<rparr>) s;
              s2 = upd_task (next_run (tk s1 t)) (\<lambda>x. x\<lparr>prev_run := prev_run (tk s1 t)\<rparr>) s1 in
       upd_task t (\<lambda>x. x\<lparr>next_run := 0, prev_run := 0\<rparr>) s2)"

text \<open>0 is the null pointer.\<close>

definition run_list_next_locked :: "u64 \<Rightarrow> sched \<Rightarrow> u64" where
  "run_list_next_locked cur s =
    (let start = (if cur \<noteq> 0 \<and> next_run (tk s cur) \<noteq> 0 then next_run (tk s cur) else next_run (tk s s_run_sentinel));
         start1 = (if start = s_run_sentinel then next_run (tk s s_run_sentinel) else start) in
     if start1 = s_run_sentinel then 0 else start1)"

section \<open>Operations\<close>

definition sched_init :: "sched \<Rightarrow> sched" where
  "sched_init s = upd_task s_run_sentinel (\<lambda>x. x\<lparr>next_run := s_run_sentinel, prev_run := s_run_sentinel\<rparr>)
     (s\<lparr>current := 0, s_next_tid := 0, s_task_count := 0\<rparr>)"

text \<open>The linking of a new task into the list of all tasks.\<close>

definition link_task :: "u64 \<Rightarrow> sched \<Rightarrow> sched" where
  "link_task t s =
    (if current s = 0 then (upd_task t (\<lambda>x. x\<lparr>t_next := t\<rparr>) s)\<lparr>current := t\<rparr>
     else let s1 = upd_task t (\<lambda>x. x\<lparr>t_next := t_next (tk s (current s))\<rparr>) s in
       upd_task (current s1) (\<lambda>x. x\<lparr>t_next := t\<rparr>) s1)"

text \<open>\<open>t\<close> is the page of the new control block; the stack is not modelled.\<close>

definition sched_spawn :: "u64 \<Rightarrow> sched \<Rightarrow> sched kres" where
  "sched_spawn t s = (case lock_sched s of
     Panic m \<Rightarrow> Panic m
   | Ret s0 \<Rightarrow>
       let s1 = upd_task t (\<lambda>x. x\<lparr>t_is_user := False, t_tid := s_next_tid s0, t_state := TASK_RUNNING, waiting_for := 0,
                  next_run := 0, prev_run := 0\<rparr>) (s0\<lparr>s_next_tid := s_next_tid s0 + 1\<rparr>);
           s2 = run_list_insert_locked t (link_task t s1) in
       Ret (unlock_sched (s2\<lparr>s_task_count := s_task_count s2 + 1\<rparr>)))"

definition sched_add :: "u64 \<Rightarrow> sched \<Rightarrow> sched kres" where
  "sched_add t s = (case lock_sched s of
     Panic m \<Rightarrow> Panic m
   | Ret s0 \<Rightarrow>
       let s1 = link_task t (upd_task t (\<lambda>x. x\<lparr>next_run := 0, prev_run := 0\<rparr>) s0);
           s2 = (if t_state (tk s1 t) = TASK_RUNNING then run_list_insert_locked t s1 else s1) in
       Ret (unlock_sched (s2\<lparr>s_task_count := s_task_count s2 + 1\<rparr>)))"

text \<open>Leaving the processor in state \<open>st\<close>: the common part of \<^verbatim>\<open>sched_block\<close> and of a self-stop.\<close>

definition leave_cpu :: "task_state \<Rightarrow> string \<Rightarrow> sched \<Rightarrow> sched kres" where
  "leave_cpu st msg s0 =
    (let old = current s0; next = next_run (tk s0 old);
         s1 = run_list_remove_locked old (upd_task old (\<lambda>x. x\<lparr>t_state := st\<rparr>) s0);
         next1 = (if next = 0 \<or> next = s_run_sentinel then next_run (tk s1 s_run_sentinel) else next) in
     if next1 = s_run_sentinel then Panic msg
     else Ret (unlock_sched (s1\<lparr>current := next1\<rparr>)))"

definition sched_block :: "sched \<Rightarrow> sched kres" where
  "sched_block s = (case lock_sched s of
     Panic m \<Rightarrow> Panic m
   | Ret s0 \<Rightarrow> leave_cpu TASK_BLOCKED ''[SCHED] FAIL: sched_block with empty run list'' s0)"

definition sched_wake_locked :: "u64 \<Rightarrow> sched \<Rightarrow> sched" where
  "sched_wake_locked t s = run_list_insert_locked t (upd_task t (\<lambda>x. x\<lparr>t_state := TASK_RUNNING\<rparr>) s)"

definition sched_wake :: "u64 \<Rightarrow> sched \<Rightarrow> sched kres" where
  "sched_wake t s = (case lock_sched s of Panic m \<Rightarrow> Panic m | Ret s0 \<Rightarrow> Ret (unlock_sched (sched_wake_locked t s0)))"

definition sched_stop :: "u64 \<Rightarrow> sched \<Rightarrow> sched kres" where
  "sched_stop t s = (case lock_sched s of
     Panic m \<Rightarrow> Panic m
   | Ret s0 \<Rightarrow>
       if t \<noteq> current s0
       then Ret (unlock_sched (run_list_remove_locked t (upd_task t (\<lambda>x. x\<lparr>t_state := TASK_STOPPED\<rparr>) s0)))
       else leave_cpu TASK_STOPPED ''[SCHED] FAIL: sched_stop with empty run list'' s0)"

definition sched_resume :: "u64 \<Rightarrow> sched \<Rightarrow> sched kres" where
  "sched_resume t s = (case lock_sched s of
     Panic m \<Rightarrow> Panic m
   | Ret s0 \<Rightarrow> Ret (unlock_sched (run_list_insert_locked t (upd_task t (\<lambda>x. x\<lparr>t_state := TASK_RUNNING\<rparr>) s0))))"

definition sched_yield_to_next :: "sched \<Rightarrow> sched kres" where
  "sched_yield_to_next s = (case lock_sched s of
     Panic m \<Rightarrow> Panic m
   | Ret s0 \<Rightarrow>
       let next = run_list_next_locked (current s0) s0 in
       if next = 0 then Panic ''[SCHED] FAIL: sched_yield_to_next with empty run list''
       else if next = current s0 then Ret (unlock_sched s0)
       else Ret (unlock_sched (s0\<lparr>current := next\<rparr>)))"

definition sched_start :: "sched \<Rightarrow> sched kres" where
  "sched_start s = (if current s = 0 then Panic ''[SCHED] FAIL: sched_start called with no tasks''
     else Ret (s\<lparr>s_sched_ready := True\<rparr>))"

text \<open>A \<^verbatim>\<open>do\<close>-\<^verbatim>\<open>while\<close> loop over the list of all tasks, from \<open>t\<close> until the successor is \<open>stop\<close>.  The body returns the
  new state and whether the loop is left.  \<open>None\<close> is a loop that does not end.\<close>

partial_function (option) walk_tasks :: "(u64 \<Rightarrow> sched \<Rightarrow> (sched \<times> bool) kres) \<Rightarrow> u64 \<Rightarrow> u64 \<Rightarrow> sched \<Rightarrow> sched kres option" where
  "walk_tasks body stop t s =
    (case body t s of
       Panic m \<Rightarrow> Some (Panic m)
     | Ret (s1, exit) \<Rightarrow>
         if exit \<or> t_next (tk s1 t) = stop then Some (Ret s1) else walk_tasks body stop (t_next (tk s1 t)) s1)"

definition wake_sleeper :: "u64 \<Rightarrow> u64 \<Rightarrow> sched \<Rightarrow> (sched \<times> bool) kres" where
  "wake_sleeper now t s =
    (if t_state (tk s t) = TASK_BLOCKED \<and> sleep_deadline (tk s t) \<noteq> 0 \<and> sleep_deadline (tk s t) \<le> now
     then Ret (run_list_insert_locked t (upd_task t (\<lambda>x. x\<lparr>sleep_deadline := 0, t_state := TASK_RUNNING\<rparr>) s), False)
     else Ret (s, False))"

text \<open>The timer interrupt; \<open>None\<close> for a walk that does not end.\<close>

definition sched_tick :: "u64 \<Rightarrow> sched \<Rightarrow> sched kres option" where
  "sched_tick now s =
    (if \<not> s_sched_ready s \<or> current s = 0 then Some (Ret s)
     else case lock_sched s of
       Panic m \<Rightarrow> Some (Panic m)
     | Ret s0 \<Rightarrow>
         (case walk_tasks (wake_sleeper now) (current s0) (t_next (tk s0 (current s0))) s0 of
            None \<Rightarrow> None
          | Some (Panic m) \<Rightarrow> Some (Panic m)
          | Some (Ret s1) \<Rightarrow>
              let next = run_list_next_locked (current s1) s1 in
              Some (Ret (unlock_sched (if next = 0 \<or> next = current s1 then s1 else s1\<lparr>current := next\<rparr>)))))"

end
