(* ===== verification/Signal.thy ===== *)
theory Signal
  imports Sched
begin

text \<open>
  Signals, \<^verbatim>\<open>kernel/signal/signal.c\<close> and \<^verbatim>\<open>kernel/syscall/sys_signal.c\<close>, on x86-64: sending by process and by group,
  delivery on the interrupt and on the system call return path, return from a handler, and the system calls.  User memory
  is a function on byte addresses; the signal frame is written to it and read back byte by byte.
\<close>

section \<open>Bytes and words\<close>

type_synonym umem = "u64 \<Rightarrow> u8"

definition word_byte :: "u64 \<Rightarrow> nat \<Rightarrow> u8" where
  "word_byte w j = ucast (drop_bit (8 * j) w)"

definition put_words :: "u64 \<Rightarrow> u64 list \<Rightarrow> umem \<Rightarrow> umem" where
  "put_words a ws um = (\<lambda>x. let d = unat (x - a) in if d < 8 * length ws then word_byte (ws ! (d div 8)) (d mod 8) else um x)"

definition get_word :: "u64 \<Rightarrow> umem \<Rightarrow> u64" where
  "get_word a um = foldr (\<lambda>j w. push_bit (8 * j) (ucast (um (a + of_nat j))) OR w) [0..<8] 0"

definition get_words :: "u64 \<Rightarrow> nat \<Rightarrow> umem \<Rightarrow> u64 list" where
  "get_words a n um = map (\<lambda>i. get_word (a + of_nat (8 * i)) um) [0..<n]"

section \<open>Sending\<close>

definition SIGKILL :: nat where "SIGKILL = 9"
definition SIGCHLD :: nat where "SIGCHLD = 17"
definition SIGCONT :: nat where "SIGCONT = 18"
definition SIGSTOP :: nat where "SIGSTOP = 19"
definition SIGTSTP :: nat where "SIGTSTP = 20"
definition SIGTTIN :: nat where "SIGTTIN = 21"
definition SIGTTOU :: nat where "SIGTTOU = 22"

definition SIG_DFL :: u64 where "SIG_DFL = 0"
definition SIG_IGN :: u64 where "SIG_IGN = 1"

definition sigbit :: "nat \<Rightarrow> u64" where "sigbit n = push_bit n 1"

definition send_pid_body :: "(u64 \<Rightarrow> sched \<Rightarrow> sched kres) \<Rightarrow> u32 \<Rightarrow> nat \<Rightarrow> u64 \<Rightarrow> sched \<Rightarrow> (sched \<times> bool) kres" where
  "send_pid_body wake pid signum t s =
    (if t_is_user (tk s t) \<and> t_pid (tk s t) = pid
     then let s1 = upd_task t (\<lambda>x. x\<lparr>pending_signals := pending_signals x OR sigbit signum\<rparr>) s in
       if t_state (tk s1 t) = TASK_BLOCKED
       then case wake t s1 of Panic m \<Rightarrow> Panic m | Ret s2 \<Rightarrow> Ret (s2, True)
       else Ret (s1, True)
     else Ret (s, False))"

definition signal_send_pid :: "u32 \<Rightarrow> int \<Rightarrow> sched \<Rightarrow> sched kres option" where
  "signal_send_pid pid signum s =
    (if pid = 0 \<or> signum \<le> 0 \<or> 64 \<le> signum \<or> current s = 0 then Some (Ret s)
     else walk_tasks (send_pid_body sched_wake pid (nat signum)) (current s) (current s) s)"

definition signal_send_pid_locked :: "u32 \<Rightarrow> int \<Rightarrow> sched \<Rightarrow> sched kres option" where
  "signal_send_pid_locked pid signum s =
    (if pid = 0 \<or> signum \<le> 0 \<or> 64 \<le> signum \<or> current s = 0 then Some (Ret s)
     else walk_tasks (send_pid_body (\<lambda>t s. Ret (sched_wake_locked t s)) pid (nat signum)) (current s) (current s) s)"

definition send_pgrp_body :: "u32 \<Rightarrow> nat \<Rightarrow> u64 \<Rightarrow> sched \<Rightarrow> (sched \<times> bool) kres" where
  "send_pgrp_body pgid signum t s =
    (if t_is_user (tk s t) \<and> t_pgid (tk s t) = pgid \<and> t_pid (tk s t) \<noteq> 1
     then let s1 = upd_task t (\<lambda>x. x\<lparr>pending_signals := pending_signals x OR sigbit signum\<rparr>) s;
              r = (if t_state (tk s1 t) = TASK_STOPPED then sched_resume t s1
                   else if t_state (tk s1 t) = TASK_BLOCKED then sched_wake t s1 else Ret s1) in
       case r of Panic m \<Rightarrow> Panic m | Ret s2 \<Rightarrow> Ret (s2, False)
     else Ret (s, False))"

definition signal_send_pgrp :: "u32 \<Rightarrow> int \<Rightarrow> sched \<Rightarrow> sched kres option" where
  "signal_send_pgrp pgid signum s =
    (if pgid = 0 \<or> signum \<le> 0 \<or> 64 \<le> signum \<or> current s = 0 then Some (Ret s)
     else walk_tasks (send_pgrp_body pgid (nat signum)) (current s) (current s) s)"

definition signal_check_pending :: "sched \<Rightarrow> bool" where
  "signal_check_pending s \<longleftrightarrow> current s \<noteq> 0 \<and> t_is_user (tk s (current s))
     \<and> pending_signals (tk s (current s)) AND NOT (signal_mask (tk s (current s))) \<noteq> 0"

section \<open>Choosing what to deliver\<close>

definition ctzll :: "u64 \<Rightarrow> nat" where
  "ctzll w = (case find (bit w) [0..<64] of None \<Rightarrow> 64 | Some n \<Rightarrow> n)"

datatype sig_action = Sig_none | Sig_ignored | Sig_stopped | Sig_exit | Sig_handler

definition upd_current :: "(task \<Rightarrow> task) \<Rightarrow> sched \<Rightarrow> sched" where
  "upd_current f s = upd_task (current s) f s"

text \<open>What \<^verbatim>\<open>signal_deliver\<close> and \<^verbatim>\<open>signal_deliver_sysret\<close> do up to the signal frame: the pending signal with the lowest
  number is taken, and ignored, stops the process, ends it or goes to a handler.\<close>

definition signal_pick :: "sched \<Rightarrow> (sched \<times> sig_action \<times> nat) kres option" where
  "signal_pick s =
    (let p = tk s (current s); deliverable = pending_signals p AND NOT (signal_mask p) in
     if \<not> t_is_user p \<or> deliverable = 0 then Some (Ret (s, Sig_none, 0))
     else let signum = ctzll deliverable;
              s1 = upd_current (\<lambda>x. x\<lparr>pending_signals := pending_signals x AND NOT (sigbit signum)\<rparr>) s;
              sa = sigactions p signum in
     if sa_handler sa = SIG_DFL then
       (if signum = SIGCHLD \<or> signum = SIGCONT then Some (Ret (s1, Sig_ignored, signum))
        else if signum = SIGTSTP \<or> signum = SIGSTOP \<or> signum = SIGTTIN \<or> signum = SIGTTOU then
          (case signal_send_pid (t_ppid p) (int SIGCHLD) (upd_current (\<lambda>x. x\<lparr>stop_signum := of_nat signum\<rparr>) s1) of
             None \<Rightarrow> None
           | Some (Panic m) \<Rightarrow> Some (Panic m)
           | Some (Ret s2) \<Rightarrow>
               (case sched_stop (current s2) s2 of
                  Panic m \<Rightarrow> Some (Panic m) | Ret s3 \<Rightarrow> Some (Ret (s3, Sig_stopped, signum))))
        else Some (Ret (s1, Sig_exit, signum)))
     else if sa_handler sa = SIG_IGN then Some (Ret (s1, Sig_ignored, signum))
     else if \<not> user_ptr_valid (sa_handler sa) 1 then Some (Ret (s1, Sig_exit, signum))
     else if sa_restorer sa \<noteq> 0 \<and> \<not> user_ptr_valid (sa_restorer sa) 1 then Some (Ret (s1, Sig_exit, signum))
     else Some (Ret (s1, Sig_handler, signum)))"

section \<open>Signal frames\<close>

record rt_sigframe =
  pretcode :: u64
  gregs :: "nat \<Rightarrow> u64"
  uc_sigmask :: u64

text \<open>The 70 words of the frame; the fields that are not named are zero.\<close>

definition sigframe_words :: "rt_sigframe \<Rightarrow> u64 list" where
  "sigframe_words sf = [pretcode sf] @ replicate 21 0 @ map (gregs sf) [0..<23] @ replicate 9 0 @ [uc_sigmask sf] @ replicate 15 0"

definition sigframe_of :: "u64 list \<Rightarrow> rt_sigframe" where
  "sigframe_of ws = \<lparr>pretcode = ws ! 0, gregs = (\<lambda>i. ws ! (22 + i)), uc_sigmask = ws ! 54\<rparr>"

definition new_rsp :: "u64 \<Rightarrow> u64" where
  "new_rsp user_rsp = ((user_rsp - 560) AND NOT 15) - 8"

record cpu_state =
  c_r15 :: u64
  c_r14 :: u64
  c_r13 :: u64
  c_r12 :: u64
  c_r11 :: u64
  c_r10 :: u64
  c_r9 :: u64
  c_r8 :: u64
  c_rbp :: u64
  c_rdi :: u64
  c_rsi :: u64
  c_rdx :: u64
  c_rcx :: u64
  c_rbx :: u64
  c_rax :: u64
  c_rip :: u64
  c_cs :: u64
  c_rflags :: u64
  c_rsp :: u64

text \<open>A register array with the given values at the indices of \<^verbatim>\<open>signal.h\<close> and zero elsewhere.\<close>

definition gregs_of :: "(nat \<times> u64) list \<Rightarrow> nat \<Rightarrow> u64" where
  "gregs_of xs i = (case map_of xs i of None \<Rightarrow> 0 | Some v \<Rightarrow> v)"

definition REG_R8 :: nat where "REG_R8 = 0"
definition REG_R9 :: nat where "REG_R9 = 1"
definition REG_R10 :: nat where "REG_R10 = 2"
definition REG_R11 :: nat where "REG_R11 = 3"
definition REG_R12 :: nat where "REG_R12 = 4"
definition REG_R13 :: nat where "REG_R13 = 5"
definition REG_R14 :: nat where "REG_R14 = 6"
definition REG_R15 :: nat where "REG_R15 = 7"
definition REG_RDI :: nat where "REG_RDI = 8"
definition REG_RSI :: nat where "REG_RSI = 9"
definition REG_RBP :: nat where "REG_RBP = 10"
definition REG_RBX :: nat where "REG_RBX = 11"
definition REG_RDX :: nat where "REG_RDX = 12"
definition REG_RAX :: nat where "REG_RAX = 13"
definition REG_RCX :: nat where "REG_RCX = 14"
definition REG_RSP :: nat where "REG_RSP = 15"
definition REG_RIP :: nat where "REG_RIP = 16"
definition REG_EFL :: nat where "REG_EFL = 17"
definition REG_CSGSFS :: nat where "REG_CSGSFS = 18"

definition ARCH_USER_CS :: u64 where "ARCH_USER_CS = 0x23"

definition save_cpu :: "k_sigaction \<Rightarrow> u64 \<Rightarrow> cpu_state \<Rightarrow> rt_sigframe" where
  "save_cpu sa msk c = \<lparr>pretcode = sa_restorer sa,
     gregs = gregs_of [(REG_R8, c_r8 c), (REG_R9, c_r9 c), (REG_R10, c_r10 c), (REG_R11, c_r11 c), (REG_R12, c_r12 c),
       (REG_R13, c_r13 c), (REG_R14, c_r14 c), (REG_R15, c_r15 c), (REG_RDI, c_rdi c), (REG_RSI, c_rsi c),
       (REG_RBP, c_rbp c), (REG_RBX, c_rbx c), (REG_RDX, c_rdx c), (REG_RAX, c_rax c), (REG_RCX, c_rcx c),
       (REG_RSP, c_rsp c), (REG_RIP, c_rip c), (REG_EFL, c_rflags c), (REG_CSGSFS, c_cs c)],
     uc_sigmask = msk\<rparr>"

definition block_handler :: "k_sigaction \<Rightarrow> nat \<Rightarrow> sched \<Rightarrow> sched" where
  "block_handler sa signum s = upd_current (\<lambda>x. x\<lparr>signal_mask := signal_mask x OR (sa_mask sa OR sigbit signum)\<rparr>) s"

text \<open>Delivery when an interrupt returns to user mode.\<close>

definition signal_deliver :: "cpu_state \<Rightarrow> umem \<Rightarrow> sched \<Rightarrow> (cpu_state \<times> umem \<times> sched \<times> sig_action) kres option" where
  "signal_deliver c um s =
    (if c_cs c \<noteq> ARCH_USER_CS \<or> current s = 0 then Some (Ret (c, um, s, Sig_none))
     else case signal_pick s of
       None \<Rightarrow> None
     | Some (Panic m) \<Rightarrow> Some (Panic m)
     | Some (Ret (s1, act, signum)) \<Rightarrow>
         if act \<noteq> Sig_handler then Some (Ret (c, um, s1, act))
         else let sa = sigactions (tk s1 (current s1)) signum; sp = new_rsp (c_rsp c);
                  sf = save_cpu sa (signal_mask (tk s1 (current s1))) c in
           if \<not> user_ptr_valid sp 560 then Some (Ret (c, um, s1, Sig_exit))
           else Some (Ret (c\<lparr>c_rip := sa_handler sa, c_rsp := sp, c_rdi := of_nat signum, c_rax := 0\<rparr>,
                      put_words sp (sigframe_words sf) um, block_handler sa signum s1, Sig_handler)))"

section \<open>The system call return path\<close>

record syscall_frame =
  f_r10 :: u64
  f_r9 :: u64
  f_r8 :: u64
  f_rbx :: u64
  f_rbp :: u64
  f_r12 :: u64
  f_r13 :: u64
  f_r14 :: u64
  f_r15 :: u64
  f_rflags :: u64
  f_rip :: u64
  f_user_rsp :: u64

text \<open>The registers that the assembly entry saves outside of the frame.\<close>

record saved_regs =
  s_rdi :: u64
  s_rsi :: u64
  s_rdx :: u64
  s_rax :: u64

definition save_frame :: "k_sigaction \<Rightarrow> u64 \<Rightarrow> syscall_frame \<Rightarrow> saved_regs \<Rightarrow> rt_sigframe" where
  "save_frame sa msk f r = \<lparr>pretcode = sa_restorer sa,
     gregs = gregs_of [(REG_R8, f_r8 f), (REG_R9, f_r9 f), (REG_R10, f_r10 f), (REG_R11, f_rflags f), (REG_R12, f_r12 f),
       (REG_R13, f_r13 f), (REG_R14, f_r14 f), (REG_R15, f_r15 f), (REG_RBX, f_rbx f), (REG_RBP, f_rbp f),
       (REG_RCX, f_rip f), (REG_RDI, s_rdi r), (REG_RSI, s_rsi r), (REG_RDX, s_rdx r), (REG_RAX, s_rax r),
       (REG_RIP, f_rip f), (REG_EFL, f_rflags f), (REG_RSP, f_user_rsp f)],
     uc_sigmask = msk\<rparr>"

definition signal_deliver_sysret ::
    "syscall_frame \<Rightarrow> saved_regs \<Rightarrow> umem \<Rightarrow> sched \<Rightarrow> (syscall_frame \<times> saved_regs \<times> umem \<times> sched \<times> sig_action) kres option" where
  "signal_deliver_sysret f r um s =
    (if current s = 0 then Some (Ret (f, r, um, s, Sig_none))
     else case signal_pick s of
       None \<Rightarrow> None
     | Some (Panic m) \<Rightarrow> Some (Panic m)
     | Some (Ret (s1, act, signum)) \<Rightarrow>
         if act \<noteq> Sig_handler then Some (Ret (f, r, um, s1, act))
         else let sa = sigactions (tk s1 (current s1)) signum; sp = new_rsp (f_user_rsp f);
                  sf = save_frame sa (signal_mask (tk s1 (current s1))) f r in
           if \<not> user_ptr_valid sp 560 then Some (Ret (f, r, um, s1, Sig_exit))
           else Some (Ret (f\<lparr>f_rip := sa_handler sa, f_user_rsp := sp\<rparr>, r\<lparr>s_rdi := of_nat signum\<rparr>,
                      put_words sp (sigframe_words sf) um, block_handler sa signum s1, Sig_handler)))"

definition SIGRETURN_MAGIC :: u64 where "SIGRETURN_MAGIC = 0xdeadbeefcafebabe"

definition unmaskable :: u64 where "unmaskable = sigbit SIGKILL OR sigbit SIGSTOP"

definition sys_rt_sigreturn :: "syscall_frame \<Rightarrow> umem \<Rightarrow> sched \<Rightarrow> (syscall_frame \<times> sched \<times> u64) option" where
  "sys_rt_sigreturn f um s =
    (let a = f_user_rsp f - 8 in
     if \<not> user_ptr_valid a 560 then None
     else let g = gregs (sigframe_of (get_words a 70 um)); msk = uc_sigmask (sigframe_of (get_words a 70 um)) in
     if 0x00007FFFFFFFFFFF < g REG_RIP then None
     else Some (\<lparr>f_r10 = g REG_R10, f_r9 = g REG_R9, f_r8 = g REG_R8, f_rbx = g REG_RBX, f_rbp = g REG_RBP,
         f_r12 = g REG_R12, f_r13 = g REG_R13, f_r14 = g REG_R14, f_r15 = g REG_R15,
         f_rflags = (g REG_EFL AND 0xCD5) OR 0x202, f_rip = g REG_RIP, f_user_rsp = g REG_RSP\<rparr>,
       upd_current (\<lambda>x. x\<lparr>signal_mask := msk AND NOT unmaskable\<rparr>) s, SIGRETURN_MAGIC))"

text \<open>The end of \<^verbatim>\<open>syscall_entry\<close>: signals are delivered unless the call was \<^verbatim>\<open>sigreturn\<close>, and the registers are loaded.
  The \<^verbatim>\<open>sysret\<close> instruction takes the instruction pointer from \<^verbatim>\<open>rcx\<close> and the flags, except for some reserved bits, from
  \<^verbatim>\<open>r11\<close>.\<close>

definition load_regs :: "syscall_frame \<Rightarrow> saved_regs \<Rightarrow> cpu_state" where
  "load_regs f r = \<lparr>c_r15 = f_r15 f, c_r14 = f_r14 f, c_r13 = f_r13 f, c_r12 = f_r12 f, c_r11 = f_rflags f, c_r10 = f_r10 f,
     c_r9 = f_r9 f, c_r8 = f_r8 f, c_rbp = f_rbp f, c_rdi = s_rdi r, c_rsi = s_rsi r, c_rdx = s_rdx r, c_rcx = f_rip f,
     c_rbx = f_rbx f, c_rax = s_rax r, c_rip = f_rip f, c_cs = ARCH_USER_CS, c_rflags = (f_rflags f AND 0x3C7FD7) OR 2, c_rsp = f_user_rsp f\<rparr>"

definition syscall_exit :: "syscall_frame \<Rightarrow> saved_regs \<Rightarrow> umem \<Rightarrow> sched \<Rightarrow> (cpu_state \<times> umem \<times> sched \<times> sig_action) kres option" where
  "syscall_exit f r um s =
    (if s_rax r = SIGRETURN_MAGIC \<or> \<not> signal_check_pending s then Some (Ret (load_regs f r, um, s, Sig_none))
     else case signal_deliver_sysret f r um s of
       None \<Rightarrow> None
     | Some (Panic m) \<Rightarrow> Some (Panic m)
     | Some (Ret (f', r', um', s', act)) \<Rightarrow>
         Some (Ret (load_regs f' (if act = Sig_handler then r'\<lparr>s_rax := 0\<rparr> else r'), um', s', act)))"

section \<open>System calls\<close>

definition sigaction_words :: "k_sigaction \<Rightarrow> u64 list" where
  "sigaction_words sa = [sa_handler sa, sa_flags sa, sa_restorer sa, sa_mask sa]"

definition sigaction_of :: "u64 list \<Rightarrow> k_sigaction" where
  "sigaction_of ws = \<lparr>sa_handler = ws ! 0, sa_flags = ws ! 1, sa_restorer = ws ! 2, sa_mask = ws ! 3\<rparr>"

definition sys_rt_sigaction :: "u64 \<Rightarrow> u64 \<Rightarrow> u64 \<Rightarrow> u64 \<Rightarrow> umem \<Rightarrow> sched \<Rightarrow> umem \<times> sched \<times> u64" where
  "sys_rt_sigaction arg1 arg2 arg3 arg4 um s =
    (let signum = sint (ucast arg1 :: 32 word) in
     if arg4 \<noteq> 8 then (um, s, neg_errno 22)
     else if signum \<le> 0 \<or> 64 \<le> signum then (um, s, neg_errno 22)
     else if signum = int SIGKILL \<or> signum = int SIGSTOP \<or> signum = int SIGCONT then (um, s, neg_errno 22)
     else if arg3 \<noteq> 0 \<and> \<not> user_ptr_valid arg3 32 then (um, s, neg_errno 14)
     else let old = sigactions (tk s (current s)) (nat signum);
              um1 = (if arg3 \<noteq> 0 then put_words arg3 (sigaction_words old) um else um) in
     if arg2 = 0 then (um1, s, 0)
     else if \<not> user_ptr_valid arg2 32 then (um1, s, neg_errno 14)
     else let sa = sigaction_of (get_words arg2 4 um1) in
     if sa_handler sa \<noteq> SIG_DFL \<and> sa_handler sa \<noteq> SIG_IGN \<and> \<not> user_ptr_valid (sa_handler sa) 1 then (um1, s, neg_errno 14)
     else if sa_restorer sa \<noteq> 0 \<and> \<not> user_ptr_valid (sa_restorer sa) 1 then (um1, s, neg_errno 14)
     else (um1, upd_current (\<lambda>x. x\<lparr>sigactions := (sigactions x)(nat signum := sa)\<rparr>) s, 0))"

definition sys_rt_sigprocmask :: "u64 \<Rightarrow> u64 \<Rightarrow> u64 \<Rightarrow> u64 \<Rightarrow> umem \<Rightarrow> sched \<Rightarrow> umem \<times> sched \<times> u64" where
  "sys_rt_sigprocmask arg1 arg2 arg3 arg4 um s =
    (let old = signal_mask (tk s (current s)) in
     if arg4 \<noteq> 8 then (um, s, neg_errno 22)
     else if arg3 \<noteq> 0 \<and> \<not> user_ptr_valid arg3 8 then (um, s, neg_errno 14)
     else let um1 = (if arg3 \<noteq> 0 then put_words arg3 [old] um else um) in
     if arg2 = 0 then (um1, s, 0)
     else if \<not> user_ptr_valid arg2 8 then (um1, s, neg_errno 14)
     else let newset = get_word arg2 um1 in
     if 2 < arg1 then (um1, s, neg_errno 22)
     else let m = (if arg1 = 0 then old OR newset else if arg1 = 1 then old AND NOT newset else newset) in
       (um1, upd_current (\<lambda>x. x\<lparr>signal_mask := m AND NOT unmaskable\<rparr>) s, 0))"

text \<open>\<^verbatim>\<open>sigsuspend\<close> up to the point where it blocks, and from there on.  The first component of \<open>sigsuspend_enter\<close> says whether
  it blocks; the mask to restore is carried over.\<close>

definition sigsuspend_enter :: "u64 \<Rightarrow> u64 \<Rightarrow> umem \<Rightarrow> sched \<Rightarrow> u64 + (bool \<times> u64 \<times> sched)" where
  "sigsuspend_enter arg1 arg2 um s =
    (if arg2 \<noteq> 8 then Inl (neg_errno 22)
     else if \<not> user_ptr_valid arg1 8 then Inl (neg_errno 14)
     else let newmask = get_word arg1 um AND NOT unmaskable; old_mask = signal_mask (tk s (current s)) in
       Inr (pending_signals (tk s (current s)) AND NOT newmask = 0, old_mask,
            upd_current (\<lambda>x. x\<lparr>signal_mask := newmask\<rparr>) s))"

definition sigsuspend_leave :: "u64 \<Rightarrow> sched \<Rightarrow> sched \<times> u64" where
  "sigsuspend_leave old_mask s = (upd_current (\<lambda>x. x\<lparr>signal_mask := old_mask\<rparr>) s, neg_errno 4)"

definition sys_kill :: "u64 \<Rightarrow> u64 \<Rightarrow> sched \<Rightarrow> (sched \<times> u64) kres option" where
  "sys_kill arg1 arg2 s =
    (let pid = sint (ucast arg1 :: 32 word); sig = sint (ucast arg2 :: 32 word); cur = tk s (current s);
         after = (\<lambda>r. case r of None \<Rightarrow> None | Some (Panic m) \<Rightarrow> Some (Panic m) | Some (Ret s') \<Rightarrow> Some (Ret (s', 0 :: u64))) in
     if sig \<le> 0 \<or> 64 \<le> sig then Some (Ret (s, neg_errno 22))
     else if check_caps (t_caps cur) CAP_KIND_PROC_READ CAP_RIGHTS_WRITE < 0 then Some (Ret (s, neg_errno 1))
     else if pid = 1 \<and> t_pid cur \<noteq> 1 \<and> check_caps (t_caps cur) CAP_KIND_POWER CAP_RIGHTS_READ < 0
     then Some (Ret (s, neg_errno 1))
     else if pid < 0 then after (signal_send_pgrp (of_int (- pid)) sig s)
     else if pid = 0 then after (signal_send_pgrp (t_pgid cur) sig s)
     else after (signal_send_pid (of_int pid) sig s))"


text \<open>The beginning of \<^verbatim>\<open>syscall_entry\<close>, the part of \<^verbatim>\<open>syscall_dispatch\<close> that calls the functions above, and its end.  Of the calls that
  \<^verbatim>\<open>syscall_dispatch\<close> knows only these four are here; \<^verbatim>\<open>sigsuspend\<close> blocks in the middle and is composed from its two halves where it is
  used, as are the calls that do not concern signals.\<close>

definition frame_of :: "cpu_state \<Rightarrow> syscall_frame" where
  "frame_of c = \<lparr>f_r10 = c_r10 c, f_r9 = c_r9 c, f_r8 = c_r8 c, f_rbx = c_rbx c, f_rbp = c_rbp c, f_r12 = c_r12 c,
     f_r13 = c_r13 c, f_r14 = c_r14 c, f_r15 = c_r15 c, f_rflags = c_rflags c, f_rip = c_rip c, f_user_rsp = c_rsp c\<rparr>"

definition regs_with :: "cpu_state \<Rightarrow> u64 \<Rightarrow> saved_regs" where
  "regs_with c rax = \<lparr>s_rdi = c_rdi c, s_rsi = c_rsi c, s_rdx = c_rdx c, s_rax = rax\<rparr>"

datatype sigcall = Call_rt_sigaction | Call_rt_sigprocmask | Call_rt_sigreturn | Call_kill

definition syscall_entry :: "sigcall \<Rightarrow> cpu_state \<Rightarrow> umem \<Rightarrow> sched \<Rightarrow> (cpu_state \<times> umem \<times> sched \<times> sig_action) kres option" where
  "syscall_entry k c um s = (case k of
     Call_rt_sigaction \<Rightarrow>
       (let (um', s', v) = sys_rt_sigaction (c_rdi c) (c_rsi c) (c_rdx c) (c_r10 c) um s in syscall_exit (frame_of c) (regs_with c v) um' s')
   | Call_rt_sigprocmask \<Rightarrow>
       (let (um', s', v) = sys_rt_sigprocmask (c_rdi c) (c_rsi c) (c_rdx c) (c_r10 c) um s in syscall_exit (frame_of c) (regs_with c v) um' s')
   | Call_rt_sigreturn \<Rightarrow>
       (case sys_rt_sigreturn (frame_of c) um s of
          None \<Rightarrow> Some (Ret (c, um, s, Sig_exit))
        | Some (f', s', v) \<Rightarrow> syscall_exit f' (regs_with c v) um s')
   | Call_kill \<Rightarrow>
       (case sys_kill (c_rdi c) (c_rsi c) s of
          None \<Rightarrow> None
        | Some (Panic m) \<Rightarrow> Some (Panic m)
        | Some (Ret (s', v)) \<Rightarrow> syscall_exit (frame_of c) (regs_with c v) um s'))"

end
