(* ===== verification/Fd_Table.thy ===== *)
theory Fd_Table
  imports Cap_Syscalls Memfd
begin

text \<open>
  Descriptor tables, \<^verbatim>\<open>kernel/fs/fd_table.c\<close>, and the system calls that move descriptors:
  \<^verbatim>\<open>dup\<close>, \<^verbatim>\<open>dup2\<close>, \<^verbatim>\<open>fcntl\<close>, \<^verbatim>\<open>lseek\<close> (\<^verbatim>\<open>kernel/syscall/sys_file.c\<close>), \<^verbatim>\<open>close\<close> (\<^verbatim>\<open>sys_io.c\<close>) and the
  close-on-exec pass of \<^verbatim>\<open>execve\<close>.  The tables of all processes are one store indexed by address, so
  that threads sharing a table alias it.  What the drivers keep is a type of its own, \<open>'k\<close>, and
  the operation tables of the drivers a function from their addresses.
\<close>

section \<open>Model\<close>

text \<open>The operations of \<^verbatim>\<open>vfs_ops_t\<close> that these calls use; \<open>None\<close> is a null pointer.  \<open>op_setnb\<close> is the
  update of the nonblocking flag that \<^verbatim>\<open>fcntl\<close> does for sockets.\<close>

record 'k vfs_ops =
  op_close :: "(u64 \<Rightarrow> 'k \<Rightarrow> 'k kres) option"
  op_dup :: "(u64 \<Rightarrow> 'k \<Rightarrow> 'k kres) option"
  op_setnb :: "u64 \<Rightarrow> bool \<Rightarrow> 'k \<Rightarrow> 'k"

record fd_table =
  fds :: "nat \<Rightarrow> vfs_file"
  fdt_refcount :: u32

record 'k fdst =
  fd_tables :: "u64 \<Rightarrow> fd_table"
  drv :: 'k

definition VFS_FD_CLOEXEC :: u32 where "VFS_FD_CLOEXEC = 0x80000"
definition VFS_O_NONBLOCK :: u32 where "VFS_O_NONBLOCK = 0x800"

definition null_file :: vfs_file where
  "null_file = \<lparr>vf_ops = 0, vf_priv = 0, vf_offset = 0, vf_size = 0, vf_flags = 0\<rparr>"

definition slot :: "'k fdst \<Rightarrow> u64 \<Rightarrow> nat \<Rightarrow> vfs_file" where
  "slot s t i = fds (fd_tables s t) i"

definition set_slot :: "u64 \<Rightarrow> nat \<Rightarrow> vfs_file \<Rightarrow> 'k fdst \<Rightarrow> 'k fdst" where
  "set_slot t i f s = s\<lparr>fd_tables := (fd_tables s)(t := (fd_tables s t)\<lparr>fds := (fds (fd_tables s t))(i := f)\<rparr>)\<rparr>"

definition call_close :: "(u64 \<Rightarrow> 'k vfs_ops) \<Rightarrow> vfs_file \<Rightarrow> 'k fdst \<Rightarrow> 'k fdst kres" where
  "call_close vops f s = (case op_close (vops (vf_ops f)) of
     None \<Rightarrow> Panic ''null close''
   | Some c \<Rightarrow> (case c (vf_priv f) (drv s) of Panic m \<Rightarrow> Panic m | Ret k \<Rightarrow> Ret (s\<lparr>drv := k\<rparr>)))"

definition call_dup :: "(u64 \<Rightarrow> 'k vfs_ops) \<Rightarrow> vfs_file \<Rightarrow> 'k fdst \<Rightarrow> 'k fdst kres" where
  "call_dup vops f s = (case op_dup (vops (vf_ops f)) of
     None \<Rightarrow> Ret s
   | Some d \<Rightarrow> (case d (vf_priv f) (drv s) of Panic m \<Rightarrow> Panic m | Ret k \<Rightarrow> Ret (s\<lparr>drv := k\<rparr>)))"

text \<open>The page of a new table is the argument \<open>page\<close>; 0 is a failed allocation.\<close>

definition fd_table_alloc :: "u64 \<Rightarrow> 'k fdst \<Rightarrow> 'k fdst \<times> u64" where
  "fd_table_alloc page s =
    (if page = 0 then (s, 0)
     else (s\<lparr>fd_tables := (fd_tables s)(page :=
        \<lparr>fds = (\<lambda>i. if i < PROC_MAX_FDS then (slot s page i)\<lparr>vf_ops := 0\<rparr> else slot s page i),
         fdt_refcount = 1\<rparr>)\<rparr>, page))"

definition set_refcount :: "u64 \<Rightarrow> u32 \<Rightarrow> 'k fdst \<Rightarrow> 'k fdst" where
  "set_refcount t r s = s\<lparr>fd_tables := (fd_tables s)(t := (fd_tables s t)\<lparr>fdt_refcount := r\<rparr>)\<rparr>"

definition fd_table_ref :: "u64 \<Rightarrow> 'k fdst \<Rightarrow> 'k fdst" where
  "fd_table_ref t s = (if t = 0 then s else set_refcount t (fdt_refcount (fd_tables s t) + 1) s)"

definition unref_slot :: "(u64 \<Rightarrow> 'k vfs_ops) \<Rightarrow> u64 \<Rightarrow> nat \<Rightarrow> 'k fdst \<Rightarrow> ('k fdst \<times> int) kres" where
  "unref_slot vops t i s =
    (if vf_ops (slot s t i) \<noteq> 0 \<and> op_close (vops (vf_ops (slot s t i))) \<noteq> None
     then case call_close vops (slot s t i) s of
            Panic m \<Rightarrow> Panic m
          | Ret s' \<Rightarrow> Ret (set_slot t i ((slot s' t i)\<lparr>vf_ops := 0\<rparr>) s', 0)
     else Ret (s, 0))"

text \<open>The flag in the result says whether the page of the table has been freed.\<close>

definition fd_table_unref :: "(u64 \<Rightarrow> 'k vfs_ops) \<Rightarrow> u64 \<Rightarrow> 'k fdst \<Rightarrow> ('k fdst \<times> bool) kres" where
  "fd_table_unref vops t s =
    (if t = 0 then Ret (s, False)
     else let old = fdt_refcount (fd_tables s t); s1 = set_refcount t (old - 1) s in
       if 1 < old then Ret (s1, False)
       else case for_each (unref_slot vops t) [0..<PROC_MAX_FDS] s1 of
         Panic m \<Rightarrow> Panic m | Ret (s2, _) \<Rightarrow> Ret (s2, True))"

definition copy_dup :: "(u64 \<Rightarrow> 'k vfs_ops) \<Rightarrow> u64 \<Rightarrow> nat \<Rightarrow> 'k fdst \<Rightarrow> ('k fdst \<times> int) kres" where
  "copy_dup vops dst i s =
    (if vf_ops (slot s dst i) \<noteq> 0
     then case call_dup vops (slot s dst i) s of Panic m \<Rightarrow> Panic m | Ret s' \<Rightarrow> Ret (s', 0)
     else Ret (s, 0))"

definition fd_table_copy :: "(u64 \<Rightarrow> 'k vfs_ops) \<Rightarrow> u64 \<Rightarrow> u64 \<Rightarrow> 'k fdst \<Rightarrow> ('k fdst \<times> u64) kres" where
  "fd_table_copy vops src page s =
    (if src = 0 \<or> page = 0 then Ret (s, 0)
     else let s1 = s\<lparr>fd_tables := (fd_tables s)(page := (fd_tables s page)\<lparr>fds :=
                 \<lambda>i. if i < PROC_MAX_FDS then slot s src i else slot s page i\<rparr>)\<rparr> in
       case for_each (copy_dup vops page) [0..<PROC_MAX_FDS] s1 of
         Panic m \<Rightarrow> Panic m | Ret (s2, _) \<Rightarrow> Ret (set_refcount page 1 s2, page))"

section \<open>System calls\<close>

definition free_fd :: "'k fdst \<Rightarrow> u64 \<Rightarrow> nat \<Rightarrow> nat option" where
  "free_fd s t from = find (\<lambda>i. vf_ops (slot s t i) = 0) [from..<PROC_MAX_FDS]"

definition sys_close :: "(u64 \<Rightarrow> 'k vfs_ops) \<Rightarrow> u64 \<Rightarrow> u64 \<Rightarrow> 'k fdst \<Rightarrow> ('k fdst \<times> u64) kres" where
  "sys_close vops t fd s =
    (if of_nat PROC_MAX_FDS \<le> fd then Ret (s, neg_errno 9)
     else let f = slot s t (unat fd) in
     if vf_ops f = 0 then Ret (s, neg_errno 9)
     else case call_close vops f (set_slot t (unat fd) (f\<lparr>vf_ops := 0, vf_priv := 0\<rparr>) s) of
       Panic m \<Rightarrow> Panic m | Ret s' \<Rightarrow> Ret (s', 0))"

text \<open>A copy of a descriptor, with the close-on-exec mark cleared or set.\<close>

definition dup_into :: "(u64 \<Rightarrow> 'k vfs_ops) \<Rightarrow> u64 \<Rightarrow> vfs_file \<Rightarrow> nat \<Rightarrow> bool \<Rightarrow> 'k fdst \<Rightarrow> 'k fdst kres" where
  "dup_into vops t f newfd cloexec s =
    (let fl = vf_flags f AND NOT VFS_FD_CLOEXEC;
         f' = f\<lparr>vf_flags := (if cloexec then fl OR VFS_FD_CLOEXEC else fl)\<rparr> in
     call_dup vops f' (set_slot t newfd f' s))"

definition sys_dup :: "(u64 \<Rightarrow> 'k vfs_ops) \<Rightarrow> u64 \<Rightarrow> u64 \<Rightarrow> 'k fdst \<Rightarrow> ('k fdst \<times> u64) kres" where
  "sys_dup vops t fd s =
    (if of_nat PROC_MAX_FDS \<le> fd \<or> vf_ops (slot s t (unat fd)) = 0 then Ret (s, neg_errno 9)
     else case free_fd s t 0 of
       None \<Rightarrow> Ret (s, neg_errno 24)
     | Some newfd \<Rightarrow>
         (case dup_into vops t (slot s t (unat fd)) newfd False s of
            Panic m \<Rightarrow> Panic m | Ret s' \<Rightarrow> Ret (s', of_nat newfd)))"

definition sys_dup2 :: "(u64 \<Rightarrow> 'k vfs_ops) \<Rightarrow> u64 \<Rightarrow> u64 \<Rightarrow> u64 \<Rightarrow> 'k fdst \<Rightarrow> ('k fdst \<times> u64) kres" where
  "sys_dup2 vops t fd fd2 s =
    (if of_nat PROC_MAX_FDS \<le> fd \<or> vf_ops (slot s t (unat fd)) = 0 then Ret (s, neg_errno 9)
     else if of_nat PROC_MAX_FDS \<le> fd2 then Ret (s, neg_errno 9)
     else if fd = fd2 then Ret (s, fd2)
     else let closed = (if vf_ops (slot s t (unat fd2)) \<noteq> 0
                        then case call_close vops (slot s t (unat fd2)) s of
                               Panic m \<Rightarrow> Panic m
                             | Ret s1 \<Rightarrow> Ret (set_slot t (unat fd2) null_file s1)
                        else Ret s) in
       case closed of
         Panic m \<Rightarrow> Panic m
       | Ret s2 \<Rightarrow>
           (case dup_into vops t (slot s2 t (unat fd)) (unat fd2) False s2 of
              Panic m \<Rightarrow> Panic m | Ret s' \<Rightarrow> Ret (s', fd2)))"

definition sys_fcntl :: "(u64 \<Rightarrow> 'k vfs_ops) \<Rightarrow> u64 \<Rightarrow> u64 \<Rightarrow> u64 \<Rightarrow> u64 \<Rightarrow> 'k fdst \<Rightarrow> ('k fdst \<times> u64) kres" where
  "sys_fcntl vops t fd cmd arg s =
    (if of_nat PROC_MAX_FDS \<le> fd then Ret (s, neg_errno 9)
     else let f = slot s t (unat fd) in
     if vf_ops f = 0 then Ret (s, neg_errno 9)
     else if cmd = 1 then Ret (s, if vf_flags f AND VFS_FD_CLOEXEC \<noteq> 0 then 1 else 0)
     else if cmd = 2 then
       Ret (set_slot t (unat fd) (f\<lparr>vf_flags := (if arg AND 1 \<noteq> 0 then vf_flags f OR VFS_FD_CLOEXEC
                                               else vf_flags f AND NOT VFS_FD_CLOEXEC)\<rparr>) s, 0)
     else if cmd = 3 then Ret (s, ucast (vf_flags f))
     else if cmd = 4 then
       (let s1 = set_slot t (unat fd) (f\<lparr>vf_flags := (vf_flags f AND NOT 0x800) OR (ucast arg AND 0x800)\<rparr>) s in
        Ret (s1\<lparr>drv := op_setnb (vops (vf_ops f)) (vf_priv f) (arg AND 0x800 \<noteq> 0) (drv s1)\<rparr>, 0))
     else if cmd = 0 \<or> cmd = 1030 then
       (case free_fd s t (unat (ucast arg :: u32)) of
          None \<Rightarrow> Ret (s, neg_errno 24)
        | Some newfd \<Rightarrow>
            (case dup_into vops t f newfd (cmd = 1030) s of
               Panic m \<Rightarrow> Panic m | Ret s' \<Rightarrow> Ret (s', of_nat newfd)))
     else Ret (s, neg_errno 22))"

text \<open>Descriptors of a spawned process: a new table whose descriptors 0, 1 and 2 are copies of the descriptor
  \<open>sfd\<close> of the parent's table, if that is open.\<close>

definition spawn_copy :: "(u64 \<Rightarrow> 'k vfs_ops) \<Rightarrow> u64 \<Rightarrow> u64 \<Rightarrow> nat \<Rightarrow> nat \<Rightarrow> 'k fdst \<Rightarrow> ('k fdst \<times> int) kres" where
  "spawn_copy vops parent child sfd i s =
    (let f = slot s parent sfd in
     case call_dup vops f (set_slot child i f s) of Panic m \<Rightarrow> Panic m | Ret s' \<Rightarrow> Ret (s', 0))"

definition spawn_fds :: "(u64 \<Rightarrow> 'k vfs_ops) \<Rightarrow> u64 \<Rightarrow> u64 \<Rightarrow> u64 \<Rightarrow> 'k fdst \<Rightarrow> ('k fdst \<times> u64) kres" where
  "spawn_fds vops parent page stdio_fd s =
    (case fd_table_alloc page s of (s1, child) \<Rightarrow>
     if child = 0 then Ret (s1, 0)
     else let sfd = sint stdio_fd in
       if 0 \<le> sfd \<and> sfd < int PROC_MAX_FDS \<and> vf_ops (slot s1 parent (nat sfd)) \<noteq> 0
       then case for_each (spawn_copy vops parent child (nat sfd)) [0..<3] s1 of
              Panic m \<Rightarrow> Panic m | Ret (s2, _) \<Rightarrow> Ret (s2, child)
       else Ret (s1, child))"

definition cloexec_one :: "(u64 \<Rightarrow> 'k vfs_ops) \<Rightarrow> u64 \<Rightarrow> nat \<Rightarrow> 'k fdst \<Rightarrow> ('k fdst \<times> int) kres" where
  "cloexec_one vops t i s =
    (if vf_ops (slot s t i) \<noteq> 0 \<and> vf_flags (slot s t i) AND VFS_FD_CLOEXEC \<noteq> 0
     then case call_close vops (slot s t i) s of
            Panic m \<Rightarrow> Panic m | Ret s' \<Rightarrow> Ret (set_slot t i null_file s', 0)
     else Ret (s, 0))"

definition exec_close_fds :: "(u64 \<Rightarrow> 'k vfs_ops) \<Rightarrow> u64 \<Rightarrow> 'k fdst \<Rightarrow> ('k fdst \<times> int) kres" where
  "exec_close_fds vops t s = for_each (cloexec_one vops t) [0..<PROC_MAX_FDS] s"

text \<open>\<^verbatim>\<open>lseek\<close> with its checks for signed overflow; \<open>sint\<close> reads a 64-bit value as \<^verbatim>\<open>int64_t\<close>.\<close>

definition lseek_target :: "u64 \<Rightarrow> u64 \<Rightarrow> u64 \<Rightarrow> u64 \<Rightarrow> int option" where
  "lseek_target offset fsize arg2 whence =
    (let off = sint arg2 in
     if whence = 0 then Some off
     else if whence = 1 then
       (let cur = sint offset in
        if 0 < off \<and> 0x7FFFFFFFFFFFFFFF - off < cur then None
        else if off < 0 \<and> cur < - 0x8000000000000000 - off then None
        else Some (cur + off))
     else if whence = 2 then
       (if 0x7FFFFFFFFFFFFFFF < fsize \<or> (0 < off \<and> 0x7FFFFFFFFFFFFFFF - off < sint fsize) then None
        else Some (sint fsize + off))
     else None)"

definition sys_lseek :: "u64 \<Rightarrow> u64 \<Rightarrow> u64 \<Rightarrow> u64 \<Rightarrow> 'k fdst \<Rightarrow> 'k fdst \<times> u64" where
  "sys_lseek t fd arg2 whence s =
    (if of_nat PROC_MAX_FDS \<le> fd \<or> vf_ops (slot s t (unat fd)) = 0 then (s, neg_errno 9)
     else let f = slot s t (unat fd) in
     if vf_size f = 0 then (s, neg_errno 29)
     else case lseek_target (vf_offset f) (vf_size f) arg2 whence of
       None \<Rightarrow> (s, neg_errno 22)
     | Some new_off \<Rightarrow>
         if new_off < 0 then (s, neg_errno 22)
         else (set_slot t (unat fd) (f\<lparr>vf_offset := of_int new_off\<rparr>) s, of_int new_off))"

section \<open>Counting the descriptors of a handle\<close>

definition hit :: "vfs_file \<Rightarrow> u64 \<Rightarrow> u64 \<Rightarrow> int" where
  "hit f op p = (if vf_ops f = op \<and> vf_priv f = p then 1 else 0)"

definition tab_hits :: "'k fdst \<Rightarrow> u64 \<Rightarrow> u64 \<Rightarrow> u64 \<Rightarrow> int" where
  "tab_hits s t op p = (\<Sum>i<PROC_MAX_FDS. hit (slot s t i) op p)"

definition holders :: "u64 set \<Rightarrow> 'k fdst \<Rightarrow> u64 \<Rightarrow> u64 \<Rightarrow> int" where
  "holders L s op p = (\<Sum>t\<in>L. tab_hits s t op p)"

lemma hit_bounds [simp]: "0 \<le> hit f op p" "hit f op p \<le> 1"
  by (simp_all add: hit_def)

lemma tab_hits_bounds: "0 \<le> tab_hits s t op p" "tab_hits s t op p \<le> 16"
proof -
  show "0 \<le> tab_hits s t op p" by (simp add: tab_hits_def sum_nonneg)
  have "tab_hits s t op p \<le> (\<Sum>i<PROC_MAX_FDS. 1)" unfolding tab_hits_def by (rule sum_mono) simp
  then show "tab_hits s t op p \<le> 16" by (simp add: PROC_MAX_FDS_def)
qed

lemma holders_bounds: "0 \<le> holders L s op p" "holders L s op p \<le> 16 * int (card L)"
proof -
  show "0 \<le> holders L s op p" by (simp add: holders_def sum_nonneg tab_hits_bounds)
  have "holders L s op p \<le> (\<Sum>t\<in>L. 16)" unfolding holders_def by (rule sum_mono) (rule tab_hits_bounds)
  then show "holders L s op p \<le> 16 * int (card L)" by simp
qed

lemma slot_set_slot: "slot (set_slot t i f s) u j = (if u = t \<and> j = i then f else slot s u j)"
  by (simp add: slot_def set_slot_def)

lemma drv_set_slot [simp]: "drv (set_slot t i f s) = drv s"
  by (simp add: set_slot_def)

lemma refcount_set_slot [simp]: "fdt_refcount (fd_tables (set_slot t i f s) u) = fdt_refcount (fd_tables s u)"
  by (simp add: set_slot_def)

lemma tab_hits_set_slot:
  assumes "i < PROC_MAX_FDS"
  shows "tab_hits (set_slot t i f s) u op p = tab_hits s u op p + (if u = t then hit f op p - hit (slot s t i) op p else 0)"
proof (cases "u = t")
  case True
  have "tab_hits (set_slot t i f s) t op p - tab_hits s t op p
      = (\<Sum>j<PROC_MAX_FDS. hit (slot (set_slot t i f s) t j) op p - hit (slot s t j) op p)"
    by (simp add: tab_hits_def sum_subtractf)
  also have "\<dots> = (\<Sum>j<PROC_MAX_FDS. if j = i then hit f op p - hit (slot s t i) op p else 0)"
    by (rule sum.cong) (simp_all add: slot_set_slot)
  also have "\<dots> = hit f op p - hit (slot s t i) op p" using assms by simp
  finally show ?thesis using True by simp
qed (simp add: tab_hits_def slot_set_slot)

lemma holders_set_slot:
  assumes "finite L" "t \<in> L" "i < PROC_MAX_FDS"
  shows "holders L (set_slot t i f s) op p = holders L s op p + hit f op p - hit (slot s t i) op p"
  using assms by (simp add: holders_def tab_hits_set_slot sum.distrib sum.delta)

lemma holders_cong: "(\<And>t i. t \<in> L \<Longrightarrow> i < PROC_MAX_FDS \<Longrightarrow> slot s' t i = slot s t i) \<Longrightarrow> holders L s' op p = holders L s op p"
  unfolding holders_def tab_hits_def by (intro sum.cong) auto

lemma slot_holds:
  assumes "finite L" "t \<in> L" "i < PROC_MAX_FDS"
  shows "1 \<le> holders L s (vf_ops (slot s t i)) (vf_priv (slot s t i))"
proof -
  let ?o = "vf_ops (slot s t i)" and ?p = "vf_priv (slot s t i)"
  have "hit (slot s t i) ?o ?p \<le> tab_hits s t ?o ?p"
    unfolding tab_hits_def using assms(3) by (intro member_le_sum) simp_all
  moreover have "tab_hits s t ?o ?p \<le> holders L s ?o ?p"
    unfolding holders_def using assms(1,2) by (intro member_le_sum) (simp_all add: tab_hits_bounds)
  ultimately show ?thesis by (simp add: hit_def)
qed

lemma fd_less: "\<not> of_nat PROC_MAX_FDS \<le> (fd :: u64) \<Longrightarrow> unat fd < PROC_MAX_FDS"
  by (simp add: PROC_MAX_FDS_def word_le_nat_alt)

lemma free_fd_Some: "free_fd s t a = Some j \<Longrightarrow> j < PROC_MAX_FDS \<and> vf_ops (slot s t j) = 0"
  by (auto simp: free_fd_def find_Some_iff)

section \<open>Drivers that count their descriptors\<close>

text \<open>
  The contract between descriptor tables and drivers.  \<open>counted\<close> are the operation tables of drivers that keep a
  reference count per handle, \<open>refs\<close>; other drivers keep nothing that these calls could lose.  The count may not exceed \<open>limit\<close>.
\<close>

locale counted_driver =
  fixes vops :: "u64 \<Rightarrow> 'k vfs_ops" and counted :: "u64 \<Rightarrow> bool" and refs :: "'k \<Rightarrow> u64 \<Rightarrow> u64 \<Rightarrow> nat"
    and ok :: "'k \<Rightarrow> bool" and limit :: nat
  assumes null_uncounted: "\<not> counted 0"
    and close_counted: "ok k \<Longrightarrow> counted op \<Longrightarrow> 0 < refs k op p \<Longrightarrow> \<exists>c k'. op_close (vops op) = Some c \<and> c p k = Ret k' \<and> ok k'
      \<and> (\<forall>o' p'. counted o' \<longrightarrow> int (refs k' o' p') = int (refs k o' p') - (if o' = op \<and> p' = p then 1 else 0))"
    and dup_counted: "ok k \<Longrightarrow> counted op \<Longrightarrow> 0 < refs k op p \<Longrightarrow> refs k op p < limit \<Longrightarrow>
      \<exists>d k'. op_dup (vops op) = Some d \<and> d p k = Ret k' \<and> ok k'
      \<and> (\<forall>o' p'. counted o' \<longrightarrow> int (refs k' o' p') = int (refs k o' p') + (if o' = op \<and> p' = p then 1 else 0))"
    and close_plain: "ok k \<Longrightarrow> op \<noteq> 0 \<Longrightarrow> \<not> counted op \<Longrightarrow> \<exists>c k'. op_close (vops op) = Some c \<and> c p k = Ret k' \<and> ok k'
      \<and> (\<forall>o' p'. counted o' \<longrightarrow> refs k' o' p' = refs k o' p')"
    and dup_plain: "ok k \<Longrightarrow> \<not> counted op \<Longrightarrow> op_dup (vops op) = Some d \<Longrightarrow> \<exists>k'. d p k = Ret k' \<and> ok k'
      \<and> (\<forall>o' p'. counted o' \<longrightarrow> refs k' o' p' = refs k o' p')"
    and setnb_keeps: "ok k \<Longrightarrow> ok (op_setnb (vops op) p b k)
      \<and> (counted o' \<longrightarrow> refs (op_setnb (vops op) p b k) o' p' = refs k o' p')"
begin

text \<open>How far the count of a handle is ahead of the descriptors that hold it.\<close>

definition ahead :: "u64 set \<Rightarrow> 'k fdst \<Rightarrow> u64 \<Rightarrow> u64 \<Rightarrow> int" where
  "ahead L s op p = int (refs (drv s) op p) - holders L s op p"

definition fd_inv :: "u64 set \<Rightarrow> 'k fdst \<Rightarrow> bool" where
  "fd_inv L s \<longleftrightarrow> finite L \<and> 16 * card L < limit \<and> ok (drv s) \<and> (\<forall>op p. counted op \<longrightarrow> ahead L s op p = 0)"

lemma call_close_ahead:
  assumes "ok (drv s)" "vf_ops f \<noteq> 0" "counted (vf_ops f) \<Longrightarrow> 0 < refs (drv s) (vf_ops f) (vf_priv f)"
  shows "\<exists>k. call_close vops f s = Ret (s\<lparr>drv := k\<rparr>) \<and> ok k
    \<and> (\<forall>op p. counted op \<longrightarrow> int (refs k op p) = int (refs (drv s) op p) - hit f op p)"
proof (cases "counted (vf_ops f)")
  case True
  then show ?thesis using close_counted [OF assms(1) True assms(3) [OF True]] by (fastforce simp: call_close_def hit_def)
next
  case False
  have "hit f op p = 0" if "counted op" for op p using that False by (auto simp: hit_def)
  then show ?thesis using close_plain [OF assms(1,2) False, of "vf_priv f"] by (fastforce simp: call_close_def)
qed

lemma call_dup_ahead:
  assumes "ok (drv s)" "counted (vf_ops f) \<Longrightarrow> 0 < refs (drv s) (vf_ops f) (vf_priv f) \<and> refs (drv s) (vf_ops f) (vf_priv f) < limit"
  shows "\<exists>k. call_dup vops f s = Ret (s\<lparr>drv := k\<rparr>) \<and> ok k
    \<and> (\<forall>op p. counted op \<longrightarrow> int (refs k op p) = int (refs (drv s) op p) + hit f op p)"
proof (cases "counted (vf_ops f)")
  case True
  then show ?thesis using dup_counted [OF assms(1) True conjunct1 [OF assms(2) [OF True]] conjunct2 [OF assms(2) [OF True]]]
    by (fastforce simp: call_dup_def hit_def)
next
  case False
  have h: "hit f op p = 0" if "counted op" for op p using that False by (auto simp: hit_def)
  show ?thesis
  proof (cases "op_dup (vops (vf_ops f))")
    case None
    then show ?thesis using assms(1) h by (intro exI [of _ "drv s"]) (simp add: call_dup_def)
  next
    case (Some d)
    then show ?thesis using dup_plain [OF assms(1) False Some, of "vf_priv f"] h by (fastforce simp: call_dup_def)
  qed
qed

lemma inv_count: "fd_inv L s \<Longrightarrow> counted op \<Longrightarrow> int (refs (drv s) op p) = holders L s op p"
  by (simp add: fd_inv_def ahead_def)

lemma inv_refs_pos:
  assumes "fd_inv L s" "t \<in> L" "i < PROC_MAX_FDS" "counted (vf_ops (slot s t i))"
  shows "0 < refs (drv s) (vf_ops (slot s t i)) (vf_priv (slot s t i))"
proof -
  have "finite L" using assms(1) by (simp add: fd_inv_def)
  from slot_holds [OF this assms(2,3), of s] show ?thesis
    using inv_count [OF assms(1,4), of "vf_priv (slot s t i)"] by linarith
qed

lemma inv_refs_bound:
  assumes "fd_inv L s" "counted op"
  shows "refs (drv s) op p < limit"
proof -
  have "16 * card L < limit" using assms(1) by (simp add: fd_inv_def)
  then show ?thesis using inv_count [OF assms, of p] holders_bounds(2) [of L s op p] by linarith
qed

lemma holders_drv [simp]: "holders L (s\<lparr>drv := k\<rparr>) op p = holders L s op p"
  by (simp add: holders_def tab_hits_def slot_def)

lemma slot_drv [simp]: "slot (s\<lparr>drv := k\<rparr>) t i = slot s t i"
  by (simp add: slot_def)

text \<open>Closing a descriptor and clearing its slot, in either order, keeps every count exact.\<close>

lemma close_then_clear:
  assumes inv: "fd_inv L s" and t: "t \<in> L" "i < PROC_MAX_FDS" and open_slot: "vf_ops (slot s t i) \<noteq> 0"
    and clear: "vf_ops f' = 0"
  shows "\<exists>k. call_close vops (slot s t i) s = Ret (s\<lparr>drv := k\<rparr>) \<and> fd_inv L (set_slot t i f' (s\<lparr>drv := k\<rparr>))"
proof -
  have fin: "finite L" using inv by (simp add: fd_inv_def)
  obtain k where k: "call_close vops (slot s t i) s = Ret (s\<lparr>drv := k\<rparr>)" "ok k"
      "\<And>op p. counted op \<Longrightarrow> int (refs k op p) = int (refs (drv s) op p) - hit (slot s t i) op p"
    using call_close_ahead [of s "slot s t i"] inv open_slot inv_refs_pos [OF inv t] by (auto simp: fd_inv_def)
  have "hit f' op p = 0" if "counted op" for op p using that clear null_uncounted by (auto simp: hit_def)
  then show ?thesis using k inv
    by (intro exI [of _ k]) (simp add: fd_inv_def ahead_def holders_set_slot [OF fin t])
qed

lemma clear_then_close:
  assumes inv: "fd_inv L s" and t: "t \<in> L" "i < PROC_MAX_FDS" and open_slot: "vf_ops (slot s t i) \<noteq> 0"
    and clear: "vf_ops f' = 0"
  shows "\<exists>k. call_close vops (slot s t i) (set_slot t i f' s) = Ret ((set_slot t i f' s)\<lparr>drv := k\<rparr>)
    \<and> fd_inv L ((set_slot t i f' s)\<lparr>drv := k\<rparr>)"
proof -
  have fin: "finite L" using inv by (simp add: fd_inv_def)
  obtain k where k: "call_close vops (slot s t i) (set_slot t i f' s) = Ret ((set_slot t i f' s)\<lparr>drv := k\<rparr>)" "ok k"
      "\<And>op p. counted op \<Longrightarrow> int (refs k op p) = int (refs (drv s) op p) - hit (slot s t i) op p"
    using call_close_ahead [of "set_slot t i f' s" "slot s t i"] inv open_slot inv_refs_pos [OF inv t]
    by (auto simp: fd_inv_def)
  have "hit f' op p = 0" if "counted op" for op p using that clear null_uncounted by (auto simp: hit_def)
  then show ?thesis using k inv
    by (intro exI [of _ k]) (simp add: fd_inv_def ahead_def holders_set_slot [OF fin t])
qed

lemma copy_file_inv:
  assumes inv: "fd_inv L s" and t: "t \<in> L" "i < PROC_MAX_FDS" and u: "u \<in> L" "j < PROC_MAX_FDS" and free: "vf_ops (slot s u j) = 0"
    and f': "vf_ops f' = vf_ops (slot s t i)" "vf_priv f' = vf_priv (slot s t i)"
  shows "\<exists>k. call_dup vops f' (set_slot u j f' s) = Ret ((set_slot u j f' s)\<lparr>drv := k\<rparr>)
    \<and> fd_inv L ((set_slot u j f' s)\<lparr>drv := k\<rparr>)"
proof -
  have fin: "finite L" using inv by (simp add: fd_inv_def)
  obtain k where k: "call_dup vops f' (set_slot u j f' s) = Ret ((set_slot u j f' s)\<lparr>drv := k\<rparr>)" "ok k"
      "\<And>op p. counted op \<Longrightarrow> int (refs k op p) = int (refs (drv s) op p) + hit f' op p"
    using call_dup_ahead [of "set_slot u j f' s" f'] inv inv_refs_pos [OF inv t] inv_refs_bound [OF inv]
    by (auto simp: fd_inv_def f')
  have h: "hit (slot s u j) op p = 0" if "counted op" for op p using that free null_uncounted by (auto simp: hit_def)
  have "fd_inv L ((set_slot u j f' s)\<lparr>drv := k\<rparr>)"
    using k(2,3) inv h by (simp add: fd_inv_def ahead_def holders_set_slot [OF fin u])
  then show ?thesis using k(1) by blast
qed

lemma dup_into_inv:
  assumes inv: "fd_inv L s" and t: "t \<in> L" "i < PROC_MAX_FDS" "j < PROC_MAX_FDS" and free: "vf_ops (slot s t j) = 0"
  shows "\<exists>s'. dup_into vops t (slot s t i) j c s = Ret s' \<and> fd_inv L s'"
proof -
  define fl where "fl = vf_flags (slot s t i) AND NOT VFS_FD_CLOEXEC"
  define f' where "f' = (slot s t i)\<lparr>vf_flags := (if c then fl OR VFS_FD_CLOEXEC else fl)\<rparr>"
  have "dup_into vops t (slot s t i) j c s = call_dup vops f' (set_slot t j f' s)"
    by (simp only: dup_into_def Let_def fl_def f'_def)
  then show ?thesis using copy_file_inv [OF inv t(1,2) t(1,3) free, of f'] by (auto simp: f'_def)
qed

lemma sys_close_inv:
  assumes inv: "fd_inv L s" and t: "t \<in> L"
  shows "\<exists>s' r. sys_close vops t fd s = Ret (s', r) \<and> fd_inv L s'"
proof (cases "of_nat PROC_MAX_FDS \<le> fd \<or> vf_ops (slot s t (unat fd)) = 0")
  case False
  then have i: "unat fd < PROC_MAX_FDS" by (simp add: fd_less)
  show ?thesis using clear_then_close [OF inv t i, of "(slot s t (unat fd))\<lparr>vf_ops := 0, vf_priv := 0\<rparr>"] False
    by (auto simp: sys_close_def Let_def)
qed (auto simp: sys_close_def Let_def inv)

lemma sys_dup_inv:
  assumes inv: "fd_inv L s" and t: "t \<in> L"
  shows "\<exists>s' r. sys_dup vops t fd s = Ret (s', r) \<and> fd_inv L s'"
proof (cases "of_nat PROC_MAX_FDS \<le> fd \<or> vf_ops (slot s t (unat fd)) = 0")
  case False
  then have i: "unat fd < PROC_MAX_FDS" by (simp add: fd_less)
  show ?thesis
  proof (cases "free_fd s t 0")
    case (Some j)
    with free_fd_Some [OF Some] dup_into_inv [OF inv t i, of j False] show ?thesis
      using False by (auto simp: sys_dup_def)
  qed (use False inv in \<open>auto simp: sys_dup_def\<close>)
qed (auto simp: sys_dup_def inv)

lemma sys_dup2_inv:
  assumes inv: "fd_inv L s" and t: "t \<in> L"
  shows "\<exists>s' r. sys_dup2 vops t fd fd2 s = Ret (s', r) \<and> fd_inv L s'"
proof (cases "of_nat PROC_MAX_FDS \<le> fd \<or> vf_ops (slot s t (unat fd)) = 0 \<or> of_nat PROC_MAX_FDS \<le> fd2 \<or> fd = fd2")
  case False
  then have i: "unat fd < PROC_MAX_FDS" "unat fd2 < PROC_MAX_FDS" "unat fd \<noteq> unat fd2"
    by (simp_all add: fd_less word_unat_eq_iff)
  define closed where "closed = (if vf_ops (slot s t (unat fd2)) \<noteq> 0
      then case call_close vops (slot s t (unat fd2)) s of
             Panic m \<Rightarrow> Panic m | Ret s1 \<Rightarrow> Ret (set_slot t (unat fd2) null_file s1)
      else Ret s)"
  obtain s2 where s2: "closed = Ret s2" "fd_inv L s2" "vf_ops (slot s2 t (unat fd2)) = 0"
  proof (cases "vf_ops (slot s t (unat fd2)) = 0")
    case True
    with that [of s] inv show ?thesis by (simp add: closed_def)
  next
    case False
    with close_then_clear [OF inv t i(2) False, of null_file] that show ?thesis
      by (auto simp: closed_def null_file_def slot_set_slot)
  qed
  show ?thesis using dup_into_inv [OF s2(2) t i(1,2) s2(3), of False] False s2(1)
    by (auto simp: sys_dup2_def closed_def [symmetric])
qed (auto simp: sys_dup2_def inv)

lemma set_flags_inv:
  assumes inv: "fd_inv L s" and t: "t \<in> L" "i < PROC_MAX_FDS"
    and f: "vf_ops f = vf_ops (slot s t i)" "vf_priv f = vf_priv (slot s t i)"
  shows "fd_inv L (set_slot t i f s)"
proof -
  have "finite L" using inv by (simp add: fd_inv_def)
  then show ?thesis using inv t f by (simp add: fd_inv_def ahead_def holders_set_slot hit_def)
qed

lemma setnb_inv: "fd_inv L s \<Longrightarrow> fd_inv L (s\<lparr>drv := op_setnb (vops op) p b (drv s)\<rparr>)"
  using setnb_keeps by (simp add: fd_inv_def ahead_def)

lemma sys_fcntl_inv:
  assumes inv: "fd_inv L s" and t: "t \<in> L"
  shows "\<exists>s' r. sys_fcntl vops t fd cmd arg s = Ret (s', r) \<and> fd_inv L s'"
proof (cases "of_nat PROC_MAX_FDS \<le> fd \<or> vf_ops (slot s t (unat fd)) = 0")
  case False
  then have i: "unat fd < PROC_MAX_FDS" by (simp add: fd_less)
  let ?f = "slot s t (unat fd)"
  note flags = set_flags_inv [OF inv t i]
  consider "cmd = 1 \<or> cmd = 3" | "cmd = 2" | "cmd = 4" | "cmd = 0 \<or> cmd = 1030" | "cmd \<notin> {0, 1, 2, 3, 4, 1030}" by blast
  then show ?thesis
  proof cases
    case 3
    with False setnb_inv [OF flags [of "?f\<lparr>vf_flags := (vf_flags ?f AND NOT 0x800) OR (ucast arg AND 0x800)\<rparr>"],
        of "vf_ops ?f" "vf_priv ?f" "arg AND 0x800 \<noteq> 0"]
    show ?thesis by (simp add: sys_fcntl_def Let_def)
  next
    case 4
    show ?thesis
    proof (cases "free_fd s t (unat (ucast arg :: u32))")
      case None
      with 4 False inv show ?thesis by (auto simp: sys_fcntl_def Let_def)
    next
      case (Some j)
      with free_fd_Some [OF Some] dup_into_inv [OF inv t i, of j "cmd = 1030"] 4 False show ?thesis
        by (auto simp: sys_fcntl_def Let_def)
    qed
  qed (use False inv flags setnb_inv in \<open>auto simp: sys_fcntl_def Let_def\<close>)
qed (auto simp: sys_fcntl_def Let_def inv)

lemma sys_lseek_inv: "fd_inv L s \<Longrightarrow> t \<in> L \<Longrightarrow> fd_inv L (fst (sys_lseek t fd off whence s))"
  by (auto simp: sys_lseek_def Let_def fd_less split: option.splits intro!: set_flags_inv)

lemma exec_close_inv:
  assumes inv: "fd_inv L s" and t: "t \<in> L"
  shows "\<exists>s'. exec_close_fds vops t s = Ret (s', 0) \<and> fd_inv L s'
    \<and> (\<forall>i<PROC_MAX_FDS. vf_ops (slot s' t i) = 0 \<or> vf_flags (slot s' t i) AND VFS_FD_CLOEXEC = 0)"
proof -
  let ?J = "\<lambda>n s. fd_inv L s \<and> (\<forall>i<n. vf_ops (slot s t i) = 0 \<or> vf_flags (slot s t i) AND VFS_FD_CLOEXEC = 0)"
  have "\<exists>s'. cloexec_one vops t i s = Ret (s', 0) \<and> ?J (Suc i) s'" if i: "i < PROC_MAX_FDS" and J: "?J i s" for i s
  proof (cases "vf_ops (slot s t i) \<noteq> 0 \<and> vf_flags (slot s t i) AND VFS_FD_CLOEXEC \<noteq> 0")
    case True
    with close_then_clear [OF conjunct1 [OF J] t i, of null_file] J show ?thesis
      by (auto simp: cloexec_one_def null_file_def slot_set_slot less_Suc_eq)
  next
    case False
    then show ?thesis using J by (auto simp: cloexec_one_def less_Suc_eq)
  qed
  from for_each_progress [where J = ?J and B = "{}", OF _ this] show ?thesis
    using inv by (simp add: exec_close_fds_def)
qed

lemma slot_set_refcount [simp]: "slot (set_refcount t r s) u i = slot s u i"
  by (simp add: slot_def set_refcount_def)

lemma drv_set_refcount [simp]: "drv (set_refcount t r s) = drv s"
  by (simp add: set_refcount_def)

lemma set_refcount_inv [simp]: "fd_inv L (set_refcount t r s) = fd_inv L s"
  by (simp add: fd_inv_def ahead_def holders_def tab_hits_def)

text \<open>Releasing the last reference to a table closes all its descriptors.\<close>

lemma unref_loop:
  assumes inv: "fd_inv L s" and t: "t \<in> L"
  shows "\<exists>s'. for_each (unref_slot vops t) [0..<PROC_MAX_FDS] s = Ret (s', 0) \<and> fd_inv L s'
    \<and> (\<forall>i<PROC_MAX_FDS. vf_ops (slot s' t i) = 0) \<and> (\<forall>u. fdt_refcount (fd_tables s' u) = fdt_refcount (fd_tables s u))"
proof -
  let ?J = "\<lambda>n s'. fd_inv L s' \<and> (\<forall>i<n. vf_ops (slot s' t i) = 0)
    \<and> (\<forall>u. fdt_refcount (fd_tables s' u) = fdt_refcount (fd_tables s u))"
  have "\<exists>s'. unref_slot vops t i s = Ret (s', 0) \<and> ?J (Suc i) s'" if i: "i < PROC_MAX_FDS" and J: "?J i s" for i s
  proof (cases "vf_ops (slot s t i) = 0")
    case True
    then show ?thesis using J by (auto simp: unref_slot_def less_Suc_eq)
  next
    case False
    obtain k where k: "call_close vops (slot s t i) s = Ret (s\<lparr>drv := k\<rparr>)"
        "fd_inv L (set_slot t i ((slot s t i)\<lparr>vf_ops := 0\<rparr>) (s\<lparr>drv := k\<rparr>))"
      using close_then_clear [OF conjunct1 [OF J] t i False, of "(slot s t i)\<lparr>vf_ops := 0\<rparr>"] by auto
    moreover have "op_close (vops (vf_ops (slot s t i))) \<noteq> None" using k(1) by (auto simp: call_close_def split: option.splits)
    ultimately show ?thesis using False J
      by (auto simp: unref_slot_def slot_set_slot less_Suc_eq)
  qed
  from for_each_progress [where J = ?J and B = "{}", OF _ this] show ?thesis using inv by simp
qed

lemma drop_table_inv:
  assumes inv: "fd_inv L s" and empty: "\<forall>i<PROC_MAX_FDS. vf_ops (slot s t i) = 0"
  shows "fd_inv (L - {t}) s"
proof -
  have fin: "finite L" using inv by (simp add: fd_inv_def)
  have z: "tab_hits s t op p = 0" if "counted op" for op p
    unfolding tab_hits_def using empty that null_uncounted by (intro sum.neutral) (auto simp: hit_def)
  have "holders (L - {t}) s op p = holders L s op p" if "counted op" for op p
    using z [OF that, of p] sum_diff1 [OF fin, of "\<lambda>u. tab_hits s u op p" t] by (auto simp: holders_def)
  moreover have "card (L - {t}) \<le> card L" by (rule card_mono [OF fin]) blast
  ultimately show ?thesis using inv by (auto simp: fd_inv_def ahead_def)
qed

lemma fd_table_unref_inv:
  assumes inv: "fd_inv L s" and t: "t \<in> L" "t \<noteq> 0"
  shows "\<exists>s'. fd_table_unref vops t s = Ret (s', \<not> 1 < fdt_refcount (fd_tables s t))
    \<and> fd_inv (if 1 < fdt_refcount (fd_tables s t) then L else L - {t}) s'
    \<and> (\<forall>u. fdt_refcount (fd_tables s' u) = fdt_refcount (fd_tables s u) - (if u = t then 1 else 0))"
proof (cases "1 < fdt_refcount (fd_tables s t)")
  case True
  then show ?thesis using inv t by (simp add: fd_table_unref_def Let_def set_refcount_def) (simp add: set_refcount_def [symmetric])
next
  case False
  let ?s = "set_refcount t (fdt_refcount (fd_tables s t) - 1) s"
  obtain s' where s': "for_each (unref_slot vops t) [0..<PROC_MAX_FDS] ?s = Ret (s', 0)" "fd_inv L s'"
      "\<forall>i<PROC_MAX_FDS. vf_ops (slot s' t i) = 0" "\<And>u. fdt_refcount (fd_tables s' u) = fdt_refcount (fd_tables ?s u)"
    using unref_loop [of L ?s t] inv t by auto
  have "fd_inv (L - {t}) s'" by (rule drop_table_inv [OF s'(2,3)])
  moreover have "fd_table_unref vops t s = Ret (s', True)" using False t s'(1) by (simp add: fd_table_unref_def Let_def)
  ultimately show ?thesis using False s'(4) by (simp add: set_refcount_def)
qed

text \<open>A table copied by \<^verbatim>\<open>fork\<close>: after \<open>n\<close> calls of \<^verbatim>\<open>dup\<close> the counts cover the first \<open>n\<close> descriptors of the copy.\<close>

lemma copy_loop:
  assumes inv: "fd_inv L s" and src: "src \<in> L" and room: "16 * card L + 16 < limit"
    and s1: "drv s1 = drv s" "\<forall>i<PROC_MAX_FDS. slot s1 dst i = slot s src i"
  shows "\<exists>k. for_each (copy_dup vops dst) [0..<PROC_MAX_FDS] s1 = Ret (s1\<lparr>drv := k\<rparr>, 0) \<and> ok k
    \<and> (\<forall>op p. counted op \<longrightarrow> int (refs k op p) = holders L s op p + tab_hits s src op p)"
proof -
  let ?J = "\<lambda>n s'. \<exists>k. s' = s1\<lparr>drv := k\<rparr> \<and> ok k
    \<and> (\<forall>op p. counted op \<longrightarrow> int (refs k op p) = holders L s op p + (\<Sum>i<n. hit (slot s src i) op p))"
  have fin: "finite L" using inv by (simp add: fd_inv_def)
  have "\<exists>s''. copy_dup vops dst i s' = Ret (s'', 0) \<and> ?J (Suc i) s''" if i: "i < PROC_MAX_FDS" and J: "?J i s'" for i s'
  proof -
    obtain k where k: "s' = s1\<lparr>drv := k\<rparr>" "ok k"
        "\<And>op p. counted op \<Longrightarrow> int (refs k op p) = holders L s op p + (\<Sum>j<i. hit (slot s src j) op p)"
      using J by blast
    let ?f = "slot s src i"
    have f: "slot s' dst i = ?f" using s1(2) i k(1) by simp
    show ?thesis
    proof (cases "vf_ops ?f = 0")
      case True
      then have "hit ?f op p = 0" if "counted op" for op p using that null_uncounted by (auto simp: hit_def)
      then show ?thesis using True f k by (auto simp: copy_dup_def)
    next
      case False
      have le: "(\<Sum>j<i. hit (slot s src j) op p) \<le> 16" for op p
      proof -
        have "(\<Sum>j<i. hit (slot s src j) op p) \<le> (\<Sum>j<i. 1)" by (rule sum_mono) simp
        then show ?thesis using i by (simp add: PROC_MAX_FDS_def)
      qed
      have ge: "0 \<le> (\<Sum>j<i. hit (slot s src j) op p)" for op p by (simp add: sum_nonneg)
      have "0 < refs k (vf_ops ?f) (vf_priv ?f) \<and> refs k (vf_ops ?f) (vf_priv ?f) < limit" if c: "counted (vf_ops ?f)"
        using k(3) [OF c, of "vf_priv ?f"] le [of "vf_ops ?f" "vf_priv ?f"] ge [of "vf_ops ?f" "vf_priv ?f"] room
          slot_holds [OF fin src i, of s] holders_bounds(2) [of L s "vf_ops ?f" "vf_priv ?f"] by linarith
      then obtain k' where k': "call_dup vops ?f s' = Ret (s'\<lparr>drv := k'\<rparr>)" "ok k'"
          "\<And>op p. counted op \<Longrightarrow> int (refs k' op p) = int (refs k op p) + hit ?f op p"
        using call_dup_ahead [of s' ?f] k(1,2) by auto
      then have "?J (Suc i) (s'\<lparr>drv := k'\<rparr>)" using k by (intro exI [of _ k']) simp
      then show ?thesis using False f k'(1) by (simp add: copy_dup_def)
    qed
  qed
  moreover have "?J 0 s1" using inv s1(1) by (intro exI [of _ "drv s"]) (simp add: fd_inv_def ahead_def)
  ultimately have "\<exists>s'. for_each (copy_dup vops dst) [0..<PROC_MAX_FDS] s1 = Ret (s', 0) \<and> ?J PROC_MAX_FDS s'"
    by (intro for_each_progress [where J = ?J and B = "{}"]) simp_all
  then show ?thesis by (auto simp: tab_hits_def)
qed

lemma new_table_inv:
  assumes inv: "fd_inv L s" and page: "page \<notin> L" and room: "16 * card L + 16 < limit" and k: "ok (drv s')"
    and others: "\<And>u i. u \<noteq> page \<Longrightarrow> slot s' u i = slot s u i"
    and counts: "\<And>op p. counted op \<Longrightarrow> int (refs (drv s') op p) = holders L s op p + tab_hits s' page op p"
  shows "fd_inv (insert page L) s'"
proof -
  have fin: "finite L" using inv by (simp add: fd_inv_def)
  have "holders L s' op p = holders L s op p" for op p
    by (rule holders_cong, rule others) (use page in auto)
  then have "holders (insert page L) s' op p = holders L s op p + tab_hits s' page op p" for op p
    using fin page by (simp add: holders_def)
  then show ?thesis using fin page room k counts by (simp add: fd_inv_def ahead_def)
qed

lemma fd_table_copy_inv:
  assumes inv: "fd_inv L s" and src: "src \<in> L" "src \<noteq> 0" and page: "page \<notin> L" "page \<noteq> 0"
    and room: "16 * card L + 16 < limit"
  shows "\<exists>s'. fd_table_copy vops src page s = Ret (s', page) \<and> fd_inv (insert page L) s'
    \<and> (\<forall>i<PROC_MAX_FDS. slot s' page i = slot s src i) \<and> (\<forall>u i. u \<noteq> page \<longrightarrow> slot s' u i = slot s u i)
    \<and> (\<forall>u. fdt_refcount (fd_tables s' u) = (if u = page then 1 else fdt_refcount (fd_tables s u)))"
proof -
  define s1 where "s1 = s\<lparr>fd_tables := (fd_tables s)(page := (fd_tables s page)\<lparr>fds :=
                 \<lambda>i. if i < PROC_MAX_FDS then slot s src i else slot s page i\<rparr>)\<rparr>"
  have s1: "drv s1 = drv s" "\<forall>i<PROC_MAX_FDS. slot s1 page i = slot s src i" by (simp_all add: s1_def slot_def)
  obtain k where k: "for_each (copy_dup vops page) [0..<PROC_MAX_FDS] s1 = Ret (s1\<lparr>drv := k\<rparr>, 0)" "ok k"
      "\<And>op p. counted op \<Longrightarrow> int (refs k op p) = holders L s op p + tab_hits s src op p"
    using copy_loop [OF inv src(1) room s1] by blast
  define s' where "s' = set_refcount page 1 (s1\<lparr>drv := k\<rparr>)"
  have sl: "slot s' page i = slot s src i" if "i < PROC_MAX_FDS" for i using that s1(2) by (simp add: s'_def)
  then have "tab_hits s' page op p = tab_hits s src op p" for op p by (simp add: tab_hits_def)
  then have "fd_inv (insert page L) s'" using k(2,3)
    by (intro new_table_inv [OF inv page(1) room]) (simp_all add: s'_def s1_def slot_def set_refcount_def)
  moreover have "fd_table_copy vops src page s = Ret (s', page)"
    using src page k(1) by (simp add: fd_table_copy_def Let_def s1_def [symmetric] s'_def)
  ultimately show ?thesis using sl by (simp add: s'_def s1_def slot_def set_refcount_def)
qed

lemma fd_table_alloc_inv:
  assumes inv: "fd_inv L s" and page: "page \<notin> L" "page \<noteq> 0" and room: "16 * card L + 16 < limit"
  shows "fd_inv (insert page L) (fst (fd_table_alloc page s))"
proof (rule new_table_inv [OF inv page(1) room])
  let ?s = "fst (fd_table_alloc page s)"
  have "vf_ops (slot ?s page i) = 0" if "i < PROC_MAX_FDS" for i using that page by (simp add: fd_table_alloc_def slot_def)
  then have "tab_hits ?s page op p = 0" if "counted op" for op p
    unfolding tab_hits_def using that null_uncounted by (intro sum.neutral) (auto simp: hit_def)
  then show "int (refs (drv ?s) op p) = holders L s op p + tab_hits ?s page op p" if "counted op" for op p
    using that inv page by (simp add: fd_table_alloc_def fd_inv_def ahead_def)
qed (use inv page in \<open>simp_all add: fd_table_alloc_def slot_def fd_inv_def\<close>)

lemma spawn_fds_inv:
  assumes inv: "fd_inv L s" and t: "t \<in> L" and page: "page \<notin> L" "page \<noteq> 0" and room: "16 * card L + 16 < limit"
  shows "\<exists>s'. spawn_fds vops t page sfd s = Ret (s', page) \<and> fd_inv (insert page L) s'"
proof -
  define s1 where "s1 = fst (fd_table_alloc page s)"
  have al: "fd_table_alloc page s = (s1, page)" using page by (simp add: s1_def fd_table_alloc_def)
  have I1: "fd_inv (insert page L) s1" unfolding s1_def by (rule fd_table_alloc_inv [OF inv page room])
  have free: "vf_ops (slot s1 page i) = 0" if "i < PROC_MAX_FDS" for i
    using that page by (simp add: s1_def fd_table_alloc_def slot_def)
  show ?thesis
  proof (cases "0 \<le> sint sfd \<and> sint sfd < int PROC_MAX_FDS \<and> vf_ops (slot s1 t (nat (sint sfd))) \<noteq> 0")
    case True
    then have i: "nat (sint sfd) < PROC_MAX_FDS" by linarith
    let ?J = "\<lambda>n s'. fd_inv (insert page L) s' \<and> (\<forall>j. n \<le> j \<longrightarrow> j < PROC_MAX_FDS \<longrightarrow> vf_ops (slot s' page j) = 0)"
    have "\<exists>s''. spawn_copy vops t page (nat (sint sfd)) n s' = Ret (s'', 0) \<and> ?J (Suc n) s''" if n: "n < 3" and J: "?J n s'" for n s'
    proof -
      have n': "n < PROC_MAX_FDS" "vf_ops (slot s' page n) = 0" using n J by (simp_all add: PROC_MAX_FDS_def)
      from copy_file_inv [OF conjunct1 [OF J] insertI2 [OF t] i insertI1 n', of "slot s' t (nat (sint sfd))"]
      show ?thesis using J by (auto simp: spawn_copy_def Let_def slot_set_slot)
    qed
    moreover have "?J 0 s1" using I1 free by blast
    ultimately have "\<exists>s2. for_each (spawn_copy vops t page (nat (sint sfd))) [0..<3] s1 = Ret (s2, 0) \<and> ?J 3 s2"
      by (intro for_each_progress [where J = ?J and B = "{}"]) simp_all
    then show ?thesis using True al page by (auto simp: spawn_fds_def)
  next
    case False
    then show ?thesis using al I1 page by (auto simp: spawn_fds_def Let_def)
  qed
qed

text \<open>A descriptor for a handle that the driver has just created.\<close>

lemma install_inv:
  assumes inv: "fd_inv L s" and t: "t \<in> L" "i < PROC_MAX_FDS" and free: "vf_ops (slot s t i) = 0"
    and k: "ok k" "\<And>op p. counted op \<Longrightarrow> int (refs k op p) = int (refs (drv s) op p) + hit f op p"
  shows "fd_inv L ((set_slot t i f s)\<lparr>drv := k\<rparr>)"
proof -
  have fin: "finite L" using inv by (simp add: fd_inv_def)
  have "hit (slot s t i) op p = 0" if "counted op" for op p using that free null_uncounted by (auto simp: hit_def)
  then show ?thesis using inv k by (simp add: fd_inv_def ahead_def holders_set_slot [OF fin t])
qed

lemmas fd_call_inv = sys_close_inv sys_dup_inv sys_dup2_inv sys_fcntl_inv

end

section \<open>The reference counts of tables\<close>

definition same_counts :: "'k fdst \<Rightarrow> 'k fdst \<Rightarrow> bool" where
  "same_counts s s' \<longleftrightarrow> (\<forall>u. fdt_refcount (fd_tables s' u) = fdt_refcount (fd_tables s u))"

lemma same_counts_simps [simp]:
  "same_counts s s" "same_counts s (s'\<lparr>drv := k\<rparr>) = same_counts s s'" "same_counts s (set_slot t i f s') = same_counts s s'"
  by (simp_all add: same_counts_def)

lemma call_counts:
  "call_close vops f s = Ret s' \<Longrightarrow> same_counts s0 s' = same_counts s0 s"
  "call_dup vops f s = Ret s' \<Longrightarrow> same_counts s0 s' = same_counts s0 s"
  by (auto simp: call_close_def call_dup_def split: option.splits kres.splits)

lemma for_each_same_counts:
  assumes "for_each body xs s = Ret (s', r)" "\<And>i s s' r. body i s = Ret (s', r) \<Longrightarrow> same_counts s s'"
  shows "same_counts s s'"
  using assms(1)
proof (induction xs arbitrary: s)
  case (Cons i xs)
  then obtain s1 r1 where "body i s = Ret (s1, r1)" "s' = s1 \<or> for_each body xs s1 = Ret (s', r)"
    by (auto split: kres.splits prod.splits if_splits)
  then show ?case using assms(2) [of i s s1 r1] Cons.IH [of s1] by (auto simp: same_counts_def)
qed simp

lemma fd_calls_counts:
  "sys_close vops t fd s = Ret (s', r) \<Longrightarrow> same_counts s s'"
  "sys_dup vops t fd s = Ret (s', r) \<Longrightarrow> same_counts s s'"
  "sys_dup2 vops t fd fd2 s = Ret (s', r) \<Longrightarrow> same_counts s s'"
  "sys_fcntl vops t fd cmd arg s = Ret (s', r) \<Longrightarrow> same_counts s s'"
  "same_counts s (fst (sys_lseek t fd off whence s))"
  by (auto simp: sys_close_def sys_dup_def sys_dup2_def sys_fcntl_def sys_lseek_def dup_into_def Let_def call_counts
      split: if_splits kres.splits option.splits)

lemma cloexec_counts: "exec_close_fds vops t s = Ret (s', r) \<Longrightarrow> same_counts s s'"
  unfolding exec_close_fds_def
  by (erule for_each_same_counts) (auto simp: cloexec_one_def call_counts split: if_splits kres.splits)

lemma spawn_counts:
  assumes "spawn_fds vops parent page sfd s = Ret (s', page)" "page \<noteq> 0"
  shows "fdt_refcount (fd_tables s' u) = (if u = page then 1 else fdt_refcount (fd_tables s u))"
proof -
  define s1 where "s1 = fst (fd_table_alloc page s)"
  have al: "fd_table_alloc page s = (s1, page)" using assms(2) by (simp add: s1_def fd_table_alloc_def)
  have "same_counts s1 s'" using assms al
    by (auto simp: spawn_fds_def Let_def spawn_copy_def call_counts elim!: for_each_same_counts
        split: if_splits kres.splits prod.splits)
  then show ?thesis using assms(2) by (simp add: same_counts_def s1_def fd_table_alloc_def)
qed

end
