(* ===== verification/Byte_Queue.thy ===== *)
theory Byte_Queue
  imports Aegis_Prelude
begin

text \<open>
  The contract of a bounded byte stream that several parties use through operations that may each
  accept bytes at one end and deliver bytes at the other.  The ring buffers of the
  kernel fulfil it.
\<close>

locale byte_queue =
  fixes exec :: "'p \<Rightarrow> 's \<Rightarrow> 's"
    and accepted :: "'p \<Rightarrow> 's \<Rightarrow> u8 list"
    and delivered :: "'p \<Rightarrow> 's \<Rightarrow> u8 list"
    and contents :: "'s \<Rightarrow> u8 list"
    and ok :: "'s \<Rightarrow> bool"
    and capacity :: nat
  assumes exec_ok: "ok s \<Longrightarrow> ok (exec p s)"
    and fifo: "ok s \<Longrightarrow> contents s @ accepted p s = delivered p s @ contents (exec p s)"
    and bounded: "ok s \<Longrightarrow> length (contents s) \<le> capacity"
begin

fun runs :: "'p list \<Rightarrow> 's \<Rightarrow> 's" where
  "runs [] s = s"
| "runs (p # ps) s = runs ps (exec p s)"

fun accepted_by :: "'p list \<Rightarrow> 's \<Rightarrow> u8 list" where
  "accepted_by [] s = []"
| "accepted_by (p # ps) s = accepted p s @ accepted_by ps (exec p s)"

fun delivered_by :: "'p list \<Rightarrow> 's \<Rightarrow> u8 list" where
  "delivered_by [] s = []"
| "delivered_by (p # ps) s = delivered p s @ delivered_by ps (exec p s)"

lemma runs_ok: "ok s \<Longrightarrow> ok (runs ps s)"
  by (induction ps arbitrary: s) (auto simp: exec_ok)

lemma runs_fifo: "ok s \<Longrightarrow> contents s @ accepted_by ps s = delivered_by ps s @ contents (runs ps s)"
proof (induction ps arbitrary: s)
  case (Cons p ps)
  have "contents s @ accepted p s @ accepted_by ps (exec p s)
      = (delivered p s @ contents (exec p s)) @ accepted_by ps (exec p s)"
    using fifo [OF Cons.prems, of p] by simp
  also have "\<dots> = delivered p s @ delivered_by ps (exec p s) @ contents (runs ps (exec p s))"
    using Cons.IH [OF exec_ok [OF Cons.prems]] by simp
  finally show ?case by simp
qed simp

lemma stream_prefix:
  assumes "ok s" "contents s = []"
  shows "accepted_by ps s = delivered_by ps s @ contents (runs ps s)"
    "length (contents (runs ps s)) \<le> capacity"
  using runs_fifo [OF assms(1), of ps] assms bounded [OF runs_ok] by simp_all

end

section \<open>Ring buffers\<close>

text \<open>The \<open>n\<close> elements of a ring of size \<open>m\<close> from position \<open>p\<close> on.\<close>

definition ring :: "(nat \<Rightarrow> 'a) \<Rightarrow> nat \<Rightarrow> nat \<Rightarrow> nat \<Rightarrow> 'a list" where
  "ring b m p n = map (\<lambda>i. b ((p + i) mod m)) [0..<n]"

lemma length_ring [simp]: "length (ring b m p n) = n"
  by (simp add: ring_def)

lemma ring_nth: "i < n \<Longrightarrow> ring b m p n ! i = b ((p + i) mod m)"
  by (simp add: ring_def)

lemma ring_split: "k \<le> n \<Longrightarrow> ring b m p n = ring b m p k @ ring b m ((p + k) mod m) (n - k)"
proof (rule nth_equalityI)
  assume k: "k \<le> n"
  fix i assume i: "i < length (ring b m p n)"
  show "ring b m p n ! i = (ring b m p k @ ring b m ((p + k) mod m) (n - k)) ! i"
  proof (cases "i < k")
    case False
    then obtain j where j: "i = k + j" by (metis le_add_diff_inverse not_less)
    have "((p + k) mod m + j) mod m = (p + i) mod m" unfolding j by (simp add: mod_add_left_eq add.assoc)
    then show ?thesis using i k j by (simp add: ring_nth nth_append)
  qed (use i k in \<open>simp add: ring_nth nth_append\<close>)
qed simp

lemma wrap_mod:
  fixes p k m :: nat
  assumes "p < m" "k < m" "\<not> k < m - p"
  shows "(p + k) mod m = k - (m - p)"
proof -
  have "p + k = k - (m - p) + m" "k - (m - p) < m" using assms by auto
  then show ?thesis by (metis mod_add_self2 mod_less)
qed

text \<open>Reading in two pieces at the end of the buffer.\<close>

definition ring_get :: "(nat \<Rightarrow> 'a) \<Rightarrow> nat \<Rightarrow> nat \<Rightarrow> nat \<Rightarrow> 'a list" where
  "ring_get b m p n = (let first = min (m - p) n in
     map b [p..<p + first] @ (if first < n then map b [0..<n - first] else []))"

lemma ring_get_eq:
  assumes "p < m" "n \<le> m"
  shows "ring_get b m p n = ring b m p n"
proof (rule nth_equalityI)
  show "length (ring_get b m p n) = length (ring b m p n)" by (auto simp: ring_get_def Let_def)
  fix i assume i: "i < length (ring_get b m p n)"
  then have "i < n" by (auto simp: ring_get_def Let_def split: if_splits)
  show "ring_get b m p n ! i = ring b m p n ! i"
  proof (cases "i < m - p")
    case True
    then show ?thesis using \<open>i < n\<close> by (simp add: ring_get_def Let_def nth_append ring_nth)
  next
    case False
    then have "(p + i) mod m = i - (m - p)" using \<open>i < n\<close> assms by (intro wrap_mod) simp_all
    then show ?thesis using False \<open>i < n\<close> assms by (simp add: ring_get_def Let_def nth_append ring_nth min_def)
  qed
qed

text \<open>Writing in two pieces.\<close>

definition ring_put :: "(nat \<Rightarrow> 'a) \<Rightarrow> nat \<Rightarrow> nat \<Rightarrow> nat \<Rightarrow> (nat \<Rightarrow> 'a) \<Rightarrow> (nat \<Rightarrow> 'a)" where
  "ring_put b m p n src = (let first = min (m - p) n;
     b1 = (\<lambda>i. if p \<le> i \<and> i < p + first then src (i - p) else b i)
     in if first < n then (\<lambda>i. if i < n - first then src (first + i) else b1 i) else b1)"

lemma ring_put_new:
  assumes "p < m" "n \<le> m" "k < n"
  shows "ring_put b m p n src ((p + k) mod m) = src k"
proof (cases "k < m - p")
  case True
  then show ?thesis using assms by (auto simp: ring_put_def Let_def)
next
  case False
  then have "(p + k) mod m = k - (m - p)" using assms by (intro wrap_mod) simp_all
  then show ?thesis using False assms by (auto simp: ring_put_def Let_def min_def)
qed

lemma ring_put_old:
  assumes "p < m" "n \<le> m" "n \<le> k" "k < m"
  shows "ring_put b m p n src ((p + k) mod m) = b ((p + k) mod m)"
proof (cases "k < m - p")
  case True
  then show ?thesis using assms by (auto simp: ring_put_def Let_def)
next
  case False
  then have "(p + k) mod m = k - (m - p)" using assms by (intro wrap_mod) simp_all
  then show ?thesis using False assms by (auto simp: ring_put_def Let_def min_def)
qed

lemma ring_put_append:
  assumes "p < m" "c + n \<le> m" "w = (p + c) mod m"
  shows "ring (ring_put b m w n src) m p (c + n) = ring b m p c @ map src [0..<n]"
proof (rule nth_equalityI)
  fix i assume "i < length (ring (ring_put b m w n src) m p (c + n))"
  then have i: "i < c + n" by simp
  have wm: "w < m" using assms by simp
  show "ring (ring_put b m w n src) m p (c + n) ! i = (ring b m p c @ map src [0..<n]) ! i"
  proof (cases "i < c")
    case True
    have "(w + (m - c + i)) mod m = (p + c + (m - c + i)) mod m" by (simp add: assms(3) mod_add_left_eq)
    also have "p + c + (m - c + i) = p + i + m" using assms(2) by simp
    finally have "(w + (m - c + i)) mod m = (p + i) mod m" by simp
    then have "ring_put b m w n src ((p + i) mod m) = b ((p + i) mod m)"
      using ring_put_old [OF wm, of n "m - c + i" b src] assms(2) True by simp
    then show ?thesis using True i by (simp add: ring_nth nth_append)
  next
    case False
    have "(w + (i - c)) mod m = (p + c + (i - c)) mod m" by (simp add: assms(3) mod_add_left_eq)
    then have "(w + (i - c)) mod m = (p + i) mod m" using False by simp
    then have "ring_put b m w n src ((p + i) mod m) = src (i - c)"
      using ring_put_new [OF wm, of n "i - c" b src] assms(2) False i by simp
    then show ?thesis using False i by (simp add: ring_nth nth_append)
  qed
qed simp

end
