(* ===== verification/Pipe.thy ===== *)
theory Pipe
  imports Byte_Queue
begin

text \<open>
  Pipes, \<^verbatim>\<open>kernel/fs/pipe.c\<close>.  One pass through the body of the retry loop of a read or write is an
  operation on the pipe; it finishes the call or puts the caller to sleep.  The environment
  function of a whole call gives the state of the pipe that the caller finds when it has been
  woken up.  Wake-ups, the signal and the release of the page are returned as effects.
\<close>

section \<open>Model\<close>

definition PIPE_BUF_SIZE :: nat where "PIPE_BUF_SIZE = 4024"

record pipe =
  p_buf :: "nat \<Rightarrow> u8"
  read_pos :: u32
  write_pos :: u32
  p_count :: u32
  read_refs :: u32
  write_refs :: u32
  reader_waiting :: u64
  writer_waiting :: u64

datatype pipe_effect = Sched_wake u64 | Wake_read_waiters | Wake_write_waiters | Send_sigpipe | Kva_free

datatype io_result = Io_block | Io_ret int

text \<open>A pipe as \<^verbatim>\<open>sys_pipe2\<close> creates it.\<close>

definition new_pipe :: pipe where
  "new_pipe = \<lparr>p_buf = (\<lambda>_. 0), read_pos = 0, write_pos = 0, p_count = 0, read_refs = 1, write_refs = 1,
     reader_waiting = 0, writer_waiting = 0\<rparr>"

definition pipe_read_poll_fn :: "pipe \<Rightarrow> u16" where
  "pipe_read_poll_fn p =
    (if 0 < p_count p \<or> write_refs p = 0 then 0x0001 else 0) OR (if write_refs p = 0 then 0x0010 else 0)"

definition pipe_write_poll_fn :: "pipe \<Rightarrow> u16" where
  "pipe_write_poll_fn p =
    (if unat (p_count p) < PIPE_BUF_SIZE \<or> read_refs p = 0 then 0x0004 else 0)
     OR (if read_refs p = 0 then 0x0008 else 0)"

text \<open>The defensive reset of the indices.\<close>

definition pipe_norm :: "pipe \<Rightarrow> pipe" where
  "pipe_norm p = p\<lparr>read_pos := (if PIPE_BUF_SIZE \<le> unat (read_pos p) then 0 else read_pos p),
     write_pos := (if PIPE_BUF_SIZE \<le> unat (write_pos p) then 0 else write_pos p)\<rparr>"

definition wake_writer :: "pipe \<Rightarrow> pipe \<times> pipe_effect list" where
  "wake_writer p = (if writer_waiting p \<noteq> 0
     then (p\<lparr>writer_waiting := 0\<rparr>, [Sched_wake (writer_waiting p)]) else (p, []))"

definition wake_reader :: "pipe \<Rightarrow> pipe \<times> pipe_effect list" where
  "wake_reader p = (if reader_waiting p \<noteq> 0
     then (p\<lparr>reader_waiting := 0\<rparr>, [Sched_wake (reader_waiting p)]) else (p, []))"

definition pipe_read_try :: "u64 \<Rightarrow> u64 \<Rightarrow> pipe \<Rightarrow> pipe \<times> io_result \<times> u8 list \<times> pipe_effect list" where
  "pipe_read_try cur len p0 =
    (let p = pipe_norm p0 in
     if p_count p = 0 \<and> write_refs p = 0 then (p, Io_ret 0, [], [])
     else if p_count p = 0 then (p\<lparr>reader_waiting := cur\<rparr>, Io_block, [], [])
     else
       let n = (if p_count p < ucast len then p_count p else ucast len);
           out = ring_get (p_buf p) PIPE_BUF_SIZE (unat (read_pos p)) (unat n);
           p1 = p\<lparr>read_pos := (read_pos p + n) mod of_nat PIPE_BUF_SIZE, p_count := p_count p - n\<rparr>
       in case wake_writer p1 of (p2, eff) \<Rightarrow>
          (p2, Io_ret (int (unat n)), out, eff @ [Wake_write_waiters]))"

definition pipe_write_try ::
    "u64 \<Rightarrow> bool \<Rightarrow> (nat \<Rightarrow> u8) \<Rightarrow> u64 \<Rightarrow> pipe \<Rightarrow> pipe \<times> io_result \<times> u8 list \<times> pipe_effect list" where
  "pipe_write_try cur is_user buf len p0 =
    (let p = pipe_norm p0 in
     if read_refs p = 0
     then (p, Io_ret (-32), [], if cur \<noteq> 0 \<and> is_user then [Send_sigpipe] else [])
     else if unat (p_count p) = PIPE_BUF_SIZE then (p\<lparr>writer_waiting := cur\<rparr>, Io_block, [], [])
     else
       let avail = of_nat PIPE_BUF_SIZE - p_count p;
           n = (if avail < ucast len then avail else ucast len);
           p1 = p\<lparr>p_buf := ring_put (p_buf p) PIPE_BUF_SIZE (unat (write_pos p)) (unat n) buf,
                  write_pos := (write_pos p + n) mod of_nat PIPE_BUF_SIZE, p_count := p_count p + n\<rparr>
       in case wake_reader p1 of (p2, eff) \<Rightarrow>
          (p2, Io_ret (int (unat n)), map buf [0..<unat n], eff @ [Wake_read_waiters]))"

partial_function (option) pipe_read_fn ::
    "u64 \<Rightarrow> u64 \<Rightarrow> (nat \<Rightarrow> pipe \<Rightarrow> pipe) \<Rightarrow> nat \<Rightarrow> pipe \<Rightarrow> (pipe \<times> int \<times> u8 list) option" where
  [code]: "pipe_read_fn cur len env k p = (case pipe_read_try cur len p of
     (p', Io_block, _, _) \<Rightarrow> pipe_read_fn cur len env (Suc k) (env k p')
   | (p', Io_ret r, out, _) \<Rightarrow> Some (p', r, out))"

partial_function (option) pipe_write_fn ::
    "u64 \<Rightarrow> bool \<Rightarrow> (nat \<Rightarrow> u8) \<Rightarrow> u64 \<Rightarrow> (nat \<Rightarrow> pipe \<Rightarrow> pipe) \<Rightarrow> nat \<Rightarrow> pipe \<Rightarrow> (pipe \<times> int) option" where
  [code]: "pipe_write_fn cur is_user buf len env k p = (case pipe_write_try cur is_user buf len p of
     (p', Io_block, _, _) \<Rightarrow> pipe_write_fn cur is_user buf len env (Suc k) (env k p')
   | (p', Io_ret r, _, _) \<Rightarrow> Some (p', r))"

definition pipe_read_close_fn :: "pipe \<Rightarrow> pipe \<times> pipe_effect list" where
  "pipe_read_close_fn p =
    (case wake_writer (p\<lparr>read_refs := read_refs p - 1\<rparr>) of (p1, eff) \<Rightarrow>
     (p1, eff @ (if read_refs p1 = 0 then [Wake_write_waiters] else [])
            @ (if read_refs p1 = 0 \<and> write_refs p1 = 0 then [Kva_free] else [])))"

definition pipe_write_close_fn :: "pipe \<Rightarrow> pipe \<times> pipe_effect list" where
  "pipe_write_close_fn p =
    (case wake_reader (p\<lparr>write_refs := write_refs p - 1\<rparr>) of (p1, eff) \<Rightarrow>
     (p1, eff @ (if write_refs p1 = 0 then [Wake_read_waiters] else [])
            @ (if read_refs p1 = 0 \<and> write_refs p1 = 0 then [Kva_free] else [])))"

definition pipe_dup_read_fn :: "pipe \<Rightarrow> pipe" where
  "pipe_dup_read_fn p = p\<lparr>read_refs := read_refs p + 1\<rparr>"

definition pipe_dup_write_fn :: "pipe \<Rightarrow> pipe" where
  "pipe_dup_write_fn p = p\<lparr>write_refs := write_refs p + 1\<rparr>"

text \<open>Mode and size that \<^verbatim>\<open>fstat\<close> reports; the inode number is 0.\<close>

definition pipe_stat_fn :: "pipe \<Rightarrow> u32 \<times> u64" where
  "pipe_stat_fn p = (0x1180, ucast (p_count p))"

section \<open>The ring\<close>

definition pipe_ok :: "pipe \<Rightarrow> bool" where
  "pipe_ok p \<longleftrightarrow> unat (read_pos p) < PIPE_BUF_SIZE \<and> unat (p_count p) \<le> PIPE_BUF_SIZE
     \<and> unat (write_pos p) = (unat (read_pos p) + unat (p_count p)) mod PIPE_BUF_SIZE"

definition pipe_contents :: "pipe \<Rightarrow> u8 list" where
  "pipe_contents p = ring (p_buf p) PIPE_BUF_SIZE (unat (read_pos p)) (unat (p_count p))"

lemma pipe_norm_ok [simp]: "pipe_ok p \<Longrightarrow> pipe_norm p = p"
proof -
  assume "pipe_ok p"
  then have "\<not> PIPE_BUF_SIZE \<le> unat (read_pos p)" "\<not> PIPE_BUF_SIZE \<le> unat (write_pos p)"
    by (simp_all add: pipe_ok_def PIPE_BUF_SIZE_def)
  then show ?thesis by (simp add: pipe_norm_def)
qed

lemma wake_ring [simp]:
  "pipe_ok (fst (wake_writer p)) = pipe_ok p" "pipe_contents (fst (wake_writer p)) = pipe_contents p"
  "pipe_ok (fst (wake_reader p)) = pipe_ok p" "pipe_contents (fst (wake_reader p)) = pipe_contents p"
  "pipe_ok (p\<lparr>reader_waiting := t\<rparr>) = pipe_ok p" "pipe_contents (p\<lparr>reader_waiting := t\<rparr>) = pipe_contents p"
  "pipe_ok (p\<lparr>writer_waiting := t\<rparr>) = pipe_ok p" "pipe_contents (p\<lparr>writer_waiting := t\<rparr>) = pipe_contents p"
  "pipe_ok (p\<lparr>read_refs := r\<rparr>) = pipe_ok p" "pipe_contents (p\<lparr>read_refs := r\<rparr>) = pipe_contents p"
  "pipe_ok (p\<lparr>write_refs := r\<rparr>) = pipe_ok p" "pipe_contents (p\<lparr>write_refs := r\<rparr>) = pipe_contents p"
  by (simp_all add: wake_writer_def wake_reader_def pipe_ok_def pipe_contents_def)

lemma pos_step:
  fixes a n :: u32
  assumes "unat a < PIPE_BUF_SIZE" "unat n \<le> PIPE_BUF_SIZE"
  shows "unat ((a + n) mod of_nat PIPE_BUF_SIZE) = (unat a + unat n) mod PIPE_BUF_SIZE"
proof -
  have "unat (a + n) = unat a + unat n" using assms by (simp add: PIPE_BUF_SIZE_def unat_word_ariths)
  then show ?thesis by (simp add: unat_mod PIPE_BUF_SIZE_def)
qed

lemma pipe_take:
  assumes ok: "pipe_ok p" and n: "n \<le> p_count p"
  defines "p' \<equiv> p\<lparr>read_pos := (read_pos p + n) mod of_nat PIPE_BUF_SIZE, p_count := p_count p - n\<rparr>"
  shows "pipe_ok p'" "pipe_contents p
    = ring_get (p_buf p) PIPE_BUF_SIZE (unat (read_pos p)) (unat n) @ pipe_contents p'"
proof -
  let ?m = PIPE_BUF_SIZE and ?r = "unat (read_pos p)" and ?c = "unat (p_count p)" and ?n = "unat n"
  have le: "?n \<le> ?c" "?c \<le> ?m" "?r < ?m" using ok n by (simp_all add: pipe_ok_def word_le_nat_alt)
  have r': "unat (read_pos p') = (?r + ?n) mod ?m" unfolding p'_def using pos_step le by simp
  have c': "unat (p_count p') = ?c - ?n" using n by (simp add: p'_def unat_sub)
  have "((?r + ?n) mod ?m + (?c - ?n)) mod ?m = (?r + ?n + (?c - ?n)) mod ?m" by (rule mod_add_left_eq)
  also have "\<dots> = (?r + ?c) mod ?m" using le by simp
  finally have "unat (write_pos p') = (unat (read_pos p') + unat (p_count p')) mod ?m"
    using ok r' c' by (simp add: pipe_ok_def p'_def)
  then show "pipe_ok p'" using r' c' le by (simp add: pipe_ok_def PIPE_BUF_SIZE_def)
  have "ring (p_buf p) ?m ?r ?c = ring (p_buf p) ?m ?r ?n @ ring (p_buf p) ?m ((?r + ?n) mod ?m) (?c - ?n)"
    by (rule ring_split [OF le(1)])
  then show "pipe_contents p = ring_get (p_buf p) ?m ?r ?n @ pipe_contents p'"
    using ring_get_eq [of ?r ?m ?n "p_buf p"] le r' c' by (simp add: pipe_contents_def p'_def)
qed

lemma pipe_put:
  fixes buf :: "nat \<Rightarrow> u8" and n :: u32
  assumes ok: "pipe_ok p" and n: "unat (p_count p) + unat n \<le> PIPE_BUF_SIZE"
  defines "p' \<equiv> p\<lparr>p_buf := ring_put (p_buf p) PIPE_BUF_SIZE (unat (write_pos p)) (unat n) buf,
    write_pos := (write_pos p + n) mod of_nat PIPE_BUF_SIZE, p_count := p_count p + n\<rparr>"
  shows "pipe_ok p'" "pipe_contents p' = pipe_contents p @ map buf [0..<unat n]"
proof -
  let ?m = PIPE_BUF_SIZE and ?r = "unat (read_pos p)" and ?c = "unat (p_count p)" and ?n = "unat n"
  have w: "unat (write_pos p) = (?r + ?c) mod ?m" "?r < ?m" using ok by (simp_all add: pipe_ok_def)
  have wl: "unat (write_pos p) < ?m" using w by (simp add: PIPE_BUF_SIZE_def)
  have c': "unat (p_count p') = ?c + ?n" using n by (simp add: p'_def PIPE_BUF_SIZE_def unat_word_ariths)
  have "unat (write_pos p') = (unat (write_pos p) + ?n) mod ?m"
    unfolding p'_def using pos_step [OF wl, of n] n by simp
  also have "\<dots> = (?r + (?c + ?n)) mod ?m" by (simp add: w(1) mod_add_left_eq add.assoc)
  finally show "pipe_ok p'" using c' w n by (simp add: pipe_ok_def p'_def)
  show "pipe_contents p' = pipe_contents p @ map buf [0..<?n]"
    using ring_put_append [OF w(2) n w(1), of "p_buf p" buf] c' by (simp add: pipe_contents_def p'_def)
qed

section \<open>A pass through the loop\<close>

lemma read_try_cases:
  assumes "pipe_ok p" "pipe_read_try cur len p = (p', res, out, eff)"
  obtains (eof) "pipe_contents p = []" "write_refs p = 0" "p' = p" "res = Io_ret 0" "out = []"
    | (sleep) "pipe_contents p = []" "write_refs p \<noteq> 0" "p' = p\<lparr>reader_waiting := cur\<rparr>" "res = Io_block" "out = []"
    | (data) "pipe_contents p \<noteq> []" "pipe_contents p = out @ pipe_contents p'" "pipe_ok p'"
        "res = Io_ret (int (length out))" "length out = min (unat (ucast len :: u32)) (length (pipe_contents p))"
        "read_refs p' = read_refs p" "write_refs p' = write_refs p"
proof -
  have e: "pipe_contents p = [] \<longleftrightarrow> p_count p = 0"
    by (metis length_ring list.size(3) length_0_conv pipe_contents_def unat_eq_zero)
  consider "p_count p = 0" "write_refs p = 0" | "p_count p = 0" "write_refs p \<noteq> 0" | "p_count p \<noteq> 0" by blast
  then show ?thesis
  proof cases
    case 1
    show ?thesis by (rule eof) (use assms 1 e in \<open>simp_all add: pipe_read_try_def\<close>)
  next
    case 2
    show ?thesis by (rule sleep) (use assms 2 e in \<open>simp_all add: pipe_read_try_def\<close>)
  next
    case 3
    define n where "n = (if p_count p < ucast len then p_count p else ucast len)"
    let ?p1 = "p\<lparr>read_pos := (read_pos p + n) mod of_nat PIPE_BUF_SIZE, p_count := p_count p - n\<rparr>"
    have nle: "n \<le> p_count p" by (auto simp: n_def not_less)
    have un: "unat n = min (unat (ucast len :: u32)) (unat (p_count p))"
      by (auto simp: n_def word_less_nat_alt min_def)
    note T = pipe_take [OF assms(1) nle]
    have p': "p' = fst (wake_writer ?p1)" "res = Io_ret (int (unat n))"
      "out = ring_get (p_buf p) PIPE_BUF_SIZE (unat (read_pos p)) (unat n)"
      using assms 3 by (auto simp: pipe_read_try_def Let_def n_def split: prod.splits)
    have lp: "length (pipe_contents p) = unat (p_count p)" by (simp add: pipe_contents_def)
    have lr: "length out = unat n"
      unfolding p'(3) using ring_get_eq [of "unat (read_pos p)" PIPE_BUF_SIZE "unat n" "p_buf p"] assms(1) nle
      by (simp add: pipe_ok_def word_le_nat_alt)
    show ?thesis
      by (rule data) (use 3 e T p' un lr lp in \<open>simp_all add: wake_writer_def\<close>)
  qed
qed

lemma write_try_cases:
  assumes "pipe_ok p" "pipe_write_try cur is_user buf len p = (p', res, acc, eff)"
  obtains (epipe) "read_refs p = 0" "p' = p" "res = Io_ret (-32)" "acc = []"
    | (sleep) "read_refs p \<noteq> 0" "length (pipe_contents p) = PIPE_BUF_SIZE" "p' = p\<lparr>writer_waiting := cur\<rparr>"
        "res = Io_block" "acc = []"
    | (data) "read_refs p \<noteq> 0" "length (pipe_contents p) < PIPE_BUF_SIZE" "pipe_contents p' = pipe_contents p @ acc"
        "pipe_ok p'" "acc = map buf [0..<length acc]" "res = Io_ret (int (length acc))"
        "length acc = min (unat (ucast len :: u32)) (PIPE_BUF_SIZE - length (pipe_contents p))"
        "read_refs p' = read_refs p" "write_refs p' = write_refs p"
proof -
  have len: "length (pipe_contents p) = unat (p_count p)" by (simp add: pipe_contents_def)
  have cle: "unat (p_count p) \<le> PIPE_BUF_SIZE" using assms(1) by (simp add: pipe_ok_def)
  consider "read_refs p = 0" | "read_refs p \<noteq> 0" "unat (p_count p) = PIPE_BUF_SIZE"
    | "read_refs p \<noteq> 0" "unat (p_count p) < PIPE_BUF_SIZE" using cle by linarith
  then show ?thesis
  proof cases
    case 1
    show ?thesis by (rule epipe) (use assms 1 in \<open>simp_all add: pipe_write_try_def\<close>)
  next
    case 2
    show ?thesis by (rule sleep) (use assms 2 len in \<open>simp_all add: pipe_write_try_def\<close>)
  next
    case 3
    define avail :: u32 where "avail = of_nat PIPE_BUF_SIZE - p_count p"
    define n where "n = (if avail < ucast len then avail else ucast len)"
    let ?p1 = "p\<lparr>p_buf := ring_put (p_buf p) PIPE_BUF_SIZE (unat (write_pos p)) (unat n) buf,
      write_pos := (write_pos p + n) mod of_nat PIPE_BUF_SIZE, p_count := p_count p + n\<rparr>"
    have ua: "unat avail = PIPE_BUF_SIZE - unat (p_count p)"
      using cle by (simp add: avail_def PIPE_BUF_SIZE_def unat_sub word_le_nat_alt)
    have un: "unat n = min (unat (ucast len :: u32)) (PIPE_BUF_SIZE - unat (p_count p))"
      using ua by (auto simp: n_def word_less_nat_alt min_def)
    then have nle: "unat (p_count p) + unat n \<le> PIPE_BUF_SIZE" using cle by simp
    note T = pipe_put [OF assms(1) nle, of buf]
    have p': "p' = fst (wake_reader ?p1)" "res = Io_ret (int (unat n))" "acc = map buf [0..<unat n]"
      using assms 3 by (auto simp: pipe_write_try_def Let_def n_def avail_def split: prod.splits)
    show ?thesis
      by (rule data) (use 3 T p' un len in \<open>simp_all add: wake_reader_def\<close>)
  qed
qed

section \<open>The pipe is a byte queue\<close>

datatype pipe_op = Read_try u64 u64 | Write_try u64 bool "nat \<Rightarrow> u8" u64
  | Read_close | Write_close | Dup_read | Dup_write

fun pipe_exec :: "pipe_op \<Rightarrow> pipe \<Rightarrow> pipe" where
  "pipe_exec (Read_try cur len) p = fst (pipe_read_try cur len p)"
| "pipe_exec (Write_try cur is_user buf len) p = fst (pipe_write_try cur is_user buf len p)"
| "pipe_exec Read_close p = fst (pipe_read_close_fn p)"
| "pipe_exec Write_close p = fst (pipe_write_close_fn p)"
| "pipe_exec Dup_read p = pipe_dup_read_fn p"
| "pipe_exec Dup_write p = pipe_dup_write_fn p"

fun pipe_accepted :: "pipe_op \<Rightarrow> pipe \<Rightarrow> u8 list" where
  "pipe_accepted (Write_try cur is_user buf len) p = fst (snd (snd (pipe_write_try cur is_user buf len p)))"
| "pipe_accepted _ p = []"

fun pipe_delivered :: "pipe_op \<Rightarrow> pipe \<Rightarrow> u8 list" where
  "pipe_delivered (Read_try cur len) p = fst (snd (snd (pipe_read_try cur len p)))"
| "pipe_delivered _ p = []"

lemma pipe_step:
  assumes "pipe_ok p"
  shows "pipe_ok (pipe_exec op p)
    \<and> pipe_contents p @ pipe_accepted op p = pipe_delivered op p @ pipe_contents (pipe_exec op p)"
proof (cases op)
  case (Read_try cur len)
  obtain p' res out eff where r: "pipe_read_try cur len p = (p', res, out, eff)"
    by (cases "pipe_read_try cur len p") auto
  show ?thesis
  proof (cases rule: read_try_cases [OF assms r, case_names eof sleep data])
    case data
    show ?thesis using data(2,3) Read_try r by simp
  qed (use assms Read_try r in simp_all)
next
  case (Write_try cur is_user buf len)
  obtain p' res acc eff where r: "pipe_write_try cur is_user buf len p = (p', res, acc, eff)"
    by (cases "pipe_write_try cur is_user buf len p") auto
  show ?thesis
  proof (cases rule: write_try_cases [OF assms r, case_names epipe sleep data])
    case data
    show ?thesis using data(3,4) Write_try r by simp
  qed (use assms Write_try r in simp_all)
qed (use assms in \<open>auto simp: pipe_read_close_fn_def pipe_write_close_fn_def pipe_dup_read_fn_def
    pipe_dup_write_fn_def wake_writer_def wake_reader_def\<close>)

interpretation pq: byte_queue pipe_exec pipe_accepted pipe_delivered pipe_contents pipe_ok PIPE_BUF_SIZE
proof unfold_locales
  show "length (pipe_contents p) \<le> PIPE_BUF_SIZE" if "pipe_ok p" for p
    using that by (simp add: pipe_contents_def pipe_ok_def)
qed (use pipe_step in blast)+

section \<open>Properties\<close>

lemma new_pipe_ok: "pipe_ok new_pipe" "pipe_contents new_pipe = []"
  by (simp_all add: new_pipe_def pipe_ok_def pipe_contents_def PIPE_BUF_SIZE_def ring_def)

text \<open>C9. A pipe is a first-in first-out byte stream: from its creation on, for every interleaving of read
  and write passes by any number of tasks, sleeping ones included, and of duplications and
  closes, the bytes accepted from writers are exactly the bytes delivered to readers
  followed by what is still buffered, and never more than 4024 bytes are buffered.\<close>

theorem pipe_stream_fifo:
  "pq.accepted_by ops new_pipe = pq.delivered_by ops new_pipe @ pipe_contents (pq.runs ops new_pipe)
   \<and> length (pipe_contents (pq.runs ops new_pipe)) \<le> PIPE_BUF_SIZE"
  using pq.stream_prefix [OF new_pipe_ok] by blast

text \<open>C32. Readiness reported by poll agrees with what a read or a write would do: the read end polls
  readable exactly when a read attempt would not sleep and reports hang-up exactly when no
  writer is left; the write end polls writable exactly when a write attempt would not sleep and
  reports an error exactly when a write would fail with EPIPE.\<close>

theorem pipe_poll_agrees:
  "(pipe_read_poll_fn p AND 0x0001 \<noteq> 0 \<longleftrightarrow> fst (snd (pipe_read_try cur len p)) \<noteq> Io_block)
   \<and> (pipe_read_poll_fn p AND 0x0010 \<noteq> 0 \<longleftrightarrow> write_refs p = 0)
   \<and> (unat (p_count p) \<le> PIPE_BUF_SIZE \<longrightarrow>
        (pipe_write_poll_fn p AND 0x0004 \<noteq> 0 \<longleftrightarrow> fst (snd (pipe_write_try cur is_user buf len p)) \<noteq> Io_block))
   \<and> (pipe_write_poll_fn p AND 0x0008 \<noteq> 0 \<longleftrightarrow>
        fst (snd (pipe_write_try cur is_user buf len p)) = Io_ret (-32))"
proof -
  have c: "p_count (pipe_norm p) = p_count p" "write_refs (pipe_norm p) = write_refs p"
    "read_refs (pipe_norm p) = read_refs p" by (simp_all add: pipe_norm_def)
  have "fst (snd (pipe_read_try cur len p)) = Io_block \<longleftrightarrow> p_count p = 0 \<and> write_refs p \<noteq> 0"
    by (auto simp: pipe_read_try_def Let_def c split: prod.splits)
  moreover have "fst (snd (pipe_write_try cur is_user buf len p)) = Io_block \<longleftrightarrow>
      read_refs p \<noteq> 0 \<and> unat (p_count p) = PIPE_BUF_SIZE"
    by (auto simp: pipe_write_try_def Let_def c split: prod.splits)
  moreover have "fst (snd (pipe_write_try cur is_user buf len p)) = Io_ret (-32) \<longleftrightarrow> read_refs p = 0"
  proof -
    have "int (unat n) \<noteq> - 32" for n :: u32 by linarith
    then show ?thesis by (auto simp: pipe_write_try_def Let_def c split: prod.splits)
  qed
  ultimately show ?thesis
    by (auto simp: pipe_read_poll_fn_def pipe_write_poll_fn_def word_gt_0)
qed

theorem pipe_poll_agrees_witness:
  "pipe_write_poll_fn new_pipe AND 0x0004 \<noteq> 0 \<and> fst (snd (pipe_write_try 7 True (\<lambda>_. 65) 3 new_pipe)) \<noteq> Io_block"
proof -
  have "unat (p_count new_pipe) \<le> PIPE_BUF_SIZE" by (simp add: new_pipe_def)
  moreover have "pipe_write_poll_fn new_pipe AND 0x0004 \<noteq> 0"
    by (simp add: pipe_write_poll_fn_def new_pipe_def PIPE_BUF_SIZE_def)
  ultimately show ?thesis using pipe_poll_agrees [of new_pipe 7 3 True "\<lambda>_. 65"] by blast
qed

text \<open>The state of the pipe when a sleeping reader looks for the \<open>k\<close>-th time.\<close>

fun reader_sees :: "u64 \<Rightarrow> (nat \<Rightarrow> pipe \<Rightarrow> pipe) \<Rightarrow> pipe \<Rightarrow> nat \<Rightarrow> pipe" where
  "reader_sees cur env p 0 = p"
| "reader_sees cur env p (Suc k) = env k ((pipe_norm (reader_sees cur env p k))\<lparr>reader_waiting := cur\<rparr>)"

definition readable :: "pipe \<Rightarrow> bool" where
  "readable p \<longleftrightarrow> p_count p \<noteq> 0 \<or> write_refs p = 0"

lemma read_fn_step:
  "pipe_read_fn cur len env k (reader_sees cur env p k) =
    (if readable (reader_sees cur env p k)
     then case pipe_read_try cur len (reader_sees cur env p k) of (p', res, out, _) \<Rightarrow>
       Some (p', (case res of Io_ret r \<Rightarrow> r | Io_block \<Rightarrow> 0), out)
     else pipe_read_fn cur len env (Suc k) (reader_sees cur env p (Suc k)))"
  by (subst pipe_read_fn.simps)
     (auto simp: pipe_read_try_def Let_def readable_def pipe_norm_def wake_writer_def)

lemma read_fn_unready:
  "(\<And>j. j < k \<Longrightarrow> \<not> readable (reader_sees cur env p j)) \<Longrightarrow>
    pipe_read_fn cur len env 0 p = pipe_read_fn cur len env k (reader_sees cur env p k)"
proof (induction k)
  case (Suc k)
  then have "pipe_read_fn cur len env 0 p = pipe_read_fn cur len env k (reader_sees cur env p k)" by simp
  then show ?case using read_fn_step [of cur len env k p] Suc.prems [of k] by simp
qed simp

lemma read_try_sleeps:
  "\<not> readable p \<Longrightarrow> pipe_read_try cur len p = ((pipe_norm p)\<lparr>reader_waiting := cur\<rparr>, Io_block, [], [])"
  by (simp add: pipe_read_try_def readable_def pipe_norm_def)

lemma read_fn_never:
  assumes "\<forall>k. \<not> readable (reader_sees cur env p k)"
  shows "pipe_read_fn cur len env 0 p = None"
proof -
  let ?P = "\<lambda>c l e k q r. \<not> (c = cur \<and> l = len \<and> e = env \<and> q = reader_sees cur env p k)"
  have "?P c l e k q r" if "pipe_read_fn c l e k q = Some r" for c l e k q r
  proof (rule pipe_read_fn.raw_induct [where P = ?P, OF _ that])
    fix f c l e k q r
    assume IH: "\<And>c l e k q r. f c l e k q = Some r \<Longrightarrow> ?P c l e k q r"
      and st: "(case pipe_read_try c l q of (p', Io_block, _, _) \<Rightarrow> f c l e (Suc k) (e k p')
         | (p', Io_ret r, out, _) \<Rightarrow> Some (p', r, out)) = Some r"
    show "?P c l e k q r"
    proof
      assume a: "c = cur \<and> l = len \<and> e = env \<and> q = reader_sees cur env p k"
      then have "f c l e (Suc k) (reader_sees cur env p (Suc k)) = Some r"
        using st read_try_sleeps [OF spec [OF assms, of k], of cur len] by simp
      from IH [OF this] show False using a by simp
    qed
  qed
  then show ?thesis by (metis not_Some_eq reader_sees.simps(1))
qed

text \<open>C31. A blocking read returns if and only if at one of its looks at the pipe, the first one or one
  after a wake-up, data is buffered or no writer is left; whatever other tasks do to the pipe
  while it sleeps is arbitrary.  It then returns at the first such look.\<close>

theorem pipe_read_returns_iff:
  "(pipe_read_fn cur len env 0 p \<noteq> None \<longleftrightarrow> (\<exists>k. readable (reader_sees cur env p k)))
   \<and> (\<forall>k. readable (reader_sees cur env p k) \<and> (\<forall>j<k. \<not> readable (reader_sees cur env p j)) \<longrightarrow>
        (\<exists>p' res out eff. pipe_read_try cur len (reader_sees cur env p k) = (p', Io_ret res, out, eff)
          \<and> pipe_read_fn cur len env 0 p = Some (p', res, out)))"
proof -
  have first: "\<exists>p' res out eff. pipe_read_try cur len (reader_sees cur env p k) = (p', Io_ret res, out, eff)
      \<and> pipe_read_fn cur len env 0 p = Some (p', res, out)"
    if "readable (reader_sees cur env p k)" "\<forall>j<k. \<not> readable (reader_sees cur env p j)" for k
  proof -
    have "fst (snd (pipe_read_try cur len (reader_sees cur env p k))) \<noteq> Io_block"
      using that(1) by (auto simp: pipe_read_try_def Let_def readable_def pipe_norm_def split: prod.splits)
    then show ?thesis
      using read_fn_unready [of k cur env p len] read_fn_step [of cur len env k p] that
      by (cases "pipe_read_try cur len (reader_sees cur env p k)") (auto split: io_result.splits)
  qed
  have "pipe_read_fn cur len env 0 p \<noteq> None" if "readable (reader_sees cur env p k)" for k
  proof -
    define m where "m = (LEAST k. readable (reader_sees cur env p k))"
    have "readable (reader_sees cur env p m)" "\<forall>j<m. \<not> readable (reader_sees cur env p j)"
      using LeastI [of "\<lambda>k. readable (reader_sees cur env p k)", OF that] not_less_Least
      by (auto simp: m_def)
    then show ?thesis using first by fastforce
  qed
  then have "pipe_read_fn cur len env 0 p \<noteq> None \<longleftrightarrow> (\<exists>k. readable (reader_sees cur env p k))"
    using read_fn_never [of cur env p len] by metis
  then show ?thesis using first by auto
qed

theorem pipe_read_returns_iff_witness:
  "pipe_read_fn 7 2 (\<lambda>k p. fst (pipe_write_try 8 True (\<lambda>i. of_nat i + 65) 3 p)) 0 new_pipe
    = Some (fst (pipe_read_try 7 2 (reader_sees 7 (\<lambda>k p. fst (pipe_write_try 8 True (\<lambda>i. of_nat i + 65) 3 p))
        new_pipe 1)), 2, [65, 66])"
proof -
  let ?env = "\<lambda>k p. fst (pipe_write_try 8 True (\<lambda>i. of_nat i + 65) 3 p)"
  have r0: "\<not> readable (reader_sees 7 ?env new_pipe 0)" by (simp add: readable_def new_pipe_def)
  have ev: "reader_sees 7 ?env new_pipe 1 = new_pipe\<lparr>p_count := 3, write_pos := 3,
      p_buf := ring_put (\<lambda>_. 0) 4024 0 3 (\<lambda>i. of_nat i + 65)\<rparr>"
    by (simp add: pipe_write_try_def pipe_norm_def new_pipe_def PIPE_BUF_SIZE_def wake_reader_def)
  then have r1: "readable (reader_sees 7 ?env new_pipe 1)" by (simp add: readable_def)
  have u: "[0..<2] = [0, 1 :: nat]" by code_simp
  have t: "snd (pipe_read_try 7 2 (reader_sees 7 ?env new_pipe 1)) = (Io_ret 2, [65, 66], [Wake_write_waiters])"
    unfolding ev by (simp add: pipe_read_try_def pipe_norm_def new_pipe_def PIPE_BUF_SIZE_def wake_writer_def
        ring_get_def ring_put_def u)
  have "\<exists>p' res out eff. pipe_read_try 7 2 (reader_sees 7 ?env new_pipe 1) = (p', Io_ret res, out, eff)
      \<and> pipe_read_fn 7 2 ?env 0 new_pipe = Some (p', res, out)"
    using pipe_read_returns_iff [of 7 2 ?env new_pipe] r0 r1 by (metis One_nat_def less_one)
  then show ?thesis using t by (auto simp: prod_eq_iff)
qed

end
