(* ===== verification/Fd_Drivers.thy ===== *)
theory Fd_Drivers
  imports Fd_Table Pipe Mem_Syscalls
begin

text \<open>
  Drivers behind descriptors.  Pipes and memory files count the descriptors of a handle; their operation tables are
  shown to keep the contract of \<open>Fd_Table\<close>, so that its lemmas hold for them.  All other operation
  tables stand for drivers whose \<^verbatim>\<open>close\<close> does nothing and that have no \<^verbatim>\<open>dup\<close>: console, keyboard, mouse, \<^verbatim>\<open>urandom\<close>, and
  the files and directories of the initrd and ramfs.  Sockets, epoll, pseudo terminals, \<^verbatim>\<open>/proc\<close> and ext2 files have a \<^verbatim>\<open>close\<close> that does something and
  are not among these operation tables.  \<^verbatim>\<open>sys_pipe2\<close> and
  the descriptor part of \<^verbatim>\<open>fork\<close>, \<^verbatim>\<open>clone\<close> and \<^verbatim>\<open>exit\<close> are composed from them.
\<close>

section \<open>Model\<close>

text \<open>A pipe lives in a kernel page of its own; \<open>None\<close> is an address with no page behind it.\<close>

record fdrv =
  d_pipes :: "u64 \<Rightarrow> pipe option"
  d_mfs :: mfs

definition g_pipe_read_ops :: u64 where "g_pipe_read_ops = 2"
definition g_pipe_write_ops :: u64 where "g_pipe_write_ops = 3"

definition pipe_close :: "(pipe \<Rightarrow> pipe \<times> pipe_effect list) \<Rightarrow> u64 \<Rightarrow> fdrv \<Rightarrow> fdrv kres" where
  "pipe_close fn p k = (case d_pipes k p of
     None \<Rightarrow> Panic ''page fault''
   | Some q \<Rightarrow> (case fn q of (q', eff) \<Rightarrow>
       Ret (k\<lparr>d_pipes := (d_pipes k)(p := (if Kva_free \<in> set eff then None else Some q'))\<rparr>)))"

definition pipe_dup :: "(pipe \<Rightarrow> pipe) \<Rightarrow> u64 \<Rightarrow> fdrv \<Rightarrow> fdrv kres" where
  "pipe_dup fn p k = (case d_pipes k p of
     None \<Rightarrow> Panic ''page fault''
   | Some q \<Rightarrow> Ret (k\<lparr>d_pipes := (d_pipes k)(p := Some (fn q))\<rparr>))"

definition memfd_close :: "u64 \<Rightarrow> fdrv \<Rightarrow> fdrv kres" where
  "memfd_close p k = (case memfd_vfs_close p (d_mfs k) of Panic m \<Rightarrow> Panic m | Ret s \<Rightarrow> Ret (k\<lparr>d_mfs := s\<rparr>))"

text \<open>The operation tables of the drivers named above, by address; setting a descriptor non-blocking changes no state of theirs.\<close>

definition drv_ops :: "u64 \<Rightarrow> fdrv vfs_ops" where
  "drv_ops op =
    (if op = g_pipe_read_ops then \<lparr>op_close = Some (pipe_close pipe_read_close_fn),
        op_dup = Some (pipe_dup pipe_dup_read_fn), op_setnb = \<lambda>_ _ k. k\<rparr>
     else if op = g_pipe_write_ops then \<lparr>op_close = Some (pipe_close pipe_write_close_fn),
        op_dup = Some (pipe_dup pipe_dup_write_fn), op_setnb = \<lambda>_ _ k. k\<rparr>
     else if op = g_memfd_ops then \<lparr>op_close = Some memfd_close,
        op_dup = Some (\<lambda>p k. Ret (k\<lparr>d_mfs := memfd_vfs_dup p (d_mfs k)\<rparr>)), op_setnb = \<lambda>_ _ k. k\<rparr>
     else \<lparr>op_close = Some (\<lambda>_ k. Ret k), op_dup = None, op_setnb = \<lambda>_ _ k. k\<rparr>)"

text \<open>The two lowest free slots of a table.\<close>

definition pipe_slots :: "'k fdst \<Rightarrow> u64 \<Rightarrow> (nat \<times> nat) option" where
  "pipe_slots s t = (case free_fd s t 0 of
     None \<Rightarrow> None
   | Some rfd \<Rightarrow> (case free_fd s t (Suc rfd) of None \<Rightarrow> None | Some wfd \<Rightarrow> Some (rfd, wfd)))"

definition pipe_end :: "u64 \<Rightarrow> u64 \<Rightarrow> u64 \<Rightarrow> vfs_file" where
  "pipe_end op page flags = \<lparr>vf_ops = op, vf_priv = page, vf_offset = 0, vf_size = 0,
     vf_flags = (if (ucast flags :: u32) AND 0x80000 \<noteq> 0 then VFS_FD_CLOEXEC else 0)\<rparr>"

text \<open>\<open>page\<close> is what \<^verbatim>\<open>kva_alloc_pages\<close> returns; the second component of the result are the descriptors
  written to the user array.\<close>

definition sys_pipe2 :: "u64 \<Rightarrow> u64 \<Rightarrow> u64 \<Rightarrow> u64 \<Rightarrow> fdrv fdst \<Rightarrow> fdrv fdst \<times> u64 \<times> (nat \<times> nat) option" where
  "sys_pipe2 t page arg1 arg2 s =
    (if \<not> user_ptr_valid arg1 8 then (s, neg_errno 14, None)
     else case pipe_slots s t of
       None \<Rightarrow> (s, neg_errno 24, None)
     | Some (rfd, wfd) \<Rightarrow>
         if page = 0 then (s, neg_errno 12, None)
         else let s1 = s\<lparr>drv := (drv s)\<lparr>d_pipes := (d_pipes (drv s))(page \<mapsto> new_pipe)\<rparr>\<rparr>;
                  s2 = set_slot t rfd (pipe_end g_pipe_read_ops page arg2) s1 in
           (set_slot t wfd (pipe_end g_pipe_write_ops page arg2) s2, 0, Some (rfd, wfd)))"

text \<open>\<^verbatim>\<open>sys_memfd_create\<close> on the table \<open>t\<close>; \<open>m\<close> is the rest of the process.\<close>

definition fd_memfd_create :: "u64 \<Rightarrow> mm \<Rightarrow> u64 \<Rightarrow> (u64 \<Rightarrow> u8) \<Rightarrow> fdrv fdst \<Rightarrow> fdrv fdst \<times> u64" where
  "fd_memfd_create t m name umem s =
    (case sys_memfd_create name umem (m\<lparr>mm_fds := fds (fd_tables s t), mm_mf := d_mfs (drv s)\<rparr>) of (m', r) \<Rightarrow>
     (s\<lparr>fd_tables := (fd_tables s)(t := (fd_tables s t)\<lparr>fds := mm_fds m'\<rparr>),
        drv := (drv s)\<lparr>d_mfs := mm_mf m'\<rparr>\<rparr>, r))"

section \<open>Counts\<close>

definition drv_counted :: "u64 \<Rightarrow> bool" where
  "drv_counted op \<longleftrightarrow> op \<in> {g_pipe_read_ops, g_pipe_write_ops, g_memfd_ops}"

definition pipe_count :: "(pipe \<Rightarrow> u32) \<Rightarrow> u64 \<Rightarrow> fdrv \<Rightarrow> nat" where
  "pipe_count f p k = (case d_pipes k p of None \<Rightarrow> 0 | Some q \<Rightarrow> unat (f q))"

definition memfd_count :: "u64 \<Rightarrow> mfs \<Rightarrow> nat" where
  "memfd_count p s = (if unat p < MEMFD_MAX \<and> mf_in_use (s_memfds s (unat p)) then unat (mf_refcount (s_memfds s (unat p))) else 0)"

definition drv_refs :: "fdrv \<Rightarrow> u64 \<Rightarrow> u64 \<Rightarrow> nat" where
  "drv_refs k op p =
    (if op = g_pipe_read_ops then pipe_count read_refs p k
     else if op = g_pipe_write_ops then pipe_count write_refs p k
     else if op = g_memfd_ops then memfd_count p (d_mfs k) else 0)"

text \<open>A live pipe and a live memory file have a reference.\<close>

definition drv_ok :: "fdrv \<Rightarrow> bool" where
  "drv_ok k \<longleftrightarrow> (\<forall>p q. d_pipes k p = Some q \<longrightarrow> read_refs q \<noteq> 0 \<or> write_refs q \<noteq> 0)
     \<and> mfs_ok (d_mfs k) \<and> (\<forall>i<MEMFD_MAX. mf_in_use (s_memfds (d_mfs k) i) \<longrightarrow> mf_refcount (s_memfds (d_mfs k) i) \<noteq> 0)"

text \<open>The counts have 32 bits.\<close>

definition fd_limit :: nat where "fd_limit = 2 ^ 32 - 1"

lemmas ops_defs = g_pipe_read_ops_def g_pipe_write_ops_def g_memfd_ops_def

lemma wake_refs [simp]:
  "read_refs (fst (wake_writer q)) = read_refs q" "write_refs (fst (wake_writer q)) = write_refs q"
  "read_refs (fst (wake_reader q)) = read_refs q" "write_refs (fst (wake_reader q)) = write_refs q"
  "Kva_free \<notin> set (snd (wake_writer q))" "Kva_free \<notin> set (snd (wake_reader q))"
  by (simp_all add: wake_writer_def wake_reader_def)

lemma read_close_refs:
  "read_refs (fst (pipe_read_close_fn q)) = read_refs q - 1" "write_refs (fst (pipe_read_close_fn q)) = write_refs q"
  "Kva_free \<in> set (snd (pipe_read_close_fn q)) \<longleftrightarrow> read_refs q - 1 = 0 \<and> write_refs q = 0"
  by (auto simp: pipe_read_close_fn_def case_prod_beta)

lemma write_close_refs:
  "read_refs (fst (pipe_write_close_fn q)) = read_refs q" "write_refs (fst (pipe_write_close_fn q)) = write_refs q - 1"
  "Kva_free \<in> set (snd (pipe_write_close_fn q)) \<longleftrightarrow> read_refs q = 0 \<and> write_refs q - 1 = 0"
  by (auto simp: pipe_write_close_fn_def case_prod_beta)

lemma pipe_close_counts:
  assumes fn: "\<And>q. f (fst (fn q)) = f q - 1" "\<And>q. g (fst (fn q)) = g q"
      "\<And>q. Kva_free \<in> set (snd (fn q)) \<longleftrightarrow> f q - 1 = 0 \<and> g q = 0"
    and pos: "0 < pipe_count f p k" and live: "\<And>p q. d_pipes k p = Some q \<Longrightarrow> f q \<noteq> 0 \<or> g q \<noteq> 0"
  shows "\<exists>k'. pipe_close fn p k = Ret k' \<and> d_mfs k' = d_mfs k
    \<and> (\<forall>p'. int (pipe_count f p' k') = int (pipe_count f p' k) - (if p' = p then 1 else 0))
    \<and> (\<forall>p'. pipe_count g p' k' = pipe_count g p' k) \<and> (\<forall>p q. d_pipes k' p = Some q \<longrightarrow> f q \<noteq> 0 \<or> g q \<noteq> 0)"
proof -
  obtain q where q: "d_pipes k p = Some q" "0 < unat (f q)"
    using pos by (auto simp: pipe_count_def split: option.splits)
  have dec: "unat (f q - 1) = unat (f q) - 1" using q(2) by (intro unat_dec) auto
  show ?thesis
  proof (cases "f q - 1 = 0 \<and> g q = 0")
    case True
    then have "unat (f q) = 1" "g q = 0" using dec q(2) by auto
    then show ?thesis using True q live fn(3) by (simp add: pipe_close_def pipe_count_def case_prod_beta)
  next
    case False
    then show ?thesis using q dec live fn by (simp add: pipe_close_def pipe_count_def case_prod_beta of_nat_diff)
  qed
qed

lemma pipe_dup_counts:
  assumes fn: "\<And>q. f (fn q) = f q + 1" "\<And>q. g (fn q) = g q"
    and pos: "0 < pipe_count f p k" and lim: "pipe_count f p k < 2 ^ 32 - 1"
    and live: "\<And>p q. d_pipes k p = Some q \<Longrightarrow> f q \<noteq> 0 \<or> g q \<noteq> 0"
  shows "\<exists>k'. pipe_dup fn p k = Ret k' \<and> d_mfs k' = d_mfs k
    \<and> (\<forall>p'. int (pipe_count f p' k') = int (pipe_count f p' k) + (if p' = p then 1 else 0))
    \<and> (\<forall>p'. pipe_count g p' k' = pipe_count g p' k) \<and> (\<forall>p q. d_pipes k' p = Some q \<longrightarrow> f q \<noteq> 0 \<or> g q \<noteq> 0)"
proof -
  obtain q where q: "d_pipes k p = Some q" "0 < unat (f q)"
    using pos by (auto simp: pipe_count_def split: option.splits)
  have "unat (f q) < 2 ^ 32 - 1" using lim q(1) by (simp add: pipe_count_def)
  then have inc: "unat (f q + 1) = unat (f q) + 1" using unat_plus_no_wrap [of "f q" 1] by simp
  then have "f q + 1 \<noteq> 0" by (metis unat_0 add_is_0 zero_neq_one)
  then show ?thesis using q inc live fn by (simp add: pipe_dup_def pipe_count_def)
qed

text \<open>Closing the last descriptor frees the frames that truncation to length 0 would free.\<close>

lemma mf_free_pages_shrink:
  assumes "for_each (mf_shrink_one f) [0..<k] s = Ret (s', 0)"
  shows "for_each (\<lambda>i vm. if phys_pages (s_memfds s f) i \<noteq> 0 then vm_free (phys_pages (s_memfds s f) i) vm else Ret (vm, 0))
    [0..<k] (mf_vm s) = Ret (mf_vm s', 0) \<and> (\<forall>j\<ge>k. phys_pages (s_memfds s' f) j = phys_pages (s_memfds s f) j)"
  using assms
proof (induction k arbitrary: s')
  case (Suc k)
  obtain s1 where s1: "for_each (mf_shrink_one f) [0..<k] s = Ret (s1, 0)" "mf_shrink_one f k s1 = Ret (s', 0)"
    using Suc.prems by (auto simp: for_each_append split: kres.splits prod.splits if_splits)
  show ?case using Suc.IH [OF s1(1)] s1(2)
    by (auto simp: for_each_append mf_shrink_one_def upd_memfd_def vm_free_def split: kres.splits if_splits)
qed simp

lemma memfd_close_frees:
  assumes ok: "mfs_ok s" and f: "f < MEMFD_MAX" "mf_in_use (s_memfds s f)"
  shows "\<exists>vm. mf_free_pages (s_memfds s f) (mf_vm s) = Ret (vm, 0)
    \<and> mfs_ok ((upd_memfd f (\<lambda>mf. mf\<lparr>mf_refcount := r, mf_in_use := False\<rparr>) s)\<lparr>mf_vm := vm\<rparr>)"
proof -
  let ?n = "unat (page_count (s_memfds s f))"
  have "inj_on (phys_pages (s_memfds s f)) {0..<0 + ?n}"
    using mfs_frame_inj [OF ok f _ f] by (auto intro!: inj_onI)
  then obtain s' where s': "for_each (mf_shrink_one f) [0..<0 + ?n] s = Ret (s', 0)" "shrunk f 0 ?n s s'"
    using mf_shrink_loop [of s 0 ?n f] mfs_frame(1) [OF ok f] ok by (auto simp: mfs_ok_def)
  have fp: "mf_free_pages (s_memfds s f) (mf_vm s) = Ret (mf_vm s', 0)"
    using mf_free_pages_shrink [of f ?n s s'] s'(1) by (simp add: mf_free_pages_def)
  have R: "mfs_ok (mf_resized f 0 0 s')" using mf_shrunk_ok(1) [OF ok f, of 0 ?n s' 0] s'(2) by simp
  let ?s = "(upd_memfd f (\<lambda>mf. mf\<lparr>mf_refcount := r, mf_in_use := False\<rparr>) s)\<lparr>mf_vm := mf_vm s'\<rparr>"
  have "mf_cells ?s \<subseteq> mf_cells (mf_resized f 0 0 s')" and "\<And>c. c \<in> mf_cells ?s \<Longrightarrow> mf_frame ?s c = mf_frame (mf_resized f 0 0 s') c"
    using s'(2) by (auto simp: mf_cells_def mf_frame_def upd_memfd_def mf_resized_def shrunk_def split: if_splits)
  then have "mfs_ok ?s" using R
    by (auto simp: mfs_ok_def mf_resized_def upd_memfd_def inj_on_def subset_eq)
  then show ?thesis using fp by blast
qed

lemma memfd_close_counts:
  assumes ok: "mfs_ok s" and live: "\<And>i. i < MEMFD_MAX \<Longrightarrow> mf_in_use (s_memfds s i) \<Longrightarrow> mf_refcount (s_memfds s i) \<noteq> 0"
    and pos: "0 < memfd_count p s"
  shows "\<exists>s'. memfd_vfs_close p s = Ret s' \<and> mfs_ok s'
    \<and> (\<forall>p'. int (memfd_count p' s') = int (memfd_count p' s) - (if p' = p then 1 else 0))
    \<and> (\<forall>i<MEMFD_MAX. mf_in_use (s_memfds s' i) \<longrightarrow> mf_refcount (s_memfds s' i) \<noteq> 0)"
proof -
  let ?i = "unat p" and ?m = "s_memfds s (unat p)"
  have i: "?i < MEMFD_MAX" "mf_in_use ?m" "mf_refcount ?m \<noteq> 0"
    using pos by (auto simp: memfd_count_def split: if_splits)
  have u: "unat (ucast p :: u32) = ?i" using i(1) by (simp add: unsigned_ucast_eq take_bit_nat_eq_self MEMFD_MAX_def)
  have dec: "unat (mf_refcount ?m - 1) = unat (mf_refcount ?m) - 1" "0 < unat (mf_refcount ?m)"
    using unat_dec [OF i(3)] i(3) by (simp_all add: unat_gt_0)
  have inj: "unat p' = unat p \<longleftrightarrow> p' = p" for p' :: u64 by (simp add: word_unat_eq_iff)
  show ?thesis
  proof (cases "mf_refcount ?m - 1 = 0")
    case True
    obtain vm where vm: "mf_free_pages ?m (mf_vm s) = Ret (vm, 0)"
        "mfs_ok ((upd_memfd ?i (\<lambda>mf. mf\<lparr>mf_refcount := 0, mf_in_use := False\<rparr>) s)\<lparr>mf_vm := vm\<rparr>)"
      using memfd_close_frees [OF ok i(1,2), of 0] by blast
    have "mf_free_pages (?m\<lparr>mf_refcount := 0\<rparr>) (mf_vm s) = Ret (vm, 0)" using vm(1) by (simp add: mf_free_pages_def cong: if_cong)
    moreover have "unat (mf_refcount ?m) = 1" using True dec by simp
    ultimately show ?thesis using True vm(2) i u dec live inj
      by (auto simp: memfd_vfs_close_def Let_def upd_memfd_def memfd_count_def)
  next
    case False
    let ?s = "upd_memfd ?i (\<lambda>mf. mf\<lparr>mf_refcount := mf_refcount mf - 1\<rparr>) s"
    have "mfs_ok ?s"
      using ok by (auto simp: mfs_ok_def mf_cells_def mf_frame_def upd_memfd_def inj_on_def split: if_splits)
    moreover have "memfd_vfs_close p s = Ret ?s"
      using False i u by (simp add: memfd_vfs_close_def Let_def upd_memfd_def word_neq_0_conv [symmetric])
    moreover have "int (memfd_count p' ?s) = int (memfd_count p' s) - (if p' = p then 1 else 0)" for p'
    proof (cases "p' = p")
      case True
      then show ?thesis using i dec by (simp add: memfd_count_def upd_memfd_def of_nat_diff)
    next
      case False
      then show ?thesis using inj [of p'] by (simp add: memfd_count_def upd_memfd_def)
    qed
    moreover have "mf_refcount (s_memfds ?s j) \<noteq> 0" if "j < MEMFD_MAX" "mf_in_use (s_memfds ?s j)" for j
      using that live False by (cases "j = ?i") (simp_all add: upd_memfd_def)
    ultimately show ?thesis by blast
  qed
qed

lemma memfd_dup_counts:
  assumes ok: "mfs_ok s" and live: "\<And>i. i < MEMFD_MAX \<Longrightarrow> mf_in_use (s_memfds s i) \<Longrightarrow> mf_refcount (s_memfds s i) \<noteq> 0"
    and pos: "0 < memfd_count p s" and lim: "memfd_count p s < 2 ^ 32 - 1"
  shows "mfs_ok (memfd_vfs_dup p s)"
    "int (memfd_count p' (memfd_vfs_dup p s)) = int (memfd_count p' s) + (if p' = p then 1 else 0)"
    "i < MEMFD_MAX \<Longrightarrow> mf_in_use (s_memfds (memfd_vfs_dup p s) i) \<Longrightarrow> mf_refcount (s_memfds (memfd_vfs_dup p s) i) \<noteq> 0"
proof -
  let ?m = "s_memfds s (unat p)"
  have i: "unat p < MEMFD_MAX" "mf_in_use ?m" using pos by (auto simp: memfd_count_def split: if_splits)
  have u: "unat (ucast p :: u32) = unat p" using i(1) by (simp add: unsigned_ucast_eq take_bit_nat_eq_self MEMFD_MAX_def)
  have d: "memfd_vfs_dup p s = upd_memfd (unat p) (\<lambda>mf. mf\<lparr>mf_refcount := mf_refcount mf + 1\<rparr>) s"
    using i u by (simp add: memfd_vfs_dup_def)
  have "unat (mf_refcount ?m) < 2 ^ 32 - 1" using lim i by (simp add: memfd_count_def)
  then have inc: "unat (mf_refcount ?m + 1) = unat (mf_refcount ?m) + 1"
    using unat_plus_no_wrap [of "mf_refcount ?m" 1] by simp
  then have nz: "mf_refcount ?m + 1 \<noteq> 0" by (metis unat_0 add_is_0 zero_neq_one)
  have inj: "unat p' = unat p \<longleftrightarrow> p' = p" for p' :: u64 by (simp add: word_unat_eq_iff)
  show "mfs_ok (memfd_vfs_dup p s)"
    using ok by (auto simp: d mfs_ok_def mf_cells_def mf_frame_def upd_memfd_def inj_on_def split: if_splits)
  show "int (memfd_count p' (memfd_vfs_dup p s)) = int (memfd_count p' s) + (if p' = p then 1 else 0)"
    using i inc inj by (auto simp: d memfd_count_def upd_memfd_def)
  show "mf_refcount (s_memfds (memfd_vfs_dup p s) i) \<noteq> 0"
    if "i < MEMFD_MAX" "mf_in_use (s_memfds (memfd_vfs_dup p s) i)"
    using that live nz by (auto simp: d upd_memfd_def split: if_splits)
qed

lemma drv_refs_simps:
  "drv_refs k g_pipe_read_ops p = pipe_count read_refs p k"
  "drv_refs k g_pipe_write_ops p = pipe_count write_refs p k"
  "drv_refs k g_memfd_ops p = memfd_count p (d_mfs k)"
  by (simp_all add: drv_refs_def ops_defs)

lemma drv_okD:
  assumes "drv_ok k"
  shows "mfs_ok (d_mfs k)" "d_pipes k p = Some q \<Longrightarrow> read_refs q \<noteq> 0 \<or> write_refs q \<noteq> 0"
    "d_pipes k p = Some q \<Longrightarrow> write_refs q \<noteq> 0 \<or> read_refs q \<noteq> 0"
    "i < MEMFD_MAX \<Longrightarrow> mf_in_use (s_memfds (d_mfs k) i) \<Longrightarrow> mf_refcount (s_memfds (d_mfs k) i) \<noteq> 0"
  using assms by (auto simp: drv_ok_def)

lemma pipe_count_mfs [simp]: "pipe_count f p (k\<lparr>d_mfs := s\<rparr>) = pipe_count f p k"
  by (simp add: pipe_count_def)

lemma drv_close_law:
  assumes k: "drv_ok k" and op: "drv_counted op" and pos: "0 < drv_refs k op p"
  shows "\<exists>c k'. op_close (drv_ops op) = Some c \<and> c p k = Ret k' \<and> drv_ok k'
    \<and> (\<forall>o' p'. drv_counted o' \<longrightarrow> int (drv_refs k' o' p') = int (drv_refs k o' p') - (if o' = op \<and> p' = p then 1 else 0))"
proof -
  consider "op = g_pipe_read_ops" | "op = g_pipe_write_ops" | "op = g_memfd_ops" using op by (auto simp: drv_counted_def)
  then show ?thesis
  proof cases
    case 1
    with pipe_close_counts [of read_refs pipe_read_close_fn write_refs p k] read_close_refs pos drv_okD [OF k] k show ?thesis
      by (fastforce simp: drv_ops_def drv_refs_simps drv_counted_def drv_ok_def ops_defs drv_refs_def)
  next
    case 2
    with pipe_close_counts [of write_refs pipe_write_close_fn read_refs p k] write_close_refs pos drv_okD [OF k] k show ?thesis
      by (fastforce simp: drv_ops_def drv_refs_simps drv_counted_def drv_ok_def ops_defs drv_refs_def)
  next
    case 3
    obtain s' where "memfd_vfs_close p (d_mfs k) = Ret s'" "mfs_ok s'"
        "\<forall>p'. int (memfd_count p' s') = int (memfd_count p' (d_mfs k)) - (if p' = p then 1 else 0)"
        "\<forall>i<MEMFD_MAX. mf_in_use (s_memfds s' i) \<longrightarrow> mf_refcount (s_memfds s' i) \<noteq> 0"
      using memfd_close_counts [of "d_mfs k" p] pos drv_okD [OF k] 3 by (auto simp: drv_refs_simps)
    then show ?thesis using 3 k
      by (auto simp: drv_ops_def memfd_close_def drv_counted_def drv_ok_def ops_defs drv_refs_def)
  qed
qed

lemma drv_dup_law:
  assumes k: "drv_ok k" and op: "drv_counted op" and pos: "0 < drv_refs k op p" and lim: "drv_refs k op p < fd_limit"
  shows "\<exists>d k'. op_dup (drv_ops op) = Some d \<and> d p k = Ret k' \<and> drv_ok k'
    \<and> (\<forall>o' p'. drv_counted o' \<longrightarrow> int (drv_refs k' o' p') = int (drv_refs k o' p') + (if o' = op \<and> p' = p then 1 else 0))"
proof -
  consider "op = g_pipe_read_ops" | "op = g_pipe_write_ops" | "op = g_memfd_ops" using op by (auto simp: drv_counted_def)
  then show ?thesis
  proof cases
    case 1
    with pipe_dup_counts [of read_refs pipe_dup_read_fn write_refs p k] pos lim [unfolded fd_limit_def] drv_okD [OF k] k show ?thesis
      by (fastforce simp: drv_ops_def drv_counted_def drv_ok_def ops_defs drv_refs_def pipe_dup_read_fn_def)
  next
    case 2
    with pipe_dup_counts [of write_refs pipe_dup_write_fn read_refs p k] pos lim [unfolded fd_limit_def] drv_okD [OF k] k show ?thesis
      by (fastforce simp: drv_ops_def drv_counted_def drv_ok_def ops_defs drv_refs_def pipe_dup_write_fn_def)
  next
    case 3
    with memfd_dup_counts [of "d_mfs k" p] pos lim [unfolded fd_limit_def] drv_okD [OF k] k show ?thesis
      by (auto simp: drv_ops_def drv_counted_def drv_ok_def ops_defs drv_refs_def)
  qed
qed

interpretation fdi: counted_driver drv_ops drv_counted drv_refs drv_ok fd_limit
proof
  show "\<not> drv_counted 0" by (simp add: drv_counted_def ops_defs)
next
  fix k op p assume "drv_ok k" "op \<noteq> 0" "\<not> drv_counted op"
  then show "\<exists>c k'. op_close (drv_ops op) = Some c \<and> c p k = Ret k' \<and> drv_ok k'
      \<and> (\<forall>o' p'. drv_counted o' \<longrightarrow> drv_refs k' o' p' = drv_refs k o' p')"
    by (simp add: drv_ops_def drv_counted_def)
next
  fix k op d p assume "drv_ok k" "\<not> drv_counted op" "op_dup (drv_ops op) = Some d"
  then show "\<exists>k'. d p k = Ret k' \<and> drv_ok k' \<and> (\<forall>o' p'. drv_counted o' \<longrightarrow> drv_refs k' o' p' = drv_refs k o' p')"
    by (simp add: drv_ops_def drv_counted_def)
next
  fix k op p b o' p' assume "drv_ok k"
  then show "drv_ok (op_setnb (drv_ops op) p b k) \<and> (drv_counted o' \<longrightarrow> drv_refs (op_setnb (drv_ops op) p b k) o' p' = drv_refs k o' p')"
    by (simp add: drv_ops_def)
qed (rule drv_close_law drv_dup_law; assumption)+

end
