(* ===== verification/Proc_Exit.thy ===== *)
theory Proc_Exit
  imports Signal Fd_Drivers
begin

text \<open>
  The end of a process: \<^verbatim>\<open>sched_exit\<close> (\<^verbatim>\<open>kernel/sched/sched.c\<close>), \<^verbatim>\<open>exit\<close>, \<^verbatim>\<open>exit_group\<close> and \<^verbatim>\<open>waitpid\<close>
  (\<^verbatim>\<open>kernel/syscall/sys_process.c\<close>), and futexes (\<^verbatim>\<open>kernel/syscall/futex.c\<close>).  These are where the scheduler, signals, descriptor tables
  and pipes meet: the drivers of this theory run on the state of the scheduler, so that a close that wakes a task really does.
\<close>

section \<open>State\<close>

record futex_waiter =
  fw_task :: u64
  fw_addr :: u64
  fw_in_use :: bool

text \<open>What of a terminal the end of a session leader touches.  The console comes first, then the pool of pseudo terminals.\<close>

record tty_ref =
  tt_in_use :: bool
  tt_session_id :: u32
  tt_fg_pgrp :: u32

text \<open>What is done outside of the modelled state: memory given back, the word at \<^verbatim>\<open>clear_child_tid\<close> zeroed, the machine halted.\<close>

datatype exit_effect = Free_stack u64 | Free_pml4 u64 | Free_vma u64 | Free_tcb u64 | Write_zero u64 u64 | Shutdown

record xdrv =
  x_drv :: fdrv
  x_sched :: sched
  x_pollers :: "u64 \<Rightarrow> pipe_effect \<Rightarrow> u64 list"
  x_futex :: "futex_waiter list"
  x_ttys :: "tty_ref list"
  x_dying :: u64
  x_effects :: "exit_effect list"

type_synonym world = "xdrv fdst"

definition sched_of :: "world \<Rightarrow> sched" where "sched_of w = x_sched (drv w)"

definition on_sched :: "(sched \<Rightarrow> sched) \<Rightarrow> world \<Rightarrow> world" where
  "on_sched f w = w\<lparr>drv := (drv w)\<lparr>x_sched := f (x_sched (drv w))\<rparr>\<rparr>"

definition emit :: "exit_effect list \<Rightarrow> world \<Rightarrow> world" where
  "emit es w = w\<lparr>drv := (drv w)\<lparr>x_effects := x_effects (drv w) @ es\<rparr>\<rparr>"

section \<open>Drivers on the scheduler\<close>

fun wake_tasks :: "u64 list \<Rightarrow> sched \<Rightarrow> sched kres" where
  "wake_tasks [] s = Ret s"
| "wake_tasks (t # ts) s = (case sched_wake t s of Panic m \<Rightarrow> Panic m | Ret s' \<Rightarrow> wake_tasks ts s')"

text \<open>The tasks that the effects of an operation on the pipe at \<open>p\<close> hand to \<^verbatim>\<open>sched_wake\<close>, in order.\<close>

fun effect_wakes :: "(pipe_effect \<Rightarrow> u64 list) \<Rightarrow> pipe_effect \<Rightarrow> u64 list" where
  "effect_wakes pollers (Sched_wake t) = [t]"
| "effect_wakes pollers Wake_read_waiters = pollers Wake_read_waiters"
| "effect_wakes pollers Wake_write_waiters = pollers Wake_write_waiters"
| "effect_wakes pollers _ = []"

definition x_pipe_close :: "(pipe \<Rightarrow> pipe \<times> pipe_effect list) \<Rightarrow> u64 \<Rightarrow> xdrv \<Rightarrow> xdrv kres" where
  "x_pipe_close fn p x = (case d_pipes (x_drv x) p of
     None \<Rightarrow> Panic ''page fault''
   | Some q \<Rightarrow> (case wake_tasks (concat (map (effect_wakes (x_pollers x p)) (snd (fn q)))) (x_sched x) of
       Panic m \<Rightarrow> Panic m
     | Ret s \<Rightarrow> (case pipe_close fn p (x_drv x) of Panic m \<Rightarrow> Panic m | Ret k \<Rightarrow> Ret (x\<lparr>x_drv := k, x_sched := s\<rparr>))))"

definition x_lift :: "(u64 \<Rightarrow> fdrv \<Rightarrow> fdrv kres) \<Rightarrow> u64 \<Rightarrow> xdrv \<Rightarrow> xdrv kres" where
  "x_lift f p x = (case f p (x_drv x) of Panic m \<Rightarrow> Panic m | Ret k \<Rightarrow> Ret (x\<lparr>x_drv := k\<rparr>))"

definition x_ops :: "u64 \<Rightarrow> xdrv vfs_ops" where
  "x_ops op = \<lparr>op_close = (if op = g_pipe_read_ops then Some (x_pipe_close pipe_read_close_fn)
       else if op = g_pipe_write_ops then Some (x_pipe_close pipe_write_close_fn)
       else map_option x_lift (op_close (drv_ops op))),
     op_dup = map_option x_lift (op_dup (drv_ops op)), op_setnb = (\<lambda>_ _ k. k)\<rparr>"

section \<open>Futexes\<close>

definition FUTEX_MAX_WAIT :: nat where "FUTEX_MAX_WAIT = 64"

text \<open>The loop of \<^verbatim>\<open>futex_wake_addr\<close> from slot \<open>i\<close> on, with \<open>woken\<close> tasks woken so far.\<close>

fun futex_wake_loop :: "nat list \<Rightarrow> u64 \<Rightarrow> u32 \<Rightarrow> u32 \<Rightarrow> futex_waiter list \<Rightarrow> sched \<Rightarrow> (futex_waiter list \<times> sched \<times> u32) kres" where
  "futex_wake_loop [] addr count woken pool s = Ret (pool, s, woken)"
| "futex_wake_loop (i # is) addr count woken pool s =
    (if \<not> woken < count then Ret (pool, s, woken)
     else if fw_in_use (pool ! i) \<and> fw_addr (pool ! i) = addr
     then case sched_wake (fw_task (pool ! i)) s of
            Panic m \<Rightarrow> Panic m
          | Ret s' \<Rightarrow> futex_wake_loop is addr count (woken + 1) (pool[i := (pool ! i)\<lparr>fw_in_use := False, fw_task := 0\<rparr>]) s'
     else futex_wake_loop is addr count woken pool s)"

definition futex_wake_addr :: "u64 \<Rightarrow> u32 \<Rightarrow> world \<Rightarrow> (world \<times> u32) kres" where
  "futex_wake_addr addr count w =
    (case futex_wake_loop [0..<FUTEX_MAX_WAIT] addr count 0 (x_futex (drv w)) (sched_of w) of
       Panic m \<Rightarrow> Panic m
     | Ret (pool, s, woken) \<Rightarrow> Ret (w\<lparr>drv := (drv w)\<lparr>x_futex := pool, x_sched := s\<rparr>\<rparr>, woken))"

text \<open>\<open>uval\<close> is the word at the address.  A call that waits has stored its slot and called \<^verbatim>\<open>sched_block\<close>; it returns 0 when the task
  runs again.\<close>

datatype futex_result = Futex_ret u64 | Futex_blocked

definition sys_futex :: "u64 \<Rightarrow> u64 \<Rightarrow> u64 \<Rightarrow> u32 \<Rightarrow> world \<Rightarrow> (world \<times> futex_result) kres" where
  "sys_futex addr op v uval w =
    (let cmd = (ucast op :: u32) AND NOT 128 in
     if \<not> user_ptr_valid addr 4 then Ret (w, Futex_ret (neg_errno 14))
     else if addr AND 3 \<noteq> 0 then Ret (w, Futex_ret (neg_errno 22))
     else if cmd = 0 then
       (if uval \<noteq> ucast v then Ret (w, Futex_ret (neg_errno 11))
        else case find (\<lambda>i. \<not> fw_in_use (x_futex (drv w) ! i)) [0..<FUTEX_MAX_WAIT] of
          None \<Rightarrow> Ret (w, Futex_ret (neg_errno 12))
        | Some i \<Rightarrow>
            let pool = (x_futex (drv w))[i := \<lparr>fw_task = current (sched_of w), fw_addr = addr, fw_in_use = True\<rparr>] in
            (case sched_block (sched_of w) of
               Panic m \<Rightarrow> Panic m
             | Ret s \<Rightarrow> Ret (w\<lparr>drv := (drv w)\<lparr>x_futex := pool, x_sched := s\<rparr>\<rparr>, Futex_blocked)))
     else if cmd = 1 then
       (case futex_wake_addr addr (ucast v) w of Panic m \<Rightarrow> Panic m | Ret (w', n) \<Rightarrow> Ret (w', Futex_ret (ucast n)))
     else Ret (w, Futex_ret (neg_errno 38)))"

section \<open>Scans of the task list\<close>

text \<open>\<^verbatim>\<open>while (t != stop) { ...; t = t->next; }\<close>: the first task that satisfies \<open>P\<close>, or 0.\<close>

partial_function (option) find_task :: "(u64 \<Rightarrow> bool) \<Rightarrow> u64 \<Rightarrow> u64 \<Rightarrow> sched \<Rightarrow> u64 option" where
  "find_task P stop t s = (if t = stop then Some 0 else if P t then Some t else find_task P stop (t_next (tk s t)) s)"

text \<open>\<^verbatim>\<open>while (t != stop)\<close> with a body that changes the state and does not leave the loop.\<close>

partial_function (option) each_task :: "(u64 \<Rightarrow> world \<Rightarrow> world kres) \<Rightarrow> u64 \<Rightarrow> u64 \<Rightarrow> world \<Rightarrow> world kres option" where
  "each_task body stop t w = (if t = stop then Some (Ret w)
     else case body t w of
       Panic m \<Rightarrow> Some (Panic m) | Ret w' \<Rightarrow> each_task body stop (t_next (tk (sched_of w') t)) w')"

text \<open>\<^verbatim>\<open>while (prev->next != t) prev = prev->next;\<close>\<close>

partial_function (option) find_prev :: "u64 \<Rightarrow> u64 \<Rightarrow> sched \<Rightarrow> u64 option" where
  "find_prev t prev s = (if t_next (tk s prev) = t then Some prev else find_prev t (t_next (tk s prev)) s)"

section \<open>sched-exit\<close>

definition zombify :: "u64 \<Rightarrow> sched \<Rightarrow> sched" where
  "zombify t s = run_list_remove_locked t (upd_task t (\<lambda>x. x\<lparr>t_fd_table := 0, t_state := TASK_ZOMBIE\<rparr>) s)"

text \<open>The parent to switch to at once.\<close>

definition woken_parent :: "sched \<Rightarrow> u64 option" where
  "woken_parent s = (let c = current s in
     find_task (\<lambda>t. t_is_user (tk s t) \<and> t_state (tk s t) = TASK_RUNNING \<and> t_pid (tk s t) = t_ppid (tk s c)
        \<and> (waiting_for (tk s t) = 0 \<or> waiting_for (tk s t) = t_pid (tk s c))) c (t_next (tk s c)) s)"

definition live_user :: "sched \<Rightarrow> u64 option" where
  "live_user s = find_task (\<lambda>t. t_is_user (tk s t) \<and> t_state (tk s t) \<noteq> TASK_ZOMBIE) (current s) (t_next (tk s (current s))) s"

definition exit_user :: "world \<Rightarrow> world kres option" where
  "exit_user w = (case fd_table_unref x_ops (t_fd_table (tk (sched_of w) (current (sched_of w)))) w of
     Panic m \<Rightarrow> Some (Panic m)
   | Ret (w1, _) \<Rightarrow>
       let s1 = zombify (current (sched_of w1)) (sched_of w1);
           ppid = t_ppid (tk s1 (current s1)) in
       (case (if ppid \<noteq> 0 then signal_send_pid_locked ppid (int SIGCHLD) s1 else Some (Ret s1)) of
          None \<Rightarrow> None
        | Some (Panic m) \<Rightarrow> Some (Panic m)
        | Some (Ret s2) \<Rightarrow>
            (case (woken_parent s2, live_user s2) of
               (Some parent, Some live) \<Rightarrow>
                 let w2 = emit (if live = 0 then [Shutdown] else []) (on_sched (\<lambda>_. s2) w1) in
                 if parent \<noteq> 0 then Some (Ret (on_sched (\<lambda>s. unlock_sched (s\<lparr>current := parent\<rparr>)) w2))
                 else (case sched_yield_to_next (unlock_sched s2) of
                         Panic m \<Rightarrow> Some (Panic m) | Ret s3 \<Rightarrow> Some (Ret (on_sched (\<lambda>_. s3) w2)))
             | _ \<Rightarrow> None)))"

text \<open>When the last task has ended the processor halts for ever; the state then has \<open>Shutdown\<close> as its last effect and the lock is still held.\<close>

definition exit_kernel :: "world \<Rightarrow> world kres option" where
  "exit_kernel w = (let s = sched_of w; c = current s in
     case find_prev c c s of
       None \<Rightarrow> None
     | Some prev \<Rightarrow>
         let next_k = t_next (tk s c);
             s1 = upd_task prev (\<lambda>x. x\<lparr>t_next := next_k\<rparr>) s;
             s2 = run_list_remove_locked c s1;
             nr = (if next_run (tk s1 c) = 0 \<or> next_run (tk s1 c) = s_run_sentinel then next_run (tk s2 s_run_sentinel) else next_run (tk s1 c));
             next' = (if nr \<noteq> 0 \<and> nr \<noteq> s_run_sentinel then nr else next_k);
             s3 = s2\<lparr>s_task_count := s_task_count s2 - 1\<rparr> in
         if next' = c then Some (Ret (emit [Shutdown] (on_sched (\<lambda>_. s3) w)))
         else let w1 = on_sched (\<lambda>_. unlock_sched (s3\<lparr>current := next'\<rparr>)) w in Some (Ret (w1\<lparr>drv := (drv w1)\<lparr>x_dying := c\<rparr>\<rparr>)))"

text \<open>The pages of the kernel task that ended last on this processor are given back.\<close>

definition free_dying :: "world \<Rightarrow> world" where
  "free_dying w = (if x_dying (drv w) = 0 then w
     else let w1 = emit [Free_stack (x_dying (drv w)), Free_tcb (x_dying (drv w))] w in w1\<lparr>drv := (drv w1)\<lparr>x_dying := 0\<rparr>\<rparr>)"

definition sched_exit :: "world \<Rightarrow> world kres option" where
  "sched_exit w = (case lock_sched (sched_of w) of
     Panic m \<Rightarrow> Some (Panic m)
   | Ret s0 \<Rightarrow>
       let w1 = free_dying (on_sched (\<lambda>_. s0) w) in
       if t_is_user (tk s0 (current s0)) then exit_user w1 else exit_kernel w1)"

section \<open>exit\<close>

definition SIGHUP :: nat where "SIGHUP = 1"

definition tty_find_controlling :: "u32 \<Rightarrow> tty_ref list \<Rightarrow> nat option" where
  "tty_find_controlling sid ttys = find (\<lambda>i. tt_in_use (ttys ! i) \<and> tt_session_id (ttys ! i) = sid) [0..<length ttys]"

text \<open>\<^verbatim>\<open>clear_child_tid\<close> of task \<open>t\<close>: the word is zeroed and one waiter is woken.\<close>

definition clear_tid :: "u64 \<Rightarrow> world \<Rightarrow> world kres" where
  "clear_tid t w = (let a = clear_child_tid (tk (sched_of w) t) in
     if a = 0 then Ret w
     else case futex_wake_addr a 1 (emit [Write_zero t a] w) of Panic m \<Rightarrow> Panic m | Ret (w', _) \<Rightarrow> Ret w')"

text \<open>The end of a session leader: its foreground group is told, and the terminal is given up.\<close>

definition hangup :: "u64 \<Rightarrow> world \<Rightarrow> world kres option" where
  "hangup c w = (let p = tk (sched_of w) c in
     if t_pid p \<noteq> t_sid p then Some (Ret w)
     else case tty_find_controlling (t_sid p) (x_ttys (drv w)) of
       None \<Rightarrow> Some (Ret w)
     | Some i \<Rightarrow>
         let g = tt_fg_pgrp (x_ttys (drv w) ! i) in
         if g = 0 then Some (Ret w)
         else case signal_send_pgrp g (int SIGHUP) (sched_of w) of
           None \<Rightarrow> None
         | Some (Panic m) \<Rightarrow> Some (Panic m)
         | Some (Ret s1) \<Rightarrow>
             (case signal_send_pgrp g (int SIGCONT) s1 of
                None \<Rightarrow> None
              | Some (Panic m) \<Rightarrow> Some (Panic m)
              | Some (Ret s2) \<Rightarrow>
                  Some (Ret (w\<lparr>drv := (drv w)\<lparr>x_sched := s2,
                    x_ttys := (x_ttys (drv w))[i := (x_ttys (drv w) ! i)\<lparr>tt_session_id := 0\<rparr>]\<rparr>\<rparr>))))"

definition reparent_body :: "u32 \<Rightarrow> u64 \<Rightarrow> world \<Rightarrow> world kres" where
  "reparent_body pid t w = Ret (if t_is_user (tk (sched_of w) t) \<and> t_ppid (tk (sched_of w) t) = pid
     then on_sched (upd_task t (\<lambda>x. x\<lparr>t_ppid := 1\<rparr>)) w else w)"

text \<open>\<^verbatim>\<open>sched_current()\<close> is read again at each use; none of the calls before \<^verbatim>\<open>sched_exit\<close> switches tasks.\<close>

definition reparent :: "u64 \<Rightarrow> world \<Rightarrow> world kres option" where
  "reparent c w = each_task (reparent_body (t_pid (tk (sched_of w) c))) c (t_next (tk (sched_of w) c)) w"

definition bind_step :: "world kres option \<Rightarrow> (world \<Rightarrow> world kres option) \<Rightarrow> world kres option" where
  "bind_step r f = (case r of None \<Rightarrow> None | Some (Panic m) \<Rightarrow> Some (Panic m) | Some (Ret w) \<Rightarrow> f w)"

definition set_status :: "u64 \<Rightarrow> u64 \<Rightarrow> world \<Rightarrow> world" where
  "set_status c arg1 = on_sched (upd_task c (\<lambda>x. x\<lparr>exit_status := arg1 AND 0xFF\<rparr>))"

definition sys_exit :: "u64 \<Rightarrow> world \<Rightarrow> world kres option" where
  "sys_exit arg1 w = (let c = current (sched_of w) in
     if \<not> t_is_user (tk (sched_of w) c) then sched_exit w
     else bind_step (Some (clear_tid c (set_status c arg1 w))) (\<lambda>w1.
          bind_step (hangup c w1) (\<lambda>w2.
          bind_step (reparent c (emit (if t_pid (tk (sched_of w2) c) = 1 then [Shutdown] else []) w2)) sched_exit)))"

definition kill_thread :: "u32 \<Rightarrow> u64 \<Rightarrow> world \<Rightarrow> world kres" where
  "kill_thread tgid t w = (if t_is_user (tk (sched_of w) t) \<and> t_tgid (tk (sched_of w) t) = tgid
     then clear_tid t (on_sched (upd_task t (\<lambda>x. x\<lparr>t_state := TASK_ZOMBIE\<rparr>)) w) else Ret w)"

definition sys_exit_group :: "u64 \<Rightarrow> world \<Rightarrow> world kres option" where
  "sys_exit_group arg1 w = (let c = current (sched_of w) in
     if \<not> t_is_user (tk (sched_of w) c) then sched_exit w
     else let p = tk (sched_of w) c; w0 = set_status c arg1 w in
       bind_step (each_task (kill_thread (t_tgid p)) c (t_next (tk (sched_of w0) c)) w0) (\<lambda>w1.
       bind_step (hangup c w1) (\<lambda>w2.
       bind_step (reparent c (emit (if t_pid p = 1 \<or> t_tgid p = 1 then [Shutdown] else []) w2)) sched_exit)))"

section \<open>waitpid\<close>

definition WNOHANG :: u64 where "WNOHANG = 1"
definition WUNTRACED :: u64 where "WUNTRACED = 2"

text \<open>\<open>Wait_ret v st\<close> is a return with result \<open>v\<close> after \<open>st\<close>, if any, has been stored at the user's address.\<close>

datatype wait_result = Wait_ret u64 "u32 option" | Wait_blocked

definition wait_match :: "u32 \<Rightarrow> u64 \<Rightarrow> u64 \<Rightarrow> sched \<Rightarrow> u64 \<Rightarrow> bool" where
  "wait_match pid options caller s t \<longleftrightarrow> t_is_user (tk s t) \<and> t_ppid (tk s t) = t_pid (tk s caller)
     \<and> (pid = - 1 \<or> pid = t_pid (tk s t))
     \<and> (t_state (tk s t) = TASK_STOPPED \<and> options AND WUNTRACED \<noteq> 0 \<or> t_state (tk s t) = TASK_ZOMBIE)"

definition reap :: "u64 \<Rightarrow> u64 \<Rightarrow> world \<Rightarrow> world option" where
  "reap caller t w = (let s = sched_of w; x = tk s t in
     case find_prev t t s of
       None \<Rightarrow> None
     | Some prev \<Rightarrow>
         Some (emit ([Free_stack t] @ (if t_tgid x = t_pid x then [Free_pml4 t] else []) @ [Free_vma t, Free_tcb t])
           (on_sched (\<lambda>_. upd_task caller (\<lambda>y. y\<lparr>waiting_for := 0\<rparr>) (upd_task prev (\<lambda>y. y\<lparr>t_next := t_next x\<rparr>) s)) w)))"

text \<open>One pass of the loop.  A pass that finds nothing blocks, and the next one starts when the task runs again.\<close>

definition sys_waitpid :: "u64 \<Rightarrow> u64 \<Rightarrow> u64 \<Rightarrow> world \<Rightarrow> (world \<times> wait_result) kres option" where
  "sys_waitpid pid_arg wstatus_ptr options w =
    (let s = sched_of w; c = current s; pid = (ucast pid_arg :: u32) in
     case find_task (wait_match pid options c s) c (t_next (tk s c)) s of
       None \<Rightarrow> None
     | Some t \<Rightarrow>
         if t = 0 then
           (if options AND WNOHANG \<noteq> 0 then Some (Ret (w, Wait_ret 0 None))
            else case sched_block (upd_task c (\<lambda>x. x\<lparr>waiting_for := (if pid = - 1 then 0 else pid)\<rparr>) s) of
              Panic m \<Rightarrow> Some (Panic m) | Ret s' \<Rightarrow> Some (Ret (on_sched (\<lambda>_. s') w, Wait_blocked)))
         else if wstatus_ptr \<noteq> 0 \<and> \<not> user_ptr_valid wstatus_ptr 4 then Some (Ret (w, Wait_ret (neg_errno 14) None))
         else if t_state (tk s t) = TASK_STOPPED then
           Some (Ret (on_sched (\<lambda>s. upd_task c (\<lambda>x. x\<lparr>waiting_for := 0\<rparr>) (upd_task t (\<lambda>x. x\<lparr>stop_signum := 0\<rparr>) s)) w,
             Wait_ret (ucast (t_pid (tk s t)))
               (if wstatus_ptr \<noteq> 0 then Some (push_bit 8 (stop_signum (tk s t)) OR 0x7F) else None)))
         else case reap c t w of
           None \<Rightarrow> None
         | Some w' \<Rightarrow> Some (Ret (w', Wait_ret (ucast (t_pid (tk s t)))
             (if wstatus_ptr \<noteq> 0 then Some (ucast (push_bit 8 (exit_status (tk s t) AND 0xFF))) else None))))"

end
