(* ===== verification/Sched_Lists.thy ===== *)
theory Sched_Lists
  imports Sched
begin

text \<open>
  The two lists of the scheduler as abstract data: the run list is a list of addresses, the list of all tasks a ring whose
  members are a set.  The pointer operations implement the list operations.
\<close>

section \<open>Doubly linked segments\<close>

text \<open>\<open>x\<close>, the members of the list and \<open>y\<close> follow each other by \<open>N\<close> and precede each other by \<open>P\<close>.\<close>

fun chain :: "(u64 \<Rightarrow> u64) \<Rightarrow> (u64 \<Rightarrow> u64) \<Rightarrow> u64 \<Rightarrow> u64 list \<Rightarrow> u64 \<Rightarrow> bool" where
  "chain N P x [] y \<longleftrightarrow> N x = y \<and> P y = x"
| "chain N P x (a # as) y \<longleftrightarrow> N x = a \<and> P a = x \<and> chain N P a as y"

lemma chain_append: "chain N P x (as @ b # bs) y \<longleftrightarrow> chain N P x as b \<and> chain N P b bs y"
  by (induction as arbitrary: x) auto

lemma chain_ends:
  assumes "chain N P x as y"
  shows "P y = last (x # as)" "N x = hd (as @ [y])"
  using assms by (induction as arbitrary: x) auto

lemma chain_cong:
  assumes "\<And>z. z \<in> insert x (set as) \<Longrightarrow> N' z = N z" "\<And>z. z \<in> insert y (set as) \<Longrightarrow> P' z = P z"
  shows "chain N' P' x as y = chain N P x as y"
  using assms by (induction as arbitrary: x) auto

lemma chain_retarget:
  assumes "chain N P x as y" "distinct (x # as)" "n \<notin> set as"
  shows "chain (N(last (x # as) := n)) (P(n := last (x # as))) x as n"
  using assms
proof (induction as arbitrary: x)
  case (Cons a as)
  let ?l = "last (a # as)"
  have "chain (N(?l := n)) (P(n := ?l)) a as n"
    by (rule Cons.IH) (use Cons.prems in auto)
  moreover have "?l \<noteq> x" using Cons.prems(2) last_in_set [of "a # as"] by (metis distinct.simps(2) list.distinct(1))
  then have "(N(?l := n)) x = a" "(P(n := ?l)) a = x" using Cons.prems by auto
  ultimately show ?case unfolding last.simps [of x] chain.simps by simp
qed simp

section \<open>The run list\<close>

definition nexts :: "sched \<Rightarrow> u64 \<Rightarrow> u64" where "nexts s t = next_run (tk s t)"
definition prevs :: "sched \<Rightarrow> u64 \<Rightarrow> u64" where "prevs s t = prev_run (tk s t)"

definition run_list :: "sched \<Rightarrow> u64 list \<Rightarrow> bool" where
  "run_list s rs \<longleftrightarrow> chain (nexts s) (prevs s) s_run_sentinel rs s_run_sentinel
     \<and> distinct (s_run_sentinel # rs) \<and> 0 \<notin> set rs"

lemma upd_task_same [simp]: "tk (upd_task a f s) a = f (tk s a)"
  and upd_task_other: "b \<noteq> a \<Longrightarrow> tk (upd_task a f s) b = tk s b"
  by (simp_all add: upd_task_def)

lemma tk_upd_task: "tk (upd_task a f s) b = (if b = a then f (tk s a) else tk s b)"
  by (simp add: upd_task_def)

lemma upd_task_fields [simp]:
  "current (upd_task a f s) = current s" "s_task_count (upd_task a f s) = s_task_count s"
  "sched_lock (upd_task a f s) = sched_lock s" "s_sched_ready (upd_task a f s) = s_sched_ready s"
  "s_next_tid (upd_task a f s) = s_next_tid s"
  by (simp_all add: upd_task_def)

lemma run_list_insert:
  assumes R: "run_list s rs" and t: "t \<notin> set rs" "t \<noteq> s_run_sentinel" "t \<noteq> 0" "next_run (tk s t) = 0"
  shows "run_list (run_list_insert_locked t s) (rs @ [t])"
    "next_run (tk (run_list_insert_locked t s) t) = s_run_sentinel"
proof -
  let ?S = s_run_sentinel and ?s = "run_list_insert_locked t s"
  let ?tail = "last (?S # rs)"
  have C: "chain (nexts s) (prevs s) ?S rs ?S" and D: "distinct (?S # rs)" "0 \<notin> set rs" using R by (simp_all add: run_list_def)
  have tail: "prev_run (tk s ?S) = ?tail" using chain_ends(1) [OF C] by (simp add: prevs_def)
  have nt: "t \<noteq> ?tail" using t last_in_set [of "?S # rs"] by auto
  have N: "nexts ?s = (nexts s)(t := ?S, ?tail := t)" and P: "prevs ?s = (prevs s)(t := ?tail, ?S := t)"
    using t nt tail by (auto simp: run_list_insert_locked_def Let_def nexts_def prevs_def tk_upd_task fun_eq_iff)
  have "chain ((nexts s)(?tail := t)) ((prevs s)(t := ?tail)) ?S rs t" by (rule chain_retarget [OF C D(1) t(1)])
  then have "chain (nexts ?s) (prevs ?s) ?S rs t"
    by (rule iffD1 [OF chain_cong, rotated 2]) (use t D in \<open>auto simp: N P\<close>)
  moreover have "chain (nexts ?s) (prevs ?s) t [] ?S" using nt by (simp add: N P)
  ultimately show "run_list ?s (rs @ [t])" using D t by (simp add: run_list_def chain_append)
  show "next_run (tk ?s t) = ?S" using N nt by (metis fun_upd_apply nexts_def)
qed

lemma run_list_remove:
  assumes R: "run_list s (as @ t # bs)"
  shows "run_list (run_list_remove_locked t s) (as @ bs)" "next_run (tk (run_list_remove_locked t s) t) = 0"
proof -
  let ?S = s_run_sentinel and ?s = "run_list_remove_locked t s"
  let ?p = "last (?S # as)" and ?n = "hd (bs @ [?S])"
  have C: "chain (nexts s) (prevs s) ?S as t" "chain (nexts s) (prevs s) t bs ?S" and D: "distinct (?S # as @ t # bs)" "0 \<notin> set (as @ t # bs)"
    using R by (simp_all add: run_list_def chain_append)
  have p: "prev_run (tk s t) = ?p" using chain_ends(1) [OF C(1)] by (simp add: prevs_def)
  have n: "next_run (tk s t) = ?n" using chain_ends(2) [OF C(2)] by (simp add: nexts_def)
  have nz: "?n \<noteq> 0" using D(2) by (cases bs) (auto simp: s_run_sentinel_def)
  have pn: "?p \<noteq> t" using D(1) last_in_set [of "?S # as"] by (auto simp del: last.simps)
  have pn2: "?n \<noteq> t" using D(1) by (cases bs) auto
  note pn = pn pn2
  have N: "nexts ?s = (nexts s)(?p := ?n, t := 0)" and P: "prevs ?s = (prevs s)(?n := ?p, t := 0)"
    using nz pn p n by (auto simp: run_list_remove_locked_def Let_def nexts_def prevs_def tk_upd_task fun_eq_iff)
  have n_as: "?n \<notin> set as" using D(1) by (cases bs) auto
  have A: "chain ((nexts s)(?p := ?n)) ((prevs s)(?n := ?p)) ?S as ?n"
    by (rule chain_retarget [OF C(1)]) (use D n_as in auto)
  have A': "chain (nexts ?s) (prevs ?s) ?S as ?n"
    by (rule iffD1 [OF chain_cong, rotated 2, OF A]) (use D pn in \<open>auto simp: N P\<close>)
  have "chain (nexts ?s) (prevs ?s) ?S (as @ bs) ?S"
  proof (cases bs)
    case Nil
    then show ?thesis using A' by simp
  next
    case (Cons b bs')
    have "last (?S # as) \<notin> set bs" using D(1) last_in_set [of "?S # as"] by auto
    then have "chain (nexts ?s) (prevs ?s) b bs' ?S = chain (nexts s) (prevs s) b bs' ?S"
      using D(1) Cons by (intro chain_cong) (auto simp: N P simp del: last.simps)
    then have "chain (nexts ?s) (prevs ?s) b bs' ?S" using C(2) Cons by simp
    then show ?thesis using A' Cons by (simp add: chain_append)
  qed
  then show "run_list ?s (as @ bs)" using D by (simp add: run_list_def)
  show "next_run (tk ?s t) = 0" using N by (metis fun_upd_apply nexts_def)
qed

lemma run_list_next:
  assumes R: "run_list s (as @ c # bs)"
  shows "run_list_next_locked c s = hd (bs @ as @ c # bs)"
proof -
  let ?S = s_run_sentinel and ?rs = "as @ c # bs"
  have C: "chain (nexts s) (prevs s) ?S ?rs ?S" and D: "distinct (?S # ?rs)" "0 \<notin> set ?rs" using R by (simp_all add: run_list_def)
  have h: "next_run (tk s ?S) = hd (?rs @ [?S])" using chain_ends(2) [OF C] by (simp add: nexts_def)
  have "chain (nexts s) (prevs s) c bs ?S" using C by (simp add: chain_append)
  then have n: "next_run (tk s c) = hd (bs @ [?S])" using chain_ends(2) by (fastforce simp: nexts_def)
  have hr: "hd ?rs \<noteq> ?S" "hd (?rs @ [?S]) = hd ?rs" using D(1) by (cases as; auto)+
  show ?thesis
  proof (cases bs)
    case Nil
    have "?S \<noteq> 0" by (simp add: s_run_sentinel_def)
    then show ?thesis using Nil n h hr D by (simp add: run_list_next_locked_def Let_def)
  next
    case (Cons b bs')
    then show ?thesis using n D by (auto simp: run_list_next_locked_def Let_def)
  qed
qed

section \<open>The list of all tasks\<close>

text \<open>The members follow each other by \<open>N\<close>, the last is followed by \<open>stop\<close>, and no member but the first is \<open>stop\<close>.\<close>

fun tpath :: "(u64 \<Rightarrow> u64) \<Rightarrow> u64 list \<Rightarrow> u64 \<Rightarrow> bool" where
  "tpath N [] stop \<longleftrightarrow> False"
| "tpath N [v] stop \<longleftrightarrow> N v = stop"
| "tpath N (v # w # vs) stop \<longleftrightarrow> N v = w \<and> w \<noteq> stop \<and> tpath N (w # vs) stop"

fun walk_list :: "(u64 \<Rightarrow> sched \<Rightarrow> (sched \<times> bool) kres) \<Rightarrow> u64 list \<Rightarrow> sched \<Rightarrow> sched kres" where
  "walk_list body [] s = Ret s"
| "walk_list body (v # vs) s = (case body v s of
     Panic m \<Rightarrow> Panic m | Ret (s1, exit) \<Rightarrow> if exit then Ret s1 else walk_list body vs s1)"

definition tnexts :: "sched \<Rightarrow> u64 \<Rightarrow> u64" where "tnexts s t = t_next (tk s t)"

lemma walk_tasks_list:
  assumes "tpath (tnexts s) (v # vs) stop" "\<And>t s s1 e. body t s = Ret (s1, e) \<Longrightarrow> tnexts s1 = tnexts s"
  shows "walk_tasks body stop v s = Some (walk_list body (v # vs) s)"
  using assms(1)
proof (induction vs arbitrary: v s)
  case Nil
  show ?case
  proof (cases "body v s")
    case (Ret r)
    obtain s1 e where r: "r = (s1, e)" by fastforce
    have "t_next (tk s1 v) = stop" using Nil assms(2) [of v s s1 e] Ret r by (metis tnexts_def tpath.simps(2))
    then show ?thesis using Ret r by (subst walk_tasks.simps) simp
  qed (subst walk_tasks.simps, simp)
next
  case (Cons w vs)
  show ?case
  proof (cases "body v s")
    case (Ret r)
    obtain s1 e where r: "r = (s1, e)" by fastforce
    have n: "tnexts s1 = tnexts s" using assms(2) [of v s s1 e] Ret r by simp
    then have "walk_tasks body stop w s1 = Some (walk_list body (w # vs) s1)" using Cons by simp
    moreover have "t_next (tk s1 v) = w" "w \<noteq> stop" using Cons.prems n by (metis tnexts_def tpath.simps(3))+
    ultimately show ?thesis using Ret r by (subst walk_tasks.simps) simp
  qed (subst walk_tasks.simps, simp)
qed

lemma tpath_rotate:
  assumes "tpath N (c # d # us) c" "distinct (c # d # us)"
  shows "tpath N (d # us @ [c]) d"
proof -
  have "tpath N (d # us) c" "N c = d" using assms by auto
  moreover have "tpath N (x # us) c \<Longrightarrow> N c = d \<Longrightarrow> d \<notin> set us \<Longrightarrow> c \<noteq> d \<Longrightarrow> tpath N (x # us @ [c]) d" for x us
    by (induction us arbitrary: x) auto
  ultimately show ?thesis using assms(2) by auto
qed

text \<open>The tasks form a ring; it can be entered at each of them.\<close>

definition ring_at :: "sched \<Rightarrow> u64 set \<Rightarrow> u64 \<Rightarrow> u64 list \<Rightarrow> bool" where
  "ring_at s T c us \<longleftrightarrow> tpath (tnexts s) (c # us) c \<and> distinct (c # us) \<and> set (c # us) = T"

lemma ring_rotate:
  assumes "ring_at s T c us" "d \<in> T"
  shows "\<exists>vs. ring_at s T d vs"
  using assms
proof (induction "length (takeWhile (\<lambda>x. x \<noteq> d) (c # us))" arbitrary: c us)
  case 0
  then have "c = d" by (simp split: if_splits)
  then show ?case using "0.prems" by blast
next
  case (Suc n)
  then have cd: "c \<noteq> d" by auto
  then have "d \<in> set us" using Suc.prems by (auto simp: ring_at_def)
  then obtain e vs where us: "us = e # vs" by (cases us) auto
  have R: "ring_at s T e (vs @ [c])"
    using Suc.prems(1) tpath_rotate [of "tnexts s" c e vs] by (auto simp: ring_at_def us)
  have "d \<in> set (e # vs)" using \<open>d \<in> set us\<close> us by simp
  then have "takeWhile (\<lambda>x. x \<noteq> d) (e # vs @ [c]) = takeWhile (\<lambda>x. x \<noteq> d) (e # vs)"
    using takeWhile_append1 [of d "e # vs" "\<lambda>x. x \<noteq> d" "[c]"] by simp
  then have "n = length (takeWhile (\<lambda>x. x \<noteq> d) (e # vs @ [c]))" using Suc.hyps(2) us cd by simp
  from Suc.hyps(1) [OF this R Suc.prems(2)] show ?case .
qed

lemma ring_at_cong: "tnexts s' = tnexts s \<Longrightarrow> ring_at s' T c us = ring_at s T c us"
  by (simp add: ring_at_def)

lemma tpath_cong: "(\<And>z. z \<in> set vs \<Longrightarrow> N' z = N z) \<Longrightarrow> tpath N' vs stop = tpath N vs stop"
  by (induction N vs stop rule: tpath.induct) auto

lemma ring_insert:
  assumes "ring_at s T c us" "t \<notin> T" "tnexts s' = (tnexts s)(t := tnexts s c, c := t)"
  shows "ring_at s' (insert t T) c (t # us)"
proof -
  have tp: "tpath (tnexts s) (c # us) c" "distinct (c # us)" "set (c # us) = T" using assms(1) by (auto simp: ring_at_def)
  have n: "tnexts s' c = t" "tnexts s' t = tnexts s c" using assms(2,3) tp(3) by auto
  show ?thesis
  proof (cases us)
    case Nil
    then show ?thesis using tp n assms(2) by (auto simp: ring_at_def)
  next
    case (Cons u vs)
    have "tpath (tnexts s') us c = tpath (tnexts s) us c"
      using tp assms(2) by (intro tpath_cong) (auto simp: assms(3))
    then show ?thesis using tp n assms(2) Cons by (auto simp: ring_at_def)
  qed
qed

section \<open>The invariant\<close>

text \<open>The run list is \<open>rs\<close>, all tasks are \<open>T\<close>, and the tasks off the run list are marked so.\<close>

definition links_ok :: "sched \<Rightarrow> u64 list \<Rightarrow> u64 set \<Rightarrow> bool" where
  "links_ok s rs T \<longleftrightarrow> run_list s rs \<and> (\<exists>us. ring_at s T (current s) us) \<and> set rs \<subseteq> T
     \<and> (\<forall>t\<in>T - set rs. next_run (tk s t) = 0) \<and> 0 \<notin> T \<and> s_run_sentinel \<notin> T"

text \<open>In addition, a task is on the run list exactly if it is running, and the current task is.\<close>

definition lists_ok :: "sched \<Rightarrow> u64 list \<Rightarrow> u64 set \<Rightarrow> bool" where
  "lists_ok s rs T \<longleftrightarrow> links_ok s rs T \<and> (\<forall>t\<in>T. t \<in> set rs \<longleftrightarrow> t_state (tk s t) = TASK_RUNNING)"

definition sched_inv :: "sched \<Rightarrow> u64 list \<Rightarrow> u64 set \<Rightarrow> bool" where
  "sched_inv s rs T \<longleftrightarrow> lists_ok s rs T \<and> current s \<in> set rs \<and> \<not> sched_lock s"

lemma links_okD:
  assumes "links_ok s rs T"
  shows "run_list s rs" "set rs \<subseteq> T" "t \<in> T \<Longrightarrow> t \<notin> set rs \<Longrightarrow> next_run (tk s t) = 0"
    "t \<in> T \<Longrightarrow> t \<noteq> 0 \<and> t \<noteq> s_run_sentinel" "distinct rs" "t \<in> set rs \<Longrightarrow> next_run (tk s t) \<noteq> 0" "current s \<in> T"
proof -
  show R: "run_list s rs" "set rs \<subseteq> T" "t \<in> T \<Longrightarrow> t \<notin> set rs \<Longrightarrow> next_run (tk s t) = 0" "t \<in> T \<Longrightarrow> t \<noteq> 0 \<and> t \<noteq> s_run_sentinel"
    using assms by (auto simp: links_ok_def)
  show "distinct rs" using R(1) by (simp add: run_list_def)
  show "current s \<in> T" using assms by (auto simp: links_ok_def ring_at_def)
  show "next_run (tk s t) \<noteq> 0" if t: "t \<in> set rs"
  proof -
    obtain as bs where rs: "rs = as @ t # bs" using t by (meson split_list)
    have "chain (nexts s) (prevs s) t bs s_run_sentinel" using R(1) by (simp add: run_list_def rs chain_append)
    then have "next_run (tk s t) = hd (bs @ [s_run_sentinel])" using chain_ends(2) by (fastforce simp: nexts_def)
    then show ?thesis using R(1) rs by (cases bs) (auto simp: run_list_def s_run_sentinel_def)
  qed
qed

lemma lists_okD:
  assumes "lists_ok s rs T"
  shows "run_list s rs" "set rs \<subseteq> T" "t \<in> T \<Longrightarrow> t \<in> set rs \<longleftrightarrow> t_state (tk s t) = TASK_RUNNING"
    "t \<in> T \<Longrightarrow> t \<notin> set rs \<Longrightarrow> next_run (tk s t) = 0" "t \<in> T \<Longrightarrow> t \<noteq> 0 \<and> t \<noteq> s_run_sentinel"
    "distinct rs" "t \<in> set rs \<Longrightarrow> next_run (tk s t) \<noteq> 0"
  using assms links_okD [of s rs T] by (auto simp: lists_ok_def)

lemma lists_ok_links: "lists_ok s rs T \<Longrightarrow> links_ok s rs T"
  by (simp add: lists_ok_def)

text \<open>Operations that touch neither list.\<close>

lemma links_ok_cong:
  assumes "links_ok s rs T" "nexts s' = nexts s" "prevs s' = prevs s" "tnexts s' = tnexts s" "current s' \<in> T"
  shows "links_ok s' rs T"
proof -
  obtain us where us: "ring_at s T (current s) us" using assms(1) by (auto simp: links_ok_def)
  then obtain vs where "ring_at s' T (current s') vs" using ring_rotate [OF us assms(5)] ring_at_cong [OF assms(4)] by blast
  moreover have "next_run (tk s' t) = next_run (tk s t)" for t using assms(2) by (metis nexts_def)
  ultimately show ?thesis using assms by (auto simp: links_ok_def run_list_def)
qed

lemma lists_ok_cong:
  assumes "lists_ok s rs T" "nexts s' = nexts s" "prevs s' = prevs s" "tnexts s' = tnexts s" "current s' \<in> T"
    "\<And>t. t \<in> T \<Longrightarrow> (t_state (tk s' t) = TASK_RUNNING) = (t_state (tk s t) = TASK_RUNNING)"
  shows "lists_ok s' rs T"
  using assms links_ok_cong [of s rs T s'] by (simp add: lists_ok_def)

lemma insert_tnexts [simp]: "tnexts (run_list_insert_locked t s) = tnexts s" "tnexts (run_list_remove_locked t s) = tnexts s"
  by (auto simp: tnexts_def run_list_insert_locked_def run_list_remove_locked_def Let_def tk_upd_task fun_eq_iff)

lemma insert_state [simp]:
  "t_state (tk (run_list_insert_locked t s) u) = t_state (tk s u)" "t_state (tk (run_list_remove_locked t s) u) = t_state (tk s u)"
  "current (run_list_insert_locked t s) = current s" "current (run_list_remove_locked t s) = current s"
  "sched_lock (run_list_insert_locked t s) = sched_lock s" "sched_lock (run_list_remove_locked t s) = sched_lock s"
  "s_sched_ready (run_list_insert_locked t s) = s_sched_ready s" "s_sched_ready (run_list_remove_locked t s) = s_sched_ready s"
  by (simp_all add: run_list_insert_locked_def run_list_remove_locked_def Let_def tk_upd_task)

lemma insert_next_other:
  "u \<noteq> t \<Longrightarrow> u \<noteq> s_run_sentinel \<Longrightarrow> u \<noteq> prev_run (tk s s_run_sentinel) \<Longrightarrow>
    next_run (tk (run_list_insert_locked t s) u) = next_run (tk s u)"
  by (simp add: run_list_insert_locked_def Let_def tk_upd_task)

lemma run_list_tail: "run_list s rs \<Longrightarrow> prev_run (tk s s_run_sentinel) = last (s_run_sentinel # rs)"
  using chain_ends(1) [of "nexts s" "prevs s" s_run_sentinel rs s_run_sentinel] by (simp add: run_list_def prevs_def)

lemma links_insert:
  assumes L: "links_ok s rs T" and t: "t \<in> T"
  shows "links_ok (run_list_insert_locked t s) (if t \<in> set rs then rs else rs @ [t]) T"
proof -
  note D = links_okD [OF L]
  show ?thesis
  proof (cases "t \<in> set rs")
    case True
    then have "run_list_insert_locked t s = s" using D(6) [OF True] by (simp add: run_list_insert_locked_def)
    then show ?thesis using L True by simp
  next
    case False
    have I: "run_list (run_list_insert_locked t s) (rs @ [t])"
      by (rule run_list_insert(1) [OF D(1) False]) (use D(4) [OF t] D(3) [OF t False] in auto)
    have "next_run (tk (run_list_insert_locked t s) u) = 0" if u: "u \<in> T - set (rs @ [t])" for u
    proof -
      have "u \<noteq> last (s_run_sentinel # rs)" using u D(4) [of u] last_in_set [of "s_run_sentinel # rs"] by auto
      then show ?thesis using insert_next_other [of u t s] run_list_tail [OF D(1)] u D(3) [of u] D(4) [of u] by auto
    qed
    moreover obtain us where "ring_at s T (current s) us" using L by (auto simp: links_ok_def)
    then have "ring_at (run_list_insert_locked t s) T (current s) us"
      using ring_at_cong [of "run_list_insert_locked t s" s] by simp
    moreover have "0 \<notin> T" "s_run_sentinel \<notin> T" using D(4) by auto
    ultimately show ?thesis using I D(2) t False unfolding links_ok_def by auto
  qed
qed

lemma remove_next_other:
  assumes "run_list s (as @ t # bs)" "u \<notin> set (as @ t # bs)" "u \<noteq> s_run_sentinel"
  shows "next_run (tk (run_list_remove_locked t s) u) = next_run (tk s u)"
proof -
  have "chain (nexts s) (prevs s) s_run_sentinel as t" using assms(1) by (simp add: run_list_def chain_append)
  then have "prev_run (tk s t) = last (s_run_sentinel # as)" using chain_ends(1) by (fastforce simp: prevs_def)
  then have "u \<noteq> prev_run (tk s t)" using assms(2,3) by (cases as rule: rev_cases) auto
  then show ?thesis using assms(2) by (auto simp: run_list_remove_locked_def Let_def tk_upd_task)
qed

lemma links_remove:
  assumes L: "links_ok s rs T" and t: "t \<in> T"
  shows "links_ok (run_list_remove_locked t s) (remove1 t rs) T"
proof -
  note D = links_okD [OF L]
  show ?thesis
  proof (cases "t \<in> set rs")
    case False
    then have "run_list_remove_locked t s = s" using D(3) [OF t False] by (simp add: run_list_remove_locked_def)
    then show ?thesis using False L by (simp add: remove1_idem)
  next
    case True
    then obtain as bs where rs: "rs = as @ t # bs" by (meson split_list)
    then have r1: "remove1 t rs = as @ bs" using D(5) by (simp add: remove1_append)
    have R: "run_list s (as @ t # bs)" using D(1) rs by simp
    have "next_run (tk (run_list_remove_locked t s) u) = 0" if "u \<in> T - set (as @ bs)" for u
      using that run_list_remove(2) [OF R] remove_next_other [OF R, of u] D(3) [of u] D(4) [of u] rs by (cases "u = t") auto
    moreover obtain us where "ring_at s T (current s) us" using L by (auto simp: links_ok_def)
    then have "ring_at (run_list_remove_locked t s) T (current s) us"
      using ring_at_cong [of "run_list_remove_locked t s" s] by simp
    moreover have "0 \<notin> T" "s_run_sentinel \<notin> T" using D(4) by auto
    ultimately show ?thesis using run_list_remove(1) [OF R] D(2) rs unfolding links_ok_def r1 by auto
  qed
qed

text \<open>A task that has just become running is put on the list, and one that has just left the running state is taken off it.\<close>

lemma upd_task_links:
  assumes "\<And>x. t_next (f x) = t_next x \<and> next_run (f x) = next_run x \<and> prev_run (f x) = prev_run x"
  shows "nexts (upd_task t f s) = nexts s" "prevs (upd_task t f s) = prevs s" "tnexts (upd_task t f s) = tnexts s"
  using assms by (auto simp: nexts_def prevs_def tnexts_def tk_upd_task fun_eq_iff)

lemma links_upd:
  assumes "links_ok s rs T" "\<And>x. t_next (f x) = t_next x \<and> next_run (f x) = next_run x \<and> prev_run (f x) = prev_run x"
  shows "links_ok (upd_task t f s) rs T"
  by (rule links_ok_cong [OF assms(1) upd_task_links]) (use assms links_okD(7) [OF assms(1)] in simp_all)

lemma make_running:
  assumes L: "lists_ok s rs T" and t: "t \<in> T" and f: "\<And>x. t_next (f x) = t_next x \<and> next_run (f x) = next_run x \<and> prev_run (f x) = prev_run x"
    "\<And>x. t_state (f x) = TASK_RUNNING"
  shows "lists_ok (run_list_insert_locked t (upd_task t f s)) (if t \<in> set rs then rs else rs @ [t]) T"
  using links_insert [OF links_upd [OF lists_ok_links [OF L] f(1), of t] t] lists_okD(3) [OF L] f(2) t
  by (auto simp: lists_ok_def tk_upd_task)

lemma leave_running:
  assumes L: "lists_ok s rs T" and t: "t \<in> T" and f: "\<And>x. t_next (f x) = t_next x \<and> next_run (f x) = next_run x \<and> prev_run (f x) = prev_run x"
    "\<And>x. t_state (f x) \<noteq> TASK_RUNNING"
  shows "lists_ok (run_list_remove_locked t (upd_task t f s)) (remove1 t rs) T"
  using links_remove [OF links_upd [OF lists_ok_links [OF L] f(1), of t] t] lists_okD(3,6) [OF L] f(2) t
  by (auto simp: lists_ok_def tk_upd_task in_set_remove1)

section \<open>Operations\<close>

lemma links_frame [simp]:
  "nexts (s\<lparr>sched_lock := b\<rparr>) = nexts s" "prevs (s\<lparr>sched_lock := b\<rparr>) = prevs s" "tnexts (s\<lparr>sched_lock := b\<rparr>) = tnexts s"
  "nexts (s\<lparr>current := c\<rparr>) = nexts s" "prevs (s\<lparr>current := c\<rparr>) = prevs s" "tnexts (s\<lparr>current := c\<rparr>) = tnexts s"
  "nexts (s\<lparr>s_task_count := n\<rparr>) = nexts s" "prevs (s\<lparr>s_task_count := n\<rparr>) = prevs s" "tnexts (s\<lparr>s_task_count := n\<rparr>) = tnexts s"
  "nexts (s\<lparr>s_next_tid := n\<rparr>) = nexts s" "prevs (s\<lparr>s_next_tid := n\<rparr>) = prevs s" "tnexts (s\<lparr>s_next_tid := n\<rparr>) = tnexts s"
  "nexts (s\<lparr>s_sched_ready := r\<rparr>) = nexts s" "prevs (s\<lparr>s_sched_ready := r\<rparr>) = prevs s" "tnexts (s\<lparr>s_sched_ready := r\<rparr>) = tnexts s"
  by (simp_all add: nexts_def prevs_def tnexts_def fun_eq_iff)

lemma lists_ok_switch:
  assumes "lists_ok s rs T" "c \<in> T"
  shows "lists_ok (s\<lparr>current := c, sched_lock := b\<rparr>) rs T" "lists_ok (s\<lparr>current := c\<rparr>) rs T"
  by (rule lists_ok_cong [OF assms(1)]; use assms(2) in simp)+

lemma lists_ok_lock: "lists_ok (s\<lparr>sched_lock := b\<rparr>) rs T = lists_ok s rs T"
  by (simp add: lists_ok_def links_ok_def run_list_def ring_at_def)

lemma sched_wake_inv:
  assumes "sched_inv s rs T" "t \<in> T"
  shows "\<exists>s'. sched_wake t s = Ret s' \<and> sched_inv s' (if t \<in> set rs then rs else rs @ [t]) T \<and> current s' = current s"
proof -
  have "lists_ok (sched_wake_locked t (s\<lparr>sched_lock := True\<rparr>)) (if t \<in> set rs then rs else rs @ [t]) T"
    unfolding sched_wake_locked_def by (rule make_running) (use assms in \<open>simp_all add: sched_inv_def lists_ok_lock\<close>)
  then show ?thesis using assms
    by (auto simp: sched_wake_def lock_sched_def unlock_sched_def sched_inv_def lists_ok_lock sched_wake_locked_def)
qed

lemma sched_resume_wake: "sched_resume t s = sched_wake t s"
  by (simp add: sched_resume_def sched_wake_def sched_wake_locked_def split: kres.split)

lemma leave_cpu_inv:
  assumes inv: "sched_inv s (as @ current s # bs) T" and ne: "as @ bs \<noteq> []" and st: "st \<noteq> TASK_RUNNING"
  shows "\<exists>s'. leave_cpu st msg (s\<lparr>sched_lock := True\<rparr>) = Ret s' \<and> sched_inv s' (as @ bs) T
    \<and> current s' = hd (bs @ as) \<and> t_state (tk s' (current s)) = st"
proof -
  let ?s0 = "s\<lparr>sched_lock := True\<rparr>" and ?c = "current s" and ?S = s_run_sentinel
  let ?s1 = "run_list_remove_locked ?c (upd_task ?c (\<lambda>x. x\<lparr>t_state := st\<rparr>) ?s0)"
  have L: "lists_ok ?s0 (as @ ?c # bs) T" using inv by (simp add: sched_inv_def lists_ok_lock)
  have cT: "?c \<in> T" using lists_okD(2) [OF L] by simp
  note D = lists_okD [OF L]
  have "?c \<notin> set as" using D(6) by auto
  then have L1: "lists_ok ?s1 (as @ bs) T"
    using leave_running [OF L cT, of "\<lambda>x. x\<lparr>t_state := st\<rparr>"] st by (simp add: remove1_append)
  have n: "next_run (tk ?s0 ?c) = hd (bs @ [?S])"
    using D(1) chain_ends(2) [of "nexts ?s0" "prevs ?s0" ?c bs ?S] by (simp add: run_list_def chain_append nexts_def)
  have h: "next_run (tk ?s1 ?S) = hd (as @ bs @ [?S])"
    using lists_okD(1) [OF L1] chain_ends(2) [of "nexts ?s1" "prevs ?s1" ?S "as @ bs" ?S] by (simp add: run_list_def nexts_def)
  let ?n = "if next_run (tk ?s0 ?c) = 0 \<or> next_run (tk ?s0 ?c) = ?S then next_run (tk ?s1 ?S) else next_run (tk ?s0 ?c)"
  have nS: "x \<in> set (as @ bs) \<Longrightarrow> x \<noteq> 0 \<and> x \<noteq> ?S" for x using D(2,5) by auto
  have nxt: "?n = hd (bs @ as)"
  proof (cases bs)
    case Nil
    then have "as \<noteq> []" using ne by simp
    then show ?thesis using n h Nil by simp
  next
    case (Cons b bs')
    then show ?thesis using n nS [of b] by simp
  qed
  have c0: "current ?s0 = ?c" by simp
  have mem: "hd (bs @ as) \<in> set (as @ bs)" using ne hd_in_set [of "bs @ as"] by auto
  have "leave_cpu st msg ?s0 = Ret (unlock_sched (?s1\<lparr>current := hd (bs @ as)\<rparr>))"
    unfolding leave_cpu_def Let_def c0 nxt using nS [OF mem] by simp
  moreover have "hd (bs @ as) \<in> T" using mem D(2) by auto
  then have "sched_inv (unlock_sched (?s1\<lparr>current := hd (bs @ as)\<rparr>)) (as @ bs) T"
    using lists_ok_switch(1) [OF L1, of "hd (bs @ as)" False] mem by (auto simp: sched_inv_def unlock_sched_def)
  ultimately show ?thesis by (simp add: unlock_sched_def)
qed

lemma split_current:
  assumes "sched_inv s rs T"
  obtains as bs where "rs = as @ current s # bs"
  using assms split_list by (fastforce simp: sched_inv_def)

lemma sched_block_inv:
  assumes "sched_inv s (as @ current s # bs) T" "as @ bs \<noteq> []"
  shows "\<exists>s'. sched_block s = Ret s' \<and> sched_inv s' (as @ bs) T \<and> current s' = hd (bs @ as)
    \<and> t_state (tk s' (current s)) = TASK_BLOCKED"
  using leave_cpu_inv [OF assms, of TASK_BLOCKED] assms(1)
  by (auto simp: sched_block_def lock_sched_def sched_inv_def)

lemma sched_stop_self_inv:
  assumes "sched_inv s (as @ current s # bs) T" "as @ bs \<noteq> []"
  shows "\<exists>s'. sched_stop (current s) s = Ret s' \<and> sched_inv s' (as @ bs) T \<and> current s' = hd (bs @ as)
    \<and> t_state (tk s' (current s)) = TASK_STOPPED"
  using leave_cpu_inv [OF assms, of TASK_STOPPED] assms(1)
  by (auto simp: sched_stop_def lock_sched_def sched_inv_def)

lemma sched_stop_other_inv:
  assumes inv: "sched_inv s rs T" and t: "t \<in> T" "t \<noteq> current s"
  shows "\<exists>s'. sched_stop t s = Ret s' \<and> sched_inv s' (remove1 t rs) T \<and> current s' = current s"
proof -
  let ?s = "run_list_remove_locked t (upd_task t (\<lambda>x. x\<lparr>t_state := TASK_STOPPED\<rparr>) (s\<lparr>sched_lock := True\<rparr>))"
  have "lists_ok ?s (remove1 t rs) T" by (rule leave_running) (use inv t in \<open>simp_all add: sched_inv_def lists_ok_lock\<close>)
  then show ?thesis using inv t
    by (simp add: sched_stop_def lock_sched_def unlock_sched_def sched_inv_def lists_ok_lock in_set_remove1)
qed

lemma sched_yield_inv:
  assumes inv: "sched_inv s (as @ current s # bs) T"
  shows "\<exists>s'. sched_yield_to_next s = Ret s' \<and> sched_inv s' (as @ current s # bs) T
    \<and> current s' = hd (bs @ as @ current s # bs)"
proof -
  let ?rs = "as @ current s # bs" and ?s = "s\<lparr>sched_lock := True\<rparr>"
  have L: "lists_ok ?s ?rs T" using inv by (simp add: sched_inv_def lists_ok_lock)
  have n: "run_list_next_locked (current s) ?s = hd (bs @ ?rs)" by (rule run_list_next [OF lists_okD(1) [OF L]])
  have m: "hd (bs @ ?rs) \<in> set ?rs" by (cases bs; cases as) auto
  then have T: "hd (bs @ ?rs) \<in> T" using lists_okD(2) [OF L] by blast
  then have "hd (bs @ ?rs) \<noteq> 0" using lists_okD(5) [OF L] by blast
  then show ?thesis using n m T inv lists_ok_switch(1) [of s ?rs T "hd (bs @ ?rs)" False] lists_ok_lock
    by (auto simp: sched_yield_to_next_def lock_sched_def Let_def unlock_sched_def sched_inv_def)
qed

end
