(* ===== verification/Sched_Props.thy ===== *)
theory Sched_Props
  imports Sched_Lists
begin

text \<open>
  Every operation of the scheduler keeps the run list equal to the running tasks, and none panics as long as the idle task never
  leaves the list.
\<close>

section \<open>New tasks\<close>

lemma new_task_lists:
  assumes L: "lists_ok s rs T" and t: "t \<notin> T" "t \<noteq> 0" "t \<noteq> s_run_sentinel"
    and links: "nexts s' = (nexts s)(t := 0)" "prevs s' = (prevs s)(t := p)"
      "tnexts s' = (tnexts s)(t := tnexts s (current s), current s := t)" "current s' = current s"
    and st: "\<And>u. u \<in> T \<Longrightarrow> t_state (tk s' u) = t_state (tk s u)"
  shows "lists_ok (if t_state (tk s' t) = TASK_RUNNING then run_list_insert_locked t s' else s')
    (if t_state (tk s' t) = TASK_RUNNING then rs @ [t] else rs) (insert t T)"
proof -
  note D = lists_okD [OF L]
  let ?b = "upd_task t (\<lambda>x. x\<lparr>t_state := TASK_BLOCKED\<rparr>) s'"
  have keep: "nexts ?b = nexts s'" "prevs ?b = prevs s'" "tnexts ?b = tnexts s'"
    by (auto simp: nexts_def prevs_def tnexts_def tk_upd_task fun_eq_iff)
  have ts: "t \<notin> set rs" using t(1) D(2) by blast
  have "chain (nexts ?b) (prevs ?b) s_run_sentinel rs s_run_sentinel = chain (nexts s) (prevs s) s_run_sentinel rs s_run_sentinel"
    by (rule chain_cong) (use ts t links(1,2) in \<open>auto simp: keep\<close>)
  then have R: "run_list ?b rs" using D(1) by (simp add: run_list_def)
  obtain us where "ring_at s T (current s) us" using L by (auto simp: lists_ok_def links_ok_def)
  then have G: "ring_at ?b (insert t T) (current ?b) (t # us)"
    using ring_insert [of s T "current s" us t ?b] t(1) links(3,4) keep(3) by simp
  have n0: "next_run (tk ?b u) = (if u = t then 0 else next_run (tk s u))" for u
    using links(1) keep(1) by (metis fun_upd_apply nexts_def)
  have stb: "u \<in> set rs \<longleftrightarrow> t_state (tk ?b u) = TASK_RUNNING" if "u \<in> insert t T" for u
    using that D(3) [of u] st [of u] ts by (cases "u = t") (auto simp: tk_upd_task)
  have z: "0 \<notin> T" "s_run_sentinel \<notin> T" using D(5) by auto
  have B: "lists_ok ?b rs (insert t T)"
    unfolding lists_ok_def links_ok_def using R G stb n0 D(2,4) z t by auto
  show ?thesis
  proof (cases "t_state (tk s' t) = TASK_RUNNING")
    case True
    then have "(tk s' t)\<lparr>t_state := TASK_RUNNING\<rparr> = tk s' t" by (cases "tk s' t") simp
    then have "upd_task t (\<lambda>x. x\<lparr>t_state := TASK_RUNNING\<rparr>) ?b = s'" by (simp add: upd_task_def)
    then show ?thesis using make_running [OF B insertI1, of "\<lambda>x. x\<lparr>t_state := TASK_RUNNING\<rparr>"] ts True by simp
  next
    case False
    have "lists_ok s' rs (insert t T)"
      by (rule lists_ok_cong [OF B]) (use keep G False in \<open>auto simp: tk_upd_task ring_at_def\<close>)
    then show ?thesis using False by simp
  qed
qed

lemma link_task_facts:
  assumes "current s \<noteq> 0" "t \<noteq> current s"
  shows "nexts (link_task t s) = nexts s" "prevs (link_task t s) = prevs s" "current (link_task t s) = current s"
    "tnexts (link_task t s) = (tnexts s)(t := tnexts s (current s), current s := t)"
    "t_state (tk (link_task t s) u) = t_state (tk s u)" "sched_lock (link_task t s) = sched_lock s"
  using assms by (auto simp: link_task_def Let_def nexts_def prevs_def tnexts_def tk_upd_task fun_eq_iff)

lemma lists_ok_count: "lists_ok (s\<lparr>s_task_count := n\<rparr>) rs T = lists_ok s rs T"
  by (simp add: lists_ok_def links_ok_def run_list_def ring_at_def)

lemma sched_add_inv:
  assumes inv: "sched_inv s rs T" and t: "t \<notin> T" "t \<noteq> 0" "t \<noteq> s_run_sentinel"
  shows "\<exists>s'. sched_add t s = Ret s' \<and> current s' = current s
    \<and> sched_inv s' (if t_state (tk s t) = TASK_RUNNING then rs @ [t] else rs) (insert t T)"
proof -
  let ?s0 = "upd_task t (\<lambda>x. x\<lparr>next_run := 0, prev_run := 0\<rparr>) (s\<lparr>sched_lock := True\<rparr>)"
  let ?s1 = "link_task t ?s0"
  have L: "lists_ok (s\<lparr>sched_lock := True\<rparr>) rs T" using inv by (simp add: sched_inv_def lists_ok_lock)
  have c: "current s \<in> T" using inv lists_okD(2) [OF L] by (auto simp: sched_inv_def)
  then have c0: "current ?s0 \<noteq> 0" "t \<noteq> current ?s0" using t lists_okD(5) [OF L, of "current s"] by auto
  note F = link_task_facts [OF c0]
  have st: "t_state (tk ?s0 u) = t_state (tk s u)" for u by (simp add: tk_upd_task)
  have K: "nexts ?s0 = (nexts s)(t := 0)" "prevs ?s0 = (prevs s)(t := 0)" "tnexts ?s0 = tnexts s"
    by (auto simp: nexts_def prevs_def tnexts_def tk_upd_task fun_eq_iff)
  have "lists_ok (if t_state (tk ?s1 t) = TASK_RUNNING then run_list_insert_locked t ?s1 else ?s1)
      (if t_state (tk ?s1 t) = TASK_RUNNING then rs @ [t] else rs) (insert t T)"
    by (rule new_task_lists [OF L t]) (use F K st in simp_all)
  then show ?thesis using inv F st
    by (auto simp: sched_add_def lock_sched_def Let_def unlock_sched_def sched_inv_def lists_ok_lock lists_ok_count)
qed

lemma sched_add_fresh:
  assumes inv: "sched_inv s rs T" and t: "t \<notin> T" "t \<noteq> 0" "t \<noteq> s_run_sentinel"
  shows "\<exists>s'. sched_add t (upd_task t (\<lambda>_. x) s) = Ret s' \<and> current s' = current s
    \<and> sched_inv s' (if t_state x = TASK_RUNNING then rs @ [t] else rs) (insert t T)"
proof -
  let ?s = "upd_task t (\<lambda>_. x) s"
  have L: "lists_ok s rs T" "current s \<in> set rs" using inv by (auto simp: sched_inv_def)
  note D = lists_okD [OF L(1)]
  have ts: "t \<notin> set rs" using t(1) D(2) by blast
  obtain us where us: "tpath (tnexts s) (current s # us) (current s)" "distinct (current s # us)" "set (current s # us) = T"
    using L(1) by (auto simp: lists_ok_def links_ok_def ring_at_def)
  have eq: "nexts ?s z = nexts s z" "prevs ?s z = prevs s z" "tnexts ?s z = tnexts s z" "tk ?s z = tk s z" if "z \<noteq> t" for z
    using that by (simp_all add: nexts_def prevs_def tnexts_def tk_upd_task)
  have "chain (nexts ?s) (prevs ?s) s_run_sentinel rs s_run_sentinel = chain (nexts s) (prevs s) s_run_sentinel rs s_run_sentinel"
    by (rule chain_cong; intro eq) (use ts t in auto)
  moreover have "tpath (tnexts ?s) (current s # us) (current s) = tpath (tnexts s) (current s # us) (current s)"
    by (rule tpath_cong; intro eq) (use us(3) t(1) in auto)
  moreover have "tk ?s z = tk s z" if "z \<in> T" for z using that t(1) by (intro eq(4)) auto
  ultimately have "lists_ok ?s rs T" using L(1) us
    by (auto simp: lists_ok_def links_ok_def run_list_def ring_at_def intro!: exI [of _ us])
  then have "sched_inv ?s rs T" using inv by (simp add: sched_inv_def)
  from sched_add_inv [OF this t] show ?thesis by (simp add: tk_upd_task)
qed

lemma sched_spawn_inv:
  assumes inv: "sched_inv s rs T" and t: "t \<notin> T" "t \<noteq> 0" "t \<noteq> s_run_sentinel"
  shows "\<exists>s'. sched_spawn t s = Ret s' \<and> current s' = current s \<and> sched_inv s' (rs @ [t]) (insert t T)"
proof -
  let ?f = "\<lambda>x. x\<lparr>t_is_user := False, t_tid := s_next_tid s, t_state := TASK_RUNNING, waiting_for := 0, next_run := 0, prev_run := 0\<rparr>"
  let ?s0 = "upd_task t ?f (s\<lparr>sched_lock := True, s_next_tid := s_next_tid s + 1\<rparr>)"
  let ?s1 = "link_task t ?s0"
  have L: "lists_ok (s\<lparr>sched_lock := True\<rparr>) rs T" using inv by (simp add: sched_inv_def lists_ok_lock)
  have c: "current s \<in> T" using inv lists_okD(2) [OF L] by (auto simp: sched_inv_def)
  then have c0: "current ?s0 \<noteq> 0" "t \<noteq> current ?s0" using t lists_okD(5) [OF L, of "current s"] by auto
  note F = link_task_facts [OF c0]
  have st: "t_state (tk ?s0 u) = (if u = t then TASK_RUNNING else t_state (tk s u))" for u by (simp add: tk_upd_task)
  have K: "nexts ?s0 = (nexts s)(t := 0)" "prevs ?s0 = (prevs s)(t := 0)" "tnexts ?s0 = tnexts s"
    by (auto simp: nexts_def prevs_def tnexts_def tk_upd_task fun_eq_iff)
  have "lists_ok (if t_state (tk ?s1 t) = TASK_RUNNING then run_list_insert_locked t ?s1 else ?s1)
      (if t_state (tk ?s1 t) = TASK_RUNNING then rs @ [t] else rs) (insert t T)"
    by (rule new_task_lists [OF L t]) (use F K st t in auto)
  then show ?thesis using inv F st
    by (simp add: sched_spawn_def lock_sched_def Let_def unlock_sched_def sched_inv_def lists_ok_lock lists_ok_count)
qed

section \<open>The timer\<close>

lemma wake_sleeper_links: "wake_sleeper now t s = Ret (s1, e) \<Longrightarrow> tnexts s1 = tnexts s"
proof -
  have "tnexts (upd_task t (\<lambda>x. x\<lparr>sleep_deadline := 0, t_state := TASK_RUNNING\<rparr>) s) = tnexts s"
    by (auto simp: tnexts_def tk_upd_task fun_eq_iff)
  then show "wake_sleeper now t s = Ret (s1, e) \<Longrightarrow> tnexts s1 = tnexts s" by (auto simp: wake_sleeper_def split: if_splits)
qed

lemma wake_sleepers:
  assumes "lists_ok s rs T" "set vs \<subseteq> T"
  shows "\<exists>s' ws. walk_list (wake_sleeper now) vs s = Ret s' \<and> lists_ok s' (rs @ ws) T
    \<and> current s' = current s \<and> sched_lock s' = sched_lock s \<and> s_sched_ready s' = s_sched_ready s"
  using assms
proof (induction vs arbitrary: s rs)
  case Nil
  then show ?case by (intro exI [of _ s] exI [of _ "[]"]) simp
next
  case (Cons v vs)
  show ?case
  proof (cases "t_state (tk s v) = TASK_BLOCKED \<and> sleep_deadline (tk s v) \<noteq> 0 \<and> sleep_deadline (tk s v) \<le> now")
    case True
    let ?s = "run_list_insert_locked v (upd_task v (\<lambda>x. x\<lparr>sleep_deadline := 0, t_state := TASK_RUNNING\<rparr>) s)"
    have "v \<notin> set rs" using lists_okD(3) [OF Cons.prems(1), of v] True Cons.prems(2) by auto
    then have "lists_ok ?s (rs @ [v]) T"
      using make_running [OF Cons.prems(1), of v "\<lambda>x. x\<lparr>sleep_deadline := 0, t_state := TASK_RUNNING\<rparr>"] Cons.prems(2) by simp
    from Cons.IH [OF this] obtain s' ws where "walk_list (wake_sleeper now) vs ?s = Ret s'" "lists_ok s' ((rs @ [v]) @ ws) T"
        "current s' = current ?s" "sched_lock s' = sched_lock ?s" "s_sched_ready s' = s_sched_ready ?s"
      using Cons.prems(2) by auto
    moreover have "wake_sleeper now v s = Ret (?s, False)" using True by (simp add: wake_sleeper_def)
    ultimately show ?thesis by (intro exI [of _ s'] exI [of _ "v # ws"]) simp
  next
    case False
    then have "walk_list (wake_sleeper now) (v # vs) s = walk_list (wake_sleeper now) vs s" by (auto simp: wake_sleeper_def)
    then show ?thesis using Cons.IH [OF Cons.prems(1)] Cons.prems(2) by simp
  qed
qed

lemma sched_tick_inv:
  assumes inv: "sched_inv s (as @ current s # bs) T" and ready: "s_sched_ready s"
  shows "\<exists>s' ws. sched_tick now s = Some (Ret s') \<and> sched_inv s' (as @ current s # bs @ ws) T
    \<and> current s' = hd (bs @ ws @ as @ [current s]) \<and> s_sched_ready s'"
proof -
  let ?rs = "as @ current s # bs" and ?s0 = "s\<lparr>sched_lock := True\<rparr>" and ?c = "current s"
  have L: "lists_ok ?s0 ?rs T" using inv by (simp add: sched_inv_def lists_ok_lock)
  obtain us where us: "ring_at ?s0 T ?c us" using L by (auto simp: lists_ok_def links_ok_def)
  let ?n = "t_next (tk ?s0 ?c)"
  obtain vs where vs: "tpath (tnexts ?s0) (?n # vs) ?c" "set (?n # vs) \<subseteq> T"
  proof (cases us)
    case Nil
    then have "?n = ?c" using us by (simp add: ring_at_def tnexts_def)
    then show ?thesis using that [of "[]"] us Nil by (auto simp: ring_at_def tnexts_def)
  next
    case (Cons u us')
    then have "?n = u" "tpath (tnexts ?s0) (u # us') ?c" using us by (simp_all add: ring_at_def tnexts_def)
    then show ?thesis using that [of us'] us Cons by (auto simp: ring_at_def)
  qed
  obtain s1 ws where s1: "walk_list (wake_sleeper now) (?n # vs) ?s0 = Ret s1"
      and ws: "lists_ok s1 (?rs @ ws) T" "current s1 = ?c" "sched_lock s1" "s_sched_ready s1"
    using wake_sleepers [OF L vs(2), of now] ready by fastforce
  have w: "walk_tasks (wake_sleeper now) ?c ?n ?s0 = Some (Ret s1)"
    using walk_tasks_list [OF vs(1) wake_sleeper_links] s1 by simp
  have nx: "run_list_next_locked ?c s1 = hd ((bs @ ws) @ as @ ?c # bs @ ws)"
    using run_list_next [of s1 as ?c "bs @ ws"] lists_okD(1) [OF ws(1)] by simp
  have hd: "hd ((bs @ ws) @ as @ ?c # bs @ ws) = hd (bs @ ws @ as @ [?c])" by (cases bs; cases ws; cases as) auto
  let ?h = "hd (bs @ ws @ as @ [?c])"
  have m: "?h \<in> set (?rs @ ws)" using hd_in_set [of "bs @ ws @ as @ [?c]"] by auto
  then have hT: "?h \<in> T" using lists_okD(2) [OF ws(1)] by blast
  have h0: "?h \<noteq> 0" "?c \<noteq> 0" using lists_okD(5) [OF ws(1) hT] lists_okD(2,5) [OF L] by auto
  let ?s' = "unlock_sched (if ?h = 0 \<or> ?h = ?c then s1 else s1\<lparr>current := ?h\<rparr>)"
  have "sched_tick now s = Some (Ret ?s')"
    using inv ready w ws(2) nx hd h0 by (simp add: sched_tick_def lock_sched_def sched_inv_def Let_def)
  moreover have "sched_inv ?s' (?rs @ ws) T" "current ?s' = ?h"
    using ws m h0 lists_ok_switch(1) [OF ws(1) hT, of False] lists_ok_lock by (auto simp: sched_inv_def unlock_sched_def)
  moreover have "s_sched_ready ?s'" using ws(4) by (simp add: unlock_sched_def)
  ultimately show ?thesis by auto
qed

text \<open>The order of service seen from the next task, and after tasks \<open>ws\<close> have been appended.\<close>

lemma next_round:
  "\<exists>as' bs'. as @ c # bs = as' @ hd (bs @ as @ [c]) # bs' \<and> bs' @ as' @ [hd (bs @ as @ [c])] = tl (bs @ as @ [c]) @ [hd (bs @ as @ [c])]"
proof (cases bs)
  case Nil
  then show ?thesis by (cases as) (auto intro: exI [of _ "[]"])
next
  case (Cons b r)
  then show ?thesis by (intro exI [of _ "as @ [c]"] exI [of _ r]) simp
qed

lemma widen_round:
  assumes "bs @ as @ [c] = xs @ t # ys"
  shows "\<exists>zs ys'. bs @ ws @ as @ [c] = zs @ t # ys' \<and> length zs \<le> length xs + length ws"
proof -
  obtain us where "bs = xs @ us \<and> us @ as @ [c] = t # ys \<or> xs = bs @ us \<and> as @ [c] = us @ t # ys"
    using assms by (auto simp: append_eq_append_conv2)
  then consider us' where "bs = xs @ t # us'" | ps where "xs = bs @ ps" "as @ [c] = ps @ t # ys"
    by (cases us) auto
  then show ?thesis
  proof cases
    case (1 us')
    then show ?thesis by (intro exI [of _ xs] exI [of _ "us' @ ws @ as @ [c]"]) simp
  next
    case (2 ps)
    then show ?thesis by (intro exI [of _ "bs @ ws @ ps"] exI [of _ ys]) simp
  qed
qed

section \<open>Operations\<close>

datatype sched_op = Op_start | Op_spawn u64 | Op_add u64 task | Op_block | Op_wake u64 | Op_stop u64 | Op_resume u64
  | Op_yield | Op_tick u64

fun sched_do :: "sched_op \<Rightarrow> sched \<Rightarrow> sched kres option" where
  "sched_do Op_start s = Some (sched_start s)"
| "sched_do (Op_spawn t) s = Some (sched_spawn t s)"
| "sched_do (Op_add t x) s = Some (sched_add t (upd_task t (\<lambda>_. x) s))"
| "sched_do Op_block s = Some (sched_block s)"
| "sched_do (Op_wake t) s = Some (sched_wake t s)"
| "sched_do (Op_stop t) s = Some (sched_stop t s)"
| "sched_do (Op_resume t) s = Some (sched_resume t s)"
| "sched_do Op_yield s = Some (sched_yield_to_next s)"
| "sched_do (Op_tick now) s = sched_tick now s"

text \<open>What the callers respect: a new control block is a fresh page, only existing tasks are woken or stopped, and the idle task
  neither blocks nor is stopped.\<close>

fun op_allowed :: "u64 \<Rightarrow> u64 set \<Rightarrow> sched \<Rightarrow> sched_op \<Rightarrow> bool" where
  "op_allowed idle T s (Op_spawn t) \<longleftrightarrow> t \<notin> T \<and> t \<noteq> 0 \<and> t \<noteq> s_run_sentinel"
| "op_allowed idle T s (Op_add t x) \<longleftrightarrow> t \<notin> T \<and> t \<noteq> 0 \<and> t \<noteq> s_run_sentinel"
| "op_allowed idle T s Op_block \<longleftrightarrow> current s \<noteq> idle"
| "op_allowed idle T s (Op_wake t) \<longleftrightarrow> t \<in> T"
| "op_allowed idle T s (Op_stop t) \<longleftrightarrow> t \<in> T \<and> t \<noteq> idle"
| "op_allowed idle T s (Op_resume t) \<longleftrightarrow> t \<in> T"
| "op_allowed idle T s _ \<longleftrightarrow> True"

fun op_tasks :: "sched_op \<Rightarrow> u64 set \<Rightarrow> u64 set" where
  "op_tasks (Op_spawn t) T = insert t T"
| "op_tasks (Op_add t x) T = insert t T"
| "op_tasks _ T = T"

lemma sched_boot:
  assumes "\<not> sched_lock s0" "t \<noteq> 0" "t \<noteq> s_run_sentinel"
  shows "\<exists>s. sched_spawn t (sched_init s0) = Ret s \<and> sched_inv s [t] {t}"
  using assms
  by (auto intro!: exI [of _ "[]"] simp: sched_spawn_def sched_init_def lock_sched_def Let_def link_task_def run_list_insert_locked_def upd_task_def
      unlock_sched_def sched_inv_def lists_ok_def links_ok_def run_list_def ring_at_def nexts_def prevs_def tnexts_def s_run_sentinel_def)

lemma sched_do_inv:
  assumes inv: "sched_inv s rs T" and idle: "idle \<in> set rs" and ok: "op_allowed idle T s op"
  shows "\<exists>s' rs'. sched_do op s = Some (Ret s') \<and> sched_inv s' rs' (op_tasks op T) \<and> idle \<in> set rs'"
proof -
  obtain as bs where rs: "rs = as @ current s # bs" by (rule split_current [OF inv])
  have D: "set rs \<subseteq> T" "0 \<notin> T" "distinct rs" using inv lists_okD(2,6) by (auto simp: sched_inv_def lists_ok_def links_ok_def)
  have c0: "current s \<noteq> 0" using D rs by auto
  show ?thesis
  proof (cases op)
    case Op_start
    then show ?thesis using inv idle c0 lists_ok_cong [of s rs T "s\<lparr>s_sched_ready := True\<rparr>"] D(1) rs
      by (auto simp: sched_start_def sched_inv_def)
  next
    case (Op_spawn t)
    then show ?thesis using sched_spawn_inv [OF inv, of t] ok idle by fastforce
  next
    case (Op_add t x)
    let ?s = "upd_task t (\<lambda>_. x) s"
    have "\<exists>s'. sched_add t ?s = Ret s' \<and> current s' = current s
      \<and> sched_inv s' (if t_state (tk ?s t) = TASK_RUNNING then rs @ [t] else rs) (insert t T)"
      using sched_add_fresh [OF inv, of t x] ok Op_add by auto
    then show ?thesis using idle Op_add by fastforce
  next
    case Op_block
    then have "as @ bs \<noteq> []" "idle \<in> set (as @ bs)" using idle ok rs by auto
    then show ?thesis using sched_block_inv [of s as bs T] inv rs Op_block by fastforce
  next
    case (Op_wake t)
    then show ?thesis using sched_wake_inv [OF inv, of t] ok idle by (fastforce split: if_splits)
  next
    case (Op_stop t)
    show ?thesis
    proof (cases "t = current s")
      case True
      then have "as @ bs \<noteq> []" "idle \<in> set (as @ bs)" using idle ok rs Op_stop by auto
      then show ?thesis using sched_stop_self_inv [of s as bs T] inv rs Op_stop True by fastforce
    next
      case False
      then show ?thesis using sched_stop_other_inv [OF inv, of t] ok idle Op_stop by fastforce
    qed
  next
    case (Op_resume t)
    then show ?thesis using sched_wake_inv [OF inv, of t] ok idle by (fastforce simp: sched_resume_wake split: if_splits)
  next
    case Op_yield
    then show ?thesis using sched_yield_inv [of s as bs T] inv rs idle by fastforce
  next
    case (Op_tick now)
    show ?thesis
    proof (cases "s_sched_ready s")
      case True
      then show ?thesis using sched_tick_inv [of s as bs T now] inv rs idle Op_tick by fastforce
    next
      case False
      then show ?thesis using inv idle Op_tick by (auto simp: sched_tick_def)
    qed
  qed
qed

text \<open>A control block full of zeros and the state before boot.\<close>

definition no_task :: task where
  "no_task = \<lparr>t_tid = 0, t_is_user = False, t_state = TASK_RUNNING, waiting_for = 0, clear_child_tid = 0, sleep_deadline = 0,
     t_next = 0, next_run = 0, prev_run = 0, t_pid = 0, t_tgid = 0, t_ppid = 0, t_pgid = 0, t_sid = 0, stop_signum = 0,
     exit_status = 0, pending_signals = 0, signal_mask = 0,
     sigactions = (\<lambda>_. \<lparr>sa_handler = 0, sa_flags = 0, sa_restorer = 0, sa_mask = 0\<rparr>), t_caps = [], t_fd_table = 0\<rparr>"

definition sched0 :: sched where
  "sched0 = \<lparr>tk = (\<lambda>_. no_task), current = 0, s_next_tid = 0, s_task_count = 0, s_sched_ready = False, sched_lock = False\<rparr>"

end
