(* ===== verification/Signal_Frame.thy ===== *)
theory Signal_Frame
  imports Signal Sched_Props
begin

text \<open>
  Signal frames: words written to user memory are read back, and so are the registers and the mask that a signal frame saves.
  Returning from a handler restores the system call frame, and loses the registers outside of it.
\<close>

section \<open>Words in memory\<close>

lemma bit_or_bytes:
  fixes f :: "nat \<Rightarrow> u8"
  shows "bit (foldr (\<lambda>j w. push_bit (8 * j) (ucast (f j)) OR w) js (0 :: u64)) n
    \<longleftrightarrow> n < 64 \<and> (\<exists>j\<in>set js. 8 * j \<le> n \<and> bit (f j) (n - 8 * j))"
  by (induction js) (auto simp: bit_simps)

lemma bit_get_word: "bit (get_word a um) n \<longleftrightarrow> n < 64 \<and> bit (um (a + of_nat (n div 8))) (n mod 8)"
proof -
  have j: "j = n div 8 \<and> n - 8 * j = n mod 8" if "8 * j \<le> n" "bit (um (a + of_nat j)) (n - 8 * j)" for j
  proof -
    have "n - 8 * j < 8" using that(2) bit_imp_le_length by fastforce
    then have "n div 8 = j" using that(1) by (metis add.commute div_less div_mult_self4 le_add_diff_inverse add_0 zero_neq_numeral)
    then show ?thesis by (metis minus_mult_div_eq_mod)
  qed
  have "8 * (n div 8) \<le> n" "n - 8 * (n div 8) = n mod 8" "n < 64 \<Longrightarrow> n div 8 < 8"
    by (auto simp: minus_mult_div_eq_mod)
  then have "n < 64 \<and> (\<exists>j\<in>set [0..<8]. 8 * j \<le> n \<and> bit (um (a + of_nat j)) (n - 8 * j))
      \<longleftrightarrow> n < 64 \<and> bit (um (a + of_nat (n div 8))) (n mod 8)"
    using j by (metis atLeastLessThan_iff set_upt zero_le)
  then show ?thesis unfolding get_word_def bit_or_bytes .
qed

lemma unat_of_nat64: "d < 2 ^ 64 \<Longrightarrow> unat (of_nat d :: u64) = d"
  by (simp add: unsigned_of_nat take_bit_nat_eq_self)

lemma get_put_words:
  assumes "i < length ws" "8 * length ws < 2 ^ 64"
  shows "get_word (a + of_nat (8 * i)) (put_words a ws um) = ws ! i"
proof (rule bit_word_eqI)
  fix n assume n: "n < LENGTH(64)"
  let ?d = "8 * i + n div 8"
  have lt: "?d < 8 * length ws" using assms(1) n by simp
  then have "unat (of_nat ?d :: u64) = ?d" using assms(2) by (intro unat_of_nat64) simp
  moreover have "a + of_nat (8 * i) + of_nat (n div 8) - a = (of_nat ?d :: u64)" by simp
  ultimately have "put_words a ws um (a + of_nat (8 * i) + of_nat (n div 8)) = word_byte (ws ! i) (n div 8)"
    using lt n by (simp add: put_words_def)
  then show "bit (get_word (a + of_nat (8 * i)) (put_words a ws um)) n = bit (ws ! i) n"
    using n by (simp add: bit_get_word word_byte_def bit_simps)
qed

lemma get_words_put:
  assumes "length ws = n" "8 * n < 2 ^ 64"
    and "\<And>x. unat (x - a) < 8 * n \<Longrightarrow> um' x = put_words a ws um x"
  shows "get_words a n um' = ws"
proof (rule nth_equalityI)
  show "length (get_words a n um') = length ws" using assms(1) by (simp add: get_words_def)
  fix i assume "i < length (get_words a n um')"
  then have i: "i < n" by (simp add: get_words_def)
  have "get_word (a + of_nat (8 * i)) um' = get_word (a + of_nat (8 * i)) (put_words a ws um)"
  proof (rule bit_word_eqI)
    fix m assume m: "m < LENGTH(64)"
    let ?d = "8 * i + m div 8"
    have d: "?d < 8 * n" using i m by simp
    have "unat (of_nat ?d :: u64) = ?d" by (rule unat_of_nat64) (use d assms(2) in linarith)
    moreover have "a + of_nat (8 * i) + of_nat (m div 8) - a = (of_nat ?d :: u64)" by simp
    ultimately have "um' (a + of_nat (8 * i) + of_nat (m div 8)) = put_words a ws um (a + of_nat (8 * i) + of_nat (m div 8))"
      using d by (intro assms(3)) simp
    then show "bit (get_word (a + of_nat (8 * i)) um') m = bit (get_word (a + of_nat (8 * i)) (put_words a ws um)) m"
      by (simp add: bit_get_word)
  qed
  then show "get_words a n um' ! i = ws ! i"
    using i assms(1,2) get_put_words [of i ws a um] by (simp add: get_words_def)
qed

lemma sigframe_roundtrip:
  "pretcode (sigframe_of (sigframe_words sf)) = pretcode sf" "uc_sigmask (sigframe_of (sigframe_words sf)) = uc_sigmask sf"
  "i < 23 \<Longrightarrow> gregs (sigframe_of (sigframe_words sf)) i = gregs sf i"
  by (simp_all add: sigframe_of_def sigframe_words_def nth_append nth_Cons')

lemma length_sigframe_words [simp]: "length (sigframe_words sf) = 70"
  by (simp add: sigframe_words_def)


section \<open>Choosing a signal\<close>

lemma upd_current_fields [simp]:
  "current (upd_current f s) = current s" "sched_lock (upd_current f s) = sched_lock s"
  "tk (upd_current f s) u = (if u = current s then f (tk s u) else tk s u)"
  by (simp_all add: upd_current_def tk_upd_task)

lemma ctzll_lowest:
  assumes "w \<noteq> (0 :: u64)"
  shows "ctzll w < 64" "bit w (ctzll w)" "m < ctzll w \<Longrightarrow> \<not> bit w m"
proof -
  obtain n where "n < 64" "bit w n" using assms bit_word_eqI [of w 0] by auto
  then have "find (bit w) [0..<64] \<noteq> None" by (auto simp: find_None_iff)
  then obtain k where k: "find (bit w) [0..<64] = Some k" by blast
  then obtain i where i: "i < 64" "bit w i" "k = i" "\<forall>j<i. \<not> bit w ([0..<64] ! j)" by (auto simp: find_Some_iff)
  then show "ctzll w < 64" "bit w (ctzll w)" "m < ctzll w \<Longrightarrow> \<not> bit w m" using k by (auto simp: ctzll_def)
qed

lemma signal_pick_handler:
  assumes "signal_pick s = Some (Ret (s1, Sig_handler, n))"
  shows "s1 = upd_current (\<lambda>x. x\<lparr>pending_signals := pending_signals x AND NOT (sigbit n)\<rparr>) s"
    "n = ctzll (pending_signals (tk s (current s)) AND NOT (signal_mask (tk s (current s))))"
    "pending_signals (tk s (current s)) AND NOT (signal_mask (tk s (current s))) \<noteq> 0"
    "user_ptr_valid (sa_handler (sigactions (tk s (current s)) n)) 1"
  using assms by (auto simp: signal_pick_def Let_def split: if_splits option.splits kres.splits)

text \<open>A delivery that runs a handler, on either path.\<close>

lemma deliver_sysret_handler:
  assumes "signal_deliver_sysret f r um s = Some (Ret (f1, r1, um1, s1, Sig_handler))"
  obtains n sa where "n = ctzll (pending_signals (tk s (current s)) AND NOT (signal_mask (tk s (current s))))"
    "sa = sigactions (tk s (current s)) n" "user_ptr_valid (sa_handler sa) 1" "user_ptr_valid (new_rsp (f_user_rsp f)) 560"
    "f1 = f\<lparr>f_rip := sa_handler sa, f_user_rsp := new_rsp (f_user_rsp f)\<rparr>" "r1 = r\<lparr>s_rdi := of_nat n\<rparr>"
    "um1 = put_words (new_rsp (f_user_rsp f)) (sigframe_words (save_frame sa (signal_mask (tk s (current s))) f r)) um"
    "s1 = block_handler sa n (upd_current (\<lambda>x. x\<lparr>pending_signals := pending_signals x AND NOT (sigbit n)\<rparr>) s)"
proof -
  obtain s0 n where p: "signal_pick s = Some (Ret (s0, Sig_handler, n))"
    using assms by (auto simp: signal_deliver_sysret_def Let_def split: if_splits option.splits kres.splits)
  note P = signal_pick_handler [OF p]
  show ?thesis
    by (rule that [of n "sigactions (tk s (current s)) n"])
      (use assms p P in \<open>auto simp: signal_deliver_sysret_def Let_def split: if_splits\<close>)
qed

lemma deliver_irq_handler:
  assumes "signal_deliver c um s = Some (Ret (c1, um1, s1, Sig_handler))"
  obtains n sa where "n = ctzll (pending_signals (tk s (current s)) AND NOT (signal_mask (tk s (current s))))"
    "sa = sigactions (tk s (current s)) n" "user_ptr_valid (sa_handler sa) 1" "user_ptr_valid (new_rsp (c_rsp c)) 560"
    "c1 = c\<lparr>c_rip := sa_handler sa, c_rsp := new_rsp (c_rsp c), c_rdi := of_nat n, c_rax := 0\<rparr>"
    "um1 = put_words (new_rsp (c_rsp c)) (sigframe_words (save_cpu sa (signal_mask (tk s (current s))) c)) um"
    "s1 = block_handler sa n (upd_current (\<lambda>x. x\<lparr>pending_signals := pending_signals x AND NOT (sigbit n)\<rparr>) s)"
proof -
  obtain s0 n where p: "signal_pick s = Some (Ret (s0, Sig_handler, n))"
    using assms by (auto simp: signal_deliver_def Let_def split: if_splits option.splits kres.splits)
  note P = signal_pick_handler [OF p]
  show ?thesis
    by (rule that [of n "sigactions (tk s (current s)) n"])
      (use assms p P in \<open>auto simp: signal_deliver_def Let_def split: if_splits\<close>)
qed

section \<open>Returning from a handler\<close>

text \<open>What \<^verbatim>\<open>sigreturn\<close> makes of an intact frame.\<close>

definition restored :: "rt_sigframe \<Rightarrow> syscall_frame" where
  "restored sf = \<lparr>f_r10 = gregs sf REG_R10, f_r9 = gregs sf REG_R9, f_r8 = gregs sf REG_R8, f_rbx = gregs sf REG_RBX,
     f_rbp = gregs sf REG_RBP, f_r12 = gregs sf REG_R12, f_r13 = gregs sf REG_R13, f_r14 = gregs sf REG_R14,
     f_r15 = gregs sf REG_R15, f_rflags = (gregs sf REG_EFL AND 0xCD5) OR 0x202, f_rip = gregs sf REG_RIP,
     f_user_rsp = gregs sf REG_RSP\<rparr>"

lemmas reg_defs = REG_R8_def REG_R9_def REG_R10_def REG_R11_def REG_R12_def REG_R13_def REG_R14_def REG_R15_def REG_RDI_def
  REG_RSI_def REG_RBP_def REG_RBX_def REG_RDX_def REG_RAX_def REG_RCX_def REG_RSP_def REG_RIP_def REG_EFL_def REG_CSGSFS_def

lemma sigreturn_intact:
  assumes sp: "f_user_rsp fh = sp + 8" "user_ptr_valid sp 560" and rip: "gregs sf REG_RIP \<le> 0x00007FFFFFFFFFFF"
    and mem: "\<And>a. unat (a - sp) < 560 \<Longrightarrow> um2 a = put_words sp (sigframe_words sf) um a"
  shows "sys_rt_sigreturn fh um2 s = Some (restored sf,
    upd_current (\<lambda>x. x\<lparr>signal_mask := uc_sigmask sf AND NOT unmaskable\<rparr>) s, SIGRETURN_MAGIC)"
proof -
  have "get_words sp 70 um2 = sigframe_words sf" by (rule get_words_put [where um = um]) (use mem in simp_all)
  moreover have "f_user_rsp fh - 8 = sp" using sp(1) by simp
  ultimately show ?thesis using sp(2) rip
    by (simp add: sys_rt_sigreturn_def Let_def restored_def sigframe_roundtrip reg_defs not_less)
qed

lemma restored_frame: "restored (save_frame sa msk f r) = f\<lparr>f_rflags := (f_rflags f AND 0xCD5) OR 0x202\<rparr>"
  by (simp add: restored_def save_frame_def gregs_of_def reg_defs)


lemma saved_mask [simp]: "uc_sigmask (save_frame sa msk f r) = msk" "uc_sigmask (save_cpu sa msk c) = msk"
  by (simp_all add: save_frame_def save_cpu_def)

lemma restored_cpu:
  "restored (save_cpu sa msk c) = (frame_of c)\<lparr>f_rflags := (c_rflags c AND 0xCD5) OR 0x202\<rparr>"
  by (simp add: restored_def save_cpu_def gregs_of_def reg_defs frame_of_def)

lemma sysret_flags: "(((x :: u64) AND 0xCD5) OR 0x202) AND 0x3C7FD7 OR 2 = (x AND 0xCD5) OR 0x202"
  by (simp add: bit.conj_disj_distrib2 and.assoc or.assoc)

lemma return_from_handler:
  assumes sp: "c_rsp c2 = sp + 8" "user_ptr_valid sp 560" and rip: "gregs sf REG_RIP \<le> 0x00007FFFFFFFFFFF"
    and mem: "\<forall>a. unat (a - sp) < 560 \<longrightarrow> um2 a = put_words sp (sigframe_words sf) um a"
  shows "syscall_entry Call_rt_sigreturn c2 um2 s2 = Some (Ret (load_regs (restored sf) (regs_with c2 SIGRETURN_MAGIC), um2,
    upd_current (\<lambda>x. x\<lparr>signal_mask := uc_sigmask sf AND NOT unmaskable\<rparr>) s2, Sig_none))"
proof -
  have "f_user_rsp (frame_of c2) = sp + 8" using sp(1) by (simp add: frame_of_def)
  from sigreturn_intact [OF this sp(2) rip, of um2 um] mem show ?thesis
    by (simp add: syscall_entry_def syscall_exit_def regs_with_def)
qed

text \<open>A process with signal 10 pending and a handler for it.\<close>

definition demo_action :: k_sigaction where
  "demo_action = \<lparr>sa_handler = 0x400000, sa_flags = 0, sa_restorer = 0x401000, sa_mask = 0\<rparr>"

definition demo_sig :: sched where
  "demo_sig = sched0\<lparr>current := 0x1000,
     tk := (\<lambda>_. no_task\<lparr>t_is_user := True, t_pid := 5, pending_signals := 0x400, sigactions := (\<lambda>_. demo_action)\<rparr>)\<rparr>"

definition demo_cpu :: cpu_state where
  "demo_cpu = \<lparr>c_r15 = 15, c_r14 = 14, c_r13 = 13, c_r12 = 12, c_r11 = 11, c_r10 = 10, c_r9 = 9, c_r8 = 8, c_rbp = 7, c_rdi = 6,
     c_rsi = 5, c_rdx = 4, c_rcx = 3, c_rbx = 2, c_rax = 1, c_rip = 0x402000, c_cs = ARCH_USER_CS, c_rflags = 0x202, c_rsp = 0x7FFF0000\<rparr>"

lemma demo_pick:
  "signal_pick demo_sig = Some (Ret (upd_current (\<lambda>x. x\<lparr>pending_signals := pending_signals x AND NOT (sigbit 10)\<rparr>) demo_sig, Sig_handler, 10))"
proof -
  have "ctzll 0x400 = 10" by code_simp
  then show ?thesis
    by (simp add: signal_pick_def demo_sig_def Let_def no_task_def demo_action_def SIG_DFL_def SIG_IGN_def user_ptr_valid_def USER_ADDR_MAX_def)
qed

lemma demo_sp: "user_ptr_valid (new_rsp 0x7FFF0000) 560"
  by (simp add: new_rsp_def user_ptr_valid_def USER_ADDR_MAX_def)

lemma demo_deliver:
  "\<exists>f1 r1 um1 s1. signal_deliver_sysret (frame_of demo_cpu) (regs_with demo_cpu 0) (\<lambda>_. 0) demo_sig = Some (Ret (f1, r1, um1, s1, Sig_handler))"
  "\<exists>c1 um1 s1. signal_deliver demo_cpu (\<lambda>_. 0) demo_sig = Some (Ret (c1, um1, s1, Sig_handler))"
  using demo_sp by (simp_all add: signal_deliver_sysret_def signal_deliver_def demo_pick)
    (simp_all add: demo_sig_def demo_cpu_def frame_of_def Let_def)

section \<open>Correctness\<close>

text \<open>C12. Delivery on the system call return path and \<^verbatim>\<open>sigreturn\<close> are inverse on the system call frame: whenever a signal is
  delivered on the way back from a system call, and the handler returns with its frame in memory untouched, \<^verbatim>\<open>sigreturn\<close> succeeds and
  the processor continues where the call would have returned, with the same stack pointer, \<^verbatim>\<open>r8\<close> to \<^verbatim>\<open>r10\<close> and callee-saved registers;
  the arithmetic flags are kept and the others reset, and the signal mask is the one before the handler, without the bits of
  \<^verbatim>\<open>SIGKILL\<close> and \<^verbatim>\<open>SIGSTOP\<close>.  The statement is about the frame only: the result of the
  call in \<^verbatim>\<open>rax\<close>, and \<^verbatim>\<open>rdi\<close>, \<^verbatim>\<open>rsi\<close> and \<^verbatim>\<open>rdx\<close>, are not part of it and are not restored.\<close>

theorem signal_return_roundtrip:
  assumes "signal_deliver_sysret f r um s = Some (Ret (f1, r1, um1, s1, Sig_handler))" "f_rip f \<le> 0x00007FFFFFFFFFFF"
    and "c_rsp c2 = f_user_rsp f1 + 8" "\<forall>a. unat (a - f_user_rsp f1) < 560 \<longrightarrow> um2 a = um1 a"
  shows "\<exists>c3 s3. syscall_entry Call_rt_sigreturn c2 um2 s2 = Some (Ret (c3, um2, s3, Sig_none))
    \<and> frame_of c3 = f\<lparr>f_rflags := (f_rflags f AND 0xCD5) OR 0x202\<rparr>
    \<and> s3 = upd_current (\<lambda>x. x\<lparr>signal_mask := signal_mask (tk s (current s)) AND NOT unmaskable\<rparr>) s2"
proof -
  obtain n sa where D: "f1 = f\<lparr>f_rip := sa_handler sa, f_user_rsp := new_rsp (f_user_rsp f)\<rparr>" "user_ptr_valid (new_rsp (f_user_rsp f)) 560"
      "um1 = put_words (new_rsp (f_user_rsp f)) (sigframe_words (save_frame sa (signal_mask (tk s (current s))) f r)) um"
    using assms(1) by (rule deliver_sysret_handler) blast
  have "gregs (save_frame sa (signal_mask (tk s (current s))) f r) REG_RIP \<le> 0x00007FFFFFFFFFFF"
    using assms(2) by (simp add: save_frame_def gregs_of_def reg_defs)
  from return_from_handler [OF _ D(2) this, of c2 um2 um s2] show ?thesis
    using assms(3,4) D(1,3) by (simp add: restored_frame load_regs_def frame_of_def sysret_flags)
qed

theorem signal_return_roundtrip_witness:
  "\<exists>c2 um2 s2 c3 s3. syscall_entry Call_rt_sigreturn c2 um2 s2 = Some (Ret (c3, um2, s3, Sig_none))
    \<and> frame_of c3 = (frame_of demo_cpu)\<lparr>f_rflags := (f_rflags (frame_of demo_cpu) AND 0xCD5) OR 0x202\<rparr>"
proof -
  obtain f1 r1 um1 s1 where d: "signal_deliver_sysret (frame_of demo_cpu) (regs_with demo_cpu 0) (\<lambda>_. 0) demo_sig
      = Some (Ret (f1, r1, um1, s1, Sig_handler))" using demo_deliver(1) by blast
  have "f_rip (frame_of demo_cpu) \<le> 0x00007FFFFFFFFFFF" by (simp add: frame_of_def demo_cpu_def)
  from signal_return_roundtrip [OF d this, of "demo_cpu\<lparr>c_rsp := f_user_rsp f1 + 8\<rparr>" um1 s1] show ?thesis by simp blast
qed

text \<open>C38. After an interrupt that is not enough: when the timer or another interrupt delivers the signal, the program continues at the interrupted
  instruction, but with \<^verbatim>\<open>rax\<close> holding the magic number of \<^verbatim>\<open>sigreturn\<close>, \<^verbatim>\<open>rcx\<close> the instruction pointer, \<^verbatim>\<open>r11\<close> the flags, and \<^verbatim>\<open>rdi\<close>, \<^verbatim>\<open>rsi\<close>
  and \<^verbatim>\<open>rdx\<close> what the handler left in them, whatever the frame says.\<close>

theorem signal_irq_return_clobbers:
  assumes "signal_deliver c um s = Some (Ret (c1, um1, s1, Sig_handler))" "c_rip c \<le> 0x00007FFFFFFFFFFF"
    and "c_rsp c2 = c_rsp c1 + 8" "\<forall>a. unat (a - c_rsp c1) < 560 \<longrightarrow> um2 a = um1 a"
  shows "\<exists>c3 s3. syscall_entry Call_rt_sigreturn c2 um2 s2 = Some (Ret (c3, um2, s3, Sig_none))
    \<and> c_rip c3 = c_rip c \<and> c_rsp c3 = c_rsp c \<and> c_rax c3 = SIGRETURN_MAGIC \<and> c_rcx c3 = c_rip c
    \<and> c_r11 c3 = (c_rflags c AND 0xCD5) OR 0x202 \<and> c_rdi c3 = c_rdi c2 \<and> c_rsi c3 = c_rsi c2 \<and> c_rdx c3 = c_rdx c2"
proof -
  obtain n sa where D: "c1 = c\<lparr>c_rip := sa_handler sa, c_rsp := new_rsp (c_rsp c), c_rdi := of_nat n, c_rax := 0\<rparr>"
      "user_ptr_valid (new_rsp (c_rsp c)) 560"
      "um1 = put_words (new_rsp (c_rsp c)) (sigframe_words (save_cpu sa (signal_mask (tk s (current s))) c)) um"
    using assms(1) by (rule deliver_irq_handler) blast
  have "gregs (save_cpu sa (signal_mask (tk s (current s))) c) REG_RIP \<le> 0x00007FFFFFFFFFFF"
    using assms(2) by (simp add: save_cpu_def gregs_of_def reg_defs)
  from return_from_handler [OF _ D(2) this, of c2 um2 um s2] show ?thesis
    using assms(3,4) D(1,3) by (simp add: restored_cpu load_regs_def frame_of_def regs_with_def)
qed

theorem signal_irq_return_clobbers_witness:
  "\<exists>c2 um2 s2 c3 s3. syscall_entry Call_rt_sigreturn c2 um2 s2 = Some (Ret (c3, um2, s3, Sig_none))
    \<and> c_rip c3 = c_rip demo_cpu \<and> c_rax demo_cpu = 1 \<and> c_rax c3 = SIGRETURN_MAGIC"
proof -
  obtain c1 um1 s1 where d: "signal_deliver demo_cpu (\<lambda>_. 0) demo_sig = Some (Ret (c1, um1, s1, Sig_handler))"
    using demo_deliver(2) by blast
  have "c_rip demo_cpu \<le> 0x00007FFFFFFFFFFF" "c_rax demo_cpu = 1" by (simp_all add: demo_cpu_def)
  then show ?thesis using signal_irq_return_clobbers [OF d, of "demo_cpu\<lparr>c_rsp := c_rsp c1 + 8\<rparr>" um1 s1] by simp blast
qed

end
