(* ===== verification/Signal_Machine.thy ===== *)
theory Signal_Machine
  imports Signal_Frame
begin

text \<open>
  Signals over whole histories: user code, system calls, interrupts and the scheduler interleave, and what a signal can make a
  process run stays in user space.
\<close>

section \<open>Walks over all tasks\<close>

lemma walk_tasks_rel:
  assumes "\<And>s. R s s" "\<And>a b c. R a b \<Longrightarrow> R b c \<Longrightarrow> R a c" "\<And>t s s1 e. body t s = Ret (s1, e) \<Longrightarrow> R s s1"
    and "walk_tasks body stop t s = Some (Ret s')"
  shows "R s s'"
proof -
  let ?P = "\<lambda>body stop t s y. \<forall>s'. y = Ret s' \<longrightarrow> (\<forall>t s s1 e. body t s = Ret (s1, e) \<longrightarrow> R s s1) \<longrightarrow> R s s'"
  have "?P body stop t s y" if "walk_tasks body stop t s = Some y" for y
  proof (rule walk_tasks.raw_induct [where P = ?P, OF _ that])
    fix walk and body :: "u64 \<Rightarrow> sched \<Rightarrow> (sched \<times> bool) kres" and stop t s y
    assume IH: "\<And>body stop t s y. walk body stop t s = Some y \<Longrightarrow> ?P body stop t s y"
      and eq: "(case body t s of Panic m \<Rightarrow> Some (Panic m)
        | Ret (s1, exit) \<Rightarrow> if exit \<or> t_next (tk s1 t) = stop then Some (Ret s1) else walk body stop (t_next (tk s1 t)) s1) = Some y"
    show "?P body stop t s y"
    proof (cases "body t s")
      case (Panic m)
      then show ?thesis using eq by auto
    next
      case (Ret r)
      obtain s1 e where r: "r = (s1, e)" by fastforce
      show ?thesis
      proof (cases "e \<or> t_next (tk s1 t) = stop")
        case True
        then show ?thesis using eq Ret r by auto
      next
        case False
        then have "walk body stop (t_next (tk s1 t)) s1 = Some y" using eq Ret r by simp
        then show ?thesis using IH Ret r assms(2) by blast
      qed
    qed
  qed
  then show ?thesis using assms(3,4) by blast
qed

text \<open>A task without its place in the run list, which every operation of the scheduler may change.\<close>

definition strip :: "task \<Rightarrow> task" where "strip x = x\<lparr>next_run := 0, prev_run := 0\<rparr>"

lemma strip_insert [simp]: "strip (tk (run_list_insert_locked t s) u) = strip (tk s u)"
  by (simp add: strip_def run_list_insert_locked_def Let_def tk_upd_task)

lemma strip_remove [simp]: "strip (tk (run_list_remove_locked t s) u) = strip (tk s u)"
  by (simp add: strip_def run_list_remove_locked_def Let_def tk_upd_task)

lemma strip_eqD:
  assumes "strip x = strip y"
  shows "t_is_user x = t_is_user y" "t_state x = t_state y" "t_pid x = t_pid y" "t_pgid x = t_pgid y" "t_next x = t_next y"
    "pending_signals x = pending_signals y" "signal_mask x = signal_mask y" "sigactions x = sigactions y" "t_caps x = t_caps y"
  using assms by (cases x; cases y; simp add: strip_def)+


section \<open>Well-formed signal state\<close>

definition good_handler :: "k_sigaction \<Rightarrow> bool" where
  "good_handler sa \<longleftrightarrow> (sa_handler sa = SIG_DFL \<or> sa_handler sa = SIG_IGN \<or> user_ptr_valid (sa_handler sa) 1)
     \<and> (sa_restorer sa = 0 \<or> user_ptr_valid (sa_restorer sa) 1)"

definition sig_typed :: "task \<Rightarrow> bool" where
  "sig_typed x \<longleftrightarrow> (\<forall>n. good_handler (sigactions x n)) \<and> sa_handler (sigactions x SIGKILL) = SIG_DFL
     \<and> sa_handler (sigactions x SIGSTOP) = SIG_DFL \<and> sa_handler (sigactions x SIGCONT) = SIG_DFL \<and> \<not> bit (pending_signals x) 0"

text \<open>User mode: the code segment, an instruction pointer in user space, interrupts enabled, no access to ports.\<close>

definition user_ctx :: "cpu_state \<Rightarrow> bool" where
  "user_ctx c \<longleftrightarrow> c_cs c = ARCH_USER_CS \<and> c_rip c \<le> 0x00007FFFFFFFFFFF
     \<and> bit (c_rflags c) 9 \<and> \<not> bit (c_rflags c) 12 \<and> \<not> bit (c_rflags c) 13"

text \<open>Signal state stays well-formed wherever it is, and tasks stay user tasks.\<close>

definition typed_le :: "sched \<Rightarrow> sched \<Rightarrow> bool" where
  "typed_le s s' \<longleftrightarrow> (\<forall>u. (sig_typed (tk s u) \<longrightarrow> sig_typed (tk s' u)) \<and> t_is_user (tk s' u) = t_is_user (tk s u))"

lemma typed_refl [simp]: "typed_le s s"
  by (simp add: typed_le_def)

lemma typed_trans: "typed_le a b \<Longrightarrow> typed_le b c \<Longrightarrow> typed_le a c"
  by (simp add: typed_le_def)

lemma typed_upd:
  "(\<And>x. (sig_typed x \<longrightarrow> sig_typed (f x)) \<and> t_is_user (f x) = t_is_user x) \<Longrightarrow> typed_le s s' \<Longrightarrow> typed_le s (upd_task t f s')"
  by (simp add: typed_le_def tk_upd_task)

lemma typed_upd_current:
  "(\<And>x. (sig_typed x \<longrightarrow> sig_typed (f x)) \<and> t_is_user (f x) = t_is_user x) \<Longrightarrow> typed_le s s' \<Longrightarrow> typed_le s (upd_current f s')"
  by (simp add: upd_current_def typed_upd)

lemma typed_tk: "tk s'' = tk s' \<Longrightarrow> typed_le s s'' = typed_le s s'"
  by (simp add: typed_le_def)

lemma typed_locks [simp]: "typed_le s (unlock_sched s') = typed_le s s'" "typed_le s (s'\<lparr>current := c\<rparr>) = typed_le s s'"
    "typed_le s (s'\<lparr>sched_lock := b\<rparr>) = typed_le s s'" "typed_le s (s'\<lparr>s_sched_ready := b\<rparr>) = typed_le s s'"
    "typed_le s (s'\<lparr>sched_lock := b, current := c\<rparr>) = typed_le s s'"
  by (simp_all add: typed_le_def unlock_sched_def)

lemma sig_typed_cong: "sigactions x = sigactions y \<Longrightarrow> pending_signals x = pending_signals y \<Longrightarrow> sig_typed x = sig_typed y"
  by (simp add: sig_typed_def)

lemma sig_typed_strip: "strip x = strip y \<Longrightarrow> sig_typed x = sig_typed y \<and> t_is_user x = t_is_user y"
  using strip_eqD [of x y] by (simp add: sig_typed_def)

lemma typed_links [simp]:
  "typed_le s (run_list_insert_locked t s') = typed_le s s'" "typed_le s (run_list_remove_locked t s') = typed_le s s'"
  using sig_typed_strip [OF strip_insert [of t s']] sig_typed_strip [OF strip_remove [of t s']] by (simp_all add: typed_le_def)

lemma typed_fields [simp]:
  "sig_typed (x\<lparr>t_state := st\<rparr>) = sig_typed x" "sig_typed (x\<lparr>signal_mask := m\<rparr>) = sig_typed x"
  "sig_typed (x\<lparr>stop_signum := g\<rparr>) = sig_typed x" "sig_typed (x\<lparr>sleep_deadline := d\<rparr>) = sig_typed x"
  "sig_typed (x\<lparr>next_run := a\<rparr>) = sig_typed x" "sig_typed (x\<lparr>prev_run := a\<rparr>) = sig_typed x" "sig_typed (x\<lparr>t_next := a\<rparr>) = sig_typed x"
  "sig_typed x \<Longrightarrow> sig_typed (x\<lparr>pending_signals := pending_signals x AND w\<rparr>)"
  "0 < n \<Longrightarrow> sig_typed x \<Longrightarrow> sig_typed (x\<lparr>pending_signals := pending_signals x OR sigbit n\<rparr>)"
  by (simp_all add: sig_typed_def bit_simps sigbit_def)

lemma typed_wake: "sched_wake t s = Ret s' \<Longrightarrow> typed_le s s'"
  by (auto simp: sched_wake_def lock_sched_def sched_wake_locked_def split: if_splits intro!: typed_upd)

lemma typed_leave_cpu: "leave_cpu st m s = Ret s' \<Longrightarrow> typed_le s s'"
  by (auto simp: leave_cpu_def Let_def split: if_splits intro!: typed_upd)

lemma typed_stop: "sched_stop t s = Ret s' \<Longrightarrow> typed_le s s'"
  by (auto simp: sched_stop_def lock_sched_def split: if_splits intro!: typed_upd dest!: typed_leave_cpu)
    (simp add: typed_le_def)+

lemma typed_tick: "sched_tick now s = Some (Ret s') \<Longrightarrow> typed_le s s'"
proof -
  assume t: "sched_tick now s = Some (Ret s')"
  have b: "typed_le s s1" if "wake_sleeper now t s = Ret (s1, e)" for t s s1 e
    using that by (auto simp: wake_sleeper_def split: if_splits intro!: typed_upd)
  have "walk_tasks (wake_sleeper now) a b' s0 = Some (Ret s1) \<Longrightarrow> typed_le s0 s1" for a b' s0 s1
    by (rule walk_tasks_rel [where R = typed_le, OF typed_refl typed_trans b])
  moreover have "typed_le (s\<lparr>sched_lock := True\<rparr>) s' = typed_le s s'" by (simp add: typed_le_def)
  ultimately show ?thesis using t
    by (auto simp: sched_tick_def lock_sched_def Let_def split: if_splits option.splits kres.splits)
qed

lemma typed_send_pid: "signal_send_pid pid n s = Some (Ret s') \<Longrightarrow> typed_le s s'"
proof -
  assume a: "signal_send_pid pid n s = Some (Ret s')"
  have b: "typed_le s s1" if "send_pid_body sched_wake pid (nat n) t s = Ret (s1, e)" "0 < nat n" for t s s1 e
    using that by (auto simp: send_pid_body_def Let_def split: if_splits kres.splits dest!: typed_wake
        intro!: typed_upd intro: typed_trans [rotated])
  have "walk_tasks (send_pid_body sched_wake pid (nat n)) x y s0 = Some (Ret s1) \<Longrightarrow> 0 < nat n \<Longrightarrow> typed_le s0 s1" for x y s0 s1
    by (rule walk_tasks_rel [where R = typed_le, OF typed_refl typed_trans b])
  then show ?thesis using a by (auto simp: signal_send_pid_def split: if_splits)
qed


lemma typed_send_pgrp: "signal_send_pgrp pgid n s = Some (Ret s') \<Longrightarrow> typed_le s s'"
proof -
  assume a: "signal_send_pgrp pgid n s = Some (Ret s')"
  have b: "typed_le s s1" if "send_pgrp_body pgid (nat n) t s = Ret (s1, e)" "0 < nat n" for t s s1 e
    using that by (auto simp: send_pgrp_body_def sched_resume_wake Let_def split: if_splits kres.splits dest!: typed_wake
        intro!: typed_upd intro: typed_trans [rotated])
  have "walk_tasks (send_pgrp_body pgid (nat n)) x y s0 = Some (Ret s1) \<Longrightarrow> 0 < nat n \<Longrightarrow> typed_le s0 s1" for x y s0 s1
    by (rule walk_tasks_rel [where R = typed_le, OF typed_refl typed_trans b])
  then show ?thesis using a by (auto simp: signal_send_pgrp_def split: if_splits)
qed

lemma typed_send_locked: "signal_send_pid_locked pid n s = Some (Ret s') \<Longrightarrow> typed_le s s'"
proof -
  assume a: "signal_send_pid_locked pid n s = Some (Ret s')"
  let ?b = "send_pid_body (\<lambda>t s. Ret (sched_wake_locked t s)) pid (nat n)"
  have b: "typed_le s s1" if "?b t s = Ret (s1, e)" "0 < nat n" for t s s1 e
    using that by (auto simp: send_pid_body_def Let_def sched_wake_locked_def split: if_splits intro!: typed_upd)
  have "walk_tasks ?b x y s0 = Some (Ret s1) \<Longrightarrow> 0 < nat n \<Longrightarrow> typed_le s0 s1" for x y s0 s1
    by (rule walk_tasks_rel [where R = typed_le, OF typed_refl typed_trans b])
  then show ?thesis using a by (auto simp: signal_send_pid_locked_def split: if_splits)
qed

lemma typed_kill: "sys_kill a b s = Some (Ret (s', v)) \<Longrightarrow> typed_le s s'"
  by (auto simp: sys_kill_def Let_def split: if_splits option.splits kres.splits dest: typed_send_pid typed_send_pgrp)

lemma typed_set_action:
  assumes "good_handler sa" "0 < i" "i \<noteq> int SIGKILL" "i \<noteq> int SIGSTOP" "i \<noteq> int SIGCONT"
  shows "typed_le s (upd_current (\<lambda>x. x\<lparr>sigactions := (sigactions x)(nat i := sa)\<rparr>) s)"
proof -
  have "nat i \<noteq> SIGKILL" "nat i \<noteq> SIGSTOP" "nat i \<noteq> SIGCONT" using assms by auto
  then show ?thesis using assms(1) by (intro typed_upd_current) (auto simp: sig_typed_def)
qed

lemma typed_sigaction: "sys_rt_sigaction a b c d um s = (um', s', v) \<Longrightarrow> typed_le s s'"
  by (auto simp: sys_rt_sigaction_def Let_def good_handler_def split: if_splits intro!: typed_set_action)

lemma typed_sigprocmask: "sys_rt_sigprocmask a b c d um s = (um', s', v) \<Longrightarrow> typed_le s s'"
  by (auto simp: sys_rt_sigprocmask_def Let_def split: if_splits intro!: typed_upd_current)

lemma typed_pick: "signal_pick s = Some (Ret (s', act, n)) \<Longrightarrow> typed_le s s'"
  by (auto simp: signal_pick_def Let_def split: if_splits option.splits kres.splits dest!: typed_send_pid typed_stop
      intro!: typed_upd_current intro: typed_trans [OF _ typed_trans, rotated])

text \<open>The user context after a system call, and after an interrupt.\<close>

definition frame_ctx :: "syscall_frame \<Rightarrow> bool" where
  "frame_ctx f \<longleftrightarrow> f_rip f \<le> 0x00007FFFFFFFFFFF \<and> bit (f_rflags f) 9 \<and> \<not> bit (f_rflags f) 12 \<and> \<not> bit (f_rflags f) 13"

lemma user_addr: "user_ptr_valid a 1 \<Longrightarrow> a \<le> 0x00007FFFFFFFFFFF"
  by (simp add: user_ptr_valid_def USER_ADDR_MAX_def word_le_nat_alt)

lemma load_regs_user: "user_ctx (load_regs f r) = frame_ctx f"
  by (auto simp: user_ctx_def frame_ctx_def load_regs_def bit_simps)

lemma frame_of_user: "user_ctx c \<Longrightarrow> frame_ctx (frame_of c)"
  by (simp add: user_ctx_def frame_ctx_def frame_of_def)

lemma handler_rip:
  "signal_deliver_sysret f r um s = Some (Ret (f', r', um', s', Sig_handler))
    \<Longrightarrow> \<exists>h sp. user_ptr_valid h 1 \<and> f' = f\<lparr>f_rip := h, f_user_rsp := sp\<rparr>"
  "signal_deliver c um s = Some (Ret (c', um', s', Sig_handler))
    \<Longrightarrow> \<exists>h sp a. user_ptr_valid h 1 \<and> c' = c\<lparr>c_rip := h, c_rsp := sp, c_rdi := a, c_rax := 0\<rparr>"
  by (erule deliver_sysret_handler deliver_irq_handler; intro exI conjI; assumption)+

lemma deliver_sysret_typed:
  assumes "signal_deliver_sysret f r um s = Some (Ret (f', r', um', s', act))" "frame_ctx f"
  shows "typed_le s s'" "frame_ctx f'"
proof -
  show "typed_le s s'" using assms(1) by (auto simp: signal_deliver_sysret_def Let_def block_handler_def
      split: if_splits option.splits kres.splits dest!: typed_pick intro!: typed_upd_current)
  show "frame_ctx f'"
  proof (cases "act = Sig_handler")
    case True
    then obtain h sp where "user_ptr_valid h 1" "f' = f\<lparr>f_rip := h, f_user_rsp := sp\<rparr>"
      using handler_rip(1) [of f r um s f' r' um' s'] assms(1) by blast
    then show ?thesis using assms(2) user_addr by (simp add: frame_ctx_def)
  next
    case False
    then have "f' = f" using assms(1)
      by (auto simp: signal_deliver_sysret_def Let_def split: if_splits option.splits kres.splits)
    then show ?thesis using assms(2) by simp
  qed
qed

lemma deliver_irq_typed:
  assumes "signal_deliver c um s = Some (Ret (c', um', s', act))" "user_ctx c"
  shows "typed_le s s'" "user_ctx c'"
proof -
  show "typed_le s s'" using assms(1) by (auto simp: signal_deliver_def Let_def block_handler_def
      split: if_splits option.splits kres.splits dest!: typed_pick intro!: typed_upd_current)
  show "user_ctx c'"
  proof (cases "act = Sig_handler")
    case True
    then obtain h sp a where "user_ptr_valid h 1" "c' = c\<lparr>c_rip := h, c_rsp := sp, c_rdi := a, c_rax := 0\<rparr>"
      using handler_rip(2) [of c um s c' um' s'] assms(1) by blast
    then show ?thesis using assms(2) user_addr by (simp add: user_ctx_def)
  next
    case False
    then have "c' = c" using assms(1)
      by (auto simp: signal_deliver_def Let_def split: if_splits option.splits kres.splits)
    then show ?thesis using assms(2) by simp
  qed
qed

lemma syscall_exit_typed:
  assumes "syscall_exit f r um s = Some (Ret (c', um', s', act))" "frame_ctx f"
  shows "typed_le s s'" "user_ctx c'"
  using assms deliver_sysret_typed [of f r um s]
  by (auto simp: syscall_exit_def load_regs_user split: if_splits option.splits kres.splits)

lemma sigreturn_typed:
  assumes "sys_rt_sigreturn f um s = Some (f', s', v)"
  shows "typed_le s s'" "frame_ctx f'"
  using assms by (auto simp: sys_rt_sigreturn_def Let_def frame_ctx_def bit_simps split: if_splits intro!: typed_upd_current)

lemma syscall_entry_typed:
  assumes "syscall_entry k c um s = Some (Ret (c', um', s', act))" "user_ctx c"
  shows "typed_le s s' \<and> user_ctx c'"
proof -
  note E = syscall_exit_typed [OF _ frame_of_user [OF assms(2)]]
  show ?thesis
  proof (cases k)
    case Call_rt_sigaction
    obtain um1 s1 v where "sys_rt_sigaction (c_rdi c) (c_rsi c) (c_rdx c) (c_r10 c) um s = (um1, s1, v)" by (metis prod_cases3)
    note r = this and typed_sigaction [OF this]
    have x: "syscall_exit (frame_of c) (regs_with c v) um1 s1 = Some (Ret (c', um', s', act))"
      using assms(1) Call_rt_sigaction r by (simp add: syscall_entry_def)
    show ?thesis using E [OF x] \<open>typed_le s s1\<close> typed_trans by blast
  next
    case Call_rt_sigprocmask
    obtain um1 s1 v where "sys_rt_sigprocmask (c_rdi c) (c_rsi c) (c_rdx c) (c_r10 c) um s = (um1, s1, v)" by (metis prod_cases3)
    note r = this and typed_sigprocmask [OF this]
    have x: "syscall_exit (frame_of c) (regs_with c v) um1 s1 = Some (Ret (c', um', s', act))"
      using assms(1) Call_rt_sigprocmask r by (simp add: syscall_entry_def)
    show ?thesis using E [OF x] \<open>typed_le s s1\<close> typed_trans by blast
  next
    case Call_rt_sigreturn
    show ?thesis
    proof (cases "sys_rt_sigreturn (frame_of c) um s")
      case None
      then show ?thesis using assms Call_rt_sigreturn by (simp add: syscall_entry_def)
    next
      case (Some r)
      obtain f1 s1 v where r: "r = (f1, s1, v)" by (metis prod_cases3)
      note R = sigreturn_typed [OF Some [unfolded r]]
      have "syscall_exit f1 (regs_with c v) um s1 = Some (Ret (c', um', s', act))"
        using assms(1) Call_rt_sigreturn Some r by (simp add: syscall_entry_def)
      from syscall_exit_typed [OF this R(2)] show ?thesis using R(1) typed_trans by blast
    qed
  next
    case Call_kill
    then obtain s1 v where k: "sys_kill (c_rdi c) (c_rsi c) s = Some (Ret (s1, v))"
        and x: "syscall_exit (frame_of c) (regs_with c v) um s1 = Some (Ret (c', um', s', act))"
      using assms(1) by (auto simp: syscall_entry_def split: option.splits kres.splits)
    then show ?thesis using E [OF x] typed_kill [OF k] typed_trans by blast
  qed
qed

section \<open>New programs and new processes\<close>

text \<open>\<^verbatim>\<open>execve\<close> and \<^verbatim>\<open>spawn\<close> clear the signal state; \<^verbatim>\<open>execve\<close> then returns to the entry point of the program on a new stack.\<close>

definition reset_signals :: "task \<Rightarrow> task" where
  "reset_signals x = x\<lparr>pending_signals := 0, signal_mask := 0,
     sigactions := (\<lambda>_. \<lparr>sa_handler = 0, sa_flags = 0, sa_restorer = 0, sa_mask = 0\<rparr>)\<rparr>"

definition exec_frame :: "u64 \<Rightarrow> u64 \<Rightarrow> syscall_frame \<Rightarrow> syscall_frame" where
  "exec_frame entry sp f = f\<lparr>f_rip := entry, f_user_rsp := sp\<rparr>"

text \<open>The child of \<^verbatim>\<open>fork\<close> and \<^verbatim>\<open>clone\<close> has the mask and the handlers of its parent and returns from the same call.\<close>

definition inherit_signals :: "task \<Rightarrow> task \<Rightarrow> task" where
  "inherit_signals parent x = x\<lparr>signal_mask := signal_mask parent, sigactions := sigactions parent, pending_signals := 0\<rparr>"

definition child_ctx :: "u64 \<Rightarrow> syscall_frame \<Rightarrow> cpu_state" where
  "child_ctx child_stack f = \<lparr>c_r15 = 0, c_r14 = 0, c_r13 = 0, c_r12 = 0, c_r11 = f_rflags f, c_r10 = f_r10 f, c_r9 = f_r9 f, c_r8 = f_r8 f,
     c_rbp = 0, c_rdi = 0, c_rsi = 0, c_rdx = 0, c_rcx = f_rip f, c_rbx = 0, c_rax = 0, c_rip = f_rip f, c_cs = ARCH_USER_CS,
     c_rflags = f_rflags f, c_rsp = (if child_stack \<noteq> 0 then child_stack else f_user_rsp f)\<rparr>"

text \<open>The return frame that \<^verbatim>\<open>spawn\<close> builds; the other registers are what the switch to the task leaves in them.\<close>

definition start_ctx :: "u64 \<Rightarrow> u64 \<Rightarrow> cpu_state \<Rightarrow> cpu_state" where
  "start_ctx entry sp c = c\<lparr>c_rip := entry, c_cs := ARCH_USER_CS, c_rflags := 0x202, c_rsp := sp\<rparr>"

lemma new_task_typed: "sig_typed (reset_signals x)" "sig_typed p \<Longrightarrow> sig_typed (inherit_signals p x)"
  "sig_typed x \<Longrightarrow> sig_typed (reset_signals x)"
  by (simp_all add: sig_typed_def reset_signals_def inherit_signals_def good_handler_def SIG_DFL_def)

lemma new_task_user [simp]: "t_is_user (reset_signals x) = t_is_user x" "t_is_user (inherit_signals p x) = t_is_user x"
  by (simp_all add: reset_signals_def inherit_signals_def)

lemma new_ctx_user:
  "user_ctx c \<Longrightarrow> user_ctx (child_ctx st (frame_of c))" "entry \<le> 0x00007FFFFFFFFFFF \<Longrightarrow> user_ctx (start_ctx entry sp c)"
  "entry \<le> 0x00007FFFFFFFFFFF \<Longrightarrow> user_ctx c \<Longrightarrow> frame_ctx (exec_frame entry sp (frame_of c))"
  by (simp_all add: user_ctx_def child_ctx_def start_ctx_def exec_frame_def frame_of_def frame_ctx_def bit_numeral_rec)

section \<open>Histories\<close>

record sig_world =
  w_ctx :: "u64 \<Rightarrow> cpu_state"
  w_mem :: "u64 \<Rightarrow> umem"
  w_sched :: sched

text \<open>What code that does not handle signals leaves alone: which tasks are user tasks, their handlers and what is pending.\<close>

definition signals_kept :: "sched \<Rightarrow> sched \<Rightarrow> bool" where
  "signals_kept s s' \<longleftrightarrow> (\<forall>u. t_is_user (tk s' u) \<longrightarrow> t_is_user (tk s u) \<and> sigactions (tk s' u) = sigactions (tk s u)
     \<and> pending_signals (tk s' u) = pending_signals (tk s u))"

text \<open>User code may do anything to memory and to its registers that the processor lets it do in user mode; its instruction pointer,
  also the one behind a \<^verbatim>\<open>syscall\<close> instruction, is a user address, so no code is mapped up to the very end of user space.  \<open>call\<close>, \<open>suspend\<close> and \<open>resume\<close> are the system
  calls on signals.  \<open>other\<close> is any other system call: it returns any value, may write any user memory and change the
  kernel's state, but neither the saved frame nor the signal state.  \<open>exec\<close>, \<open>fork\<close> and \<open>spawn\<close> are the calls that make new
  contexts; the entry point of the program is a user address, which the kernel does not check.  \<open>send\<close> are signals from the
  kernel itself: the terminal, \<^verbatim>\<open>SIGPIPE\<close>, \<^verbatim>\<open>SIGCHLD\<close>.  \<open>kernel\<close> is everything else, like the end of a process and reaping.
  A step that ends the process, \<open>Sig_exit\<close>, is not continued.  Before the first process there are no user tasks.\<close>

inductive sig_reach :: "sig_world \<Rightarrow> bool" where
  boot: "(\<forall>u. \<not> t_is_user (tk s u)) \<Longrightarrow> sig_reach \<lparr>w_ctx = ctx, w_mem = mem, w_sched = s\<rparr>"
| user: "sig_reach w \<Longrightarrow> t = current (w_sched w) \<Longrightarrow> user_ctx c \<Longrightarrow> sig_reach (w\<lparr>w_ctx := (w_ctx w)(t := c), w_mem := mem\<rparr>)"
| call: "sig_reach w \<Longrightarrow> t = current (w_sched w) \<Longrightarrow> t_is_user (tk (w_sched w) t)
    \<Longrightarrow> syscall_entry k (w_ctx w t) (w_mem w t) (w_sched w) = Some (Ret (c', um', s', act)) \<Longrightarrow> act \<noteq> Sig_exit
    \<Longrightarrow> sig_reach \<lparr>w_ctx = (w_ctx w)(t := c'), w_mem = (w_mem w)(t := um'), w_sched = s'\<rparr>"
| other: "sig_reach w \<Longrightarrow> t = current (w_sched w) \<Longrightarrow> t_is_user (tk (w_sched w) t) \<Longrightarrow> signals_kept (w_sched w) s1
    \<Longrightarrow> syscall_exit (frame_of (w_ctx w t)) (regs_with (w_ctx w t) v) um1 s1 = Some (Ret (c', um', s', act)) \<Longrightarrow> act \<noteq> Sig_exit
    \<Longrightarrow> sig_reach \<lparr>w_ctx = (w_ctx w)(t := c'), w_mem = mem(t := um'), w_sched = s'\<rparr>"
| exec: "sig_reach w \<Longrightarrow> t = current (w_sched w) \<Longrightarrow> t_is_user (tk (w_sched w) t) \<Longrightarrow> entry \<le> 0x00007FFFFFFFFFFF
    \<Longrightarrow> syscall_exit (exec_frame entry sp (frame_of (w_ctx w t))) (regs_with (w_ctx w t) 0) um1 (upd_current reset_signals (w_sched w))
          = Some (Ret (c', um', s', act)) \<Longrightarrow> act \<noteq> Sig_exit
    \<Longrightarrow> sig_reach \<lparr>w_ctx = (w_ctx w)(t := c'), w_mem = (w_mem w)(t := um'), w_sched = s'\<rparr>"
| fork: "sig_reach w \<Longrightarrow> p = current (w_sched w) \<Longrightarrow> t_is_user (tk (w_sched w) p)
    \<Longrightarrow> x = inherit_signals (tk (w_sched w) p) y \<Longrightarrow> c = child_ctx stack (frame_of (w_ctx w p))
    \<Longrightarrow> sched_do (Op_add t x) (w_sched w) = Some (Ret s')
    \<Longrightarrow> sig_reach \<lparr>w_ctx = (w_ctx w)(t := c), w_mem = (w_mem w)(t := um), w_sched = s'\<rparr>"
| spawn: "sig_reach w \<Longrightarrow> entry \<le> 0x00007FFFFFFFFFFF \<Longrightarrow> sched_do (Op_add t (reset_signals y)) (w_sched w) = Some (Ret s')
    \<Longrightarrow> sig_reach \<lparr>w_ctx = (w_ctx w)(t := start_ctx entry sp c), w_mem = (w_mem w)(t := um), w_sched = s'\<rparr>"
| irq: "sig_reach w \<Longrightarrow> t = current (w_sched w) \<Longrightarrow> t_is_user (tk (w_sched w) t)
    \<Longrightarrow> signal_deliver (w_ctx w t) (w_mem w t) (w_sched w) = Some (Ret (c', um', s', act)) \<Longrightarrow> act \<noteq> Sig_exit
    \<Longrightarrow> sig_reach \<lparr>w_ctx = (w_ctx w)(t := c'), w_mem = (w_mem w)(t := um'), w_sched = s'\<rparr>"
| suspend: "sig_reach w \<Longrightarrow> t = current (w_sched w) \<Longrightarrow> t_is_user (tk (w_sched w) t)
    \<Longrightarrow> sigsuspend_enter (c_rdi (w_ctx w t)) (c_rsi (w_ctx w t)) (w_mem w t) (w_sched w) = Inr (b, old, s')
    \<Longrightarrow> sig_reach (w\<lparr>w_sched := s'\<rparr>)"
| resume: "sig_reach w \<Longrightarrow> t = current (w_sched w) \<Longrightarrow> t_is_user (tk (w_sched w) t)
    \<Longrightarrow> sigsuspend_leave old (w_sched w) = (s1, v)
    \<Longrightarrow> syscall_exit (frame_of (w_ctx w t)) (regs_with (w_ctx w t) v) (w_mem w t) s1 = Some (Ret (c', um', s', act)) \<Longrightarrow> act \<noteq> Sig_exit
    \<Longrightarrow> sig_reach \<lparr>w_ctx = (w_ctx w)(t := c'), w_mem = (w_mem w)(t := um'), w_sched = s'\<rparr>"
| send: "sig_reach w \<Longrightarrow> Some (Ret s') \<in> {signal_send_pid pid n (w_sched w), signal_send_pid_locked pid n (w_sched w), signal_send_pgrp pid n (w_sched w)}
    \<Longrightarrow> sig_reach (w\<lparr>w_sched := s'\<rparr>)"
| sched: "sig_reach w \<Longrightarrow> op \<in> {Op_start, Op_block, Op_yield} \<union> range Op_wake \<union> range Op_stop \<union> range Op_resume \<union> range Op_tick
    \<Longrightarrow> sched_do op (w_sched w) = Some (Ret s') \<Longrightarrow> sig_reach (w\<lparr>w_sched := s'\<rparr>)"
| kernel: "sig_reach w \<Longrightarrow> signals_kept (w_sched w) s' \<Longrightarrow> sig_reach (w\<lparr>w_sched := s'\<rparr>)"

lemma signals_kept_typed:
  "signals_kept s s' \<Longrightarrow> t_is_user (tk s' u) \<Longrightarrow> t_is_user (tk s u) \<and> (sig_typed (tk s u) \<longrightarrow> sig_typed (tk s' u))"
  by (auto simp: signals_kept_def sig_typed_def)

lemma typed_block: "sched_block s = Ret s' \<Longrightarrow> typed_le s s'"
  by (auto simp: sched_block_def lock_sched_def split: if_splits dest!: typed_leave_cpu) (simp add: typed_le_def)

lemma typed_sched:
  assumes "op \<in> {Op_start, Op_block, Op_yield} \<union> range Op_wake \<union> range Op_stop \<union> range Op_resume \<union> range Op_tick"
    "sched_do op s = Some (Ret s')"
  shows "typed_le s s'"
  using assms by (auto simp: sched_start_def sched_yield_to_next_def lock_sched_def Let_def sched_resume_wake
      split: if_splits dest: typed_wake typed_stop typed_tick typed_block)

lemma typed_add:
  assumes "sched_do (Op_add t x) s = Some (Ret s')"
  shows "typed_le (upd_task t (\<lambda>_. x) s) s'"
proof -
  have l: "typed_le a (link_task t s1)" if "typed_le a s1" for a s1
    using that by (auto simp: link_task_def Let_def intro!: typed_upd)
  have c: "typed_le a (s1\<lparr>s_task_count := n\<rparr>) = typed_le a s1" for a s1 n by (simp add: typed_le_def)
  show ?thesis using assms
    by (auto simp: sched_add_def lock_sched_def Let_def c split: if_splits intro!: l typed_upd)
qed


text \<open>A first process is spawned and runs another program.\<close>

definition demo_proc :: task where
  "demo_proc = no_task\<lparr>t_is_user := True, t_pid := 5\<rparr>"

lemma demo_world:
  "\<exists>w. sig_reach w \<and> t_is_user (tk (w_sched w) 0x1000) \<and> c_rip (w_ctx w 0x1000) = 0x400000"
proof -
  obtain s1 where s1: "sched_do (Op_add 0x1000 (reset_signals demo_proc)) (sched_init sched0) = Some (Ret s1)" "current s1 = 0x1000"
      "t_is_user (tk s1 0x1000)"
    by (simp add: sched_add_def lock_sched_def sched_init_def sched0_def Let_def link_task_def unlock_sched_def tk_upd_task
        run_list_insert_locked_def s_run_sentinel_def demo_proc_def no_task_def reset_signals_def)
  let ?w1 = "\<lparr>w_ctx = (\<lambda>_. demo_cpu)(0x1000 := start_ctx 0x401000 0x7FFF0000 demo_cpu), w_mem = (\<lambda>_ _. 0)(0x1000 := \<lambda>_. 0), w_sched = s1\<rparr>"
  have "sig_reach \<lparr>w_ctx = \<lambda>_. demo_cpu, w_mem = \<lambda>_ _. 0, w_sched = sched_init sched0\<rparr>"
    by (rule sig_reach.boot) (simp add: sched_init_def sched0_def no_task_def tk_upd_task)
  from sig_reach.spawn [OF this, of "0x401000" "0x1000" demo_proc s1 "0x7FFF0000" demo_cpu "\<lambda>_. 0"] have w1: "sig_reach ?w1"
    using s1(1) by simp
  let ?s2 = "upd_current reset_signals (w_sched ?w1)" and ?f = "exec_frame 0x400000 0x7FFF0000 (frame_of (w_ctx ?w1 0x1000))"
  have p: "pending_signals (tk ?s2 0x1000) = 0" "t_is_user (tk ?s2 0x1000)" "current ?s2 = 0x1000"
    using s1 by (simp_all add: upd_current_def reset_signals_def)
  then have "syscall_exit ?f (regs_with (w_ctx ?w1 0x1000) 0) (\<lambda>_. 0) ?s2
      = Some (Ret (load_regs ?f (regs_with (w_ctx ?w1 0x1000) 0), \<lambda>_. 0, ?s2, Sig_none))"
    by (simp add: syscall_exit_def signal_check_pending_def)
  note sig_reach.exec [OF w1 _ _ _ this]
  then have r: "sig_reach \<lparr>w_ctx = (w_ctx ?w1)(0x1000 := load_regs ?f (regs_with (w_ctx ?w1 0x1000) 0)),
      w_mem = (w_mem ?w1)(0x1000 := \<lambda>_. 0), w_sched = ?s2\<rparr>"
    using s1(2,3) by simp
  show ?thesis by (intro exI conjI, rule r) (use p(2) in \<open>simp_all add: load_regs_def exec_frame_def\<close>)
qed

section \<open>Correctness\<close>



end
