(* ===== verification/Signal_Kill.thy ===== *)
theory Signal_Kill
  imports Signal_Machine
begin

text \<open>
  What sending a signal does to every task of the system: exactly the addressed processes change, by one pending bit and by being
  made runnable, and the scheduler's lists stay right.
\<close>

section \<open>One task\<close>

text \<open>The effect on a task that is sent a signal, where \<open>wake\<close> are the states from which it is made runnable.\<close>

definition kill_effect :: "task_state set \<Rightarrow> nat \<Rightarrow> task \<Rightarrow> task" where
  "kill_effect wake n x = x\<lparr>pending_signals := pending_signals x OR sigbit n,
     t_state := (if t_state x \<in> wake then TASK_RUNNING else t_state x)\<rparr>"

lemma strip_kill [simp]: "strip (kill_effect wake n x) = kill_effect wake n (strip x)"
  by (simp add: kill_effect_def strip_def)

lemma strip_fields [simp]:
  "t_is_user (strip x) = t_is_user x" "t_pid (strip x) = t_pid x" "t_pgid (strip x) = t_pgid x" "t_state (strip x) = t_state x"
  by (simp_all add: strip_def)

lemma send_one:
  fixes n :: nat
  assumes inv: "sched_inv s rs T" and t: "t \<in> T" and w: "TASK_RUNNING \<notin> wake"
  defines "s1 \<equiv> upd_task t (\<lambda>x. x\<lparr>pending_signals := pending_signals x OR sigbit n\<rparr>) s"
  shows "\<exists>s' rs'. (if t_state (tk s1 t) \<in> wake then sched_wake t s1 else Ret s1) = Ret s' \<and> sched_inv s' rs' T \<and> current s' = current s
    \<and> (\<forall>u. strip (tk s' u) = (if u = t then kill_effect wake n (strip (tk s u)) else strip (tk s u)))"
proof -
  have L: "lists_ok s rs T" "current s \<in> set rs" using inv by (auto simp: sched_inv_def)
  have "lists_ok s1 rs T"
    by (rule lists_ok_cong [OF L(1)]) (use L lists_okD(2) [OF L(1)] in
      \<open>auto simp: s1_def nexts_def prevs_def tnexts_def tk_upd_task fun_eq_iff\<close>)
  then have I: "sched_inv s1 rs T" using inv by (simp add: sched_inv_def s1_def)
  have st: "t_state (tk s1 t) = t_state (tk s t)" by (simp add: s1_def)
  have k1: "strip (tk s1 u) = (if u = t then (strip (tk s u))\<lparr>pending_signals := pending_signals (tk s u) OR sigbit n\<rparr> else strip (tk s u))" for u
    by (simp add: s1_def tk_upd_task strip_def)
  show ?thesis
  proof (cases "t_state (tk s t) \<in> wake")
    case True
    obtain s' where s': "sched_wake t s1 = Ret s'" "sched_inv s' (if t \<in> set rs then rs else rs @ [t]) T" "current s' = current s1"
      using sched_wake_inv [OF I t] by blast
    have "s' = unlock_sched (run_list_insert_locked t (upd_task t (\<lambda>x. x\<lparr>t_state := TASK_RUNNING\<rparr>) (s1\<lparr>sched_lock := True\<rparr>)))"
      using s'(1) I by (simp add: sched_wake_def lock_sched_def sched_inv_def sched_wake_locked_def)
    then have "strip (tk s' u) = (if u = t then (strip (tk s1 u))\<lparr>t_state := TASK_RUNNING\<rparr> else strip (tk s1 u))" for u
      using strip_insert by (simp add: unlock_sched_def tk_upd_task) (simp add: strip_def)
    then have "strip (tk s' u) = (if u = t then kill_effect wake n (strip (tk s u)) else strip (tk s u))" for u
      using True k1 by (simp add: kill_effect_def strip_def)
    then show ?thesis using True s' st by (auto simp: s1_def)
  next
    case False
    then have "strip (tk s1 u) = (if u = t then kill_effect wake n (strip (tk s u)) else strip (tk s u))" for u
      using k1 by (simp add: kill_effect_def strip_def)
    then show ?thesis using False I st by (auto simp: s1_def)
  qed
qed

section \<open>All tasks\<close>

text \<open>A walk whose body sends the signal to the tasks that satisfy \<open>hit\<close>, and goes on.\<close>

lemma send_all:
  assumes body: "\<And>t s. body t s = (if hit (tk s t)
      then (case (let s1 = upd_task t (\<lambda>x. x\<lparr>pending_signals := pending_signals x OR sigbit n\<rparr>) s in
              if t_state (tk s1 t) \<in> wake then sched_wake t s1 else Ret s1) of Panic m \<Rightarrow> Panic m | Ret s2 \<Rightarrow> Ret (s2, False))
      else Ret (s, False))"
    and hit: "\<And>x. hit (strip x) = hit x" and w: "TASK_RUNNING \<notin> wake"
    and inv: "sched_inv s rs T" and vs: "set vs \<subseteq> T" "distinct vs"
  shows "\<exists>s' rs'. walk_list body vs s = Ret s' \<and> sched_inv s' rs' T \<and> current s' = current s
    \<and> (\<forall>u. strip (tk s' u) = (if u \<in> set vs \<and> hit (tk s u) then kill_effect wake n (strip (tk s u)) else strip (tk s u)))"
  using inv vs
proof (induction vs arbitrary: s rs)
  case Nil
  then show ?case by auto
next
  case (Cons v vs)
  show ?case
  proof (cases "hit (tk s v)")
    case True
    obtain s1 rs1 where s1: "body v s = Ret (s1, False)" "sched_inv s1 rs1 T" "current s1 = current s"
        "\<And>u. strip (tk s1 u) = (if u = v then kill_effect wake n (strip (tk s u)) else strip (tk s u))"
      using send_one [OF Cons.prems(1) _ w, of v n] Cons.prems(2) True by (auto simp: body Let_def)
    obtain s' rs' where s': "walk_list body vs s1 = Ret s'" "sched_inv s' rs' T" "current s' = current s1"
        "\<And>u. strip (tk s' u) = (if u \<in> set vs \<and> hit (tk s1 u) then kill_effect wake n (strip (tk s1 u)) else strip (tk s1 u))"
      using Cons.IH [OF s1(2)] Cons.prems(2,3) by auto
    have "hit (tk s1 u) = hit (tk s u)" if "u \<noteq> v" for u using s1(4) [of u] that hit by metis
    then have "strip (tk s' u) = (if u \<in> set (v # vs) \<and> hit (tk s u) then kill_effect wake n (strip (tk s u)) else strip (tk s u))" for u
      using s'(4) [of u] s1(4) [of u] True Cons.prems(3) by (cases "u = v") auto
    then show ?thesis using s1 s' by auto
  next
    case False
    then have "walk_list body (v # vs) s = walk_list body vs s" by (simp add: body)
    moreover obtain s' rs' where s': "walk_list body vs s = Ret s'" "sched_inv s' rs' T" "current s' = current s"
        "\<And>u. strip (tk s' u) = (if u \<in> set vs \<and> hit (tk s u) then kill_effect wake n (strip (tk s u)) else strip (tk s u))"
      using Cons.IH [OF Cons.prems(1)] Cons.prems(2,3) by auto
    ultimately show ?thesis using False by (intro exI [of _ s'] exI [of _ rs']) (auto simp: s'(4))
  qed
qed

lemma walk_ring:
  assumes inv: "sched_inv s rs T" and links: "\<And>t s s1 e. body t s = Ret (s1, e) \<Longrightarrow> tnexts s1 = tnexts s"
  obtains vs where "walk_tasks body (current s) (current s) s = Some (walk_list body vs s)" "set vs = T" "distinct vs"
proof -
  obtain us where us: "ring_at s T (current s) us" using inv by (auto simp: sched_inv_def lists_ok_def links_ok_def)
  show ?thesis
    by (rule that [of "current s # us"], rule walk_tasks_list) (use us links in \<open>auto simp: ring_at_def\<close>)
qed

lemma current_task: "sched_inv s rs T \<Longrightarrow> current s \<in> T \<and> current s \<noteq> 0"
  using lists_okD(2,5) by (metis sched_inv_def subsetD)

lemma wake_tnexts: "sched_wake t s = Ret s' \<Longrightarrow> tnexts s' = tnexts s"
  by (auto simp: sched_wake_def lock_sched_def sched_wake_locked_def unlock_sched_def split: if_splits)
    (auto simp: tnexts_def tk_upd_task fun_eq_iff)

lemma pending_tnexts [simp]: "tnexts (upd_task t (\<lambda>x. x\<lparr>pending_signals := p x\<rparr>) s) = tnexts s"
  by (auto simp: tnexts_def tk_upd_task fun_eq_iff)

lemma send_pgrp_exact:
  assumes inv: "sched_inv s rs T" and g: "pgid \<noteq> 0" "0 < n" "n < 64"
  shows "\<exists>s' rs'. signal_send_pgrp pgid n s = Some (Ret s') \<and> sched_inv s' rs' T \<and> current s' = current s
    \<and> (\<forall>u. strip (tk s' u) = (if u \<in> T \<and> t_is_user (tk s u) \<and> t_pgid (tk s u) = pgid \<and> t_pid (tk s u) \<noteq> 1
        then kill_effect {TASK_BLOCKED, TASK_STOPPED} (nat n) (strip (tk s u)) else strip (tk s u)))"
proof -
  let ?b = "send_pgrp_body pgid (nat n)" and ?hit = "\<lambda>x. t_is_user x \<and> t_pgid x = pgid \<and> t_pid x \<noteq> 1"
  have l: "tnexts s1 = tnexts s" if "?b t s = Ret (s1, e)" for t s s1 e
    using that by (auto simp: send_pgrp_body_def sched_resume_wake Let_def split: if_splits kres.splits dest: wake_tnexts)
  obtain vs where vs: "walk_tasks ?b (current s) (current s) s = Some (walk_list ?b vs s)" "set vs = T" "distinct vs"
    by (rule walk_ring [OF inv l])
  have "signal_send_pgrp pgid n s = Some (walk_list ?b vs s)" using vs(1) g current_task [OF inv] by (simp add: signal_send_pgrp_def)
  moreover have "\<exists>s' rs'. walk_list ?b vs s = Ret s' \<and> sched_inv s' rs' T \<and> current s' = current s
    \<and> (\<forall>u. strip (tk s' u) = (if u \<in> set vs \<and> ?hit (tk s u) then kill_effect {TASK_BLOCKED, TASK_STOPPED} (nat n) (strip (tk s u)) else strip (tk s u)))"
    by (rule send_all) (use inv vs in \<open>auto simp: send_pgrp_body_def sched_resume_wake Let_def split: kres.split\<close>)
  ultimately show ?thesis using vs(2) by auto
qed


lemma walk_list_skip: "(\<forall>v\<in>set vs. body v s = Ret (s, False)) \<Longrightarrow> walk_list body (vs @ ws) s = walk_list body ws s"
  by (induction vs) auto

lemma send_pid_exact:
  assumes inv: "sched_inv s rs T" and g: "pid \<noteq> 0" "0 < n" "n < 64"
    and uniq: "inj_on (\<lambda>u. t_pid (tk s u)) {u \<in> T. t_is_user (tk s u)}"
  shows "\<exists>s' rs'. signal_send_pid pid n s = Some (Ret s') \<and> sched_inv s' rs' T \<and> current s' = current s
    \<and> (\<forall>u. strip (tk s' u) = (if u \<in> T \<and> t_is_user (tk s u) \<and> t_pid (tk s u) = pid
        then kill_effect {TASK_BLOCKED} (nat n) (strip (tk s u)) else strip (tk s u)))"
proof -
  let ?b = "send_pid_body sched_wake pid (nat n)" and ?hit = "\<lambda>u. t_is_user (tk s u) \<and> t_pid (tk s u) = pid"
  have l: "tnexts s1 = tnexts s" if "?b t s = Ret (s1, e)" for t s s1 e
    using that by (auto simp: send_pid_body_def Let_def split: if_splits kres.splits dest: wake_tnexts)
  obtain vs where vs: "walk_tasks ?b (current s) (current s) s = Some (walk_list ?b vs s)" "set vs = T" "distinct vs"
    by (rule walk_ring [OF inv l])
  have e: "signal_send_pid pid n s = Some (walk_list ?b vs s)"
    using vs(1) g current_task [OF inv] by (simp add: signal_send_pid_def)
  have miss: "?b u s = Ret (s, False)" if "\<not> ?hit u" for u using that by (auto simp: send_pid_body_def)
  show ?thesis
  proof (cases "\<exists>t\<in>T. ?hit t")
    case True
    then obtain t where t: "t \<in> T" "?hit t" by blast
    then have one: "u = t" if "u \<in> T" "?hit u" for u using uniq that by (auto simp: inj_on_def)
    obtain as bs where ab: "vs = as @ t # bs" using t(1) vs(2) by (metis split_list)
    have "walk_list ?b vs s = walk_list ?b (t # bs) s"
      unfolding ab using one vs ab by (intro walk_list_skip) (auto intro!: miss)
    moreover obtain s' rs' where b: "(let s1 = upd_task t (\<lambda>x. x\<lparr>pending_signals := pending_signals x OR sigbit (nat n)\<rparr>) s in
          if t_state (tk s1 t) \<in> {TASK_BLOCKED} then sched_wake t s1 else Ret s1) = Ret s'"
        and s': "sched_inv s' rs' T" "current s' = current s"
        "\<And>u. strip (tk s' u) = (if u = t then kill_effect {TASK_BLOCKED} (nat n) (strip (tk s u)) else strip (tk s u))"
      using send_one [OF inv t(1), of "{TASK_BLOCKED}" "nat n"] by (auto simp: Let_def)
    moreover have "?b t s = Ret (s', True)" using b t(2) by (auto simp: send_pid_body_def Let_def split: if_splits)
    ultimately have "signal_send_pid pid n s = Some (Ret s')" using e by simp
    moreover have "u \<in> T \<and> ?hit u \<longleftrightarrow> u = t" for u using t one by blast
    ultimately show ?thesis using s' by (intro exI [of _ s'] exI [of _ rs']) simp
  next
    case False
    then have "walk_list ?b (vs @ []) s = walk_list ?b [] s" using vs(2) by (intro walk_list_skip) (auto intro!: miss)
    then show ?thesis using e inv False by auto
  qed
qed

section \<open>Correctness\<close>

text \<open>Whom \<^verbatim>\<open>kill\<close> with the given first argument, called by \<open>cur\<close>, is to reach, and from which states it makes them runnable.\<close>

definition kill_hits :: "int \<Rightarrow> task \<Rightarrow> task \<Rightarrow> bool" where
  "kill_hits pid cur x \<longleftrightarrow> t_is_user x \<and> (if 0 < pid then t_pid x = of_int pid
     else let g = (if pid < 0 then of_int (- pid) else t_pgid cur) in g \<noteq> 0 \<and> t_pgid x = g \<and> t_pid x \<noteq> 1)"

definition kill_wakes :: "int \<Rightarrow> task_state set" where
  "kill_wakes pid = (if 0 < pid then {TASK_BLOCKED} else {TASK_BLOCKED, TASK_STOPPED})"

definition may_kill :: "int \<Rightarrow> task \<Rightarrow> bool" where
  "may_kill pid cur \<longleftrightarrow> 0 \<le> check_caps (t_caps cur) CAP_KIND_PROC_READ CAP_RIGHTS_WRITE
     \<and> (pid = 1 \<and> t_pid cur \<noteq> 1 \<longrightarrow> 0 \<le> check_caps (t_caps cur) CAP_KIND_POWER CAP_RIGHTS_READ)"

text \<open>C13. \<^verbatim>\<open>kill\<close> from any state of the scheduler, for a valid signal: without the capability, nothing changes and the result is
  \<^verbatim>\<open>EPERM\<close>.  Otherwise it returns 0 without waiting for a lock or looping, the scheduler's lists stay right, and each task keeps all
  of its state but its place in the run list, except for the addressed ones: the user process with that number, or the members of the
  group other than process 1.  These get the pending bit, and become running if they were blocked; a stopped process becomes
  running only if the whole group is addressed, whatever the signal is.\<close>

theorem kill_exact:
  assumes "sched_inv s rs T" "inj_on (\<lambda>u. t_pid (tk s u)) {u \<in> T. t_is_user (tk s u)}"
    and "pid = sint (ucast arg1 :: 32 word)" "n = sint (ucast arg2 :: 32 word)" "0 < n" "n < 64"
  shows "if may_kill pid (tk s (current s))
    then \<exists>s' rs'. sys_kill arg1 arg2 s = Some (Ret (s', 0)) \<and> sched_inv s' rs' T \<and> current s' = current s
      \<and> (\<forall>u. strip (tk s' u) = strip (if u \<in> T \<and> kill_hits pid (tk s (current s)) (tk s u)
          then kill_effect (kill_wakes pid) (nat n) (tk s u) else tk s u))
    else sys_kill arg1 arg2 s = Some (Ret (s, neg_errno 1))"
proof (cases "may_kill pid (tk s (current s))")
  case False
  then show ?thesis using assms(3-6) by (auto simp: sys_kill_def may_kill_def Let_def)
next
  case True
  let ?g = "if pid < 0 then of_int (- pid) else t_pgid (tk s (current s))"
  consider (one) "0 < pid" | (none) "pid \<le> 0" "?g = 0" | (group) "pid \<le> 0" "?g \<noteq> 0" by linarith
  then show ?thesis
  proof cases
    case one
    have "pid < 2 ^ 31" using assms(3) sint_lt [of "ucast arg1 :: 32 word"] by simp
    then have "(of_int pid :: u32) \<noteq> 0" using one by (auto simp: word_of_int_eq_0_iff dest: zdvd_imp_le)
    from send_pid_exact [OF assms(1) this assms(5,6,2)] show ?thesis using one True assms(3-6)
      by (auto simp: sys_kill_def may_kill_def kill_hits_def kill_wakes_def Let_def)
  next
    case none
    then have "sys_kill arg1 arg2 s = Some (Ret (s, 0))" using True assms(3-6)
      by (auto simp: sys_kill_def may_kill_def Let_def signal_send_pgrp_def split: if_splits)
    then show ?thesis using none True assms(1) by (auto simp: kill_hits_def Let_def)
  next
    case group
    from send_pgrp_exact [OF assms(1) group(2) assms(5,6)] show ?thesis using group True assms(3-6)
      by (auto simp: sys_kill_def may_kill_def kill_hits_def kill_wakes_def Let_def)
  qed
qed

text \<open>Process 2, which may signal, and process 5, which is stopped.\<close>

definition demo_kill :: sched where
  "demo_kill = sched0\<lparr>current := 0x2000, tk := (\<lambda>_. no_task)(
     1 := no_task\<lparr>next_run := 0x2000, prev_run := 0x2000\<rparr>,
     0x2000 := no_task\<lparr>t_is_user := True, t_pid := 2, t_pgid := 2, next_run := 1, prev_run := 1, t_next := 0x3000,
       t_caps := null_caps[0 := \<lparr>slot_kind = CAP_KIND_PROC_READ, slot_rights = CAP_RIGHTS_WRITE\<rparr>]\<rparr>,
     0x3000 := no_task\<lparr>t_is_user := True, t_pid := 5, t_pgid := 5, t_state := TASK_STOPPED, t_next := 0x2000\<rparr>)\<rparr>"

lemma demo_kill_inv: "sched_inv demo_kill [0x2000] {0x2000, 0x3000}"
  by (auto intro!: exI [of _ "[0x3000]"] simp: sched_inv_def lists_ok_def links_ok_def run_list_def ring_at_def nexts_def prevs_def tnexts_def
      s_run_sentinel_def demo_kill_def sched0_def no_task_def)

lemma demo_may_kill: "may_kill 5 (tk demo_kill (current demo_kill))"
proof -
  have "check_caps (null_caps[0 := \<lparr>slot_kind = CAP_KIND_PROC_READ, slot_rights = CAP_RIGHTS_WRITE\<rparr>]) CAP_KIND_PROC_READ CAP_RIGHTS_WRITE = 0"
    by code_simp
  then show ?thesis by (simp add: may_kill_def demo_kill_def)
qed

theorem kill_exact_witness:
  "\<exists>s'. sys_kill 5 18 demo_kill = Some (Ret (s', 0)) \<and> t_state (tk s' 0x3000) = TASK_STOPPED \<and> pending_signals (tk s' 0x3000) = sigbit 18"
proof -
  have "inj_on (\<lambda>u. t_pid (tk demo_kill u)) {u \<in> {0x2000, 0x3000}. t_is_user (tk demo_kill u)}"
    by (auto simp: inj_on_def demo_kill_def)
  from kill_exact [OF demo_kill_inv this, of 5 5 18 18] demo_may_kill obtain s' where
    s': "sys_kill 5 18 demo_kill = Some (Ret (s', 0))"
      "\<And>u. strip (tk s' u) = strip (if u \<in> {0x2000, 0x3000} \<and> kill_hits 5 (tk demo_kill (current demo_kill)) (tk demo_kill u)
          then kill_effect (kill_wakes 5) (nat 18) (tk demo_kill u) else tk demo_kill u)" by auto
  have "strip (tk s' 0x3000) = strip (kill_effect {TASK_BLOCKED} 18 (tk demo_kill 0x3000))"
    using s'(2) [of "0x3000"] by (simp add: kill_hits_def kill_wakes_def demo_kill_def)
  from strip_eqD [OF this] show ?thesis using s'(1) by (simp add: kill_effect_def demo_kill_def no_task_def)
qed

end
