(* ===== verification/Kva.thy ===== *)
theory Kva
  imports Va_Freelist Vmm_Props
begin

text \<open>
  The kernel virtual address allocator, \<^verbatim>\<open>kernel/mm/kva.c\<close>: a bump pointer, a free list of returned
  ranges, and the mapping of each allocated page to a frame of its own.  The array
  \<^verbatim>\<open>s_free[0..s_nfree)\<close> is the list \<open>s_free\<close>.
\<close>

section \<open>The free list\<close>

definition KVA_BASE :: u64 where
  "KVA_BASE = ARCH_KERNEL_VIRT_BASE + 0x800000"

definition KVA_FREE_MAX :: nat where "KVA_FREE_MAX = 128"

record kva_free =
  kf_va :: u64
  kf_npages :: u64

definition freelist_alloc :: "u64 \<Rightarrow> kva_free list \<Rightarrow> kva_free list \<times> u64" where
  "freelist_alloc n fl = (case best_fit n (map kf_npages fl) 0 None (-1) of
     None \<Rightarrow> (fl, 0)
   | Some best \<Rightarrow>
       let e = fl ! best; va = kf_va e in
       if kf_npages e = n then (swap_remove best fl, va)
       else (fl[best := \<lparr>kf_va = kf_va e + n * 4096, kf_npages = kf_npages e - n\<rparr>], va))"

definition freelist_insert :: "u64 \<Rightarrow> u64 \<Rightarrow> kva_free list \<Rightarrow> kva_free list" where
  "freelist_insert va n fl =
    (case find (\<lambda>i. kf_va (fl ! i) + kf_npages (fl ! i) * 4096 = va \<or> va + n * 4096 = kf_va (fl ! i))
       [0..<length fl] of
       Some i \<Rightarrow>
         if kf_va (fl ! i) + kf_npages (fl ! i) * 4096 = va
         then let fl1 = fl[i := (fl ! i)\<lparr>kf_npages := kf_npages (fl ! i) + n\<rparr>];
                  new_end = kf_va (fl1 ! i) + kf_npages (fl1 ! i) * 4096 in
              (case find (\<lambda>j. j \<noteq> i \<and> kf_va (fl1 ! j) = new_end) [0..<length fl1] of
                 None \<Rightarrow> fl1
               | Some j \<Rightarrow> swap_remove j
                   (fl1[i := (fl1 ! i)\<lparr>kf_npages := kf_npages (fl1 ! i) + kf_npages (fl1 ! j)\<rparr>]))
         else fl[i := \<lparr>kf_va = va, kf_npages = kf_npages (fl ! i) + n\<rparr>]
     | None \<Rightarrow> if length fl < KVA_FREE_MAX then fl @ [\<lparr>kf_va = va, kf_npages = n\<rparr>] else fl)"

section \<open>Allocating and freeing pages\<close>

record kva =
  s_kva_next :: u64
  s_free :: "kva_free list"
  kva_vm :: vmm

definition kva_init :: "kva \<Rightarrow> kva" where
  "kva_init s = s\<lparr>s_kva_next := KVA_BASE, s_free := []\<rparr>"

definition kva_alloc_one :: "u64 \<Rightarrow> nat \<Rightarrow> vmm \<Rightarrow> (vmm \<times> int) kres" where
  "kva_alloc_one base i vm = (case pmm_alloc_page (vm_pmm vm) of (p, phys) \<Rightarrow>
     if phys = 0 then Panic ''[KVA] FAIL: out of memory''
     else case vmm_map_page (base + of_nat i * 4096) phys VMM_FLAG_WRITABLE (vm\<lparr>vm_pmm := p\<rparr>) of
       Panic m \<Rightarrow> Panic m | Ret vm' \<Rightarrow> Ret (vm', 0))"

definition kva_alloc_pages :: "u64 \<Rightarrow> kva \<Rightarrow> (kva \<times> u64) kres" where
  "kva_alloc_pages n s =
    (if n = 0 then Ret (s, 0)
     else case freelist_alloc n (s_free s) of (fl, va) \<Rightarrow>
       let base = (if va = 0 then s_kva_next s else va);
           s1 = s\<lparr>s_free := fl, s_kva_next := (if va = 0 then s_kva_next s + n * 4096 else s_kva_next s)\<rparr> in
       (case for_each (kva_alloc_one base) [0..<unat n] (kva_vm s1) of
          Panic m \<Rightarrow> Panic m
        | Ret (vm, _) \<Rightarrow> Ret (s1\<lparr>kva_vm := vm\<rparr>, base)))"

definition kva_map_one :: "u64 \<Rightarrow> u64 \<Rightarrow> nat \<Rightarrow> vmm \<Rightarrow> (vmm \<times> int) kres" where
  "kva_map_one base phys_base i vm =
    (case vmm_map_page (base + of_nat i * 4096) (phys_base + of_nat i * 4096) VMM_FLAG_WRITABLE vm of
       Panic m \<Rightarrow> Panic m | Ret vm' \<Rightarrow> Ret (vm', 0))"

definition kva_map_phys_pages :: "u64 \<Rightarrow> u32 \<Rightarrow> kva \<Rightarrow> (kva \<times> u64) kres" where
  "kva_map_phys_pages phys_base num_pages s =
    (if num_pages = 0 then Ret (s, 0)
     else let base = s_kva_next s; s1 = s\<lparr>s_kva_next := s_kva_next s + ucast num_pages * 4096\<rparr> in
       (case for_each (kva_map_one base phys_base) [0..<unat num_pages] (kva_vm s1) of
          Panic m \<Rightarrow> Panic m
        | Ret (vm, _) \<Rightarrow> Ret (s1\<lparr>kva_vm := vm\<rparr>, base)))"

definition kva_page_phys :: "u64 \<Rightarrow> kva \<Rightarrow> u64 kres" where
  "kva_page_phys va s = vmm_phys_of va (kva_vm s)"

definition kva_free_one :: "u64 \<Rightarrow> nat \<Rightarrow> vmm \<Rightarrow> (vmm \<times> int) kres" where
  "kva_free_one addr i vm =
    (let page_va = addr + of_nat i * 4096 in
     case vmm_phys_of page_va vm of Panic m \<Rightarrow> Panic m | Ret phys \<Rightarrow>
     case vmm_unmap_page page_va vm of Panic m \<Rightarrow> Panic m | Ret vm1 \<Rightarrow> vm_free phys vm1)"

definition kva_free_pages :: "u64 \<Rightarrow> u64 \<Rightarrow> kva \<Rightarrow> kva kres" where
  "kva_free_pages addr n s =
    (case for_each (kva_free_one addr) [0..<unat n] (kva_vm s) of
       Panic m \<Rightarrow> Panic m
     | Ret (vm, _) \<Rightarrow> Ret (s\<lparr>kva_vm := vm, s_free := freelist_insert addr n (s_free s)\<rparr>))"

section \<open>The free list keeps its contract\<close>

definition kf_cells :: "kva_free \<Rightarrow> nat \<times> nat" where
  "kf_cells e = (unat (kf_va e), 4096 * unat (kf_npages e))"

definition kf_ok :: "kva_free \<Rightarrow> bool" where
  "kf_ok e \<longleftrightarrow> kf_va e \<noteq> 0 \<and> 0 < kf_npages e \<and> 4096 dvd unat (kf_va e)
     \<and> unat (kf_va e) + 4096 * unat (kf_npages e) < 2 ^ 64"

definition kva_list_ok :: "kva_free list \<Rightarrow> bool" where
  "kva_list_ok fl \<longleftrightarrow> (\<forall>e\<in>set fl. kf_ok e)"

definition kva_free_cnt :: "kva_free list \<Rightarrow> nat \<Rightarrow> nat" where
  "kva_free_cnt fl = hits kf_cells fl"

text \<open>Ends of ranges that do not wrap.\<close>

lemma pages_end:
  fixes a n :: u64
  assumes "unat a + 4096 * unat n < 2 ^ 64"
  shows "unat (a + n * 4096) = unat a + 4096 * unat n" "unat (n * 4096) = 4096 * unat n"
proof -
  show m: "unat (n * 4096) = 4096 * unat n" using assms by (simp add: unat_word_ariths)
  show "unat (a + n * 4096) = unat a + 4096 * unat n" using assms m by (simp add: unat_word_ariths)
qed

lemma pages_merge:
  fixes a n m :: u64
  assumes "unat a + 4096 * unat n + 4096 * unat m < 2 ^ 64"
  shows "unat (n + m) = unat n + unat m"
  using assms by (simp add: unat_word_ariths)

lemma kf_merge:
  fixes a b n m :: u64
  assumes "unat a + 4096 * unat n < 2 ^ 64" "a + n * 4096 = b" "unat b + 4096 * unat m < 2 ^ 64"
  shows "unat (n + m) = unat n + unat m" "unat b = unat a + 4096 * unat n"
proof -
  show b: "unat b = unat a + 4096 * unat n" using pages_end(1) [OF assms(1)] assms(2) by simp
  show "unat (n + m) = unat n + unat m" by (rule pages_merge [of a]) (use b assms(3) in simp)
qed

lemma freelist_alloc_spec:
  assumes "kva_list_ok fl" "0 < n" "freelist_alloc n fl = (fl', a)" "a \<noteq> 0"
  shows "kva_list_ok fl' \<and> 4096 dvd unat a \<and> unat a + 4096 * unat n < 2 ^ 64
    \<and> kva_free_cnt fl' x + in_cells (unat a) (4096 * unat n) x = kva_free_cnt fl x"
proof -
  obtain k where k: "best_fit n (map kf_npages fl) 0 None (-1) = Some k"
    using assms by (cases "best_fit n (map kf_npages fl) 0 None (-1)") (auto simp: freelist_alloc_def)
  let ?e = "fl ! k"
  have kl: "k < length fl" "n \<le> kf_npages ?e" using best_fit_Some [OF k] by auto
  then have e: "kf_ok ?e" using assms(1) by (simp add: kva_list_ok_def)
  have le: "unat n \<le> unat (kf_npages ?e)" using kl(2) by (simp add: word_le_nat_alt)
  show ?thesis
  proof (cases "kf_npages ?e = n")
    case True
    then have r: "fl' = swap_remove k fl" "a = kf_va ?e"
      using assms(3) k by (auto simp: freelist_alloc_def Let_def)
    show ?thesis
      using hits_swap_remove [OF kl(1), of kf_cells x] set_swap_remove [OF kl(1)] assms(1) e True
      by (auto simp: r kva_list_ok_def kva_free_cnt_def kf_cells_def kf_ok_def)
  next
    case False
    let ?e' = "\<lparr>kf_va = kf_va ?e + n * 4096, kf_npages = kf_npages ?e - n\<rparr>"
    have r: "fl' = fl[k := ?e']" "a = kf_va ?e"
      using assms(3) k False by (auto simp: freelist_alloc_def Let_def)
    have d: "unat (kf_npages ?e - n) = unat (kf_npages ?e) - unat n" using kl(2) by (simp add: unat_sub)
    have n: "unat (kf_va ?e + n * 4096) = unat (kf_va ?e) + 4096 * unat n"
      using e le by (intro pages_end) (simp add: kf_ok_def)
    have lt: "unat n < unat (kf_npages ?e)" using le False by (metis le_neq_implies_less word_unat_eq_iff)
    have "kf_ok ?e'"
      using e lt d n by (auto simp: kf_ok_def word_less_nat_alt word_unat_eq_iff [of _ 0])
    moreover have "in_cells (unat (kf_va ?e)) (4096 * unat (kf_npages ?e)) x
        = in_cells (unat a) (4096 * unat n) x + in_cells (fst (kf_cells ?e')) (snd (kf_cells ?e')) x"
      using in_cells_split [of "unat a" "4096 * unat n" "4096 * (unat (kf_npages ?e) - unat n)" x] le
      by (simp add: kf_cells_def r n d algebra_simps)
    ultimately show ?thesis
      using hits_update [OF kl(1), of kf_cells ?e' x] assms(1) e le
        set_update_subset_insert [of fl k ?e']
      by (auto simp: r kva_list_ok_def kva_free_cnt_def kf_cells_def kf_ok_def)
  qed
qed

text \<open>Extending an entry by what follows it.\<close>

lemma kf_extend:
  assumes "kf_ok e" "kf_va e + kf_npages e * 4096 = b" "unat b + 4096 * unat m < 2 ^ 64"
  defines "e' \<equiv> e\<lparr>kf_npages := kf_npages e + m\<rparr>"
  shows "kf_ok e'" "in_cells (fst (kf_cells e')) (snd (kf_cells e')) x
    = in_cells (fst (kf_cells e)) (snd (kf_cells e)) x + in_cells (unat b) (4096 * unat m) x"
proof -
  have e: "unat (kf_va e) + 4096 * unat (kf_npages e) < 2 ^ 64" using assms(1) by (simp add: kf_ok_def)
  note M = kf_merge [OF e assms(2,3)]
  show "kf_ok e'"
    using assms(1,3) M by (auto simp: kf_ok_def e'_def word_less_nat_alt algebra_simps)
  show "in_cells (fst (kf_cells e')) (snd (kf_cells e')) x
    = in_cells (fst (kf_cells e)) (snd (kf_cells e)) x + in_cells (unat b) (4096 * unat m) x"
    using in_cells_split [of "unat (kf_va e)" "4096 * unat (kf_npages e)" "4096 * unat m" x] M
    by (simp add: kf_cells_def e'_def algebra_simps)
qed

lemma kva_list_ok_update: "kva_list_ok fl \<Longrightarrow> kf_ok e \<Longrightarrow> kva_list_ok (fl[i := e])"
  unfolding kva_list_ok_def using set_update_subset_insert [of fl i e] by auto

lemma freelist_insert_spec:
  assumes ok: "kva_list_ok fl" "0 < n" "va \<noteq> 0" "4096 dvd unat va" "unat va + 4096 * unat n < 2 ^ 64"
  shows "kva_list_ok (freelist_insert va n fl) \<and> (freelist_insert va n fl = fl
    \<or> kva_free_cnt (freelist_insert va n fl) x = kva_free_cnt fl x + in_cells (unat va) (4096 * unat n) x)"
proof (cases "find (\<lambda>i. kf_va (fl ! i) + kf_npages (fl ! i) * 4096 = va \<or> va + n * 4096 = kf_va (fl ! i))
    [0..<length fl]")
  case None
  then show ?thesis
    using ok by (auto simp: freelist_insert_def kva_list_ok_def kf_ok_def kva_free_cnt_def kf_cells_def)
next
  case (Some i)
  have i: "i < length fl" using find_upt_Some [OF Some] by simp
  then have ei: "kf_ok (fl ! i)" using ok(1) by (simp add: kva_list_ok_def)
  show ?thesis
  proof (cases "kf_va (fl ! i) + kf_npages (fl ! i) * 4096 = va")
    case True
    define e1 where "e1 = (fl ! i)\<lparr>kf_npages := kf_npages (fl ! i) + n\<rparr>"
    define fl1 where "fl1 = fl[i := e1]"
    note X1 = kf_extend [OF ei True ok(5), folded e1_def]
    have ok1: "kva_list_ok fl1" unfolding fl1_def by (rule kva_list_ok_update [OF ok(1) X1(1)])
    have h1: "kva_free_cnt fl1 x = kva_free_cnt fl x + in_cells (unat va) (4096 * unat n) x"
      using hits_update [OF i, of kf_cells e1 x] X1(2) [of x] by (simp add: kva_free_cnt_def fl1_def)
    have i1: "fl1 ! i = e1" "length fl1 = length fl" using i by (simp_all add: fl1_def)
    show ?thesis
    proof (cases "find (\<lambda>j. j \<noteq> i \<and> kf_va (fl1 ! j) = kf_va (fl1 ! i) + kf_npages (fl1 ! i) * 4096)
        [0..<length fl1]")
      case None
      then have "freelist_insert va n fl = fl1"
        using Some True by (simp add: freelist_insert_def Let_def fl1_def e1_def)
      then show ?thesis using ok1 h1 by simp
    next
      case (Some j)
      then have j: "j < length fl1" "j \<noteq> i" "kf_va e1 + kf_npages e1 * 4096 = kf_va (fl1 ! j)"
        using find_upt_Some [OF Some] i1 by auto
      then have ej: "kf_ok (fl1 ! j)" using ok1 by (simp add: kva_list_ok_def)
      define e2 where "e2 = e1\<lparr>kf_npages := kf_npages e1 + kf_npages (fl1 ! j)\<rparr>"
      note X2 = kf_extend [OF X1(1) j(3), of "kf_npages (fl1 ! j)", folded e2_def]
      have wj: "unat (kf_va (fl1 ! j)) + 4096 * unat (kf_npages (fl1 ! j)) < 2 ^ 64"
        using ej by (simp add: kf_ok_def)
      have r: "freelist_insert va n fl = swap_remove j (fl1[i := e2])"
        using \<open>find _ [0..<length fl] = Some i\<close> Some True i1
        by (simp add: freelist_insert_def Let_def fl1_def e1_def e2_def)
      have ok2: "kva_list_ok (fl1[i := e2])" by (rule kva_list_ok_update [OF ok1 X2(1) [OF wj]])
      have j2: "j < length (fl1[i := e2])" "fl1[i := e2] ! j = fl1 ! j" using j by simp_all
      have "kva_free_cnt (swap_remove j (fl1[i := e2])) x = kva_free_cnt fl1 x"
        using hits_swap_remove [OF j2(1), of kf_cells x] hits_update [of i fl1 kf_cells e2 x] i i1
          X2(2) [OF wj, of x] j2(2)
        by (simp add: kva_free_cnt_def kf_cells_def)
      then show ?thesis using r h1 ok2 set_swap_remove [OF j2(1)] by (auto simp: kva_list_ok_def)
    qed
  next
    case False
    then have b: "va + n * 4096 = kf_va (fl ! i)" using find_upt_Some [OF Some] by auto
    define e1 where "e1 = \<lparr>kf_va = va, kf_npages = n\<rparr>"
    have k: "kf_ok e1" "kf_va e1 + kf_npages e1 * 4096 = kf_va (fl ! i)"
      "unat (kf_va (fl ! i)) + 4096 * unat (kf_npages (fl ! i)) < 2 ^ 64"
      using ok(2-5) b ei by (simp_all add: kf_ok_def e1_def)
    note X = kf_extend [OF k]
    have e: "e1\<lparr>kf_npages := kf_npages e1 + kf_npages (fl ! i)\<rparr>
        = \<lparr>kf_va = va, kf_npages = kf_npages (fl ! i) + n\<rparr>" by (simp add: e1_def)
    have r: "freelist_insert va n fl = fl[i := \<lparr>kf_va = va, kf_npages = kf_npages (fl ! i) + n\<rparr>]"
      using Some False by (simp add: freelist_insert_def)
    show ?thesis
      using hits_update [OF i, of kf_cells "\<lparr>kf_va = va, kf_npages = kf_npages (fl ! i) + n\<rparr>" x]
        X [unfolded e] kva_list_ok_update [OF ok(1) X(1) [unfolded e]]
      by (simp add: r kva_free_cnt_def kf_cells_def e1_def)
  qed
qed

interpretation kf: va_freelist freelist_alloc freelist_insert 4096 kva_free_cnt kva_list_ok
proof unfold_locales
  show "s' = s" if "kva_list_ok s" "0 < n" "freelist_alloc n s = (s', 0)" for s s' n
  proof (cases "best_fit n (map kf_npages s) 0 None (-1)")
    case (Some k)
    then have "k < length s" using best_fit_Some [OF Some] by auto
    then have "kf_va (s ! k) \<noteq> 0" using that(1) by (auto simp: kva_list_ok_def kf_ok_def)
    then show ?thesis using that Some by (auto simp: freelist_alloc_def Let_def split: if_splits)
  qed (use that in \<open>simp add: freelist_alloc_def\<close>)
qed (use freelist_alloc_spec freelist_insert_spec in auto)

section \<open>Kernel pages\<close>

definition kpage :: "u64 \<Rightarrow> bool" where
  "kpage v \<longleftrightarrow> v AND 0xFFF = 0 \<and> KVA_BASE \<le> v"

definition kva_paths :: "nat list set" where
  "kva_paths = {[511, p, d] | p d. p = 510 \<and> 4 \<le> d \<and> d < 512 \<or> p = 511 \<and> d < 512}"

lemma path_set_kva [simp]: "path_set kva_paths"
  by (auto simp: path_set_def kva_paths_def)

lemma kpage_nat: "kpage v \<longleftrightarrow> unat v mod 4096 = 0 \<and> 0xFFFFFFFF80800000 \<le> unat v"
  by (auto simp: kpage_def and_4095_eq_0_iff KVA_BASE_def ARCH_KERNEL_VIRT_BASE_def word_le_nat_alt)

lemma kpage_path:
  assumes "kpage v"
  shows "vm_path v \<in> kva_paths"
proof -
  have v: "0xFFFFFFFF80800000 \<le> unat v" "unat v < 2 ^ 64" using assms unsigned_less [of v] by (simp_all add: kpage_nat)
  then have q: "unat v div 2 ^ 39 = 0x1FFFFFF" by (intro div_nat_eqI) simp_all
  have p: "unat v div 2 ^ 30 = 0x3FFFFFFFE \<or> unat v div 2 ^ 30 = 0x3FFFFFFFF"
  proof (cases "unat v < 0xFFFFFFFFC0000000")
    case True
    then have "unat v div 2 ^ 30 = 0x3FFFFFFFE" using v by (intro div_nat_eqI) simp_all
    then show ?thesis by simp
  next
    case False
    then have "unat v div 2 ^ 30 = 0x3FFFFFFFF" using v by (intro div_nat_eqI) simp_all
    then show ?thesis by simp
  qed
  have d: "4 \<le> unat v div 2 ^ 21 mod 512" if "unat v div 2 ^ 30 = 0x3FFFFFFFE"
  proof -
    have e: "unat v div 2 ^ 21 div 512 = unat v div 2 ^ 30" by (simp add: div_mult2_eq [symmetric])
    have "0xFFFFFFFF80800000 div 2 ^ 21 \<le> unat v div 2 ^ 21" by (rule div_le_mono [OF v(1)])
    then have "0x7FFFFFFFC04 \<le> unat v div 2 ^ 21" by simp
    moreover have "unat v div 2 ^ 21 = 512 * 0x3FFFFFFFE + unat v div 2 ^ 21 mod 512"
      using mult_div_mod_eq [of 512 "unat v div 2 ^ 21"] unfolding e that by simp
    ultimately show ?thesis by simp
  qed
  show ?thesis
    using p d index_less [of v] unfolding vm_path_def kva_paths_def index_div q by auto
qed

lemma kpage_same:
  assumes "kpage v" "kpage w" "same_page v w"
  shows "v = w"
proof -
  have "unat u div 2 ^ 39 = 0x1FFFFFF" if "kpage u" for u
  proof -
    have "0xFFFFFFFF80800000 \<le> unat u" "unat u < 2 ^ 64" using that unsigned_less [of u] by (simp_all add: kpage_nat)
    then show ?thesis by (intro div_nat_eqI) simp_all
  qed
  then have "unat v div 4096 = unat w div 4096" using assms by (intro same_page_div) simp_all
  moreover have "unat v mod 4096 = unat w mod 4096" using assms(1,2) by (simp add: kpage_nat)
  ultimately show ?thesis by (metis div_mult_mod_eq word_unat_eq_iff)
qed

lemma map_page_path:
  assumes "virt AND 0xFFF = 0" "phys AND 0xFFF = 0"
  shows "vmm_map_page virt phys flags s =
    (case ensure_path (s_pml4_phys s) virt 0 s of (s3, pt) \<Rightarrow>
     if pt = 0 then Panic ''[VMM] FAIL: out of memory in vmm_map_page''
     else if present (vm_rd s3 pt (pt_index virt)) then Panic ''[VMM] FAIL: vmm_map_page double-map''
     else Ret (vm_wr pt (pt_index virt) (phys OR flags OR VMM_FLAG_PRESENT) s3))"
  using assms
  by (auto simp: vmm_map_page_def ensure_path_def arch_pte_from_flags_def or.assoc PAGE_SIZE_def
      split: prod.split)

lemma map_page_spec:
  assumes D: "path_set D" "tree_ok D s (s_pml4_phys s)" "pmm_wf (vm_pmm s)" "vm_path v \<in> D"
    and a: "v AND 0xFFF = 0" "phys AND 0xFFF = 0" "\<not> present (pte_at s (s_pml4_phys s) v)"
  shows "vmm_map_page v phys flags s = Panic ''[VMM] FAIL: out of memory in vmm_map_page''
    \<or> (\<exists>s3 s'. vmm_map_page v phys flags s = Ret s' \<and> grows D (s_pml4_phys s) s s3
        \<and> sets_pte D (s_pml4_phys s) v (phys OR flags OR VMM_FLAG_PRESENT) s3 s')"
proof -
  let ?r = "s_pml4_phys s"
  obtain s3 pt where e: "ensure_path ?r v 0 s = (s3, pt)" by (cases "ensure_path ?r v 0 s")
  have G: "grows D ?r s s3" "pt \<noteq> 0 \<Longrightarrow> walk s3 ?r (vm_path v) = Some pt"
    using ensure_path_spec [OF D _ e] by auto
  show ?thesis
  proof (cases "pt = 0")
    case False
    have "pte_at s3 ?r v = pte_at s ?r v" "tree_ok D s3 ?r" using G(1) D(4) by (auto simp: grows_def)
    then have "\<not> present (vm_rd s3 pt (pt_index v))" using a(3) G(2) [OF False] by (simp add: pte_at_def)
    then have "vmm_map_page v phys flags s = Ret (vm_wr pt (pt_index v) (phys OR flags OR VMM_FLAG_PRESENT) s3)"
      using False e by (simp add: map_page_path [OF a(1,2)])
    moreover have "sets_pte D ?r v (phys OR flags OR VMM_FLAG_PRESENT) s3
        (vm_wr pt (pt_index v) (phys OR flags OR VMM_FLAG_PRESENT) s3)"
      by (rule leaf_wr_sets_pte [OF D(1) \<open>tree_ok D s3 ?r\<close> D(4) G(2) [OF False]])
    ultimately show ?thesis using G(1) by blast
  qed (simp add: map_page_path [OF a(1,2)] e)
qed

lemma present_walk:
  assumes "tree_ok D s root" "vm_path v \<in> D" "present (pte_at s root v)"
  obtains pt where "walk s root (vm_path v) = Some pt" "pte_at s root v = vm_rd s pt (pt_index v)"
  using assms(3) by (cases "walk s root (vm_path v)") (auto simp: pte_at_def present_def)

lemma phys_of_pte:
  assumes "tree_ok D s (s_pml4_phys s)" "vm_path v \<in> D" "present (pte_at s (s_pml4_phys s) v)"
  shows "vmm_phys_of v s = Ret (ARCH_PTE_ADDR (pte_at s (s_pml4_phys s) v))"
  using walk_no_huge [OF assms(1,2)] assms(3)
  by (auto simp: vmm_phys_of_def pte_at_def walk_vm_path Let_def present_def split: if_splits)

lemma unmap_page_pte:
  assumes "path_set D" "tree_ok D s (s_pml4_phys s)" "vm_path v \<in> D" "present (pte_at s (s_pml4_phys s) v)"
    "v AND 0xFFF = 0"
  obtains s' where "vmm_unmap_page v s = Ret s'" "sets_pte D (s_pml4_phys s) v 0 s s'"
proof -
  obtain pt where pt: "walk s (s_pml4_phys s) (vm_path v) = Some pt"
    "pte_at s (s_pml4_phys s) v = vm_rd s pt (pt_index v)"
    by (rule present_walk [OF assms(2-4)])
  then have "vmm_unmap_page v s = Ret (vm_wr pt (pt_index v) 0 s)"
    using walk_no_huge [OF assms(2,3)] assms(4,5)
    by (auto simp: vmm_unmap_page_def walk_vm_path Let_def PAGE_SIZE_def split: if_splits)
  then show ?thesis using that leaf_wr_sets_pte [OF assms(1-3) pt(1), of 0] by blast
qed

section \<open>Which kernel pages are mapped, and to what\<close>

definition kv_pte :: "vmm \<Rightarrow> u64 \<Rightarrow> u64" where
  "kv_pte vm v = pte_at vm (s_pml4_phys vm) v"

definition kv_frame :: "vmm \<Rightarrow> u64 \<Rightarrow> u64" where
  "kv_frame vm v = ARCH_PTE_ADDR (kv_pte vm v)"

abbreviation kv_tables :: "vmm \<Rightarrow> u64 set" where
  "kv_tables vm \<equiv> tables kva_paths vm (s_pml4_phys vm)"

text \<open>The pages \<open>A\<close> are allocated, each with a frame of its own; the pages \<open>P\<close> are mapped to memory
  that the page allocator does not own; no other page is mapped.\<close>

definition kv_ok :: "vmm \<Rightarrow> u64 set \<Rightarrow> u64 set \<Rightarrow> bool" where
  "kv_ok vm A P \<longleftrightarrow> tree_ok kva_paths vm (s_pml4_phys vm) \<and> pmm_wf (vm_pmm vm)
     \<and> (\<forall>v\<in>A \<union> P. kpage v) \<and> (\<forall>v. kpage v \<longrightarrow> (present (kv_pte vm v) \<longleftrightarrow> v \<in> A \<union> P)) \<and> A \<inter> P = {}
     \<and> (\<forall>v\<in>A. pmm_owners (vm_pmm vm) (kv_frame vm v) \<noteq> 0 \<and> kv_frame vm v \<notin> kv_tables vm)
     \<and> inj_on (kv_frame vm) A"

lemma kv_map:
  assumes K: "kv_ok vm A P" and v: "kpage v" "v \<notin> A \<union> P" "phys AND 0xFFF = 0"
    and r: "vmm_map_page v phys VMM_FLAG_WRITABLE vm \<noteq> Panic ''[VMM] FAIL: out of memory in vmm_map_page''"
  obtains vm' where "vmm_map_page v phys VMM_FLAG_WRITABLE vm = Ret vm'"
    "kv_ok vm' A (insert v P)" "s_pml4_phys vm' = s_pml4_phys vm"
    "kv_pte vm' v = phys OR VMM_FLAG_WRITABLE OR VMM_FLAG_PRESENT"
    "\<And>x. kpage x \<Longrightarrow> x \<noteq> v \<Longrightarrow> kv_pte vm' x = kv_pte vm x"
    "\<And>f. pmm_owners (vm_pmm vm) f \<noteq> 0 \<Longrightarrow> pmm_owners (vm_pmm vm') f = pmm_owners (vm_pmm vm) f"
    "kv_tables vm' \<subseteq> kv_tables vm \<union> pmm_avail (vm_pmm vm)"
proof -
  let ?r = "s_pml4_phys vm" and ?w = "phys OR VMM_FLAG_WRITABLE OR VMM_FLAG_PRESENT"
  have t: "tree_ok kva_paths vm ?r" "pmm_wf (vm_pmm vm)" "\<not> present (pte_at vm ?r v)"
    using K v by (simp_all add: kv_ok_def kv_pte_def)
  have va: "v AND 0xFFF = 0" using v(1) by (simp add: kpage_def)
  obtain s3 vm' where m: "vmm_map_page v phys VMM_FLAG_WRITABLE vm = Ret vm'"
    and G: "grows kva_paths ?r vm s3" and S: "sets_pte kva_paths ?r v ?w s3 vm'"
    using map_page_spec [OF path_set_kva t(1,2) kpage_path [OF v(1)] va v(3) t(3)] r by blast
  have rt: "s_pml4_phys vm' = ?r" using G S by (simp add: grows_def sets_pte_def)
  have pv: "kv_pte vm' v = ?w"
    unfolding kv_pte_def rt using S kpage_path [OF v(1)] by (simp add: sets_pte_def same_page_def)
  have px: "kv_pte vm' x = kv_pte vm x" if "kpage x" "x \<noteq> v" for x
  proof -
    have "\<not> same_page x v" using that kpage_same v(1) by blast
    then show ?thesis unfolding kv_pte_def rt using S G kpage_path [OF that(1)]
      by (simp add: sets_pte_def grows_def)
  qed
  have own: "pmm_owners (vm_pmm vm') f = pmm_owners (vm_pmm vm) f" if "pmm_owners (vm_pmm vm) f \<noteq> 0" for f
    using that G S by (simp add: grows_def sets_pte_def)
  have tab: "kv_tables vm' \<subseteq> kv_tables vm \<union> pmm_avail (vm_pmm vm)"
    using G S rt by (simp add: grows_def sets_pte_def)
  have pw: "present ?w" by (simp add: bit_simps bit_flags)
  have fr: "kv_frame vm' x = kv_frame vm x" if "x \<in> A" for x
  proof -
    have "kpage x" "x \<noteq> v" using that K v by (auto simp: kv_ok_def)
    then show ?thesis using px by (simp add: kv_frame_def)
  qed
  have "kv_ok vm' A (insert v P)"
    unfolding kv_ok_def
  proof (intro conjI allI ballI impI)
    show "tree_ok kva_paths vm' (s_pml4_phys vm')" unfolding rt using S by (simp add: sets_pte_def)
    show "pmm_wf (vm_pmm vm')" using S G by (simp add: sets_pte_def grows_def)
    show "present (kv_pte vm' x) \<longleftrightarrow> x \<in> A \<union> insert v P" if "kpage x" for x
      using K px [OF that] pv pw that by (cases "x = v") (auto simp: kv_ok_def)
    show "pmm_owners (vm_pmm vm') (kv_frame vm' x) \<noteq> 0" if "x \<in> A" for x
      using that fr own K by (auto simp: kv_ok_def)
    show "kv_frame vm' x \<notin> kv_tables vm'" if "x \<in> A" for x
    proof -
      have "pmm_owners (vm_pmm vm) (kv_frame vm x) \<noteq> 0" "kv_frame vm x \<notin> kv_tables vm"
        using K that by (simp_all add: kv_ok_def)
      then show ?thesis using tab pa.owned_not_avail [OF t(2)] fr [OF that] by fastforce
    qed
    have "inj_on (kv_frame vm) A" using K by (simp add: kv_ok_def)
    then show "inj_on (kv_frame vm') A" using fr by (simp cong: inj_on_cong)
  qed (use K v in \<open>auto simp: kv_ok_def\<close>)
  then show ?thesis using that [OF m _ rt pv px own tab] by blast
qed

text \<open>A page mapped to a frame that only this page has becomes an allocated page.\<close>

lemma kv_own:
  assumes "kv_ok vm A (insert v P)" "v \<notin> P" "pmm_owners (vm_pmm vm) (kv_frame vm v) \<noteq> 0"
    "kv_frame vm v \<notin> kv_tables vm" "\<And>x. x \<in> A \<Longrightarrow> kv_frame vm x \<noteq> kv_frame vm v"
  shows "kv_ok vm (insert v A) P"
proof -
  have "inj_on (kv_frame vm) (insert v A)" using assms(1,5) by (auto simp: kv_ok_def inj_on_def) metis
  then show ?thesis using assms unfolding kv_ok_def by auto
qed

definition oom_messages :: "string set" where
  "oom_messages = {''[KVA] FAIL: out of memory'', ''[VMM] FAIL: out of memory in vmm_map_page''}"

definition oom :: "'a kres \<Rightarrow> bool" where
  "oom r \<longleftrightarrow> (\<exists>m\<in>oom_messages. r = Panic m)"

lemma kv_alloc_one:
  assumes K: "kv_ok vm A P" and v: "v = base + of_nat i * 4096" "kpage v" "v \<notin> A \<union> P"
    and r: "\<not> oom (kva_alloc_one base i vm)"
  obtains vm' where "kva_alloc_one base i vm = Ret (vm', 0)" "kv_ok vm' (insert v A) P"
    "s_pml4_phys vm' = s_pml4_phys vm"
proof -
  obtain p f where al: "pmm_alloc_page (vm_pmm vm) = (p, f)" by (cases "pmm_alloc_page (vm_pmm vm)")
  have wf: "pmm_wf (vm_pmm vm)" "tree_ok kva_paths vm (s_pml4_phys vm)" using K by (simp_all add: kv_ok_def)
  have f: "f \<noteq> 0" using r al by (auto simp: kva_alloc_one_def oom_def oom_messages_def)
  note A = pa.alloc_page [OF wf(1) al f]
  have mf: "managed f" using A by (simp add: pmm_avail_def)
  have f0: "pmm_owners (vm_pmm vm) f = 0" using A pa.avail_unowned [OF wf(1)] by blast
  define vm1 where "vm1 = vm\<lparr>vm_pmm := p\<rparr>"
  have own1: "pmm_owners (vm_pmm vm1) g = pmm_owners (vm_pmm vm) g" if "g \<noteq> f" for g
    using that A by (simp add: vm1_def)
  have tb: "pmm_owners (vm_pmm vm) t \<noteq> 0" "t \<noteq> f" if "t \<in> kv_tables vm" for t
    using that wf(2) f0 by (auto simp: tree_ok_def)
  note T = tree_ok_cong [OF wf(2), of vm1]
  have T': "tree_ok kva_paths vm1 (s_pml4_phys vm)" "tables kva_paths vm1 (s_pml4_phys vm) = kv_tables vm"
    "kpage x \<Longrightarrow> kv_pte vm1 x = kv_pte vm x" for x
    using T tb own1 kpage_path [of x] by (auto simp: vm1_def kv_pte_def)
  have fx: "kv_frame vm1 x = kv_frame vm x" if "x \<in> A" for x
    using that T'(3) K by (auto simp: kv_frame_def kv_ok_def)
  have nf: "kv_frame vm x \<noteq> f" if "x \<in> A" for x using that K f0 by (auto simp: kv_ok_def)
  have K1: "kv_ok vm1 A P"
    using K T' A fx own1 nf unfolding kv_ok_def
    by (auto simp: vm1_def inj_on_def)
  have phys_ok: "f AND 0xFFF = 0" using mf by (simp add: managed_unat and_4095_eq_0_iff)
  obtain vm' where m: "vmm_map_page v f VMM_FLAG_WRITABLE vm1 = Ret vm'" "kv_ok vm' A (insert v P)"
    "s_pml4_phys vm' = s_pml4_phys vm1" "kv_pte vm' v = f OR VMM_FLAG_WRITABLE OR VMM_FLAG_PRESENT"
    "\<And>x. kpage x \<Longrightarrow> x \<noteq> v \<Longrightarrow> kv_pte vm' x = kv_pte vm1 x"
    "\<And>g. pmm_owners (vm_pmm vm1) g \<noteq> 0 \<Longrightarrow> pmm_owners (vm_pmm vm') g = pmm_owners (vm_pmm vm1) g"
    "kv_tables vm' \<subseteq> kv_tables vm1 \<union> pmm_avail (vm_pmm vm1)"
    by (rule kv_map [OF K1 v(2,3) phys_ok])
       (use r al f in \<open>auto simp: kva_alloc_one_def oom_def oom_messages_def vm1_def v(1)\<close>)
  have of: "pmm_owners (vm_pmm vm1) f = 1" using A by (simp add: vm1_def)
  have frv: "kv_frame vm' v = f"
    using table_entry(1) [OF mf, of 0] m(4) by (simp add: kv_frame_def table_flags_def or.commute or.left_commute)
  have ntab: "f \<notin> kv_tables vm1" using T'(2) tb(2) [of f] by (auto simp: vm1_def)
  have nav: "f \<notin> pmm_avail (vm_pmm vm1)" using A by (simp add: vm1_def)
  have "kv_frame vm' x \<noteq> kv_frame vm' v" if "x \<in> A" for x
  proof -
    have "kpage x" "x \<noteq> v" using that K v by (auto simp: kv_ok_def)
    then have "kv_frame vm' x = kv_frame vm x" using m(5) fx [OF that] by (simp add: kv_frame_def)
    then show ?thesis using nf [OF that] frv by simp
  qed
  then have "kv_ok vm' (insert v A) P"
    using v(3) m(6) [of f] of frv ntab nav m(7) by (intro kv_own [OF m(2)]) auto
  moreover have "kva_alloc_one base i vm = Ret (vm', 0)"
    using al f m(1) v(1) by (simp add: kva_alloc_one_def vm1_def)
  ultimately show ?thesis using that m(3) by (simp add: vm1_def)
qed

lemma kv_free_one:
  assumes K: "kv_ok vm A P" and v: "v = addr + of_nat i * 4096" "v \<in> A"
  obtains vm' where "kva_free_one addr i vm = Ret (vm', 0)" "kv_ok vm' (A - {v}) P"
    "s_pml4_phys vm' = s_pml4_phys vm"
proof -
  let ?r = "s_pml4_phys vm" and ?f = "kv_frame vm v"
  have k: "kpage v" "tree_ok kva_paths vm ?r" "pmm_wf (vm_pmm vm)" "present (pte_at vm ?r v)"
    using K v by (auto simp: kv_ok_def kv_pte_def)
  have va: "v AND 0xFFF = 0" using k(1) by (simp add: kpage_def)
  obtain vm1 where u: "vmm_unmap_page v vm = Ret vm1" and S: "sets_pte kva_paths ?r v 0 vm vm1"
    by (rule unmap_page_pte [OF path_set_kva k(2) kpage_path [OF k(1)] k(4) va])
  have pm: "vm_pmm vm1 = vm_pmm vm" "s_pml4_phys vm1 = ?r" using S by (simp_all add: sets_pte_def)
  have f: "pmm_owners (vm_pmm vm) ?f \<noteq> 0" "?f \<notin> kv_tables vm" using K v by (auto simp: kv_ok_def)
  obtain p where fr: "pmm_free_page ?f (vm_pmm vm) = Ret p" using pa.release_owned [OF k(3) f(1)] by blast
  note R = pa.release_page [OF k(3) fr]
  let ?vm' = "vm1\<lparr>vm_pmm := p\<rparr>"
  have own: "pmm_owners p g = pmm_owners (vm_pmm vm) g" if "g \<noteq> ?f" for g using that R by simp
  have t1: "tree_ok kva_paths vm1 ?r" "tables kva_paths vm1 ?r = kv_tables vm" using S by (simp_all add: sets_pte_def)
  have tb: "pmm_owners p t \<noteq> 0" if "t \<in> tables kva_paths vm1 ?r" for t
  proof -
    have "t \<noteq> ?f" "pmm_owners (vm_pmm vm) t \<noteq> 0" using that f(2) k(2) t1(2) by (auto simp: tree_ok_def)
    then show ?thesis using own by simp
  qed
  have T: "tree_ok kva_paths ?vm' ?r" "tables kva_paths ?vm' ?r = kv_tables vm"
    "kpage x \<Longrightarrow> pte_at ?vm' ?r x = pte_at vm1 ?r x" for x
    using tree_ok_cong [OF t1(1), of ?vm'] tb t1(2) kpage_path [of x] by auto
  have pte: "kv_pte ?vm' x = (if x = v then 0 else kv_pte vm x)" if "kpage x" for x
  proof -
    have "same_page x v \<longleftrightarrow> x = v" using that k(1) kpage_same by (auto simp: same_page_def)
    then show ?thesis using S T(3) [OF that] kpage_path [OF that] pm by (simp add: sets_pte_def kv_pte_def)
  qed
  have fx: "kv_frame ?vm' x = kv_frame vm x" "kv_frame vm x \<noteq> ?f" if "x \<in> A - {v}" for x
  proof -
    have "kpage x" "x \<noteq> v" using that K by (auto simp: kv_ok_def)
    then show "kv_frame ?vm' x = kv_frame vm x" using pte by (simp add: kv_frame_def)
    show "kv_frame vm x \<noteq> ?f" using that K v by (auto simp: kv_ok_def inj_on_def)
  qed
  have "kv_ok ?vm' (A - {v}) P"
    unfolding kv_ok_def
  proof (intro conjI allI ballI impI)
    show "present (kv_pte ?vm' x) \<longleftrightarrow> x \<in> A - {v} \<union> P" if "kpage x" for x
      using K v that pte [OF that] by (auto simp: kv_ok_def present_def)
    have "inj_on (kv_frame vm) (A - {v})" using K by (auto simp: kv_ok_def inj_on_def)
    then show "inj_on (kv_frame ?vm') (A - {v})"
      by (rule iffD2 [OF inj_on_cong, rotated]) (rule fx(1))
    show "pmm_owners (vm_pmm ?vm') (kv_frame ?vm' x) \<noteq> 0" if "x \<in> A - {v}" for x
      using fx [OF that] own K that by (auto simp: kv_ok_def)
    show "kv_frame ?vm' x \<notin> kv_tables ?vm'" if "x \<in> A - {v}" for x
      using fx [OF that] K that T(2) pm by (auto simp: kv_ok_def)
  qed (use K T(1) pm R in \<open>auto simp: kv_ok_def\<close>)
  moreover have "kva_free_one addr i vm = Ret (?vm', 0)"
    using phys_of_pte [OF k(2) kpage_path [OF k(1)] k(4)] u fr pm(1)
    by (simp add: kva_free_one_def Let_def v(1) [symmetric] vm_free_def kv_frame_def kv_pte_def)
  ultimately show ?thesis using that pm(2) by simp
qed

lemma kv_map_one:
  assumes K: "kv_ok vm A P" and v: "v = base + of_nat i * 4096" "kpage v" "v \<notin> A \<union> P"
    and ph: "(phys_base + of_nat i * 4096) AND 0xFFF = 0" and r: "\<not> oom (kva_map_one base phys_base i vm)"
  obtains vm' where "kva_map_one base phys_base i vm = Ret (vm', 0)" "kv_ok vm' A (insert v P)"
    "s_pml4_phys vm' = s_pml4_phys vm"
proof -
  obtain vm' where "vmm_map_page v (phys_base + of_nat i * 4096) VMM_FLAG_WRITABLE vm = Ret vm'"
    "kv_ok vm' A (insert v P)" "s_pml4_phys vm' = s_pml4_phys vm"
    by (rule kv_map [OF K v(2,3) ph])
       (use r v(1) in \<open>auto simp: kva_map_one_def oom_def oom_messages_def\<close>)
  then show ?thesis using that v(1) by (simp add: kva_map_one_def)
qed

section \<open>Whole ranges\<close>

definition range_pages :: "u64 \<Rightarrow> nat \<Rightarrow> u64 set" where
  "range_pages a n = {v. 4096 dvd unat v \<and> in_cells (unat a) (4096 * n) (unat v) = 1}"

lemma range_pages_nth:
  assumes "4096 dvd unat a" "unat a + 4096 * n < 2 ^ 64"
  shows "range_pages a n = (\<lambda>i. a + of_nat i * 4096) ` {..<n}" "i < n \<Longrightarrow> unat (a + of_nat i * 4096 :: u64) = unat a + 4096 * i"
proof -
  show u: "unat (a + of_nat i * 4096 :: u64) = unat a + 4096 * i" if "i < n" for i
  proof -
    have i: "unat (of_nat i :: u64) = i" using that assms(2) by (simp add: unat_of_nat)
    then have "unat a + 4096 * unat (of_nat i :: u64) < 2 ^ 64" using that assms(2) by simp
    then show ?thesis using pages_end(1) [of a "of_nat i"] i by simp
  qed
  show "range_pages a n = (\<lambda>i. a + of_nat i * 4096) ` {..<n}"
  proof (intro set_eqI iffI)
    fix v assume "v \<in> range_pages a n"
    then have v: "4096 dvd unat v" "unat a \<le> unat v" "unat v < unat a + 4096 * n"
      by (auto simp: range_pages_def in_cells_def split: if_splits)
    then obtain i where i: "unat v = unat a + 4096 * i" using assms(1)
      by (metis dvd_diff_nat dvd_def le_add_diff_inverse)
    then have "i < n" using v by simp
    moreover have "v = a + of_nat i * 4096" using u [OF \<open>i < n\<close>] i by (simp add: word_unat_eq_iff)
    ultimately show "v \<in> (\<lambda>i. a + of_nat i * 4096) ` {..<n}" by blast
  next
    fix v assume "v \<in> (\<lambda>i. a + of_nat i * 4096) ` {..<n}"
    then show "v \<in> range_pages a n" using u assms(1) by (auto simp: range_pages_def in_cells_def)
  qed
qed

lemma range_pages_Suc:
  assumes "4096 dvd unat a" "unat a + 4096 * Suc i < 2 ^ 64"
  shows "range_pages a (Suc i) = insert (a + of_nat i * 4096) (range_pages a i)"
    "a + of_nat i * 4096 \<notin> range_pages a i"
proof -
  have "unat a + 4096 * i < 2 ^ 64" using assms(2) by simp
  note R = range_pages_nth [OF assms] range_pages_nth [OF assms(1) this]
  show "range_pages a (Suc i) = insert (a + of_nat i * 4096) (range_pages a i)"
    unfolding R(1,3) by (simp add: lessThan_Suc)
  show "a + of_nat i * 4096 \<notin> range_pages a i"
    using R(2) [of i] by (auto simp: range_pages_def in_cells_def)
qed

lemma kv_alloc_loop:
  assumes K: "kv_ok vm A P" and a: "4096 dvd unat a" "unat a + 4096 * n < 2 ^ 64" "KVA_BASE \<le> a"
    and f: "range_pages a n \<inter> (A \<union> P) = {}" and r: "\<not> oom (for_each (kva_alloc_one a) [0..<n] vm)"
  shows "\<exists>vm'. for_each (kva_alloc_one a) [0..<n] vm = Ret (vm', 0) \<and> kv_ok vm' (A \<union> range_pages a n) P
    \<and> s_pml4_phys vm' = s_pml4_phys vm"
proof -
  let ?J = "\<lambda>i s. kv_ok s (A \<union> range_pages a i) P \<and> s_pml4_phys s = s_pml4_phys vm"
  have "\<exists>s'. for_each (kva_alloc_one a) [0..<n] vm = Ret (s', 0) \<and> ?J n s'"
  proof (rule for_each_progress [where B = oom_messages])
    show "?J 0 vm" using K range_pages_nth(1) [of a 0] a by simp
  next
    fix i s
    assume i: "i < n" and J: "?J i s" and nb: "\<And>m. m \<in> oom_messages \<Longrightarrow> kva_alloc_one a i s \<noteq> Panic m"
    let ?v = "a + of_nat i * 4096"
    have "unat a + 4096 * Suc i < 2 ^ 64" using i a(2) by simp
    note S = range_pages_Suc [OF a(1) this]
    have u: "unat ?v = unat a + 4096 * i" by (rule range_pages_nth(2) [OF a(1,2) i])
    have kp: "kpage ?v" using u a(1,3) by (auto simp: kpage_def and_4095_eq_0_iff word_le_nat_alt)
    have vn: "?v \<notin> A \<union> range_pages a i \<union> P"
      using S(2) f i range_pages_nth(1) [OF a(1,2)] by auto
    have no: "\<not> oom (kva_alloc_one a i s)" using nb by (auto simp: oom_def)
    obtain s' where "kva_alloc_one a i s = Ret (s', 0)" "kv_ok s' (insert ?v (A \<union> range_pages a i)) P"
      "s_pml4_phys s' = s_pml4_phys s"
      by (rule kv_alloc_one [OF conjunct1 [OF J] refl kp vn no])
    then show "\<exists>s'. kva_alloc_one a i s = Ret (s', 0) \<and> ?J (Suc i) s'" using J S(1) by auto
  qed (use r in \<open>auto simp: oom_def\<close>)
  then show ?thesis by blast
qed

lemma aligned_step: "(p :: u64) AND 0xFFF = 0 \<Longrightarrow> (p + of_nat i * 4096) AND 0xFFF = 0"
proof -
  have d: "(4096 :: nat) dvd 2 ^ 64" by simp
  have "unat (of_nat i * 4096 :: u64) mod 4096 = 0"
    by (simp only: unat_word_ariths mod_mod_cancel d len_of_numeral_defs) (simp add: mod_mod_cancel)
  moreover have "unat (p + of_nat i * 4096) mod 4096 = (unat p + unat (of_nat i * 4096 :: u64)) mod 4096"
    by (simp add: unat_word_ariths(1) mod_mod_cancel)
  moreover assume "p AND 0xFFF = 0"
  ultimately show ?thesis by (simp add: and_4095_eq_0_iff mod_add_eq [symmetric])
qed

lemma kv_map_loop:
  assumes K: "kv_ok vm A P" and a: "4096 dvd unat a" "unat a + 4096 * n < 2 ^ 64" "KVA_BASE \<le> a"
    and ph: "phys AND 0xFFF = 0"
    and f: "range_pages a n \<inter> (A \<union> P) = {}" and r: "\<not> oom (for_each (kva_map_one a phys) [0..<n] vm)"
  shows "\<exists>vm'. for_each (kva_map_one a phys) [0..<n] vm = Ret (vm', 0) \<and> kv_ok vm' A (P \<union> range_pages a n)
    \<and> s_pml4_phys vm' = s_pml4_phys vm"
proof -
  let ?J = "\<lambda>i s. kv_ok s A (P \<union> range_pages a i) \<and> s_pml4_phys s = s_pml4_phys vm"
  have "\<exists>s'. for_each (kva_map_one a phys) [0..<n] vm = Ret (s', 0) \<and> ?J n s'"
  proof (rule for_each_progress [where B = oom_messages])
    show "?J 0 vm" using K range_pages_nth(1) [of a 0] a by simp
  next
    fix i s
    assume i: "i < n" and J: "?J i s" and nb: "\<And>m. m \<in> oom_messages \<Longrightarrow> kva_map_one a phys i s \<noteq> Panic m"
    let ?v = "a + of_nat i * 4096"
    have "unat a + 4096 * Suc i < 2 ^ 64" using i a(2) by simp
    note S = range_pages_Suc [OF a(1) this]
    have u: "unat ?v = unat a + 4096 * i" by (rule range_pages_nth(2) [OF a(1,2) i])
    have kp: "kpage ?v" using u a(1,3) by (auto simp: kpage_def and_4095_eq_0_iff word_le_nat_alt)
    have vn: "?v \<notin> A \<union> (P \<union> range_pages a i)"
      using S(2) f i range_pages_nth(1) [OF a(1,2)] by auto
    have no: "\<not> oom (kva_map_one a phys i s)" using nb by (auto simp: oom_def)
    have pa: "(phys + of_nat i * 4096) AND 0xFFF = 0" using ph by (rule aligned_step)
    obtain s' where "kva_map_one a phys i s = Ret (s', 0)" "kv_ok s' A (insert ?v (P \<union> range_pages a i))"
      "s_pml4_phys s' = s_pml4_phys s"
      by (rule kv_map_one [OF conjunct1 [OF J] refl kp vn pa no])
    then show "\<exists>s'. kva_map_one a phys i s = Ret (s', 0) \<and> ?J (Suc i) s'" using J S(1) by auto
  qed (use r in \<open>auto simp: oom_def\<close>)
  then show ?thesis by blast
qed

lemma kv_free_loop:
  assumes K: "kv_ok vm (A \<union> range_pages a n) P" and a: "4096 dvd unat a" "unat a + 4096 * n < 2 ^ 64"
    and f: "range_pages a n \<inter> A = {}"
  shows "\<exists>vm'. for_each (kva_free_one a) [0..<n] vm = Ret (vm', 0) \<and> kv_ok vm' A P
    \<and> s_pml4_phys vm' = s_pml4_phys vm"
proof -
  let ?J = "\<lambda>i s. kv_ok s (A \<union> (range_pages a n - range_pages a i)) P \<and> s_pml4_phys s = s_pml4_phys vm"
  have "\<exists>s'. for_each (kva_free_one a) [0..<n] vm = Ret (s', 0) \<and> ?J n s'"
  proof (rule for_each_progress [where B = "{}" and J = ?J])
    show "?J 0 vm" using K range_pages_nth(1) [of a 0] a by simp
  next
    fix i s
    assume i: "i < n" and J: "?J i s"
    let ?v = "a + of_nat i * 4096"
    have "unat a + 4096 * Suc i < 2 ^ 64" using i a(2) by simp
    note S = range_pages_Suc [OF a(1) this]
    have vn: "?v \<in> range_pages a n" using i range_pages_nth(1) [OF a(1,2)] by auto
    then have vA: "?v \<in> A \<union> (range_pages a n - range_pages a i)" "?v \<notin> A" using S(2) f by auto
    obtain s' where "kva_free_one a i s = Ret (s', 0)"
      "kv_ok s' (A \<union> (range_pages a n - range_pages a i) - {?v}) P" "s_pml4_phys s' = s_pml4_phys s"
      by (rule kv_free_one [OF conjunct1 [OF J] refl vA(1)])
    moreover have "A \<union> (range_pages a n - range_pages a i) - {?v} = A \<union> (range_pages a n - range_pages a (Suc i))"
      using S(1) vA(2) by auto
    ultimately show "\<exists>s'. kva_free_one a i s = Ret (s', 0) \<and> ?J (Suc i) s'" using J by auto
  qed simp
  then show ?thesis by simp
qed

section \<open>Histories\<close>

text \<open>Reachable states, with the ranges that are allocated (\<open>H\<close>) and the ones that map foreign
  memory (\<open>M\<close>).  The guard on the bump pointer says that the address space is not used up: the code
  has no such check.\<close>

inductive kva_run :: "kva \<Rightarrow> (u64 \<times> u64) list \<Rightarrow> (u64 \<times> u64) list \<Rightarrow> bool" where
  boot: "kv_ok (kva_vm s) {} {} \<Longrightarrow> kva_run (kva_init s) [] []"
| alloc: "kva_run s H M \<Longrightarrow> 0 < n \<Longrightarrow> unat (s_kva_next s) + 4096 * unat n < 2 ^ 64 \<Longrightarrow>
    kva_alloc_pages n s = Ret (s', a) \<Longrightarrow> kva_run s' ((a, n) # H) M"
| map_phys: "kva_run s H M \<Longrightarrow> 0 < n \<Longrightarrow> unat (s_kva_next s) + 4096 * unat n < 2 ^ 64 \<Longrightarrow>
    phys AND 0xFFF = 0 \<Longrightarrow> kva_map_phys_pages phys n s = Ret (s', a) \<Longrightarrow> kva_run s' H ((a, ucast n) # M)"
| free: "kva_run s (H1 @ (a, n) # H2) M \<Longrightarrow> kva_free_pages a n s = Ret s' \<Longrightarrow> kva_run s' (H1 @ H2) M"

definition live_pages :: "(u64 \<times> u64) list \<Rightarrow> u64 set" where
  "live_pages H = (\<Union>(a, n)\<in>set H. range_pages a (unat n))"

definition recorded :: "kva \<Rightarrow> (u64 \<times> u64) list \<Rightarrow> nat \<Rightarrow> nat" where
  "recorded s L x = kf.used L x + kva_free_cnt (s_free s) x"

definition kva_inv :: "kva \<Rightarrow> (u64 \<times> u64) list \<Rightarrow> (u64 \<times> u64) list \<Rightarrow> bool" where
  "kva_inv s H M \<longleftrightarrow> kf.separate (s_free s) (H @ M)
     \<and> kv_ok (kva_vm s) (live_pages H) (live_pages M)
     \<and> KVA_BASE \<le> s_kva_next s \<and> 4096 dvd unat (s_kva_next s)
     \<and> (\<forall>x. 0 < recorded s (H @ M) x \<longrightarrow>
          unat KVA_BASE \<le> x \<and> x < unat (s_kva_next s))"

lemma live_pages_used: "v \<in> live_pages H \<longleftrightarrow> 4096 dvd unat v \<and> 0 < kf.used H (unat v)"
proof -
  have "0 < kf.used H (unat v) \<longleftrightarrow> (\<exists>(a, n)\<in>set H. in_cells (unat a) (4096 * unat n) (unat v) = 1)"
    unfolding kf.used_def by (induction H) (auto simp: in_cells_def)
  then show ?thesis by (auto simp: live_pages_def range_pages_def)
qed

lemma used_append [simp]:
  "kf.used (H @ M) x = kf.used H x + kf.used M x"
  "kf.used ((a, n) # H) x = in_cells (unat a) (4096 * unat n) x + kf.used H x" "kf.used [] x = 0"
  by (simp_all add: kf.used_def)

lemma live_pages_Cons: "live_pages ((a, n) # H) = live_pages H \<union> range_pages a (unat n)"
  by (auto simp: live_pages_def)

text \<open>A range that joins without overlap is disjoint from all live pages.\<close>

lemma separate_pages:
  assumes "kf.separate fl ((a, n) # L)"
  shows "range_pages a (unat n) \<inter> live_pages L = {}"
proof -
  have "in_cells (unat a) (4096 * unat n) x + kf.used L x \<le> 1" for x
    using assms by (auto simp: kf.separate_def dest: spec [of _ x])
  note le = this
  show ?thesis
  proof (rule equals0I)
    fix v assume "v \<in> range_pages a (unat n) \<inter> live_pages L"
    then have "in_cells (unat a) (4096 * unat n) (unat v) = 1" "0 < kf.used L (unat v)"
      by (simp_all add: range_pages_def live_pages_used)
    then show False using le [of "unat v"] by simp
  qed
qed

definition ranges_ok :: "kva \<Rightarrow> (u64 \<times> u64) list \<Rightarrow> bool" where
  "ranges_ok s L \<longleftrightarrow> kf.separate (s_free s) L \<and> KVA_BASE \<le> s_kva_next s \<and> 4096 dvd unat (s_kva_next s)
     \<and> (\<forall>x. 0 < recorded s L x \<longrightarrow> unat KVA_BASE \<le> x \<and> x < unat (s_kva_next s))"

lemma kva_inv_ranges:
  "kva_inv s H M \<longleftrightarrow> ranges_ok s (H @ M) \<and> kv_ok (kva_vm s) (live_pages H) (live_pages M)"
  by (auto simp: kva_inv_def ranges_ok_def)

text \<open>The two ways to get a range.\<close>

lemma ranges_bump:
  assumes R: "ranges_ok s L" and n: "0 < n" "unat (s_kva_next s) + 4096 * unat n < 2 ^ 64"
  shows "ranges_ok (s\<lparr>s_kva_next := s_kva_next s + n * 4096\<rparr>) ((s_kva_next s, n) # L)"
proof -
  let ?a = "s_kva_next s"
  have a: "KVA_BASE \<le> ?a" "4096 dvd unat ?a" using R by (simp_all add: ranges_ok_def)
  then have "?a \<noteq> 0" by (auto simp: KVA_BASE_def ARCH_KERNEL_VIRT_BASE_def)
  have e: "unat (?a + n * 4096) = unat ?a + 4096 * unat n" by (rule pages_end(1) [OF n(2)])
  have "recorded s L x = 0" if "unat ?a \<le> x" for x using R that by (auto simp: ranges_ok_def)
  then have z: "kf.used L x + kva_free_cnt (s_free s) x = 0" if "unat ?a \<le> x" for x
    using that by (simp add: recorded_def)
  have sep: "kf.separate (s_free s) ((?a, n) # L)"
    by (rule kf.separate_fresh [OF _ \<open>?a \<noteq> 0\<close> n(1) a(2) n(2)]) (use R z in \<open>simp_all add: ranges_ok_def\<close>)
  have "unat KVA_BASE \<le> x \<and> x < unat ?a + 4096 * unat n"
    if "0 < recorded s ((?a, n) # L) x" for x
  proof (cases "in_cells (unat ?a) (4096 * unat n) x = 0")
    case True
    then have "0 < recorded s L x" using that by (simp add: recorded_def)
    then have "unat KVA_BASE \<le> x \<and> x < unat ?a" using R by (simp add: ranges_ok_def)
    then show ?thesis by simp
  next
    case False
    then show ?thesis using a(1) by (auto simp: in_cells_def word_le_nat_alt split: if_splits)
  qed
  moreover have "KVA_BASE \<le> ?a + n * 4096" using a(1) e by (simp add: word_le_nat_alt)
  moreover have "recorded (s\<lparr>s_kva_next := k\<rparr>) X x = recorded s X x" for k X x by (simp add: recorded_def)
  ultimately show ?thesis using sep a e by (simp add: ranges_ok_def)
qed

lemma ranges_reuse:
  assumes R: "ranges_ok s L" and n: "0 < n" and f: "freelist_alloc n (s_free s) = (fl, a)" "a \<noteq> 0"
  shows "ranges_ok (s\<lparr>s_free := fl\<rparr>) ((a, n) # L)"
proof -
  have sep: "kf.separate (s_free s) L" using R by (simp add: ranges_ok_def)
  then have ok: "kva_list_ok (s_free s)" by (simp add: kf.separate_def)
  have "recorded (s\<lparr>s_free := fl\<rparr>) ((a, n) # L) x = recorded s L x" for x
    using kf.take_hit [OF ok n f, of x] by (simp add: recorded_def)
  then show ?thesis using R kf.separate_take [OF sep n f] by (simp add: ranges_ok_def)
qed

lemma ranges_head:
  assumes "ranges_ok s ((a, n) # L)"
  shows "4096 dvd unat a" "unat a + 4096 * unat n < 2 ^ 64" "KVA_BASE \<le> a"
proof -
  have s: "0 < n" "4096 dvd unat a" "unat a + 4096 * unat n < 2 ^ 64"
    using assms by (simp_all add: ranges_ok_def kf.separate_def)
  then show "4096 dvd unat a" "unat a + 4096 * unat n < 2 ^ 64" by simp_all
  have "0 < recorded s ((a, n) # L) (unat a)"
    using s(1) by (simp add: recorded_def in_cells_def word_less_nat_alt)
  then show "KVA_BASE \<le> a" using assms by (auto simp: ranges_ok_def word_le_nat_alt)
qed

lemma ranges_give:
  assumes "ranges_ok s (H1 @ (a, n) # H2 @ M)"
  shows "ranges_ok (s\<lparr>kva_vm := vm, s_free := freelist_insert a n (s_free s)\<rparr>) (H1 @ H2 @ M)"
proof -
  have sep: "kf.separate (s_free s) (H1 @ (a, n) # H2 @ M)" using assms by (simp add: ranges_ok_def)
  then have p: "kva_list_ok (s_free s)" "0 < n" "a \<noteq> 0" "4096 dvd unat a" "unat a + 4096 * unat n < 2 ^ 64"
    by (auto simp: kf.separate_def)
  let ?s' = "s\<lparr>kva_vm := vm, s_free := freelist_insert a n (s_free s)\<rparr>"
  have le: "recorded ?s' (H1 @ H2 @ M) x \<le> recorded s (H1 @ (a, n) # H2 @ M) x" for x
    using kf.give_range [OF p, of x] by (auto simp: recorded_def)
  have "unat KVA_BASE \<le> x \<and> x < unat (s_kva_next s)" if "0 < recorded ?s' (H1 @ H2 @ M) x" for x
  proof -
    have "0 < recorded s (H1 @ (a, n) # H2 @ M) x" using le [of x] that by simp
    then show ?thesis using assms by (simp add: ranges_ok_def)
  qed
  then show ?thesis using assms kf.separate_give [OF sep] by (simp add: ranges_ok_def)
qed

section \<open>Every operation keeps the invariant\<close>

lemma ranges_ok_vm [simp]: "ranges_ok (s\<lparr>kva_vm := vm\<rparr>) L = ranges_ok s L"
  by (simp add: ranges_ok_def recorded_def)

lemma live_pages_append: "live_pages (H @ M) = live_pages H \<union> live_pages M"
  by (auto simp: live_pages_def)

lemma kva_alloc_inv:
  assumes I: "kva_inv s H M" and n: "0 < n" "unat (s_kva_next s) + 4096 * unat n < 2 ^ 64"
    and r: "\<not> oom (kva_alloc_pages n s)"
  shows "\<exists>s' a. kva_alloc_pages n s = Ret (s', a) \<and> kva_inv s' ((a, n) # H) M"
proof -
  obtain fl va where f: "freelist_alloc n (s_free s) = (fl, va)" by (cases "freelist_alloc n (s_free s)")
  define base where "base = (if va = 0 then s_kva_next s else va)"
  define s1 where "s1 = s\<lparr>s_free := fl, s_kva_next := (if va = 0 then s_kva_next s + n * 4096 else s_kva_next s)\<rparr>"
  have R: "ranges_ok s (H @ M)" and K: "kv_ok (kva_vm s) (live_pages H) (live_pages M)"
    using I by (simp_all add: kva_inv_ranges)
  have R1: "ranges_ok s1 ((base, n) # H @ M)"
  proof (cases "va = 0")
    case True
    have "fl = s_free s" using kf.take_miss [OF _ n(1), of "s_free s" fl] f True R
      by (simp add: ranges_ok_def kf.separate_def)
    then have "s1 = s\<lparr>s_kva_next := s_kva_next s + n * 4096\<rparr>" using True by (simp add: s1_def)
    then show ?thesis using ranges_bump [OF R n] True by (simp add: base_def)
  next
    case False
    then have "s1 = s\<lparr>s_free := fl\<rparr>" by (simp add: s1_def)
    then show ?thesis using ranges_reuse [OF R n(1) f False] False by (simp add: base_def)
  qed
  have d: "range_pages base (unat n) \<inter> (live_pages H \<union> live_pages M) = {}"
    using separate_pages [of "s_free s1" base n "H @ M"] R1 by (simp add: ranges_ok_def live_pages_append)
  have ev: "kva_alloc_pages n s = (case for_each (kva_alloc_one base) [0..<unat n] (kva_vm s) of
      Panic m \<Rightarrow> Panic m | Ret (vm, _) \<Rightarrow> Ret (s1\<lparr>kva_vm := vm\<rparr>, base))"
    unfolding kva_alloc_pages_def base_def s1_def Let_def f prod.case using n(1) by auto
  then have no: "\<not> oom (for_each (kva_alloc_one base) [0..<unat n] (kva_vm s))"
    using r by (auto simp: oom_def)
  obtain vm' where "for_each (kva_alloc_one base) [0..<unat n] (kva_vm s) = Ret (vm', 0)"
    "kv_ok vm' (live_pages H \<union> range_pages base (unat n)) (live_pages M)"
    using kv_alloc_loop [OF K ranges_head [OF R1] d no] by blast
  then show ?thesis using ev R1 by (simp add: kva_inv_ranges live_pages_Cons)
qed

lemma kva_map_inv:
  assumes I: "kva_inv s H M" and n: "0 < n" "unat (s_kva_next s) + 4096 * unat n < 2 ^ 64"
    and ph: "phys AND 0xFFF = 0" and r: "\<not> oom (kva_map_phys_pages phys n s)"
  shows "\<exists>s' a. kva_map_phys_pages phys n s = Ret (s', a) \<and> kva_inv s' H ((a, ucast n) # M)"
proof -
  define base where "base = s_kva_next s"
  define s1 where "s1 = s\<lparr>s_kva_next := s_kva_next s + ucast n * 4096\<rparr>"
  have R: "ranges_ok s (H @ M)" and K: "kv_ok (kva_vm s) (live_pages H) (live_pages M)"
    using I by (simp_all add: kva_inv_ranges)
  have un: "unat (ucast n :: u64) = unat n"
    using unsigned_less [of n, where ?'a = nat] by (simp add: unsigned_ucast_eq take_bit_nat_eq_self)
  then have n': "0 < (ucast n :: u64)" "unat (s_kva_next s) + 4096 * unat (ucast n :: u64) < 2 ^ 64"
    using n by (simp_all add: word_less_nat_alt)
  have R1: "ranges_ok s1 ((base, ucast n) # H @ M)" using ranges_bump [OF R n'] by (simp add: s1_def base_def)
  have R2: "ranges_ok s1 (H @ (base, ucast n) # M)"
    using R1 by (auto simp: ranges_ok_def kf.separate_def recorded_def ac_simps)
  have d: "range_pages base (unat n) \<inter> (live_pages H \<union> live_pages M) = {}"
    using separate_pages [of "s_free s1" base "ucast n" "H @ M"] R1 un
    by (simp add: ranges_ok_def live_pages_append)
  have ev: "kva_map_phys_pages phys n s = (case for_each (kva_map_one base phys) [0..<unat n] (kva_vm s) of
      Panic m \<Rightarrow> Panic m | Ret (vm, _) \<Rightarrow> Ret (s1\<lparr>kva_vm := vm\<rparr>, base))"
    unfolding kva_map_phys_pages_def base_def s1_def Let_def using n(1) by auto
  then have no: "\<not> oom (for_each (kva_map_one base phys) [0..<unat n] (kva_vm s))"
    using r by (auto simp: oom_def)
  obtain vm' where "for_each (kva_map_one base phys) [0..<unat n] (kva_vm s) = Ret (vm', 0)"
    "kv_ok vm' (live_pages H) (live_pages M \<union> range_pages base (unat n))"
    using kv_map_loop [OF K ranges_head [OF R1, unfolded un] ph d no] by blast
  then show ?thesis using ev R2 un by (simp add: kva_inv_ranges live_pages_Cons)
qed

lemma kva_free_inv:
  assumes I: "kva_inv s (H1 @ (a, n) # H2) M"
  shows "\<exists>s'. kva_free_pages a n s = Ret s' \<and> kva_inv s' (H1 @ H2) M"
proof -
  have R: "ranges_ok s (H1 @ (a, n) # H2 @ M)"
    and K: "kv_ok (kva_vm s) (live_pages (H1 @ (a, n) # H2)) (live_pages M)"
    using I by (simp_all add: kva_inv_ranges)
  have R1: "ranges_ok s ((a, n) # H1 @ H2 @ M)"
    using R by (auto simp: ranges_ok_def kf.separate_def recorded_def ac_simps)
  have d: "range_pages a (unat n) \<inter> live_pages (H1 @ H2) = {}"
    using separate_pages [of "s_free s" a n "H1 @ H2 @ M"] R1
    by (auto simp: ranges_ok_def live_pages_append)
  have l: "live_pages (H1 @ (a, n) # H2) = live_pages (H1 @ H2) \<union> range_pages a (unat n)"
    by (auto simp: live_pages_def)
  obtain vm' where "for_each (kva_free_one a) [0..<unat n] (kva_vm s) = Ret (vm', 0)"
    "kv_ok vm' (live_pages (H1 @ H2)) (live_pages M)"
    using kv_free_loop [OF K [unfolded l] ranges_head(1,2) [OF R1] d] by blast
  then show ?thesis using ranges_give [OF R] by (simp add: kva_free_pages_def kva_inv_ranges)
qed

lemma kva_boot_inv:
  assumes "kv_ok (kva_vm s) {} {}"
  shows "kva_inv (kva_init s) [] []"
  using assms
  by (simp add: kva_inv_def kva_init_def kf.separate_def kva_list_ok_def kva_free_cnt_def recorded_def
      live_pages_def KVA_BASE_def ARCH_KERNEL_VIRT_BASE_def)

lemma kva_run_inv: "kva_run s H M \<Longrightarrow> kva_inv s H M"
proof (induction rule: kva_run.induct)
  case (alloc s H M n s' a)
  then have "\<not> oom (kva_alloc_pages n s)" by (auto simp: oom_def)
  then show ?case using kva_alloc_inv [OF alloc.IH alloc.hyps(2,3)] alloc.hyps(4) by auto
next
  case (map_phys s H M n phys s' a)
  then have "\<not> oom (kva_map_phys_pages phys n s)" by (auto simp: oom_def)
  then show ?case using kva_map_inv [OF map_phys.IH map_phys.hyps(2-4)] map_phys.hyps(5) by auto
next
  case (free s H1 a n H2 M s')
  then show ?case using kva_free_inv [OF free.IH] by auto
qed (rule kva_boot_inv)

text \<open>No entry of the free list overlaps a live range.\<close>

lemma free_hit: "e \<in> set fl \<Longrightarrow> unat (kf_va e) \<le> x \<Longrightarrow> x < unat (kf_va e) + 4096 * unat (kf_npages e) \<Longrightarrow> 0 < kva_free_cnt fl x"
  unfolding kva_free_cnt_def by (induction fl) (auto simp: kf_cells_def in_cells_def)

lemma separate_entry:
  assumes "kf.separate fl L" "e \<in> set fl" "(a, n) \<in> set L"
  shows "unat a + 4096 * unat n \<le> unat (kf_va e) \<or> unat (kf_va e) + 4096 * unat (kf_npages e) \<le> unat a"
proof (rule ccontr)
  assume c: "\<not> ?thesis"
  let ?x = "max (unat a) (unat (kf_va e))"
  have "0 < unat n" "0 < unat (kf_npages e)"
    using assms by (auto simp: kf.separate_def kva_list_ok_def kf_ok_def unat_gt_0)
  then have x: "unat a \<le> ?x" "?x < unat a + 4096 * unat n" "unat (kf_va e) \<le> ?x"
      "?x < unat (kf_va e) + 4096 * unat (kf_npages e)"
    using c by (auto simp: max_def)
  then show False using kf.separate_free [OF assms(1,3) x(1,2)] free_hit [OF assms(2) x(3,4)] by simp
qed

text \<open>C8. The kernel virtual allocator is safe over every history of \<^verbatim>\<open>kva_alloc_pages\<close>, \<^verbatim>\<open>kva_map_phys_pages\<close> of
  page-aligned physical memory and \<^verbatim>\<open>kva_free_pages\<close> of allocations that are still live, at their full size, from
  boot on, in which no call moves the bump pointer past the end of the address space (\<^verbatim>\<open>kva.c\<close> does not check that;
  the history has it as a guard).  The live ranges are disjoint from each other and from every entry of the free
  list; exactly their pages are mapped in the kernel half from the allocator's base on; every allocated
  page has a frame of its own, which the physical allocator considers owned; releasing any
  live allocation succeeds; and a further allocation or mapping within the address space either returns or panics
  for lack of physical memory, never for a double mapping.\<close>

theorem kva_history_safe:
  assumes "kva_run s H M"
  shows "(\<forall>i j. i < j \<and> j < length (H @ M) \<longrightarrow> (case ((H @ M) ! i, (H @ M) ! j) of ((a, n), (b, m)) \<Rightarrow>
           unat a + 4096 * unat n \<le> unat b \<or> unat b + 4096 * unat m \<le> unat a))
    \<and> (\<forall>e\<in>set (s_free s). \<forall>(a, n)\<in>set (H @ M).
         unat a + 4096 * unat n \<le> unat (kf_va e) \<or> unat (kf_va e) + 4096 * unat (kf_npages e) \<le> unat a)
    \<and> (\<forall>v. kpage v \<longrightarrow> (present (kv_pte (kva_vm s) v) \<longleftrightarrow> v \<in> live_pages H \<union> live_pages M))
    \<and> (\<forall>v\<in>live_pages H. pmm_owners (vm_pmm (kva_vm s)) (kv_frame (kva_vm s) v) \<noteq> 0)
    \<and> inj_on (kv_frame (kva_vm s)) (live_pages H)
    \<and> (\<forall>(a, n)\<in>set H. \<exists>s'. kva_free_pages a n s = Ret s')
    \<and> (\<forall>n. 0 < n \<and> unat (s_kva_next s) + 4096 * unat n < 2 ^ 64 \<longrightarrow>
         oom (kva_alloc_pages n s) \<or> (\<exists>s' a. kva_alloc_pages n s = Ret (s', a)))
    \<and> (\<forall>phys n. 0 < n \<and> unat (s_kva_next s) + 4096 * unat n < 2 ^ 64 \<and> phys AND 0xFFF = 0 \<longrightarrow>
         oom (kva_map_phys_pages phys n s) \<or> (\<exists>s' a. kva_map_phys_pages phys n s = Ret (s', a)))"
proof -
  have I: "kva_inv s H M" by (rule kva_run_inv [OF assms])
  have K: "kv_ok (kva_vm s) (live_pages H) (live_pages M)" and sep: "kf.separate (s_free s) (H @ M)"
    using I by (simp_all add: kva_inv_def)
  show ?thesis
  proof (intro conjI allI impI)
    fix i j assume ij: "i < j \<and> j < length (H @ M)"
    obtain a n b m where "(H @ M) ! i = (a, n)" "(H @ M) ! j = (b, m)" by (metis surj_pair)
    then show "case ((H @ M) ! i, (H @ M) ! j) of ((a, n), (b, m)) \<Rightarrow>
        unat a + 4096 * unat n \<le> unat b \<or> unat b + 4096 * unat m \<le> unat a"
      using kf.separate_disjoint [OF sep, of i j a n b m] ij by simp
  next
    show "\<forall>e\<in>set (s_free s). \<forall>(a, n)\<in>set (H @ M).
        unat a + 4096 * unat n \<le> unat (kf_va e) \<or> unat (kf_va e) + 4096 * unat (kf_npages e) \<le> unat a"
      using separate_entry [OF sep] by blast
  next
    show "\<forall>(a, n)\<in>set H. \<exists>s'. kva_free_pages a n s = Ret s'"
    proof safe
      fix a n assume "(a, n) \<in> set H"
      then obtain H1 H2 where "H = H1 @ (a, n) # H2" by (meson split_list)
      then show "\<exists>s'. kva_free_pages a n s = Ret s'" using kva_free_inv I by blast
    qed
  next
    fix n :: u64 assume "0 < n \<and> unat (s_kva_next s) + 4096 * unat n < 2 ^ 64"
    then show "oom (kva_alloc_pages n s) \<or> (\<exists>s' a. kva_alloc_pages n s = Ret (s', a))"
      using kva_alloc_inv [OF I] by blast
  next
    fix phys :: u64 and n :: u32
    assume "0 < n \<and> unat (s_kva_next s) + 4096 * unat n < 2 ^ 64 \<and> phys AND 0xFFF = 0"
    then show "oom (kva_map_phys_pages phys n s) \<or> (\<exists>s' a. kva_map_phys_pages phys n s = Ret (s', a))"
      using kva_map_inv [OF I] by blast
  qed (use K in \<open>auto simp: kv_ok_def\<close>)
qed

definition demo_kva :: kva where
  "demo_kva = \<lparr>s_kva_next = 0, s_free = [], kva_vm = demo_vm\<lparr>s_pml4_phys := 0xA000\<rparr>\<rparr>"

lemma demo_kva_boot: "kv_ok (kva_vm demo_kva) {} {}"
proof -
  let ?vm = "demo_vm\<lparr>s_pml4_phys := 0xA000\<rparr>"
  have rd: "vm_rd ?vm 0xA000 i = 0" for i using demo_rd(5) [of _ _ i] by (simp add: vm_rd_def)
  then have w: "walk ?vm 0xA000 p = Some t \<longleftrightarrow> p = [] \<and> t = 0xA000" for p t by (cases p) auto
  have "pte_at ?vm 0xA000 v = 0" for v by (simp add: pte_at_def vm_path_def rd)
  moreover have "tree_ok kva_paths ?vm 0xA000"
    by (auto simp: tree_ok_def tables_def w demo_owners rd)
  ultimately show ?thesis using demo_pmm_wf [of "0x9007" 1] by (simp add: demo_kva_def kv_ok_def kv_pte_def)
qed

lemma demo_kva_alloc:
  "case kva_alloc_pages 1 (kva_init demo_kva) of Panic m \<Rightarrow> False | Ret (s', a) \<Rightarrow> a = KVA_BASE"
  by (simp add: kva_alloc_pages_def kva_init_def demo_kva_def freelist_alloc_def kva_alloc_one_def
      vmm_map_page_def KVA_BASE_def ARCH_KERNEL_VIRT_BASE_def demo_eval)

lemma demo_kva_run: "\<exists>s. kva_run s [(KVA_BASE, 1)] []"
proof -
  obtain s where a: "kva_alloc_pages 1 (kva_init demo_kva) = Ret (s, KVA_BASE)"
    using demo_kva_alloc by (auto split: kres.splits)
  have "unat (s_kva_next (kva_init demo_kva)) + 4096 * unat (1 :: u64) < 2 ^ 64"
    by (simp add: kva_init_def KVA_BASE_def ARCH_KERNEL_VIRT_BASE_def)
  then show ?thesis using kva_run.alloc [OF kva_run.boot [OF demo_kva_boot] _ _ a] by auto
qed

theorem kva_history_safe_witness:
  "\<exists>s. kva_run s [(KVA_BASE, 1)] [] \<and> present (kv_pte (kva_vm s) KVA_BASE)
     \<and> (\<exists>s'. kva_free_pages KVA_BASE 1 s = Ret s')"
proof -
  obtain s where r: "kva_run s [(KVA_BASE, 1)] []" using demo_kva_run by blast
  have k: "kpage KVA_BASE" "KVA_BASE \<in> live_pages [(KVA_BASE, 1)]"
    by (simp_all add: kpage_def KVA_BASE_def ARCH_KERNEL_VIRT_BASE_def live_pages_def range_pages_def in_cells_def)
  show ?thesis using kva_history_safe [OF r] r k by auto
qed

end
