(* ===== verification/Fd_Props.thy ===== *)
theory Fd_Props
  imports Fd_Drivers Kva
begin

text \<open>
  Processes and their descriptors.  A history of system calls and process events keeps the reference counts of
  pipes, memory files and descriptor tables exact: nothing is freed while a descriptor refers to it, nothing stays
  allocated after the last one is gone, and no call panics.  Two paths of the kernel are outside of this: a \<^verbatim>\<open>fork\<close>
  that fails after copying the table, and drivers that free in \<^verbatim>\<open>close\<close> but have no \<^verbatim>\<open>dup\<close>.
\<close>

section \<open>New handles\<close>

lemma pipe_slots_Some:
  assumes "pipe_slots s t = Some (r, w)"
  shows "r < PROC_MAX_FDS" "w < PROC_MAX_FDS" "r \<noteq> w" "vf_ops (slot s t r) = 0" "vf_ops (slot s t w) = 0"
proof -
  have r: "free_fd s t 0 = Some r" and w: "free_fd s t (Suc r) = Some w"
    using assms by (auto simp: pipe_slots_def split: option.splits)
  show "r < PROC_MAX_FDS" "w < PROC_MAX_FDS" "vf_ops (slot s t r) = 0" "vf_ops (slot s t w) = 0"
    using free_fd_Some [OF r] free_fd_Some [OF w] by auto
  show "r \<noteq> w" using w by (auto simp: free_fd_def find_Some_iff)
qed

lemma sys_pipe2_inv:
  assumes inv: "fdi.fd_inv L s" and t: "t \<in> L" and fresh: "d_pipes (drv s) page = None"
  shows "fdi.fd_inv L (fst (sys_pipe2 t page arg1 arg2 s))"
proof (cases "user_ptr_valid arg1 8 \<and> page \<noteq> 0 \<and> pipe_slots s t \<noteq> None")
  case True
  then obtain r w where sl: "pipe_slots s t = Some (r, w)" by auto
  note S = pipe_slots_Some [OF sl]
  have ok: "drv_ok (drv s)" using inv by (simp add: fdi.fd_inv_def)
  let ?k = "\<lambda>q. (drv s)\<lparr>d_pipes := (d_pipes (drv s))(page \<mapsto> q)\<rparr>"
  let ?R = "pipe_end g_pipe_read_ops page arg2" and ?W = "pipe_end g_pipe_write_ops page arg2"
  let ?q = "new_pipe\<lparr>write_refs := 0\<rparr>"
  have q: "read_refs new_pipe = 1" "write_refs new_pipe = 1" by (simp_all add: new_pipe_def)
  have k: "drv_ok (?k ?q)" "drv_ok (?k new_pipe)" using ok q by (simp_all add: drv_ok_def)
  have 1: "fdi.fd_inv L ((set_slot t r ?R s)\<lparr>drv := ?k ?q\<rparr>)"
    by (rule fdi.install_inv [OF inv t S(1) S(4) k(1)])
      (use fresh q in \<open>auto simp: drv_refs_def pipe_count_def pipe_end_def hit_def drv_counted_def ops_defs\<close>)
  have 2: "fdi.fd_inv L ((set_slot t w ?W ((set_slot t r ?R s)\<lparr>drv := ?k ?q\<rparr>))\<lparr>drv := ?k new_pipe\<rparr>)"
    by (rule fdi.install_inv [OF 1 t S(2) _ k(2)])
      (use S(3,5) q in \<open>auto simp: slot_set_slot drv_refs_def pipe_count_def pipe_end_def hit_def drv_counted_def ops_defs\<close>)
  have "(set_slot t w ?W ((set_slot t r ?R s)\<lparr>drv := ?k ?q\<rparr>))\<lparr>drv := ?k new_pipe\<rparr> = fst (sys_pipe2 t page arg1 arg2 s)"
    using True sl by (simp add: sys_pipe2_def Let_def set_slot_def)
  then show ?thesis using 2 by simp
qed (use inv in \<open>auto simp: sys_pipe2_def Let_def split: option.splits\<close>)

lemma fd_inv_cong:
  assumes "fdi.fd_inv L s" "fd_tables s' = fd_tables s" "drv_ok (drv s')" "\<And>op p. drv_refs (drv s') op p = drv_refs (drv s) op p"
  shows "fdi.fd_inv L s'"
  using assms by (simp add: fdi.fd_inv_def fdi.ahead_def holders_def tab_hits_def slot_def)

lemma memfd_alloc_spec:
  assumes "memfd_alloc name s = (s', i)" "0 \<le> i"
  shows "nat i < MEMFD_MAX" "\<not> mf_in_use (s_memfds s (nat i))" "s' = upd_memfd (nat i) (\<lambda>_. fresh_memfd name) s"
  using assms by (auto simp: memfd_alloc_def find_Some_iff split: option.splits)

lemma mfs_ok_fresh:
  assumes "mfs_ok s" "\<not> mf_in_use (s_memfds s i)" "page_count m = 0 \<or> \<not> mf_in_use m"
  shows "mfs_ok (upd_memfd i (\<lambda>_. m) s)"
proof -
  have "mf_cells (upd_memfd i (\<lambda>_. m) s) \<subseteq> mf_cells s"
    and "\<And>c. c \<in> mf_cells (upd_memfd i (\<lambda>_. m) s) \<Longrightarrow> mf_frame (upd_memfd i (\<lambda>_. m) s) c = mf_frame s c"
    using assms(2,3) by (auto simp: mf_cells_def mf_frame_def upd_memfd_def split: if_splits)
  then show ?thesis using assms(1) by (auto simp: mfs_ok_def upd_memfd_def inj_on_def subset_eq)
qed

lemma fd_memfd_create_inv:
  assumes inv: "fdi.fd_inv L s" and t: "t \<in> L"
  shows "fdi.fd_inv L (fst (fd_memfd_create t m name umem s))"
proof -
  let ?s' = "fst (fd_memfd_create t m name umem s)" and ?mf = "d_mfs (drv s)"
  have ok: "drv_ok (drv s)" using inv by (simp add: fdi.fd_inv_def)
  obtain mf i where al: "memfd_alloc (memfd_name name umem) ?mf = (mf, i)" by fastforce
  show ?thesis
  proof (cases "check_caps (mm_caps m) CAP_KIND_IPC CAP_RIGHTS_READ \<noteq> 0 \<or> i < 0")
    case True
    then have "?s' = s" using al
      by (auto simp: fd_memfd_create_def sys_memfd_create_def memfd_alloc_def split: option.splits)
    then show ?thesis using inv by simp
  next
    case False
    note A = memfd_alloc_spec [OF al]
    have i: "nat i < MEMFD_MAX" "\<not> mf_in_use (s_memfds ?mf (nat i))" "mf = upd_memfd (nat i) (\<lambda>_. fresh_memfd (memfd_name name umem)) ?mf"
      using A False by auto
    obtain n where n: "i = int n" using False by (metis nonneg_int_cases not_le)
    have u: "unat (of_int i :: u32) = nat i"
      using i(1) by (simp add: n MEMFD_MAX_def unsigned_of_nat take_bit_nat_eq_self)
    show ?thesis
    proof (cases "find (\<lambda>j. vf_ops (slot s t j) = 0) [0..<PROC_MAX_FDS]")
      case None
      let ?m = "(fresh_memfd (memfd_name name umem))\<lparr>mf_refcount := 0, mf_in_use := False\<rparr>"
      have s': "?s' = s\<lparr>drv := (drv s)\<lparr>d_mfs := upd_memfd (nat i) (\<lambda>_. ?m) ?mf\<rparr>\<rparr>"
        using None False al i u
        by (simp add: fd_memfd_create_def sys_memfd_create_def memfd_open_fd_def slot_def memfd_get_def fresh_memfd_def upd_memfd_def)
      show ?thesis
        by (rule fd_inv_cong [OF inv])
          (use ok i(1,2) mfs_ok_fresh [of ?mf "nat i" ?m] in
            \<open>auto simp: s' drv_ok_def upd_memfd_def drv_refs_def memfd_count_def\<close>)
    next
      case (Some j)
      then have j: "j < PROC_MAX_FDS" "vf_ops (slot s t j) = 0" by (auto simp: find_Some_iff)
      let ?f = "\<lparr>vf_ops = g_memfd_ops, vf_priv = ucast (of_int i :: u32), vf_offset = 0, vf_size = 0, vf_flags = 0\<rparr>"
      have s': "?s' = (set_slot t j ?f s)\<lparr>drv := (drv s)\<lparr>d_mfs := mf\<rparr>\<rparr>"
        using Some False al
        by (simp add: fd_memfd_create_def sys_memfd_create_def memfd_open_fd_def slot_def set_slot_def)
      show ?thesis unfolding s'
      proof (rule fdi.install_inv [OF inv t j])
        show "drv_ok ((drv s)\<lparr>d_mfs := mf\<rparr>)"
          using ok i mfs_ok_fresh [of ?mf "nat i" "fresh_memfd (memfd_name name umem)"]
          by (auto simp: drv_ok_def upd_memfd_def fresh_memfd_def)
      next
        have p: "unat (vf_priv ?f) = nat i" using u i(1) by (simp add: unsigned_ucast_eq take_bit_nat_eq_self MEMFD_MAX_def)
        fix op p assume "drv_counted op"
        show "int (drv_refs ((drv s)\<lparr>d_mfs := mf\<rparr>) op p) = int (drv_refs (drv s) op p) + hit ?f op p"
        proof (cases "op = g_memfd_ops \<and> p = vf_priv ?f")
          case True
          then show ?thesis using p i
            by (simp add: drv_refs_def ops_defs hit_def memfd_count_def upd_memfd_def fresh_memfd_def)
        next
          case False
          then have "op = g_memfd_ops \<Longrightarrow> unat p \<noteq> nat i" using p by (metis word_unat_eq_iff)
          then show ?thesis using False i
            by (auto simp: drv_refs_def ops_defs hit_def memfd_count_def upd_memfd_def)
        qed
      qed
    qed
  qed
qed

section \<open>Processes\<close>

text \<open>The last step of \<^verbatim>\<open>sys_open\<close>: \<open>f\<close> is what \<^verbatim>\<open>vfs_open\<close> has found.\<close>

definition open_fd :: "u64 \<Rightarrow> vfs_file \<Rightarrow> u64 \<Rightarrow> 'k fdst \<Rightarrow> 'k fdst \<times> u64" where
  "open_fd t f arg2 s = (case free_fd s t 0 of
     None \<Rightarrow> (s, neg_errno 24)
   | Some fd \<Rightarrow> (set_slot t fd (f\<lparr>vf_flags := ucast arg2 OR (if arg2 AND 0x80000 \<noteq> 0 then VFS_FD_CLOEXEC else 0)\<rparr>) s, of_nat fd))"

text \<open>\<open>w_table\<close> gives the descriptor table of each process; a thread made with \<^verbatim>\<open>CLONE_FILES\<close> has the table of its creator.
  The pages and process numbers of new tables and processes come with the events; a page 0 is an allocation that failed.

  Each event is one call that runs to its end.  \<open>Ev_open\<close> is an \<^verbatim>\<open>open\<close> that yields a file whose driver keeps no count.
  \<open>Ev_fork\<close> and \<open>Ev_spawn\<close> either fail before or at the allocation of the table, or succeed; a fork that fails later is not an
  event, because its error path loses counts (\<open>fork_failed\<close> below).  \<open>Ev_clone_fails\<close> is a \<^verbatim>\<open>clone\<close> that fails at its
  last allocation, having shared the table (\<open>None\<close>) or copied it to a page.  \<open>Ev_exit\<close> is what \<^verbatim>\<open>sched_exit\<close> does for one
  task.  A thread that \<^verbatim>\<open>exit_group\<close> of another thread ends does not get there and has no such event: it goes on being
  counted among the processes that share its table.\<close>

record fd_world =
  w_table :: "nat \<Rightarrow> u64 option"
  w_fd :: "fdrv fdst"

datatype fd_event = Ev_open nat vfs_file u64 | Ev_close nat u64 | Ev_dup nat u64 | Ev_dup2 nat u64 u64 | Ev_fcntl nat u64 u64 u64
  | Ev_lseek nat u64 u64 u64 | Ev_pipe2 nat u64 u64 u64 | Ev_memfd nat mm u64 "u64 \<Rightarrow> u8" | Ev_execve nat
  | Ev_clone_files nat nat | Ev_clone_fails nat nat "u64 option" | Ev_fork nat nat u64 | Ev_spawn nat nat u64 u64 | Ev_exit nat

definition fd_call :: "nat \<Rightarrow> (u64 \<Rightarrow> fdrv fdst \<Rightarrow> (fdrv fdst \<times> 'r) kres) \<Rightarrow> fd_world \<Rightarrow> fd_world kres" where
  "fd_call pid f w = (case w_table w pid of
     None \<Rightarrow> Ret w
   | Some t \<Rightarrow> (case f t (w_fd w) of Panic m \<Rightarrow> Panic m | Ret (s, _) \<Rightarrow> Ret (w\<lparr>w_fd := s\<rparr>)))"

definition fd_child :: "nat \<Rightarrow> nat \<Rightarrow> (u64 \<Rightarrow> fdrv fdst \<Rightarrow> (fdrv fdst \<times> u64) kres) \<Rightarrow> fd_world \<Rightarrow> fd_world kres" where
  "fd_child pid child f w = (case w_table w pid of
     None \<Rightarrow> Ret w
   | Some t \<Rightarrow> (case f t (w_fd w) of
       Panic m \<Rightarrow> Panic m
     | Ret (s, t') \<Rightarrow> Ret (if t' = 0 then w\<lparr>w_fd := s\<rparr> else w\<lparr>w_table := (w_table w)(child \<mapsto> t'), w_fd := s\<rparr>)))"

definition fd_exit :: "nat \<Rightarrow> fd_world \<Rightarrow> fd_world kres" where
  "fd_exit pid w = (case w_table w pid of
     None \<Rightarrow> Ret w
   | Some t \<Rightarrow> (case fd_table_unref drv_ops t (w_fd w) of
       Panic m \<Rightarrow> Panic m | Ret (s, _) \<Rightarrow> Ret (w\<lparr>w_table := (w_table w)(pid := None), w_fd := s\<rparr>)))"

definition clone_files :: "nat \<Rightarrow> nat \<Rightarrow> u64 option \<Rightarrow> fd_world \<Rightarrow> fd_world kres" where
  "clone_files pid child page w = (case page of
     None \<Rightarrow> fd_child pid child (\<lambda>t s. Ret (fd_table_ref t s, t)) w
   | Some g \<Rightarrow> fd_child pid child (\<lambda>t. fd_table_copy drv_ops t g) w)"

fun fd_exec :: "fd_event \<Rightarrow> fd_world \<Rightarrow> fd_world kres" where
  "fd_exec (Ev_open pid f flags) w = fd_call pid (\<lambda>t s. Ret (open_fd t f flags s)) w"
| "fd_exec (Ev_close pid fd) w = fd_call pid (\<lambda>t. sys_close drv_ops t fd) w"
| "fd_exec (Ev_dup pid fd) w = fd_call pid (\<lambda>t. sys_dup drv_ops t fd) w"
| "fd_exec (Ev_dup2 pid fd fd2) w = fd_call pid (\<lambda>t. sys_dup2 drv_ops t fd fd2) w"
| "fd_exec (Ev_fcntl pid fd cmd arg) w = fd_call pid (\<lambda>t. sys_fcntl drv_ops t fd cmd arg) w"
| "fd_exec (Ev_lseek pid fd off whence) w = fd_call pid (\<lambda>t s. Ret (sys_lseek t fd off whence s)) w"
| "fd_exec (Ev_pipe2 pid page arg1 arg2) w = fd_call pid (\<lambda>t s. Ret (sys_pipe2 t page arg1 arg2 s)) w"
| "fd_exec (Ev_memfd pid m name umem) w = fd_call pid (\<lambda>t s. Ret (fd_memfd_create t m name umem s)) w"
| "fd_exec (Ev_execve pid) w = fd_call pid (exec_close_fds drv_ops) w"
| "fd_exec (Ev_clone_files pid child) w = clone_files pid child None w"
| "fd_exec (Ev_fork pid child page) w = clone_files pid child (Some page) w"
| "fd_exec (Ev_clone_fails pid child page) w = (case clone_files pid child page w of Panic m \<Rightarrow> Panic m | Ret w' \<Rightarrow> fd_exit child w')"
| "fd_exec (Ev_spawn pid child page sfd) w = fd_child pid child (\<lambda>t. spawn_fds drv_ops t page sfd) w"
| "fd_exec (Ev_exit pid) w = fd_exit pid w"

fun fd_run :: "fd_event list \<Rightarrow> fd_world \<Rightarrow> fd_world kres" where
  "fd_run [] w = Ret w"
| "fd_run (e # es) w = (case fd_exec e w of Panic m \<Rightarrow> Panic m | Ret w' \<Rightarrow> fd_run es w')"

text \<open>What the allocators promise for the pages and process numbers of an event: they are not in use.  There are at most \<open>2 ^ 20\<close>
  processes, so that the 32-bit counts do not wrap, and \<^verbatim>\<open>open\<close> yields neither a pipe nor a memory file.\<close>

fun ev_fresh :: "fd_event \<Rightarrow> fd_world \<Rightarrow> bool" where
  "ev_fresh (Ev_open pid f flags) w \<longleftrightarrow> \<not> drv_counted (vf_ops f)"
| "ev_fresh (Ev_pipe2 pid page arg1 arg2) w \<longleftrightarrow> d_pipes (drv (w_fd w)) page = None"
| "ev_fresh (Ev_clone_files pid child) w \<longleftrightarrow> w_table w child = None \<and> card (dom (w_table w)) < 2 ^ 20"
| "ev_fresh (Ev_clone_fails pid child page) w \<longleftrightarrow> w_table w child = None \<and> card (dom (w_table w)) < 2 ^ 20
     \<and> (case page of None \<Rightarrow> True | Some g \<Rightarrow> g \<notin> ran (w_table w))"
| "ev_fresh (Ev_fork pid child page) w \<longleftrightarrow> w_table w child = None \<and> card (dom (w_table w)) < 2 ^ 20 \<and> page \<notin> ran (w_table w)"
| "ev_fresh (Ev_spawn pid child page sfd) w \<longleftrightarrow> w_table w child = None \<and> card (dom (w_table w)) < 2 ^ 20 \<and> page \<notin> ran (w_table w)"
| "ev_fresh _ w \<longleftrightarrow> True"

fun fresh_along :: "fd_event list \<Rightarrow> fd_world \<Rightarrow> bool" where
  "fresh_along [] w \<longleftrightarrow> True"
| "fresh_along (e # es) w \<longleftrightarrow> ev_fresh e w \<and> (case fd_exec e w of Panic m \<Rightarrow> True | Ret w' \<Rightarrow> fresh_along es w')"

definition sharers :: "fd_world \<Rightarrow> u64 \<Rightarrow> nat set" where
  "sharers w t = {pid. w_table w pid = Some t}"

definition world_inv :: "fd_world \<Rightarrow> bool" where
  "world_inv w \<longleftrightarrow> finite (dom (w_table w)) \<and> card (dom (w_table w)) \<le> 2 ^ 20 \<and> 0 \<notin> ran (w_table w)
     \<and> fdi.fd_inv (ran (w_table w)) (w_fd w)
     \<and> (\<forall>t\<in>ran (w_table w). unat (fdt_refcount (fd_tables (w_fd w) t)) = card (sharers w t))"

lemma world_invD:
  assumes "world_inv w" "w_table w pid = Some t"
  shows "t \<in> ran (w_table w)" "t \<noteq> 0" "fdi.fd_inv (ran (w_table w)) (w_fd w)"
  using assms by (auto simp: world_inv_def ran_def)

lemma fd_call_inv:
  assumes W: "world_inv w"
    and f: "\<And>t. t \<in> ran (w_table w) \<Longrightarrow> \<exists>s' r. f t (w_fd w) = Ret (s', r) \<and> fdi.fd_inv (ran (w_table w)) s' \<and> same_counts (w_fd w) s'"
  shows "\<exists>w'. fd_call pid f w = Ret w' \<and> world_inv w'"
proof (cases "w_table w pid")
  case (Some t)
  then obtain s' r where s': "f t (w_fd w) = Ret (s', r)" "fdi.fd_inv (ran (w_table w)) s'" "same_counts (w_fd w) s'"
    using f [OF world_invD(1) [OF W Some]] by blast
  then show ?thesis using Some W by (simp add: fd_call_def world_inv_def sharers_def same_counts_def)
qed (use W in \<open>simp add: fd_call_def\<close>)

lemma pipe2_counts: "same_counts s (fst (sys_pipe2 t page arg1 arg2 s))"
  by (simp add: sys_pipe2_def Let_def split: option.splits)

lemma memfd_create_counts: "same_counts s (fst (fd_memfd_create t m name umem s))"
  by (simp add: fd_memfd_create_def same_counts_def split: prod.splits)

lemma open_fd_inv:
  assumes "fdi.fd_inv L s" "t \<in> L" "\<not> drv_counted (vf_ops f)"
  shows "fdi.fd_inv L (fst (open_fd t f arg2 s))"
proof (cases "free_fd s t 0")
  case (Some i)
  let ?f = "f\<lparr>vf_flags := ucast arg2 OR (if arg2 AND 0x80000 \<noteq> 0 then VFS_FD_CLOEXEC else 0)\<rparr>"
  have "fdi.fd_inv L ((set_slot t i ?f s)\<lparr>drv := drv s\<rparr>)"
    by (rule fdi.install_inv [OF assms(1,2)]) (use free_fd_Some [OF Some] assms in \<open>auto simp: fdi.fd_inv_def hit_def\<close>)
  then show ?thesis using Some by (simp add: open_fd_def set_slot_def)
qed (use assms in \<open>simp add: open_fd_def\<close>)

lemma open_fd_counts: "same_counts s (fst (open_fd t f arg2 s))"
  by (simp add: open_fd_def split: option.splits)

lemma fd_calls_inv:
  assumes W: "world_inv w" and fresh: "ev_fresh e w"
    and e: "\<And>p c. e \<noteq> Ev_clone_files p c" "\<And>p c g. e \<noteq> Ev_clone_fails p c g" "\<And>p c g. e \<noteq> Ev_fork p c g" "\<And>p c g f. e \<noteq> Ev_spawn p c g f" "\<And>p. e \<noteq> Ev_exit p"
  shows "\<exists>w'. fd_exec e w = Ret w' \<and> world_inv w'"
proof -
  have I: "fdi.fd_inv (ran (w_table w)) (w_fd w)" using W by (simp add: world_inv_def)
  let ?I = "fdi.fd_inv (ran (w_table w))"
  have C1: "\<exists>s' r. sys_close drv_ops t fd (w_fd w) = Ret (s', r) \<and> ?I s' \<and> same_counts (w_fd w) s'" if "t \<in> ran (w_table w)" for t fd
    using fdi.sys_close_inv [OF I that] by (blast dest: fd_calls_counts(1-4))
  have C2: "\<exists>s' r. sys_dup drv_ops t fd (w_fd w) = Ret (s', r) \<and> ?I s' \<and> same_counts (w_fd w) s'" if "t \<in> ran (w_table w)" for t fd
    using fdi.sys_dup_inv [OF I that] by (blast dest: fd_calls_counts(1-4))
  have C3: "\<exists>s' r. sys_dup2 drv_ops t fd fd2 (w_fd w) = Ret (s', r) \<and> ?I s' \<and> same_counts (w_fd w) s'" if "t \<in> ran (w_table w)" for t fd fd2
    using fdi.sys_dup2_inv [OF I that] by (blast dest: fd_calls_counts(1-4))
  have C4: "\<exists>s' r. sys_fcntl drv_ops t fd cmd arg (w_fd w) = Ret (s', r) \<and> ?I s' \<and> same_counts (w_fd w) s'" if "t \<in> ran (w_table w)" for t fd cmd arg
    using fdi.sys_fcntl_inv [OF I that] by (blast dest: fd_calls_counts(1-4))
  have P: "\<exists>s' r. Ret (g (w_fd w)) = Ret (s', r) \<and> fdi.fd_inv (ran (w_table w)) s' \<and> same_counts (w_fd w) s'"
    if "fdi.fd_inv (ran (w_table w)) (fst (g (w_fd w)))" "same_counts (w_fd w) (fst (g (w_fd w)))" for g :: "fdrv fdst \<Rightarrow> fdrv fdst \<times> 'z"
    using that by (intro exI [of _ "fst (g (w_fd w))"] exI [of _ "snd (g (w_fd w))"]) simp
  show ?thesis
  proof (cases e)
    case (Ev_execve pid)
    have "\<exists>s' r. exec_close_fds drv_ops t (w_fd w) = Ret (s', r) \<and> fdi.fd_inv (ran (w_table w)) s' \<and> same_counts (w_fd w) s'"
      if "t \<in> ran (w_table w)" for t
      using fdi.exec_close_inv [OF I that] by (blast dest: cloexec_counts)
    then show ?thesis unfolding Ev_execve fd_exec.simps by (rule fd_call_inv [OF W])
  qed (use e fresh in \<open>auto intro!: fd_call_inv [OF W] C1 C2 C3 C4 P fdi.sys_lseek_inv [OF I] fd_calls_counts(5) open_fd_inv [OF I] open_fd_counts sys_pipe2_inv [OF I]
      pipe2_counts fd_memfd_create_inv [OF I] memfd_create_counts\<close>)
qed

lemma card_ran_le: "finite (dom m) \<Longrightarrow> card (ran m) \<le> card (dom m)"
proof -
  assume "finite (dom m)"
  moreover have "ran m = (\<lambda>x. the (m x)) ` dom m" by (force simp: ran_def dom_def)
  ultimately show ?thesis by (simp add: card_image_le)
qed

lemma new_process_inv:
  assumes W: "world_inv w" and new: "w_table w child = None" "card (dom (w_table w)) < 2 ^ 20" and t: "t \<noteq> 0"
    and I: "fdi.fd_inv (insert t (ran (w_table w))) s"
    and rc: "\<And>u. u \<in> insert t (ran (w_table w)) \<Longrightarrow> unat (fdt_refcount (fd_tables s u)) = card (sharers w u) + (if u = t then 1 else 0)"
  shows "world_inv (w\<lparr>w_table := (w_table w)(child \<mapsto> t), w_fd := s\<rparr>)"
proof -
  let ?w = "w\<lparr>w_table := (w_table w)(child \<mapsto> t), w_fd := s\<rparr>"
  have fin: "finite (dom (w_table w))" using W by (simp add: world_inv_def)
  have ran: "ran ((w_table w)(child \<mapsto> t)) = insert t (ran (w_table w))" using new(1) by (simp add: ran_map_upd)
  have sh: "sharers ?w u = (if u = t then insert child (sharers w u) else sharers w u)" for u
    using new(1) by (auto simp: sharers_def)
  have "finite (sharers w u)" for u by (rule finite_subset [OF _ fin]) (auto simp: sharers_def dom_def)
  moreover have "child \<notin> sharers w u" for u using new(1) by (simp add: sharers_def)
  ultimately have "card (sharers ?w u) = card (sharers w u) + (if u = t then 1 else 0)" for u by (simp add: sh)
  then have "\<forall>u\<in>ran (w_table ?w). unat (fdt_refcount (fd_tables (w_fd ?w) u)) = card (sharers ?w u)"
    using rc ran by simp
  moreover have "card (dom ((w_table w)(child \<mapsto> t))) \<le> 2 ^ 20" using new fin by (simp add: domIff)
  ultimately show ?thesis using W I t fin ran by (simp add: world_inv_def)
qed

lemma new_table_room:
  assumes "world_inv w" "card (dom (w_table w)) < 2 ^ 20"
  shows "16 * card (ran (w_table w)) + 16 < fd_limit"
  using assms card_ran_le [of "w_table w"] by (simp add: world_inv_def fd_limit_def)

lemma no_sharers: "t \<notin> ran (w_table w) \<Longrightarrow> sharers w t = {}"
  by (auto simp: sharers_def ran_def)

lemma fd_new_table_inv:
  assumes W: "world_inv w" and new: "w_table w child = None" "card (dom (w_table w)) < 2 ^ 20" "page \<notin> ran (w_table w)"
    and f0: "page = 0 \<Longrightarrow> f t (w_fd w) = Ret (w_fd w, 0)"
    and f: "page \<noteq> 0 \<Longrightarrow> \<exists>s'. f t (w_fd w) = Ret (s', page) \<and> fdi.fd_inv (insert page (ran (w_table w))) s'
      \<and> (\<forall>u. fdt_refcount (fd_tables s' u) = (if u = page then 1 else fdt_refcount (fd_tables (w_fd w) u)))"
    and t: "w_table w pid = Some t"
  shows "\<exists>w'. fd_child pid child f w = Ret w' \<and> world_inv w'"
proof (cases "page = 0")
  case True
  then show ?thesis using f0 t W by (simp add: fd_child_def)
next
  case False
  then obtain s' where s': "f t (w_fd w) = Ret (s', page)" "fdi.fd_inv (insert page (ran (w_table w))) s'"
      "\<And>u. fdt_refcount (fd_tables s' u) = (if u = page then 1 else fdt_refcount (fd_tables (w_fd w) u))"
    using f by blast
  have "world_inv (w\<lparr>w_table := (w_table w)(child \<mapsto> page), w_fd := s'\<rparr>)"
    by (rule new_process_inv [OF W new(1,2) False s'(2)])
      (use W new(3) s'(3) no_sharers [OF new(3)] in \<open>auto simp: world_inv_def\<close>)
  then show ?thesis using s'(1) t False by (simp add: fd_child_def)
qed

lemma fd_table_ref_inv:
  assumes W: "world_inv w" and new: "w_table w child = None" "card (dom (w_table w)) < 2 ^ 20" and t: "w_table w pid = Some t"
  shows "world_inv (w\<lparr>w_table := (w_table w)(child \<mapsto> t), w_fd := fd_table_ref t (w_fd w)\<rparr>)"
proof (rule new_process_inv [OF W new])
  note D = world_invD [OF W t]
  show "t \<noteq> 0" by (rule D(2))
  show "fdi.fd_inv (insert t (ran (w_table w))) (fd_table_ref t (w_fd w))"
    using D by (simp add: fd_table_ref_def insert_absorb)
  have "card (sharers w t) \<le> card (dom (w_table w))"
    by (rule card_mono) (use W in \<open>auto simp: world_inv_def sharers_def\<close>)
  then have "unat (fdt_refcount (fd_tables (w_fd w) t) + 1) = card (sharers w t) + 1"
    using W D(1) new(2) unat_plus_no_wrap [of "fdt_refcount (fd_tables (w_fd w) t)" 1] by (simp add: world_inv_def)
  then show "unat (fdt_refcount (fd_tables (fd_table_ref t (w_fd w)) u)) = card (sharers w u) + (if u = t then 1 else 0)"
    if "u \<in> insert t (ran (w_table w))" for u
    using that W D by (auto simp: fd_table_ref_def set_refcount_def world_inv_def)
qed

lemma exit_inv:
  assumes W: "world_inv w"
  shows "\<exists>w'. fd_exit pid w = Ret w' \<and> world_inv w'"
proof (cases "w_table w pid")
  case (Some t)
  note D = world_invD [OF W Some]
  let ?T = "(w_table w)(pid := None)" and ?rc = "fdt_refcount (fd_tables (w_fd w) t)"
  have fin: "finite (dom (w_table w))" using W by (simp add: world_inv_def)
  have fs: "finite (sharers w u)" for u by (rule finite_subset [OF _ fin]) (auto simp: sharers_def dom_def)
  have pid: "pid \<in> sharers w t" using Some by (simp add: sharers_def)
  have rc: "unat (fdt_refcount (fd_tables (w_fd w) u)) = card (sharers w u)" if "u \<in> ran (w_table w)" for u
    using W that by (simp add: world_inv_def)
  obtain s' where s': "fd_table_unref drv_ops t (w_fd w) = Ret (s', \<not> 1 < ?rc)"
      "fdi.fd_inv (if 1 < ?rc then ran (w_table w) else ran (w_table w) - {t}) s'"
      "\<And>u. fdt_refcount (fd_tables s' u) = fdt_refcount (fd_tables (w_fd w) u) - (if u = t then 1 else 0)"
    using fdi.fd_table_unref_inv [OF D(3,1,2)] by blast
  let ?w = "w\<lparr>w_table := ?T, w_fd := s'\<rparr>"
  have sh: "sharers ?w u = sharers w u - {pid}" for u by (auto simp: sharers_def)
  have cd: "card (sharers w t - {pid}) = card (sharers w t) - 1" "0 < card (sharers w t)"
    using pid fs [of t] by (auto simp: card_gt_0_iff)
  have "1 < ?rc \<longleftrightarrow> 1 < card (sharers w t)" using rc [OF D(1)] by (simp add: word_less_nat_alt)
  also have "\<dots> \<longleftrightarrow> 0 < card (sharers w t - {pid})" using cd by linarith
  finally have last: "1 < ?rc \<longleftrightarrow> sharers w t - {pid} \<noteq> {}" using fs [of t] by (simp add: card_gt_0_iff)
  have ranT: "u \<in> ran ?T \<longleftrightarrow> sharers w u - {pid} \<noteq> {}" for u by (auto simp: ran_def sharers_def)
  have "u \<in> ran ?T \<longleftrightarrow> u \<in> (if 1 < ?rc then ran (w_table w) else ran (w_table w) - {t})" for u
  proof (cases "u = t")
    case True
    then show ?thesis using ranT [of t] last D(1) by simp
  next
    case False
    then have "pid \<notin> sharers w u" using Some by (simp add: sharers_def)
    then have "u \<in> ran ?T \<longleftrightarrow> u \<in> ran (w_table w)" using ranT [of u] by (auto simp: ran_def sharers_def)
    then show ?thesis using False by simp
  qed
  then have "ran ?T = (if 1 < ?rc then ran (w_table w) else ran (w_table w) - {t})" by (rule set_eqI)
  then have I: "fdi.fd_inv (ran ?T) s'" using s'(2) by simp
  have "unat (fdt_refcount (fd_tables s' u)) = card (sharers ?w u)" if u: "u \<in> ran ?T" for u
  proof (cases "u = t")
    case True
    have "?rc \<noteq> 0" using rc [OF D(1)] cd(2) by auto
    then show ?thesis using True rc [OF D(1)] s'(3) [of t] cd(1) unat_dec [of ?rc] by (simp add: sh)
  next
    case False
    have "u \<in> ran (w_table w)" using u by (auto simp: ran_def split: if_splits)
    moreover have "pid \<notin> sharers w u" using False Some by (simp add: sharers_def)
    ultimately show ?thesis using False rc [of u] s'(3) [of u] by (simp add: sh)
  qed
  moreover have "card (dom ?T) \<le> 2 ^ 20" using W card_mono [OF fin, of "dom ?T"] by (auto simp: world_inv_def)
  moreover have "0 \<notin> ran ?T" using W by (auto simp: world_inv_def ran_def split: if_splits)
  ultimately have "world_inv ?w" using I fin by (simp add: world_inv_def)
  then show ?thesis using Some s'(1) by (simp add: fd_exit_def)
qed (use W in \<open>simp add: fd_exit_def\<close>)

lemma clone_files_inv:
  assumes W: "world_inv w" and new: "w_table w child = None" "card (dom (w_table w)) < 2 ^ 20"
    and page: "\<And>g. page = Some g \<Longrightarrow> g \<notin> ran (w_table w)"
  shows "\<exists>w'. clone_files pid child page w = Ret w' \<and> world_inv w'"
proof (cases "w_table w pid")
  case (Some t)
  note D = world_invD [OF W Some]
  show ?thesis
  proof (cases page)
    case None
    then show ?thesis using fd_table_ref_inv [OF W new Some] D(2) Some by (simp add: clone_files_def fd_child_def)
  next
    case (Some g)
    show ?thesis unfolding clone_files_def Some option.case
      by (rule fd_new_table_inv [OF W new page [OF Some] _ _ \<open>w_table w pid = Some t\<close>])
        (use fdi.fd_table_copy_inv [OF D(3,1,2) page [OF Some] _ new_table_room [OF W new(2)]] in \<open>auto simp: fd_table_copy_def\<close>)
  qed
qed (use W in \<open>simp add: clone_files_def fd_child_def split: option.split\<close>)

lemma fd_exec_inv:
  assumes W: "world_inv w" and fresh: "ev_fresh e w"
  shows "\<exists>w'. fd_exec e w = Ret w' \<and> world_inv w'"
proof (cases e)
  case (Ev_clone_files pid child)
  then show ?thesis using clone_files_inv [OF W, of child None] fresh by simp
next
  case (Ev_fork pid child page)
  then show ?thesis using clone_files_inv [OF W, of child "Some page"] fresh by simp
next
  case (Ev_clone_fails pid child page)
  then obtain w1 where w1: "clone_files pid child page w = Ret w1" "world_inv w1"
    using clone_files_inv [OF W, of child page pid] fresh by (auto split: option.splits)
  then show ?thesis using Ev_clone_fails exit_inv [OF w1(2), of child] by simp
next
  case (Ev_spawn pid child page sfd)
  show ?thesis
  proof (cases "w_table w pid")
    case (Some t)
    note D = world_invD [OF W Some]
    have new: "w_table w child = None" "card (dom (w_table w)) < 2 ^ 20" "page \<notin> ran (w_table w)" using fresh Ev_spawn by simp_all
    show ?thesis unfolding Ev_spawn fd_exec.simps
      by (rule fd_new_table_inv [OF W new _ _ Some])
        (use fdi.spawn_fds_inv [OF D(3,1) new(3) _ new_table_room [OF W new(2)], of sfd] spawn_counts [of drv_ops t page sfd "w_fd w"]
          in \<open>auto simp: spawn_fds_def fd_table_alloc_def\<close>)
  qed (use W Ev_spawn in \<open>simp add: fd_child_def\<close>)
next
  case (Ev_exit pid)
  then show ?thesis using exit_inv [OF W] by simp
qed (rule fd_calls_inv [OF W fresh]; simp)+

lemma fd_run_inv: "world_inv w \<Longrightarrow> fresh_along es w \<Longrightarrow> \<exists>w'. fd_run es w = Ret w' \<and> world_inv w'"
proof (induction es arbitrary: w)
  case (Cons e es)
  then show ?case using fd_exec_inv [of w e] by auto
qed simp

text \<open>The first process, with an empty table.\<close>

definition fd_boot :: "u64 \<Rightarrow> mfs \<Rightarrow> fd_world" where
  "fd_boot t mf = \<lparr>w_table = [1 \<mapsto> t], w_fd = \<lparr>fd_tables = (\<lambda>_. \<lparr>fds = (\<lambda>_. null_file), fdt_refcount = 1\<rparr>),
     drv = \<lparr>d_pipes = (\<lambda>_. None), d_mfs = mf\<rparr>\<rparr>\<rparr>"

lemma fd_boot_inv:
  assumes "t \<noteq> 0" "pmm_wf (vm_pmm (mf_vm mf))" "\<forall>i. \<not> mf_in_use (s_memfds mf i)"
  shows "world_inv (fd_boot t mf)"
proof -
  have "mf_cells mf = {}" using assms(3) by (simp add: mf_cells_def)
  then have ok: "drv_ok \<lparr>d_pipes = (\<lambda>_. None), d_mfs = mf\<rparr>" using assms(2,3) by (simp add: drv_ok_def mfs_ok_def)
  have h: "holders {t} (w_fd (fd_boot t mf)) op p = 0" if "drv_counted op" for op p
    using that unfolding holders_def tab_hits_def
    by (auto intro!: sum.neutral simp: slot_def fd_boot_def hit_def null_file_def drv_counted_def ops_defs)
  have lim: "16 < fd_limit" by (simp add: fd_limit_def)
  have "fdi.fd_inv {t} (w_fd (fd_boot t mf))"
    using h ok assms(3) lim by (auto simp: fdi.fd_inv_def fdi.ahead_def fd_boot_def drv_refs_def pipe_count_def memfd_count_def)
  moreover have "sharers (fd_boot t mf) t = {1}" by (auto simp: sharers_def fd_boot_def)
  ultimately show ?thesis using assms(1) by (simp add: world_inv_def fd_boot_def)
qed

definition descriptors :: "fd_world \<Rightarrow> u64 \<Rightarrow> u64 \<Rightarrow> (u64 \<times> nat) set" where
  "descriptors w op p = {(t, i). t \<in> ran (w_table w) \<and> i < PROC_MAX_FDS
     \<and> vf_ops (slot (w_fd w) t i) = op \<and> vf_priv (slot (w_fd w) t i) = p}"

lemma card_descriptors:
  assumes "finite (ran (w_table w))"
  shows "int (card (descriptors w op p)) = holders (ran (w_table w)) (w_fd w) op p" "finite (descriptors w op p)"
proof -
  let ?S = "\<lambda>t. {i. i < PROC_MAX_FDS \<and> vf_ops (slot (w_fd w) t i) = op \<and> vf_priv (slot (w_fd w) t i) = p}"
  have d: "descriptors w op p = Sigma (ran (w_table w)) ?S" by (auto simp: descriptors_def)
  have "tab_hits (w_fd w) t op p = int (card (?S t))" for t
  proof -
    have "tab_hits (w_fd w) t op p = (\<Sum>i\<in>{i\<in>{..<PROC_MAX_FDS}. vf_ops (slot (w_fd w) t i) = op \<and> vf_priv (slot (w_fd w) t i) = p}. 1)"
      unfolding tab_hits_def hit_def by (subst sum.inter_filter) simp_all
    then show ?thesis by simp
  qed
  then show "int (card (descriptors w op p)) = holders (ran (w_table w)) (w_fd w) op p"
    using assms by (simp add: d holders_def)
  show "finite (descriptors w op p)" using assms by (simp add: d)
qed

lemma counts_exact:
  assumes W: "world_inv w" and op: "drv_counted op"
  shows "drv_refs (drv (w_fd w)) op p = card (descriptors w op p)"
proof -
  have I: "fdi.fd_inv (ran (w_table w)) (w_fd w)" using W by (simp add: world_inv_def)
  then have "finite (ran (w_table w))" by (simp add: fdi.fd_inv_def)
  then show ?thesis using card_descriptors(1) fdi.inv_count [OF I op, of p] by (metis of_nat_eq_iff)
qed

section \<open>Histories\<close>

text \<open>C5. Counts of descriptors.  The first process starts with an empty table and no memory file open; then follows any sequence
  of calls \<^verbatim>\<open>open\<close> (of files that are neither pipes nor memory files), \<^verbatim>\<open>close\<close>, \<^verbatim>\<open>dup\<close>, \<^verbatim>\<open>dup2\<close>, \<^verbatim>\<open>fcntl\<close>, \<^verbatim>\<open>lseek\<close>, \<^verbatim>\<open>pipe2\<close>,
  \<^verbatim>\<open>memfd_create\<close>, \<^verbatim>\<open>execve\<close>, \<^verbatim>\<open>fork\<close>, \<^verbatim>\<open>clone\<close>, \<^verbatim>\<open>spawn\<close> and \<^verbatim>\<open>exit\<close> of any processes with any arguments, with fresh pages and process numbers
  and fewer than \<open>2 ^ 20\<close> processes, and without the failures of \<^verbatim>\<open>fork\<close> that come after the table was copied.  Then no operation on
  a table, a pipe's counts or a memory file panics; every table's count is the number of processes that share it, counting
  the threads that \<^verbatim>\<open>exit_group\<close> of another thread has ended; and every pipe end's and memory file's count is the number of
  descriptors that refer to it.  In particular a pipe is allocated exactly as long as some descriptor refers to one of
  its ends.  The other files are those whose driver's \<^verbatim>\<open>close\<close> does nothing, so no sockets, epoll, pseudo terminals, \<^verbatim>\<open>/proc\<close> or
  ext2 files, and the wake-ups that closing a pipe causes are left out.\<close>

theorem fd_history_exact:
  assumes "t \<noteq> 0" "pmm_wf (vm_pmm (mf_vm mf))" "\<forall>i. \<not> mf_in_use (s_memfds mf i)" "fresh_along es (fd_boot t mf)"
  shows "\<exists>w. fd_run es (fd_boot t mf) = Ret w
    \<and> (\<forall>t\<in>ran (w_table w). unat (fdt_refcount (fd_tables (w_fd w) t)) = card (sharers w t))
    \<and> (\<forall>op p. drv_counted op \<longrightarrow> drv_refs (drv (w_fd w)) op p = card (descriptors w op p))
    \<and> (\<forall>p. d_pipes (drv (w_fd w)) p = None
          \<longleftrightarrow> descriptors w g_pipe_read_ops p = {} \<and> descriptors w g_pipe_write_ops p = {})"
proof -
  obtain w where w: "fd_run es (fd_boot t mf) = Ret w" "world_inv w"
    using fd_run_inv [OF fd_boot_inv [OF assms(1-3)] assms(4)] by blast
  have I: "fdi.fd_inv (ran (w_table w)) (w_fd w)" using w(2) by (simp add: world_inv_def)
  then have ok: "drv_ok (drv (w_fd w))" and fin: "finite (ran (w_table w))" by (simp_all add: fdi.fd_inv_def)
  have d: "descriptors w op p = {} \<longleftrightarrow> drv_refs (drv (w_fd w)) op p = 0" if "drv_counted op" for op p
    using counts_exact [OF w(2) that] card_descriptors(2) [OF fin] by simp
  have "d_pipes (drv (w_fd w)) p = None \<longleftrightarrow> descriptors w g_pipe_read_ops p = {} \<and> descriptors w g_pipe_write_ops p = {}" for p
    using drv_okD(2) [OF ok, of p] by (auto simp: d drv_counted_def drv_refs_simps pipe_count_def unat_gt_0 unat_eq_zero split: option.splits)
  then show ?thesis using w counts_exact [OF w(2)] by (auto simp: world_inv_def)
qed

lemma fd_call_table: "fd_call pid f w = Ret w' \<Longrightarrow> w_table w' = w_table w"
  by (auto simp: fd_call_def split: option.splits kres.splits)

definition demo_events :: "fd_event list" where
  "demo_events = [Ev_pipe2 1 0x5000 0x1000 0, Ev_fork 1 2 0x6000, Ev_exit 1]"

lemma demo_events_fresh: "fresh_along demo_events (fd_boot 0x4000 mf)"
  using fd_call_table [of 1 "\<lambda>t s. Ret (sys_pipe2 t 0x5000 0x1000 0 s)" "fd_boot 0x4000 mf"]
  by (auto simp: demo_events_def fd_boot_def split: kres.splits)

definition closed_mfs :: mfs where
  "closed_mfs = upd_memfd 0 (\<lambda>mf. mf\<lparr>mf_in_use := False\<rparr>) demo_mfs"

lemma closed_mfs_facts: "pmm_wf (vm_pmm (mf_vm closed_mfs))" "\<not> mf_in_use (s_memfds closed_mfs i)"
  using demo_mfs_ok by (simp_all add: closed_mfs_def upd_memfd_def mfs_ok_def demo_mfs_def)

theorem fd_history_exact_witness:
  "\<exists>w. fd_run demo_events (fd_boot 0x4000 closed_mfs) = Ret w
    \<and> (\<forall>p. d_pipes (drv (w_fd w)) p = None
          \<longleftrightarrow> descriptors w g_pipe_read_ops p = {} \<and> descriptors w g_pipe_write_ops p = {})"
  using fd_history_exact [of "0x4000" closed_mfs demo_events] demo_events_fresh closed_mfs_facts by auto

section \<open>Paths that lose a count\<close>

text \<open>\<^verbatim>\<open>sys_fork\<close> copies the table first.  When a later step fails it frees the page of the copy, without
  closing its descriptors.\<close>

definition fork_failed :: "nat \<Rightarrow> u64 \<Rightarrow> fd_world \<Rightarrow> fd_world kres" where
  "fork_failed pid page w = (case w_table w pid of
     None \<Rightarrow> Ret w
   | Some t \<Rightarrow> (case fd_table_copy drv_ops t page (w_fd w) of Panic m \<Rightarrow> Panic m | Ret (s, _) \<Rightarrow> Ret (w\<lparr>w_fd := s\<rparr>)))"

text \<open>C36. A fork that fails after copying the table leaves the counts of all counted descriptors too high: for each open
  descriptor, more references are recorded than descriptors exist, so closing all of them never
  frees the handle, and a pipe whose writers are all gone never reports the end of the stream.\<close>

theorem fork_failure_leaks:
  assumes W: "world_inv w" and t: "w_table w pid = Some t" and page: "page \<notin> ran (w_table w)" "page \<noteq> 0"
    and room: "card (dom (w_table w)) < 2 ^ 20"
    and i: "i < PROC_MAX_FDS" "drv_counted (vf_ops (slot (w_fd w) t i))"
  shows "\<exists>w'. fork_failed pid page w = Ret w'
    \<and> card (descriptors w' (vf_ops (slot (w_fd w) t i)) (vf_priv (slot (w_fd w) t i)))
      < drv_refs (drv (w_fd w')) (vf_ops (slot (w_fd w) t i)) (vf_priv (slot (w_fd w) t i))"
proof -
  let ?R = "ran (w_table w)" and ?f = "slot (w_fd w) t i"
  note D = world_invD [OF W t]
  obtain s' where s': "fd_table_copy drv_ops t page (w_fd w) = Ret (s', page)" "fdi.fd_inv (insert page ?R) s'"
      "slot s' page i = ?f"
    using fdi.fd_table_copy_inv [OF D(3,1,2) page new_table_room [OF W room]] i(1) by blast
  have fin: "finite ?R" using D(3) by (simp add: fdi.fd_inv_def)
  have "int (drv_refs (drv s') (vf_ops ?f) (vf_priv ?f)) = holders (insert page ?R) s' (vf_ops ?f) (vf_priv ?f)"
    by (rule fdi.inv_count [OF s'(2) i(2)])
  also have "\<dots> = holders ?R s' (vf_ops ?f) (vf_priv ?f) + tab_hits s' page (vf_ops ?f) (vf_priv ?f)"
    using fin page by (simp add: holders_def)
  finally have c: "int (drv_refs (drv s') (vf_ops ?f) (vf_priv ?f))
      = holders ?R s' (vf_ops ?f) (vf_priv ?f) + tab_hits s' page (vf_ops ?f) (vf_priv ?f)" .
  have "1 \<le> tab_hits s' page (vf_ops ?f) (vf_priv ?f)"
    using slot_holds [of "{page}" page i s'] i(1) s'(3) by (simp add: holders_def)
  then have "card (descriptors (w\<lparr>w_fd := s'\<rparr>) (vf_ops ?f) (vf_priv ?f)) < drv_refs (drv s') (vf_ops ?f) (vf_priv ?f)"
    using c card_descriptors(1) [of "w\<lparr>w_fd := s'\<rparr>" "vf_ops ?f" "vf_priv ?f"] fin by simp
  then show ?thesis using s'(1) t by (simp add: fork_failed_def)
qed

theorem fork_failure_leaks_witness:
  "\<exists>w w'. fd_exec (Ev_pipe2 1 0x5000 0x1000 0) (fd_boot 0x4000 closed_mfs) = Ret w \<and> fork_failed 1 0x6000 w = Ret w'
     \<and> card (descriptors w' g_pipe_read_ops 0x5000) < drv_refs (drv (w_fd w')) g_pipe_read_ops 0x5000"
proof -
  have W0: "world_inv (fd_boot 0x4000 closed_mfs)" by (rule fd_boot_inv) (simp_all add: closed_mfs_facts)
  obtain w where w: "fd_exec (Ev_pipe2 1 0x5000 0x1000 0) (fd_boot 0x4000 closed_mfs) = Ret w" "world_inv w"
    using fd_exec_inv [OF W0, of "Ev_pipe2 1 0x5000 0x1000 0"] by (auto simp: fd_boot_def)
  have T: "w_table w = [1 \<mapsto> 0x4000]" using fd_call_table w(1) by (fastforce simp: fd_boot_def)
  have "slot (w_fd w) 0x4000 0 = pipe_end g_pipe_read_ops 0x5000 0"
    using w(1) by (auto simp: fd_call_def fd_boot_def sys_pipe2_def pipe_slots_def free_fd_def PROC_MAX_FDS_def upt_rec
        user_ptr_valid_def USER_ADDR_MAX_def slot_def null_file_def set_slot_def)
  then show ?thesis using fork_failure_leaks [OF w(2), of 1 "0x4000" "0x6000" 0] T w(1)
    by (auto simp: pipe_end_def drv_counted_def PROC_MAX_FDS_def)
qed

text \<open>Open directories of \<^verbatim>\<open>/proc\<close>: a page of kernel memory each, freed by \<^verbatim>\<open>close\<close>; there is no \<^verbatim>\<open>dup\<close>.\<close>

definition s_procfs_dir_ops :: u64 where "s_procfs_dir_ops = 4"

definition procfs_dir_close :: "u64 \<Rightarrow> kva \<Rightarrow> kva kres" where
  "procfs_dir_close priv k = kva_free_pages priv 1 k"

definition procfs_ops :: "u64 \<Rightarrow> kva vfs_ops" where
  "procfs_ops op = \<lparr>op_close = Some (if op = s_procfs_dir_ops then procfs_dir_close else (\<lambda>_ k. Ret k)),
     op_dup = None, op_setnb = \<lambda>_ _ k. k\<rparr>"

lemma phys_of_absent:
  assumes "\<not> present (pte_at s (s_pml4_phys s) v)"
  shows "\<exists>m. vmm_phys_of v s = Panic m"
  using assms by (auto simp: vmm_phys_of_def pte_at_def walk_vm_path Let_def split: if_splits)

lemma kva_free_twice:
  assumes "kva_run k (H1 @ (p, 1) # H2) M"
  shows "\<exists>k'. kva_free_pages p 1 k = Ret k' \<and> (\<exists>m. kva_free_pages p 1 k' = Panic m)"
proof -
  have I: "kva_inv k (H1 @ (p, 1) # H2) M" using assms by (rule kva_run_inv)
  then obtain k' where k': "kva_free_pages p 1 k = Ret k'" "kva_inv k' (H1 @ H2) M" using kva_free_inv by blast
  have R: "kf.separate (s_free k) ((p, 1) # H1 @ H2 @ M)"
    using I by (auto simp: kva_inv_def kf.separate_def ac_simps)
  have p: "p \<in> range_pages p (unat (1 :: u64))" using R by (auto simp: range_pages_def in_cells_def kf.separate_def)
  then have "p \<notin> live_pages (H1 @ H2) \<union> live_pages M" using separate_pages [OF R] by (auto simp: live_pages_append)
  moreover have "kpage p" using I p by (auto simp: kva_inv_def kv_ok_def live_pages_def)
  ultimately have "\<not> present (kv_pte (kva_vm k') p)" using k'(2) by (auto simp: kva_inv_def kv_ok_def)
  then obtain m where "vmm_phys_of p (kva_vm k') = Panic m" using phys_of_absent by (auto simp: kv_pte_def)
  then have "kva_free_pages p 1 k' = Panic m" by (simp add: kva_free_pages_def kva_free_one_def)
  then show ?thesis using k'(1) by blast
qed

text \<open>C37. Duplicating an open directory of \<^verbatim>\<open>/proc\<close> and closing both descriptors panics the kernel: the first close frees
  the page, and the second frees it again, which finds no mapping.\<close>

theorem procfs_dup_close_panics:
  assumes k: "kva_run (drv s) (H1 @ (p, 1) # H2) M"
    and fd: "unat fd < PROC_MAX_FDS" "vf_ops (slot s t (unat fd)) = s_procfs_dir_ops" "vf_priv (slot s t (unat fd)) = p"
    and free: "free_fd s t 0 = Some j"
  shows "\<exists>s1 s2 m. sys_dup procfs_ops t fd s = Ret (s1, of_nat j) \<and> sys_close procfs_ops t fd s1 = Ret (s2, 0)
    \<and> sys_close procfs_ops t (of_nat j) s2 = Panic m"
proof -
  obtain k' m where F: "kva_free_pages p 1 (drv s) = Ret k'" "kva_free_pages p 1 k' = Panic m"
    using kva_free_twice [OF k] by blast
  have j: "j < PROC_MAX_FDS" "vf_ops (slot s t j) = 0" using free_fd_Some [OF free] by auto
  then have ne: "j \<noteq> unat fd" using fd(2) by (auto simp: s_procfs_dir_ops_def)
  have b: "\<not> of_nat PROC_MAX_FDS \<le> fd" "\<not> of_nat PROC_MAX_FDS \<le> (of_nat j :: u64)" "unat (of_nat j :: u64) = j"
    using fd(1) j(1) by (simp_all add: PROC_MAX_FDS_def word_le_nat_alt unsigned_of_nat take_bit_nat_eq_self)
  define f' where "f' = (slot s t (unat fd))\<lparr>vf_flags := vf_flags (slot s t (unat fd)) AND NOT VFS_FD_CLOEXEC\<rparr>"
  have f': "vf_ops f' = s_procfs_dir_ops" "vf_priv f' = p" using fd by (simp_all add: f'_def)
  let ?s1 = "set_slot t j f' s"
  let ?s2 = "(set_slot t (unat fd) ((slot ?s1 t (unat fd))\<lparr>vf_ops := 0, vf_priv := 0\<rparr>) ?s1)\<lparr>drv := k'\<rparr>"
  have nz: "s_procfs_dir_ops \<noteq> 0" by (simp add: s_procfs_dir_ops_def)
  have 1: "sys_dup procfs_ops t fd s = Ret (?s1, of_nat j)"
    using fd free b nz by (simp add: sys_dup_def dup_into_def Let_def call_dup_def procfs_ops_def f'_def)
  have 2: "sys_close procfs_ops t fd ?s1 = Ret (?s2, 0)"
    using fd b nz ne F(1) by (simp add: sys_close_def slot_set_slot call_close_def procfs_ops_def procfs_dir_close_def)
  have "sys_close procfs_ops t (of_nat j) ?s2 = Panic m"
    using b nz ne F(2) f' by (simp add: sys_close_def slot_set_slot call_close_def procfs_ops_def procfs_dir_close_def)
  with 1 2 show ?thesis by blast
qed

theorem procfs_dup_close_panics_witness:
  "\<exists>(s :: kva fdst) s1 s2 m. sys_dup procfs_ops 0 3 s = Ret (s1, 0) \<and> sys_close procfs_ops 0 3 s1 = Ret (s2, 0)
    \<and> sys_close procfs_ops 0 0 s2 = Panic m"
proof -
  obtain k where k: "kva_run k [(KVA_BASE, 1)] []" using demo_kva_run by blast
  let ?f = "null_file\<lparr>vf_ops := s_procfs_dir_ops, vf_priv := KVA_BASE\<rparr>"
  let ?s = "\<lparr>fd_tables = (\<lambda>_. \<lparr>fds = (\<lambda>i. if i = 3 then ?f else null_file), fdt_refcount = 1\<rparr>), drv = k\<rparr>"
  have "free_fd ?s 0 0 = Some 0" by (simp add: free_fd_def PROC_MAX_FDS_def upt_rec slot_def null_file_def)
  then show ?thesis using procfs_dup_close_panics [of ?s "[]" KVA_BASE "[]" "[]" 3 0 0] k
    by (auto simp: slot_def PROC_MAX_FDS_def)
qed

end
