(* ===== verification/Exit_Props.thy ===== *)
theory Exit_Props
  imports Proc_Exit Signal_Kill Fd_Props
begin

text \<open>
  The end of a process: the status it gives to \<^verbatim>\<open>exit\<close> is the one its parent gets from \<^verbatim>\<open>waitpid\<close>; ending while another process
  waits at the other end of a pipe locks the machine up; and the threads that \<^verbatim>\<open>exit_group\<close> ends stay on the run list.
\<close>

section \<open>Closing descriptors with the scheduler locked\<close>

lemma wake_tasks_locked: "sched_lock s \<Longrightarrow> wake_tasks ts s = (if ts = [] then Ret s else Panic ''sched_lock: deadlock'')"
  by (cases ts) (simp_all add: sched_wake_def lock_sched_def)

text \<open>The world with everything but descriptor tables and drivers as in \<open>x\<close>.\<close>

definition rebase :: "xdrv \<Rightarrow> world \<Rightarrow> world" where
  "rebase x w = w\<lparr>drv := x\<lparr>x_drv := x_drv (drv w)\<rparr>\<rparr>"

definition map_kres :: "('a \<Rightarrow> 'b) \<Rightarrow> 'a kres \<Rightarrow> 'b kres" where
  "map_kres f r = (case r of Panic m \<Rightarrow> Panic m | Ret a \<Rightarrow> Ret (f a))"

lemma map_kres_simps [simp]: "map_kres f (Panic m) = Panic m" "map_kres f (Ret a) = Ret (f a)"
  by (simp_all add: map_kres_def)

lemma for_each_map:
  assumes "\<And>i s. P s \<Longrightarrow> body i (h s) = map_kres (map_prod h id) (body i s)" "\<And>i s s' r. P s \<Longrightarrow> body i s = Ret (s', r) \<Longrightarrow> P s'" "P s"
  shows "for_each body xs (h s) = map_kres (map_prod h id) (for_each body xs s)"
  using assms(3) by (induction xs arbitrary: s) (auto simp: assms(1) dest: assms(2) split: kres.split)

text \<open>With the lock held, the operations of the drivers change nothing but the drivers' own state.\<close>

definition drv_only :: "(u64 \<Rightarrow> xdrv \<Rightarrow> xdrv kres) \<Rightarrow> bool" where
  "drv_only f \<longleftrightarrow> (\<exists>g. \<forall>p x. sched_lock (x_sched x) \<longrightarrow> f p x = map_kres (\<lambda>k. x\<lparr>x_drv := k\<rparr>) (g (x_pollers x) p (x_drv x)))"

lemma close_drv_only:
  assumes "op_close (x_ops op) = Some f"
  shows "drv_only f"
proof -
  have pipe: "drv_only (x_pipe_close fn)" for fn
    unfolding drv_only_def
    by (intro exI [of _ "\<lambda>pollers p k. case d_pipes k p of None \<Rightarrow> Panic ''page fault''
        | Some q \<Rightarrow> if concat (map (effect_wakes (pollers p)) (snd (fn q))) = [] then pipe_close fn p k else Panic ''sched_lock: deadlock''"])
      (auto simp: x_pipe_close_def wake_tasks_locked split: option.split kres.split)
  have lift: "drv_only (x_lift g)" for g
    unfolding drv_only_def by (intro exI [of _ "\<lambda>_. g"]) (simp add: x_lift_def split: kres.split)
  show ?thesis using assms pipe lift by (auto simp: x_ops_def split: if_splits)
qed

lemma rebase_slot [simp]: "slot (rebase x w) t i = slot w t i" "fd_tables (rebase x w) = fd_tables w"
  by (simp_all add: rebase_def slot_def)

lemma rebase_set [simp]: "set_slot t i f (rebase x w) = rebase x (set_slot t i f w)" "set_refcount t r (rebase x w) = rebase x (set_refcount t r w)"
  by (simp_all add: rebase_def set_slot_def set_refcount_def)

lemma set_slot_drv [simp]: "drv (set_slot t i f w) = drv w" "drv (set_refcount t r w) = drv w"
  by (simp_all add: set_slot_def set_refcount_def)

text \<open>Only the drivers' state differs from \<open>x\<close>, whose lock is held.\<close>

definition locked_at :: "xdrv \<Rightarrow> world \<Rightarrow> bool" where
  "locked_at x w \<longleftrightarrow> sched_lock (x_sched x) \<and> (\<exists>k. drv w = x\<lparr>x_drv := k\<rparr>)"

lemma call_close_locked:
  assumes "locked_at x0 w" "sched_lock (x_sched x)" "x_pollers x = x_pollers x0"
  shows "call_close x_ops f (rebase x w) = map_kres (rebase x) (call_close x_ops f w)"
    "call_close x_ops f w = Ret w' \<Longrightarrow> locked_at x0 w'"
proof -
  obtain k where k: "drv w = x0\<lparr>x_drv := k\<rparr>" "sched_lock (x_sched x0)" using assms(1) by (auto simp: locked_at_def)
  show "call_close x_ops f (rebase x w) = map_kres (rebase x) (call_close x_ops f w)"
  proof (cases "op_close (x_ops (vf_ops f))")
    case (Some c)
    obtain g where "\<And>p x. sched_lock (x_sched x) \<Longrightarrow> c p x = map_kres (\<lambda>k. x\<lparr>x_drv := k\<rparr>) (g (x_pollers x) p (x_drv x))"
      using close_drv_only [OF Some] by (auto simp: drv_only_def)
    then show ?thesis using Some k assms(2,3) by (simp add: call_close_def rebase_def map_kres_def split: kres.split)
  qed (simp add: call_close_def)
  show "locked_at x0 w'" if r: "call_close x_ops f w = Ret w'"
  proof (cases "op_close (x_ops (vf_ops f))")
    case (Some c)
    obtain g where "\<And>p x. sched_lock (x_sched x) \<Longrightarrow> c p x = map_kres (\<lambda>k. x\<lparr>x_drv := k\<rparr>) (g (x_pollers x) p (x_drv x))"
      using close_drv_only [OF Some] by (auto simp: drv_only_def)
    then show ?thesis using Some k r by (auto simp: call_close_def locked_at_def map_kres_def split: kres.splits)
  qed (use r in \<open>simp add: call_close_def\<close>)
qed

lemma unref_slot_locked:
  assumes "locked_at x0 w" "sched_lock (x_sched x)" "x_pollers x = x_pollers x0"
  shows "unref_slot x_ops t i (rebase x w) = map_kres (map_prod (rebase x) id) (unref_slot x_ops t i w)"
    "unref_slot x_ops t i w = Ret (w', r) \<Longrightarrow> locked_at x0 w'"
  using call_close_locked [OF assms] assms(1)
  by (auto simp: unref_slot_def map_kres_def locked_at_def split: kres.splits if_splits)

text \<open>Whether closing a table returns, and with what, does not depend on the rest of the state.\<close>

lemma unref_locked:
  assumes w: "sched_lock (sched_of w)" and x: "sched_lock (x_sched x)" "x_pollers x = x_pollers (drv w)"
  shows "fd_table_unref x_ops t (rebase x w) = map_kres (map_prod (rebase x) id) (fd_table_unref x_ops t w)"
proof -
  have x0: "locked_at (drv w) (set_refcount t r w)" for r using w by (auto simp: locked_at_def sched_of_def intro!: exI [of _ "x_drv (drv w)"])
  have "for_each (unref_slot x_ops t) xs (rebase x (set_refcount t r w))
      = map_kres (map_prod (rebase x) id) (for_each (unref_slot x_ops t) xs (set_refcount t r w))" for xs r
    by (rule for_each_map [where P = "locked_at (drv w)"]) (use unref_slot_locked x x0 in auto)
  then show ?thesis by (auto simp: fd_table_unref_def Let_def map_kres_def split: kres.split)
qed


lemma unref_keeps:
  assumes "sched_lock (sched_of w)" "fd_table_unref x_ops t w = Ret (w1, b)"
  shows "w1 = rebase (drv w) w1" "sched_of w1 = sched_of w"
proof -
  have "rebase (drv w) w = w" by (simp add: rebase_def)
  then show "w1 = rebase (drv w) w1" using unref_locked [of w "drv w" t] assms by (simp add: sched_of_def)
  then show "sched_of w1 = sched_of w" by (metis sched_of_def rebase_def fdst.select_convs(2) fdst.surjective fdst.update_convs(2) xdrv.ext_inject xdrv.surjective xdrv.update_convs(1))
qed

section \<open>Ending with a waiter at the other end of a pipe\<close>

lemma slots_below:
  assumes "locked_at x0 w" "\<And>j. j \<in> set js \<Longrightarrow> vf_ops (slot w t j) \<notin> {g_pipe_read_ops, g_pipe_write_ops, g_memfd_ops}" "distinct js"
  shows "\<exists>w'. for_each (unref_slot x_ops t) js w = Ret (w', 0) \<and> drv w' = drv w \<and> (\<forall>j. j \<notin> set js \<longrightarrow> slot w' t j = slot w t j)"
  using assms
proof (induction js arbitrary: w)
  case (Cons j js)
  have "\<exists>w1. unref_slot x_ops t j w = Ret (w1, 0) \<and> drv w1 = drv w \<and> (\<forall>i. i \<noteq> j \<longrightarrow> slot w1 t i = slot w t i)"
    using Cons.prems(2) [of j]
    by (auto simp: unref_slot_def call_close_def x_ops_def drv_ops_def x_lift_def) (simp_all add: set_slot_def slot_def)
  then obtain w1 where w1: "unref_slot x_ops t j w = Ret (w1, 0)" "drv w1 = drv w" "\<And>i. i \<noteq> j \<Longrightarrow> slot w1 t i = slot w t i" by blast
  have "\<exists>w'. for_each (unref_slot x_ops t) js w1 = Ret (w', 0) \<and> drv w' = drv w1 \<and> (\<forall>i. i \<notin> set js \<longrightarrow> slot w' t i = slot w1 t i)"
  proof (rule Cons.IH)
    show "locked_at x0 w1" "distinct js" using Cons.prems(1,3) w1(2) by (simp_all add: locked_at_def)
    fix i assume "i \<in> set js"
    moreover have "i \<noteq> j" using \<open>i \<in> set js\<close> Cons.prems(3) by auto
    ultimately show "vf_ops (slot w1 t i) \<notin> {g_pipe_read_ops, g_pipe_write_ops, g_memfd_ops}"
      using Cons.prems(2) [of i] w1(3) [of i] by auto
  qed
  then obtain w' where "for_each (unref_slot x_ops t) js w1 = Ret (w', 0)" "drv w' = drv w1" "\<And>i. i \<notin> set js \<Longrightarrow> slot w' t i = slot w1 t i" by blast
  then show ?case using w1 by (intro exI [of _ w']) auto
qed simp

lemma unref_deadlock:
  assumes lock: "sched_lock (sched_of w)" and t: "t \<noteq> 0" "fdt_refcount (fd_tables w t) \<le> 1"
    and i: "i < PROC_MAX_FDS" "slot w t i = f" "vf_ops f = g_pipe_write_ops" "d_pipes (x_drv (drv w)) (vf_priv f) = Some q" "reader_waiting q \<noteq> 0"
    and below: "\<And>j. j < i \<Longrightarrow> vf_ops (slot w t j) \<notin> {g_pipe_read_ops, g_pipe_write_ops, g_memfd_ops}"
  shows "fd_table_unref x_ops t w = Panic ''sched_lock: deadlock''"
proof -
  let ?w = "set_refcount t (fdt_refcount (fd_tables w t) - 1) w"
  have sl: "slot ?w t j = slot w t j" for j by (simp add: set_refcount_def slot_def)
  have at: "locked_at (drv w) ?w" using lock by (auto simp: locked_at_def sched_of_def intro!: exI [of _ "x_drv (drv w)"])
  have "\<exists>w'. for_each (unref_slot x_ops t) [0..<i] ?w = Ret (w', 0) \<and> drv w' = drv ?w \<and> (\<forall>j. j \<notin> set [0..<i] \<longrightarrow> slot w' t j = slot ?w t j)"
    by (rule slots_below [OF at]) (use below sl in auto)
  then obtain w' where w': "for_each (unref_slot x_ops t) [0..<i] ?w = Ret (w', 0)" "drv w' = drv ?w" "slot w' t i = f" using i(2) sl by auto
  have "unref_slot x_ops t i w' = Panic ''sched_lock: deadlock''"
  proof -
    have "op_close (x_ops (vf_ops f)) = Some (x_pipe_close pipe_write_close_fn)"
      using i(3) by (simp add: x_ops_def g_pipe_read_ops_def g_pipe_write_ops_def)
    moreover have "x_pipe_close pipe_write_close_fn (vf_priv f) (drv w) = Panic ''sched_lock: deadlock''"
      using i(4,5) lock by (simp add: x_pipe_close_def sched_wake_def lock_sched_def sched_of_def pipe_write_close_fn_def wake_reader_def)
    ultimately show ?thesis using w' i(3) by (simp add: unref_slot_def call_close_def g_pipe_write_ops_def)
  qed
  moreover have "[0..<PROC_MAX_FDS] = [0..<i] @ i # [Suc i..<PROC_MAX_FDS]"
    using i(1) upt_add_eq_append [of 0 i "PROC_MAX_FDS - i"] by (simp add: upt_conv_Cons)
  ultimately have "for_each (unref_slot x_ops t) [0..<PROC_MAX_FDS] ?w = Panic ''sched_lock: deadlock''"
    using w'(1) by (simp add: for_each_append)
  then show ?thesis using t by (simp add: fd_table_unref_def Let_def not_less)
qed

lemma world_simps [simp]:
  "sched_of (on_sched f w) = f (sched_of w)" "fd_tables (on_sched f w) = fd_tables w" "x_drv (drv (on_sched f w)) = x_drv (drv w)"
  "x_pollers (drv (on_sched f w)) = x_pollers (drv w)" "x_effects (drv (on_sched f w)) = x_effects (drv w)"
  "sched_of (emit es w) = sched_of w" "fd_tables (emit es w) = fd_tables w" "x_drv (drv (emit es w)) = x_drv (drv w)"
  "x_pollers (drv (emit es w)) = x_pollers (drv w)"
  "sched_of (free_dying w) = sched_of w" "fd_tables (free_dying w) = fd_tables w" "x_drv (drv (free_dying w)) = x_drv (drv w)"
  "x_pollers (drv (free_dying w)) = x_pollers (drv w)"
  by (simp_all add: sched_of_def on_sched_def emit_def free_dying_def Let_def)

lemma exit_deadlock:
  assumes "\<not> sched_lock (sched_of w)" "t_is_user (tk (sched_of w) (current (sched_of w)))"
    and "t = t_fd_table (tk (sched_of w) (current (sched_of w)))" "t \<noteq> 0" "fdt_refcount (fd_tables w t) \<le> 1"
    and "i < PROC_MAX_FDS" "vf_ops (slot w t i) = g_pipe_write_ops"
      "d_pipes (x_drv (drv w)) (vf_priv (slot w t i)) = Some q" "reader_waiting q \<noteq> 0"
    and "\<And>j. j < i \<Longrightarrow> vf_ops (slot w t j) \<notin> {g_pipe_read_ops, g_pipe_write_ops, g_memfd_ops}"
  shows "sched_exit w = Some (Panic ''sched_lock: deadlock'')"
proof -
  let ?s0 = "(sched_of w)\<lparr>sched_lock := True\<rparr>"
  let ?w = "free_dying (on_sched (\<lambda>_. ?s0) w)"
  have sl: "slot ?w t j = slot w t j" for j by (simp add: slot_def)
  have "fd_table_unref x_ops t ?w = Panic ''sched_lock: deadlock''"
    by (rule unref_deadlock [of ?w t i "slot w t i" q]) (use assms sl in simp_all)
  then show ?thesis using assms(1-3) by (simp add: sched_exit_def lock_sched_def Let_def exit_user_def)
qed


section \<open>Scans\<close>

lemma find_task_path:
  "tpath (tnexts s) (v # vs) stop \<Longrightarrow> find_task P stop (t_next (tk s v)) s = Some (case find P vs of None \<Rightarrow> 0 | Some t \<Rightarrow> t)"
proof (induction vs arbitrary: v)
  case Nil
  then show ?case by (subst find_task.simps) (simp add: tnexts_def)
next
  case (Cons u vs)
  have "t_next (tk s v) = u" "u \<noteq> stop" "tpath (tnexts s) (u # vs) stop" using Cons.prems tnexts_def [of s v] by simp_all
  then show ?case using Cons.IH [of u] by (subst find_task.simps) simp
qed

lemma find_task_ring: "ring_at s T c us \<Longrightarrow> find_task P c (t_next (tk s c)) s = Some (case find P us of None \<Rightarrow> 0 | Some t \<Rightarrow> t)"
  by (simp add: ring_at_def find_task_path)

lemma find_unique: "t \<in> set us \<Longrightarrow> (\<And>u. u \<in> set us \<Longrightarrow> P u = (u = t)) \<Longrightarrow> find P us = Some t"
  by (induction us) auto

fun each_list :: "(u64 \<Rightarrow> world \<Rightarrow> world kres) \<Rightarrow> u64 list \<Rightarrow> world \<Rightarrow> world kres" where
  "each_list body [] w = Ret w"
| "each_list body (t # ts) w = (case body t w of Panic m \<Rightarrow> Panic m | Ret w' \<Rightarrow> each_list body ts w')"

lemma each_task_path:
  assumes "tpath (tnexts (sched_of w)) (v # vs) stop" "\<And>t w w'. body t w = Ret w' \<Longrightarrow> tnexts (sched_of w') = tnexts (sched_of w)"
  shows "each_task body stop (t_next (tk (sched_of w) v)) w = Some (each_list body vs w)"
  using assms(1)
proof (induction vs arbitrary: v w)
  case Nil
  then show ?case by (subst each_task.simps) (simp add: tnexts_def)
next
  case (Cons u vs)
  have u: "t_next (tk (sched_of w) v) = u" "u \<noteq> stop" "tpath (tnexts (sched_of w)) (u # vs) stop"
    using Cons.prems tnexts_def [of "sched_of w" v] by simp_all
  show ?case
  proof (cases "body u w")
    case (Panic m)
    then show ?thesis using u by (subst each_task.simps) simp
  next
    case (Ret w')
    then have "each_task body stop (t_next (tk (sched_of w') u)) w' = Some (each_list body vs w')"
      using Cons.IH u(3) assms(2) by simp
    then show ?thesis using u Ret by (subst each_task.simps) simp
  qed
qed

lemma find_prev_path: "tpath (tnexts s) (v # vs) t \<Longrightarrow> find_prev t v s = Some (last (v # vs))"
proof (induction vs arbitrary: v)
  case Nil
  then show ?case by (subst find_prev.simps) (simp add: tnexts_def)
next
  case (Cons u vs)
  have "t_next (tk s v) = u" "u \<noteq> t" "tpath (tnexts s) (u # vs) t" using Cons.prems tnexts_def [of s v] by simp_all
  then show ?case using Cons.IH [of u] by (subst find_prev.simps) simp
qed

lemma tpath_butlast:
  assumes "tpath N (v # vs) t" "distinct (v # vs)" "vs \<noteq> []" "N' = N(last (v # vs) := d)" "d \<notin> set vs"
  shows "tpath N' (v # vs) d"
  using assms
proof (induction vs arbitrary: v)
  case (Cons u vs)
  show ?case
  proof (cases "vs = []")
    case True
    then show ?thesis using Cons.prems by auto
  next
    case False
    then have "tpath N' (u # vs) d" using Cons by simp
    moreover have "v \<noteq> last (u # vs)" using Cons.prems(2) last_in_set [of "u # vs"] by (metis distinct.simps(2) list.distinct(1))
    ultimately show ?thesis using Cons.prems by auto
  qed
qed simp

text \<open>Taking \<open>t\<close> out of the ring: its predecessor is linked to its successor.\<close>

lemma ring_remove:
  assumes "ring_at s T t (u # us)" "tnexts s' = (tnexts s)(last (u # us) := tnexts s t)"
  shows "ring_at s' (T - {t}) u us"
proof -
  have p: "tpath (tnexts s) (u # us) t" "tnexts s t = u" "distinct (t # u # us)" "set (t # u # us) = T" using assms(1) by (auto simp: ring_at_def)
  have "tpath (tnexts s') (u # us) u"
  proof (cases "us = []")
    case True
    then show ?thesis using assms(2) p by simp
  next
    case False
    then show ?thesis using tpath_butlast [OF p(1) _ False] assms(2) p(2,3) by simp
  qed
  then show ?thesis using p(3,4) by (auto simp: ring_at_def)
qed


section \<open>Telling the parent\<close>

lemma strip_state [simp]: "strip (x\<lparr>t_state := st\<rparr>) = (strip x)\<lparr>t_state := st\<rparr>"
  "strip (x\<lparr>pending_signals := g\<rparr>) = (strip x)\<lparr>pending_signals := g\<rparr>" "strip (x\<lparr>t_fd_table := a\<rparr>) = (strip x)\<lparr>t_fd_table := a\<rparr>"
  "strip (x\<lparr>t_ppid := q\<rparr>) = (strip x)\<lparr>t_ppid := q\<rparr>" "pending_signals (strip x) = pending_signals x"
  by (simp_all add: strip_def)

text \<open>Tasks that agree up to their place in the run list agree in all other fields.\<close>

lemma strip_moreD:
  assumes "strip x = y"
  shows "t_is_user x = t_is_user y" "t_state x = t_state y" "t_pid x = t_pid y" "t_ppid x = t_ppid y" "t_tgid x = t_tgid y"
    "waiting_for x = waiting_for y" "exit_status x = exit_status y" "stop_signum x = stop_signum y" "t_next x = t_next y"
  using assms by (auto simp: strip_def)

lemma strip_moreI [simp]: "t_tgid (strip x) = t_tgid x" "t_ppid (strip x) = t_ppid x" "waiting_for (strip x) = waiting_for x"
  "exit_status (strip x) = exit_status x" "stop_signum (strip x) = stop_signum x" "t_next (strip x) = t_next x"
  by (simp_all add: strip_def)

lemma kill_fields [simp]: "t_is_user (kill_effect W n x) = t_is_user x" "t_pid (kill_effect W n x) = t_pid x"
  "t_ppid (kill_effect W n x) = t_ppid x" "t_tgid (kill_effect W n x) = t_tgid x" "waiting_for (kill_effect W n x) = waiting_for x"
  "exit_status (kill_effect W n x) = exit_status x" "t_next (kill_effect W n x) = t_next x"
  "t_state (kill_effect W n x) = (if t_state x \<in> W then TASK_RUNNING else t_state x)"
  by (simp_all add: kill_effect_def)

lemma send_locked:
  assumes L: "links_ok s rs T" and p: "p \<in> T" "t_is_user (tk s p)" "t_pid (tk s p) = pid" "pid \<noteq> 0" and n: "0 < n" "n < 64"
    and uniq: "inj_on (\<lambda>u. t_pid (tk s u)) {u \<in> T. t_is_user (tk s u)}"
  shows "\<exists>s'. signal_send_pid_locked pid n s = Some (Ret s')
    \<and> links_ok s' (if t_state (tk s p) = TASK_BLOCKED \<and> p \<notin> set rs then rs @ [p] else rs) T \<and> current s' = current s \<and> sched_lock s' = sched_lock s
    \<and> (\<forall>u. strip (tk s' u) = (if u = p then kill_effect {TASK_BLOCKED} (nat n) (strip (tk s u)) else strip (tk s u)))"
proof -
  let ?b = "send_pid_body (\<lambda>t s. Ret (sched_wake_locked t s)) pid (nat n)"
  let ?s1 = "upd_task p (\<lambda>x. x\<lparr>pending_signals := pending_signals x OR sigbit (nat n)\<rparr>) s"
  let ?s' = "if t_state (tk ?s1 p) = TASK_BLOCKED then sched_wake_locked p ?s1 else ?s1"
  have l: "tnexts s1 = tnexts s" if "?b t s = Ret (s1, e)" for t s s1 e
    using that by (auto simp: send_pid_body_def Let_def sched_wake_locked_def upd_task_links split: if_splits)
  obtain us where us: "ring_at s T (current s) us" using L by (auto simp: links_ok_def)
  let ?vs = "current s # us"
  have vs: "set ?vs = T" "walk_tasks ?b (current s) (current s) s = Some (walk_list ?b ?vs s)"
    using us walk_tasks_list [of s "current s" us "current s" ?b] l by (auto simp: ring_at_def)
  obtain as bs where ab: "?vs = as @ p # bs" using p(1) vs(1) by (metis split_list)
  have "?b u s = Ret (s, False)" if u: "u \<in> set as" for u
  proof -
    have "u \<noteq> p" "u \<in> T" using u us ab vs(1) by (auto simp: ring_at_def)
    then show ?thesis using uniq p by (auto simp: send_pid_body_def inj_on_def)
  qed
  then have "walk_list ?b ?vs s = walk_list ?b (p # bs) s" unfolding ab by (intro walk_list_skip) auto
  moreover have "?b p s = Ret (?s', True)" using p by (simp add: send_pid_body_def Let_def)
  moreover have "current s \<noteq> 0" using links_okD(4,7) [OF L] by blast
  ultimately have e: "signal_send_pid_locked pid n s = Some (Ret ?s')" using vs(2) p n by (simp add: signal_send_pid_locked_def)
  have L1: "links_ok (upd_task p (\<lambda>x. x\<lparr>t_state := TASK_RUNNING\<rparr>) ?s1) rs T" "links_ok ?s1 rs T"
    by (intro links_upd L; simp)+
  have "links_ok ?s' (if t_state (tk s p) = TASK_BLOCKED \<and> p \<notin> set rs then rs @ [p] else rs) T"
    using links_insert [OF L1(1) p(1)] L1(2) by (auto simp: sched_wake_locked_def split: if_splits)
  moreover have "strip (tk ?s' u) = (if u = p then kill_effect {TASK_BLOCKED} (nat n) (strip (tk s u)) else strip (tk s u))" for u
    by (simp add: sched_wake_locked_def tk_upd_task kill_effect_def)
  ultimately show ?thesis using e by (auto simp: sched_wake_locked_def)
qed

lemma exit_user_parent:
  assumes lock: "sched_lock (sched_of w)" and L: "links_ok (sched_of w) rs T" and c: "c = current (sched_of w)"
    and p: "p \<in> T" "p \<noteq> c" "t_is_user (tk (sched_of w) p)" "t_pid (tk (sched_of w) p) = t_ppid (tk (sched_of w) c)"
      "t_ppid (tk (sched_of w) c) \<noteq> 0" "t_state (tk (sched_of w) p) = TASK_RUNNING \<or> t_state (tk (sched_of w) p) = TASK_BLOCKED"
      "waiting_for (tk (sched_of w) p) = 0 \<or> waiting_for (tk (sched_of w) p) = t_pid (tk (sched_of w) c)"
    and run: "t_state (tk (sched_of w) p) = TASK_RUNNING \<Longrightarrow> p \<in> set rs"
    and uniq: "inj_on (\<lambda>u. t_pid (tk (sched_of w) u)) {u \<in> T. t_is_user (tk (sched_of w) u)}"
    and close: "fd_table_unref x_ops (t_fd_table (tk (sched_of w) c)) w = Ret (w1, b)"
  shows "\<exists>w'. exit_user w = Some (Ret w') \<and> links_ok (sched_of w') (let r = remove1 c rs in if p \<in> set r then r else r @ [p]) T
    \<and> current (sched_of w') = p \<and> \<not> sched_lock (sched_of w')
    \<and> (\<forall>u. strip (tk (sched_of w') u) = (if u = c then (strip (tk (sched_of w) u))\<lparr>t_fd_table := 0, t_state := TASK_ZOMBIE\<rparr>
        else if u = p then kill_effect {TASK_BLOCKED} SIGCHLD (strip (tk (sched_of w) u)) else strip (tk (sched_of w) u)))"
proof -
  let ?s = "sched_of w" and ?s1 = "zombify c (sched_of w)"
  have cT: "c \<in> T" using links_okD(7) [OF L] c by simp
  have L1: "links_ok ?s1 (remove1 c rs) T" unfolding zombify_def by (intro links_remove links_upd L cT) simp
  have k1: "strip (tk ?s1 u) = (if u = c then (strip (tk ?s u))\<lparr>t_fd_table := 0, t_state := TASK_ZOMBIE\<rparr> else strip (tk ?s u))" for u
    by (simp add: zombify_def tk_upd_task)
  have f1: "current ?s1 = c" "sched_lock ?s1" using c lock by (simp_all add: zombify_def)
  have same: "t_is_user (tk ?s1 u) = t_is_user (tk ?s u)" "t_pid (tk ?s1 u) = t_pid (tk ?s u)" "t_ppid (tk ?s1 u) = t_ppid (tk ?s u)" for u
    using strip_moreD [OF k1, of u] by simp_all
  let ?r = "remove1 c rs"
  let ?rs = "if p \<in> set ?r then ?r else ?r @ [p]"
  have st: "t_state (tk ?s1 p) = t_state (tk ?s p)" using strip_moreD [OF k1, of p] p(2) by simp
  have rs: "(if t_state (tk ?s1 p) = TASK_BLOCKED \<and> p \<notin> set ?r then ?r @ [p] else ?r) = ?rs"
    using p(2,6) run st by (auto simp: in_set_remove1)
  have "\<exists>s'. signal_send_pid_locked (t_ppid (tk ?s c)) (int SIGCHLD) ?s1 = Some (Ret s')
    \<and> links_ok s' (if t_state (tk ?s1 p) = TASK_BLOCKED \<and> p \<notin> set ?r then ?r @ [p] else ?r) T \<and> current s' = current ?s1
    \<and> sched_lock s' = sched_lock ?s1
    \<and> (\<forall>u. strip (tk s' u) = (if u = p then kill_effect {TASK_BLOCKED} (nat (int SIGCHLD)) (strip (tk ?s1 u)) else strip (tk ?s1 u)))"
    by (rule send_locked [OF L1 p(1)]) (use p uniq in \<open>simp_all add: same SIGCHLD_def\<close>)
  then obtain s2 where s2: "signal_send_pid_locked (t_ppid (tk ?s c)) (int SIGCHLD) ?s1 = Some (Ret s2)"
      "links_ok s2 (if t_state (tk ?s1 p) = TASK_BLOCKED \<and> p \<notin> set ?r then ?r @ [p] else ?r) T" "current s2 = current ?s1"
      "\<forall>u. strip (tk s2 u) = (if u = p then kill_effect {TASK_BLOCKED} (nat (int SIGCHLD)) (strip (tk ?s1 u)) else strip (tk ?s1 u))"
    by blast
  note s2 = s2(1) s2(2) [unfolded rs] s2(3) [unfolded f1(1)] s2(4) [unfolded nat_int, rule_format]
  have k2: "strip (tk s2 u) = (if u = c then (strip (tk ?s u))\<lparr>t_fd_table := 0, t_state := TASK_ZOMBIE\<rparr>
      else if u = p then kill_effect {TASK_BLOCKED} SIGCHLD (strip (tk ?s u)) else strip (tk ?s u))" for u
    unfolding s2(4) k1 using p(2) by simp
  note F = strip_moreD [OF k2]
  obtain us where us: "ring_at s2 T c us" using s2(2,3) by (auto simp: links_ok_def)
  have pu: "p \<in> set us" "\<And>u. u \<in> set us \<Longrightarrow> u \<in> T \<and> u \<noteq> c \<and> u \<noteq> 0"
    using us p(1,2) links_okD(4) [OF s2(2)] by (auto simp: ring_at_def)
  have only: "t_is_user (tk ?s u) \<and> t_pid (tk ?s u) = t_ppid (tk ?s c) \<longleftrightarrow> u = p" if "u \<in> T" for u
    using uniq p(1,3,4) that by (auto simp: inj_on_def)
  have "find (\<lambda>t. t_is_user (tk s2 t) \<and> t_state (tk s2 t) = TASK_RUNNING \<and> t_pid (tk s2 t) = t_ppid (tk s2 c)
      \<and> (waiting_for (tk s2 t) = 0 \<or> waiting_for (tk s2 t) = t_pid (tk s2 c))) us = Some p"
    by (rule find_unique [OF pu(1)]) (use pu(2) only p(2,6,7) in \<open>auto simp: F\<close>)
  then have wp: "woken_parent s2 = Some p" using find_task_ring [OF us] s2(3) by (simp add: woken_parent_def Let_def)
  have "find (\<lambda>t. t_is_user (tk s2 t) \<and> t_state (tk s2 t) \<noteq> TASK_ZOMBIE) us \<noteq> None"
    using pu(1) p(2,3,6) by (auto simp: find_None_iff F)
  then obtain l where l: "find (\<lambda>t. t_is_user (tk s2 t) \<and> t_state (tk s2 t) \<noteq> TASK_ZOMBIE) us = Some l" by blast
  then have "l \<noteq> 0" using pu(2) by (auto simp: find_Some_iff)
  then have lu: "live_user s2 = Some l" "l \<noteq> 0" using l find_task_ring [OF us] s2(3) by (simp_all add: live_user_def)
  let ?w' = "on_sched (\<lambda>s. unlock_sched (s\<lparr>current := p\<rparr>)) (emit [] (on_sched (\<lambda>_. s2) w1))"
  have sw1: "sched_of w1 = ?s" using unref_keeps(2) [OF lock close] .
  have "exit_user w = Some (Ret ?w')"
    using close p(2,5) s2(1) wp lu f1(1) same c [symmetric] links_okD(4) [OF L p(1)]
    by (simp add: exit_user_def Let_def sw1)
  moreover have "links_ok (sched_of ?w') ?rs T"
    by (rule links_ok_cong [OF s2(2)]) (use p(1) in \<open>simp_all add: unlock_sched_def\<close>)
  moreover have "strip (tk (sched_of ?w') u) = strip (tk s2 u)" for u by (simp add: unlock_sched_def)
  ultimately show ?thesis using k2 by (intro exI [of _ ?w']) (simp add: unlock_sched_def Let_def)
qed


section \<open>The way to the end\<close>

lemma world_norm [simp]: "on_sched f (on_sched g w) = on_sched (\<lambda>s. f (g s)) w" "on_sched (\<lambda>_. sched_of w) w = w" "emit [] w = w"
  by (simp_all add: on_sched_def sched_of_def emit_def)

lemma each_upd:
  assumes body: "\<And>t w. Q w \<Longrightarrow> t \<in> T \<Longrightarrow> body t w = Ret (if P (tk (sched_of w) t) then on_sched (upd_task t f) w else w)"
    and keep: "\<And>t w. Q w \<Longrightarrow> Q (on_sched (upd_task t f) w)" and Q: "Q w" "distinct vs" "set vs \<subseteq> T"
  shows "\<exists>s'. each_list body vs w = Ret (on_sched (\<lambda>_. s') w) \<and> current s' = current (sched_of w) \<and> sched_lock s' = sched_lock (sched_of w)
    \<and> (\<forall>u. tk s' u = (if u \<in> set vs \<and> P (tk (sched_of w) u) then f (tk (sched_of w) u) else tk (sched_of w) u))"
  using Q
proof (induction vs arbitrary: w)
  case Nil
  show ?case by (intro exI [of _ "sched_of w"]) simp
next
  case (Cons v vs)
  let ?w1 = "if P (tk (sched_of w) v) then on_sched (upd_task v f) w else w"
  have Q1: "Q ?w1" and d: "distinct vs" "set vs \<subseteq> T" using Cons.prems keep by simp_all
  obtain s' where s': "each_list body vs ?w1 = Ret (on_sched (\<lambda>_. s') ?w1)" "current s' = current (sched_of ?w1)"
      "sched_lock s' = sched_lock (sched_of ?w1)"
      "\<And>u. tk s' u = (if u \<in> set vs \<and> P (tk (sched_of ?w1) u) then f (tk (sched_of ?w1) u) else tk (sched_of ?w1) u)"
    using Cons.IH [OF Q1 d] by blast
  have "tk (sched_of ?w1) u = (if u = v \<and> P (tk (sched_of w) v) then f (tk (sched_of w) u) else tk (sched_of w) u)" for u
    by (simp add: tk_upd_task)
  then have "tk s' u = (if u \<in> set (v # vs) \<and> P (tk (sched_of w) u) then f (tk (sched_of w) u) else tk (sched_of w) u)" for u
    using s'(4) [of u] Cons.prems(2) by (cases "u = v") simp_all
  then show ?case using s' body [OF Cons.prems(1), of v] Cons.prems(3) by (intro exI [of _ s']) auto
qed

lemma each_upd_ring:
  assumes L: "links_ok (sched_of w) rs T" and c: "c = current (sched_of w)"
    and body: "\<And>t w. Q w \<Longrightarrow> t \<in> T \<Longrightarrow> body t w = Ret (if P (tk (sched_of w) t) then on_sched (upd_task t f) w else w)"
    and keep: "\<And>t w. Q w \<Longrightarrow> Q (on_sched (upd_task t f) w)" and Q: "Q w"
    and links: "\<And>t w w'. body t w = Ret w' \<Longrightarrow> tnexts (sched_of w') = tnexts (sched_of w)"
    and f: "\<And>x. t_next (f x) = t_next x \<and> next_run (f x) = next_run x \<and> prev_run (f x) = prev_run x"
  shows "\<exists>s'. each_task body c (t_next (tk (sched_of w) c)) w = Some (Ret (on_sched (\<lambda>_. s') w)) \<and> links_ok s' rs T
    \<and> current s' = c \<and> sched_lock s' = sched_lock (sched_of w)
    \<and> (\<forall>u. tk s' u = (if u \<in> T - {c} \<and> P (tk (sched_of w) u) then f (tk (sched_of w) u) else tk (sched_of w) u))"
proof -
  obtain us where us: "ring_at (sched_of w) T c us" using L c by (auto simp: links_ok_def)
  then have su: "distinct us" "set us = T - {c}" by (auto simp: ring_at_def)
  have e: "each_task body c (t_next (tk (sched_of w) c)) w = Some (each_list body us w)"
    using us by (simp add: ring_at_def each_task_path links)
  obtain s' where s': "each_list body us w = Ret (on_sched (\<lambda>_. s') w)" "current s' = current (sched_of w)" "sched_lock s' = sched_lock (sched_of w)"
      "\<And>u. tk s' u = (if u \<in> set us \<and> P (tk (sched_of w) u) then f (tk (sched_of w) u) else tk (sched_of w) u)"
    using each_upd [of Q T body P f w us] body keep Q su by blast
  have "links_ok s' rs T"
    by (rule links_ok_cong [OF L]) (use s'(2) links_okD(7) [OF L] in \<open>auto simp: nexts_def prevs_def tnexts_def fun_eq_iff s'(4) f\<close>)
  then show ?thesis using e s' su(2) c by (intro exI [of _ s']) simp
qed

lemma reparent_ring:
  assumes L: "links_ok (sched_of w) rs T" and c: "c = current (sched_of w)"
  shows "\<exists>s'. reparent c w = Some (Ret (on_sched (\<lambda>_. s') w)) \<and> links_ok s' rs T \<and> current s' = c \<and> sched_lock s' = sched_lock (sched_of w)
    \<and> (\<forall>u. tk s' u = (if u \<in> T - {c} \<and> t_is_user (tk (sched_of w) u) \<and> t_ppid (tk (sched_of w) u) = t_pid (tk (sched_of w) c)
        then (tk (sched_of w) u)\<lparr>t_ppid := 1\<rparr> else tk (sched_of w) u))"
  unfolding reparent_def
  by (rule each_upd_ring [OF L c, where Q = "\<lambda>_. True"]) (auto simp: reparent_body_def upd_task_links split: if_splits)

lemma bind_Ret: "bind_step (Some (Ret w)) f = f w"
  by (simp add: bind_step_def)

text \<open>What \<^verbatim>\<open>exit\<close> and \<^verbatim>\<open>exit_group\<close> have in common, for a process that is neither process 1 nor a session leader.\<close>

definition parent_of :: "world \<Rightarrow> u64 set \<Rightarrow> u64 \<Rightarrow> u64 \<Rightarrow> bool" where
  "parent_of w T c p \<longleftrightarrow> p \<in> T \<and> p \<noteq> c \<and> t_is_user (tk (sched_of w) p) \<and> t_pid (tk (sched_of w) p) = t_ppid (tk (sched_of w) c)
     \<and> t_ppid (tk (sched_of w) c) \<noteq> 0 \<and> (t_state (tk (sched_of w) p) = TASK_RUNNING \<or> t_state (tk (sched_of w) p) = TASK_BLOCKED)
     \<and> (waiting_for (tk (sched_of w) p) = 0 \<or> waiting_for (tk (sched_of w) p) = t_pid (tk (sched_of w) c))
     \<and> inj_on (\<lambda>u. t_pid (tk (sched_of w) u)) {u \<in> T. t_is_user (tk (sched_of w) u)}"

lemma exit_tail:
  assumes L: "links_ok (sched_of w) rs T" and lock: "\<not> sched_lock (sched_of w)" and c: "c = current (sched_of w)"
      "t_is_user (tk (sched_of w) c)" "t_pid (tk (sched_of w) c) \<noteq> t_sid (tk (sched_of w) c)"
    and p: "parent_of w T c p" and run: "t_state (tk (sched_of w) p) = TASK_RUNNING \<Longrightarrow> p \<in> set rs"
    and close: "fd_table_unref x_ops (t_fd_table (tk (sched_of w) c)) (on_sched (\<lambda>s. s\<lparr>sched_lock := True\<rparr>) w) = Ret (wc, b)"
  shows "\<exists>w'. bind_step (hangup c w) (\<lambda>w2. bind_step (reparent c w2) sched_exit) = Some (Ret w')
    \<and> links_ok (sched_of w') (let r = remove1 c rs in if p \<in> set r then r else r @ [p]) T \<and> current (sched_of w') = p \<and> \<not> sched_lock (sched_of w')
    \<and> t_ppid (tk (sched_of w') c) = t_ppid (tk (sched_of w) c)
    \<and> (\<forall>u. t_state (tk (sched_of w') u) = (if u = c then TASK_ZOMBIE else if u = p then TASK_RUNNING else t_state (tk (sched_of w) u))
        \<and> exit_status (tk (sched_of w') u) = exit_status (tk (sched_of w) u)
        \<and> t_is_user (tk (sched_of w') u) = t_is_user (tk (sched_of w) u) \<and> t_pid (tk (sched_of w') u) = t_pid (tk (sched_of w) u))"
proof -
  let ?s = "sched_of w"
  obtain s1 where s1: "reparent c w = Some (Ret (on_sched (\<lambda>_. s1) w))" "links_ok s1 rs T" "current s1 = c" "sched_lock s1 = sched_lock ?s"
      "\<And>u. tk s1 u = (if u \<in> T - {c} \<and> t_is_user (tk ?s u) \<and> t_ppid (tk ?s u) = t_pid (tk ?s c) then (tk ?s u)\<lparr>t_ppid := 1\<rparr> else tk ?s u)"
    using reparent_ring [OF L c(1)] by blast
  let ?sl = "s1\<lparr>sched_lock := True\<rparr>"
  let ?W = "free_dying (on_sched (\<lambda>_. ?sl) (on_sched (\<lambda>_. s1) w))"
  have f: "t_is_user (tk s1 u) = t_is_user (tk ?s u)" "t_pid (tk s1 u) = t_pid (tk ?s u)" "t_state (tk s1 u) = t_state (tk ?s u)"
    "waiting_for (tk s1 u) = waiting_for (tk ?s u)" "exit_status (tk s1 u) = exit_status (tk ?s u)" for u by (simp_all add: s1(5))
  have fc: "tk s1 c = tk ?s c" by (simp add: s1(5))
  have "hangup c w = Some (Ret w)" using c(3) by (simp add: hangup_def Let_def)
  then have e: "bind_step (hangup c w) (\<lambda>w2. bind_step (reparent c w2) sched_exit) = exit_user ?W"
    using lock s1(1,3,4) fc c(2) by (simp add: bind_step_def sched_exit_def lock_sched_def Let_def)
  let ?wl = "on_sched (\<lambda>s. s\<lparr>sched_lock := True\<rparr>) w"
  have "rebase (drv ?W) ?wl = ?W" by (simp add: rebase_def)
  then have cl: "fd_table_unref x_ops (t_fd_table (tk (sched_of ?W) c)) ?W = Ret (rebase (drv ?W) wc, b)"
    using unref_locked [of ?wl "drv ?W" "t_fd_table (tk ?s c)"] close fc by (simp add: sched_of_def [symmetric])
  have L': "links_ok (sched_of ?W) rs T" by (rule links_ok_cong [OF s1(2)]) (use s1(3) links_okD(7) [OF s1(2)] in simp_all)
  have "\<exists>w'. exit_user ?W = Some (Ret w') \<and> links_ok (sched_of w') (let r = remove1 c rs in if p \<in> set r then r else r @ [p]) T
    \<and> current (sched_of w') = p \<and> \<not> sched_lock (sched_of w')
    \<and> (\<forall>u. strip (tk (sched_of w') u) = (if u = c then (strip (tk (sched_of ?W) u))\<lparr>t_fd_table := 0, t_state := TASK_ZOMBIE\<rparr>
        else if u = p then kill_effect {TASK_BLOCKED} SIGCHLD (strip (tk (sched_of ?W) u)) else strip (tk (sched_of ?W) u)))"
    by (rule exit_user_parent [OF _ L' _ _ _ _ _ _ _ _ _ _ cl]) (use p run s1(3) in \<open>simp_all add: f fc parent_of_def\<close>)
  then obtain w' where w': "exit_user ?W = Some (Ret w')" "links_ok (sched_of w') (let r = remove1 c rs in if p \<in> set r then r else r @ [p]) T"
      "current (sched_of w') = p" "\<not> sched_lock (sched_of w')"
      "\<And>u. strip (tk (sched_of w') u) = (if u = c then (strip (tk (sched_of ?W) u))\<lparr>t_fd_table := 0, t_state := TASK_ZOMBIE\<rparr>
        else if u = p then kill_effect {TASK_BLOCKED} SIGCHLD (strip (tk (sched_of ?W) u)) else strip (tk (sched_of ?W) u))" by blast
  note G = strip_moreD [OF w'(5)]
  have "t_state (tk ?s p) = TASK_BLOCKED \<or> t_state (tk ?s p) = TASK_RUNNING" using p by (auto simp: parent_of_def)
  then show ?thesis using e w'(1-4) fc by (intro exI [of _ w']) (auto simp: G f)
qed

lemma reap_inv:
  assumes inv: "sched_inv (sched_of w) rs T" and c: "c \<in> T" "t_state (tk (sched_of w) c) \<noteq> TASK_RUNNING"
  shows "\<exists>w'. reap (current (sched_of w)) c w = Some w' \<and> sched_inv (sched_of w') rs (T - {c})"
proof -
  let ?s = "sched_of w" and ?p = "current (sched_of w)"
  have L: "lists_ok ?s rs T" "?p \<in> set rs" using inv by (auto simp: sched_inv_def)
  note D = lists_okD [OF L(1)]
  have pT: "?p \<in> T" "?p \<noteq> c" using L(2) D(2) D(3) [OF c(1)] c(2) by auto
  obtain us where "ring_at ?s T ?p us" using L(1) by (auto simp: lists_ok_def links_ok_def)
  then obtain vs where vs: "ring_at ?s T c vs" using ring_rotate c(1) by blast
  then have "vs \<noteq> []" using pT by (auto simp: ring_at_def)
  then obtain x xs where xs: "vs = x # xs" by (cases vs) auto
  have prev: "find_prev c c ?s = Some (last vs)" using find_prev_path [of ?s c vs c] vs xs by (simp add: ring_at_def)
  let ?s' = "upd_task ?p (\<lambda>y. y\<lparr>waiting_for := 0\<rparr>) (upd_task (last vs) (\<lambda>y. y\<lparr>t_next := t_next (tk ?s c)\<rparr>) ?s)"
  have n: "tnexts ?s' = (tnexts ?s)(last (x # xs) := tnexts ?s c)" "nexts ?s' = nexts ?s" "prevs ?s' = prevs ?s"
    using xs by (auto simp: tnexts_def nexts_def prevs_def tk_upd_task fun_eq_iff)
  have "ring_at ?s' (T - {c}) x xs" using ring_remove [of ?s T c x xs ?s'] vs xs n(1) by simp
  then obtain ys where ys: "ring_at ?s' (T - {c}) ?p ys" using ring_rotate pT by blast
  have st: "t_state (tk ?s' u) = t_state (tk ?s u)" "next_run (tk ?s' u) = next_run (tk ?s u)" for u by (auto simp: tk_upd_task)
  have "set rs \<subseteq> T - {c}" using D(2) D(3) [OF c(1)] c(2) by auto
  then have "lists_ok ?s' rs (T - {c})" using L(1) ys n st by (auto simp: lists_ok_def links_ok_def run_list_def)
  then have "sched_inv ?s' rs (T - {c})" using inv by (simp add: sched_inv_def)
  then show ?thesis using prev by (simp add: reap_def Let_def)
qed

lemma status_world:
  fixes w :: world and c v :: u64
  defines "w0 \<equiv> set_status c v w"
  shows "tk (sched_of w0) u = (if u = c then (tk (sched_of w) u)\<lparr>exit_status := v AND 0xFF\<rparr> else tk (sched_of w) u)"
    "current (sched_of w0) = current (sched_of w)" "sched_lock (sched_of w0) = sched_lock (sched_of w)"
    "links_ok (sched_of w) rs T \<Longrightarrow> links_ok (sched_of w0) rs T" "parent_of w0 T c p = parent_of w T c p"
proof -
  show t: "tk (sched_of w0) u = (if u = c then (tk (sched_of w) u)\<lparr>exit_status := v AND 0xFF\<rparr> else tk (sched_of w) u)" for u
    by (simp add: w0_def set_status_def tk_upd_task)
  show "current (sched_of w0) = current (sched_of w)" "sched_lock (sched_of w0) = sched_lock (sched_of w)"
    "links_ok (sched_of w) rs T \<Longrightarrow> links_ok (sched_of w0) rs T" by (simp_all add: w0_def set_status_def links_upd)
  have "t_is_user (tk (sched_of w0) u) = t_is_user (tk (sched_of w) u)" "t_pid (tk (sched_of w0) u) = t_pid (tk (sched_of w) u)"
    "t_ppid (tk (sched_of w0) u) = t_ppid (tk (sched_of w) u)" "t_state (tk (sched_of w0) u) = t_state (tk (sched_of w) u)"
    "waiting_for (tk (sched_of w0) u) = waiting_for (tk (sched_of w) u)" for u by (simp_all add: t)
  then show "parent_of w0 T c p = parent_of w T c p" by (simp add: parent_of_def)
qed

text \<open>Closing a table does not depend on the scheduler's tasks, as long as the lock is held.\<close>

lemma unref_other:
  assumes "fd_table_unref x_ops t (on_sched (\<lambda>s. s\<lparr>sched_lock := True\<rparr>) w) = Ret (wc, b)" "w' = on_sched f w"
  shows "\<exists>wc'. fd_table_unref x_ops t (on_sched (\<lambda>s. s\<lparr>sched_lock := True\<rparr>) w') = Ret (wc', b)"
proof -
  let ?l = "\<lambda>w. on_sched (\<lambda>s. s\<lparr>sched_lock := True\<rparr>) w"
  have "rebase (drv (?l w')) (?l w) = ?l w'" using assms(2) by (simp add: rebase_def)
  then show ?thesis using unref_locked [of "?l w" "drv (?l w')" t] assms by (simp add: sched_of_def [symmetric])
qed

lemma sys_exit_parent:
  assumes inv: "sched_inv (sched_of w) rs T" and c: "c = current (sched_of w)"
      "t_is_user (tk (sched_of w) c)" "clear_child_tid (tk (sched_of w) c) = 0" "t_pid (tk (sched_of w) c) \<noteq> t_sid (tk (sched_of w) c)"
      "t_pid (tk (sched_of w) c) \<noteq> 1"
    and p: "parent_of w T c p"
    and close: "fd_table_unref x_ops (t_fd_table (tk (sched_of w) c)) (on_sched (\<lambda>s. s\<lparr>sched_lock := True\<rparr>) w) = Ret (wc, b)"
  shows "\<exists>w' rs'. sys_exit v w = Some (Ret w') \<and> sched_inv (sched_of w') rs' T \<and> current (sched_of w') = p
    \<and> t_state (tk (sched_of w') c) = TASK_ZOMBIE \<and> exit_status (tk (sched_of w') c) = v AND 0xFF \<and> t_ppid (tk (sched_of w') c) = t_ppid (tk (sched_of w) c)
    \<and> (\<forall>u. t_is_user (tk (sched_of w') u) = t_is_user (tk (sched_of w) u) \<and> t_pid (tk (sched_of w') u) = t_pid (tk (sched_of w) u))"
proof -
  let ?w = "set_status c v w" and ?rs = "let r = remove1 c rs in if p \<in> set r then r else r @ [p]"
  note W = status_world [where w = w and c = c and v = v]
  have L: "lists_ok (sched_of w) rs T" using inv by (simp add: sched_inv_def)
  note D = lists_okD [OF L]
  have pT: "p \<in> T" "p \<noteq> c" using p by (auto simp: parent_of_def)
  obtain wc' where cl: "fd_table_unref x_ops (t_fd_table (tk (sched_of ?w) c)) (on_sched (\<lambda>s. s\<lparr>sched_lock := True\<rparr>) ?w) = Ret (wc', b)"
    using unref_other [OF close] W(1) [of c] by (auto simp: set_status_def)
  have "\<exists>w'. bind_step (hangup c ?w) (\<lambda>w2. bind_step (reparent c w2) sched_exit) = Some (Ret w')
    \<and> links_ok (sched_of w') ?rs T \<and> current (sched_of w') = p \<and> \<not> sched_lock (sched_of w')
    \<and> t_ppid (tk (sched_of w') c) = t_ppid (tk (sched_of ?w) c)
    \<and> (\<forall>u. t_state (tk (sched_of w') u) = (if u = c then TASK_ZOMBIE else if u = p then TASK_RUNNING else t_state (tk (sched_of ?w) u))
        \<and> exit_status (tk (sched_of w') u) = exit_status (tk (sched_of ?w) u)
        \<and> t_is_user (tk (sched_of w') u) = t_is_user (tk (sched_of ?w) u) \<and> t_pid (tk (sched_of w') u) = t_pid (tk (sched_of ?w) u))"
    by (rule exit_tail [OF W(4) [OF lists_ok_links [OF L]] _ _ _ _ _ _ cl])
      (use c p inv W D(3) [OF pT(1)] pT in \<open>auto simp: sched_inv_def\<close>)
  then obtain w' where w': "bind_step (hangup c ?w) (\<lambda>w2. bind_step (reparent c w2) sched_exit) = Some (Ret w')"
      "links_ok (sched_of w') ?rs T" "current (sched_of w') = p" "\<not> sched_lock (sched_of w')"
      "t_ppid (tk (sched_of w') c) = t_ppid (tk (sched_of ?w) c)"
      "\<And>u. t_state (tk (sched_of w') u) = (if u = c then TASK_ZOMBIE else if u = p then TASK_RUNNING else t_state (tk (sched_of ?w) u))
        \<and> exit_status (tk (sched_of w') u) = exit_status (tk (sched_of ?w) u)
        \<and> t_is_user (tk (sched_of w') u) = t_is_user (tk (sched_of ?w) u) \<and> t_pid (tk (sched_of w') u) = t_pid (tk (sched_of ?w) u)"
    by blast
  have "hangup c ?w = Some (Ret ?w)" using c(4) W(1) [of c] by (simp add: hangup_def Let_def)
  then have "sys_exit v w = Some (Ret w')"
    using w'(1) c W(1) [of c] by (simp add: sys_exit_def Let_def bind_step_def clear_tid_def)
  moreover have "u \<in> set ?rs \<longleftrightarrow> t_state (tk (sched_of w') u) = TASK_RUNNING" if "u \<in> T" for u
    using D(3) [OF that] D(6) w'(6) [of u] W(1) [of u] pT(2) by (auto simp: Let_def in_set_remove1)
  then have "sched_inv (sched_of w') ?rs T" using w'(2-4) by (auto simp: sched_inv_def lists_ok_def Let_def)
  ultimately show ?thesis using w'(3,5,6) W(1) by (intro exI [of _ w'] exI [of _ ?rs]) auto
qed

section \<open>Threads\<close>

lemma futex_tnexts: "futex_wake_loop is a n k pool s = Ret (pool', s', m) \<Longrightarrow> tnexts s' = tnexts s"
proof (induction "is" a n k pool s rule: futex_wake_loop.induct)
  case (2 i "is" addr count woken pool s)
  then show ?case by (auto split: if_splits kres.splits dest!: wake_tnexts)
qed simp

lemma kill_thread_tnexts:
  assumes "kill_thread tgid t w = Ret w'"
  shows "tnexts (sched_of w') = tnexts (sched_of w)"
proof -
  have c: "tnexts (sched_of w2) = tnexts (sched_of w1)" if "clear_tid t w1 = Ret w2" for w1 w2
    using that by (auto simp: clear_tid_def futex_wake_addr_def Let_def sched_of_def emit_def split: if_splits kres.splits dest!: futex_tnexts)
  show ?thesis using assms c by (fastforce simp: kill_thread_def upd_task_links split: if_splits)
qed

text \<open>The loop of \<^verbatim>\<open>exit_group\<close> marks the other threads as ended and leaves the run list as it is.\<close>

lemma kill_threads_ring:
  assumes L: "links_ok (sched_of w) rs T" and c: "c = current (sched_of w)"
    and clear: "\<forall>u\<in>T. t_is_user (tk (sched_of w) u) \<and> t_tgid (tk (sched_of w) u) = g \<longrightarrow> clear_child_tid (tk (sched_of w) u) = 0"
  shows "\<exists>s'. each_task (kill_thread g) c (t_next (tk (sched_of w) c)) w = Some (Ret (on_sched (\<lambda>_. s') w)) \<and> links_ok s' rs T
    \<and> current s' = c \<and> sched_lock s' = sched_lock (sched_of w)
    \<and> (\<forall>u. tk s' u = (if u \<in> T - {c} \<and> t_is_user (tk (sched_of w) u) \<and> t_tgid (tk (sched_of w) u) = g
        then (tk (sched_of w) u)\<lparr>t_state := TASK_ZOMBIE\<rparr> else tk (sched_of w) u))"
  by (rule each_upd_ring [OF L c, where Q = "\<lambda>w. \<forall>u\<in>T. t_is_user (tk (sched_of w) u) \<and> t_tgid (tk (sched_of w) u) = g
        \<longrightarrow> clear_child_tid (tk (sched_of w) u) = 0"]; (erule kill_thread_tnexts)?)
    (use clear in \<open>auto simp: kill_thread_def clear_tid_def Let_def tk_upd_task\<close>)

text \<open>The parent, process 2, waits for its child, process 5, which runs with a second thread, process 6.\<close>

definition demo_exit :: world where
  "demo_exit = \<lparr>fd_tables = (\<lambda>_. \<lparr>fds = (\<lambda>_. null_file), fdt_refcount = 1\<rparr>), drv = \<lparr>x_drv = \<lparr>d_pipes = (\<lambda>_. None), d_mfs = demo_mfs\<rparr>,
     x_sched = sched0\<lparr>current := 0x3000, tk := (\<lambda>_. no_task)(
       1 := no_task\<lparr>next_run := 0x3000, prev_run := 0x4000\<rparr>,
       0x2000 := no_task\<lparr>t_is_user := True, t_pid := 2, t_tgid := 2, t_sid := 2, t_state := TASK_BLOCKED, t_next := 0x3000\<rparr>,
       0x3000 := no_task\<lparr>t_is_user := True, t_pid := 5, t_tgid := 5, t_sid := 2, t_ppid := 2, next_run := 0x4000, prev_run := 1, t_next := 0x4000\<rparr>,
       0x4000 := no_task\<lparr>t_is_user := True, t_pid := 6, t_tgid := 5, t_sid := 2, t_ppid := 2, next_run := 1, prev_run := 0x3000, t_next := 0x2000\<rparr>)\<rparr>,
     x_pollers = (\<lambda>_ _. []), x_futex = replicate FUTEX_MAX_WAIT \<lparr>fw_task = 0, fw_addr = 0, fw_in_use = False\<rparr>,
     x_ttys = [], x_dying = 0, x_effects = []\<rparr>\<rparr>"

lemma demo_exit_sched: "sched_of demo_exit = x_sched (drv demo_exit)"
  by (simp add: sched_of_def)

lemma demo_exit_inv: "sched_inv (sched_of demo_exit) [0x3000, 0x4000] {0x2000, 0x3000, 0x4000}"
  by (auto intro!: exI [of _ "[0x4000, 0x2000]"] simp: sched_inv_def lists_ok_def links_ok_def run_list_def ring_at_def nexts_def prevs_def
      tnexts_def s_run_sentinel_def demo_exit_def sched_of_def sched0_def no_task_def)

lemma demo_exit_parent: "parent_of demo_exit {0x2000, 0x3000, 0x4000} 0x3000 0x2000"
  by (auto simp: parent_of_def demo_exit_def sched_of_def sched0_def no_task_def inj_on_def)

lemma demo_exit_task:
  "current (sched_of demo_exit) = 0x3000" "\<not> sched_lock (sched_of demo_exit)" "t_is_user (tk (sched_of demo_exit) 0x3000)"
  "clear_child_tid (tk (sched_of demo_exit) u) = 0" "t_pid (tk (sched_of demo_exit) 0x3000) = 5" "t_sid (tk (sched_of demo_exit) 0x3000) = 2"
  "t_tgid (tk (sched_of demo_exit) 0x3000) = 5" "t_fd_table (tk (sched_of demo_exit) u) = 0"
  "t_is_user (tk (sched_of demo_exit) 0x4000)" "t_tgid (tk (sched_of demo_exit) 0x4000) = 5" "t_tgid (tk (sched_of demo_exit) 0x2000) = 2"
  by (simp_all add: demo_exit_def sched_of_def sched0_def no_task_def)

section \<open>Correctness\<close>

text \<open>C11. The status of a process reaches its parent.  Let the scheduler's lists be right and the numbers of user tasks unique, and let the current
  task be a process that is not a session leader, has no \<^verbatim>\<open>clear_child_tid\<close> and a number other than 1 and \<open>- 1\<close>.  Let its parent be
  another process that is running or blocked and whose \<^verbatim>\<open>waiting_for\<close> is 0 or the number of this process, and let closing the descriptors
  of the process with the lock held return.  When the process ends with status \<open>v\<close>, \<^verbatim>\<open>exit\<close> switches to the parent
  at once; the parent's \<^verbatim>\<open>waitpid\<close> for that number, with a valid address for the status, then returns the number and the low byte of \<open>v\<close>
  shifted by eight, and the scheduler's lists are right for the tasks that remain.\<close>

theorem exit_status_reaped:
  assumes "sched_inv (sched_of w) rs T" "c = current (sched_of w)"
      "t_is_user (tk (sched_of w) c)" "clear_child_tid (tk (sched_of w) c) = 0" "t_pid (tk (sched_of w) c) \<noteq> t_sid (tk (sched_of w) c)"
      "t_pid (tk (sched_of w) c) \<notin> {1, - 1}"
    and "parent_of w T c p"
    and "fd_table_unref x_ops (t_fd_table (tk (sched_of w) c)) (on_sched (\<lambda>s. s\<lparr>sched_lock := True\<rparr>) w) = Ret (wc, b)"
    and "ptr \<noteq> 0" "user_ptr_valid ptr 4"
  shows "\<exists>w1 w2 rs2. sys_exit v w = Some (Ret w1) \<and> current (sched_of w1) = p
    \<and> sys_waitpid (ucast (t_pid (tk (sched_of w) c))) ptr options w1
        = Some (Ret (w2, Wait_ret (ucast (t_pid (tk (sched_of w) c))) (Some (ucast (push_bit 8 (v AND 0xFF))))))
    \<and> sched_inv (sched_of w2) rs2 (T - {c})"
proof -
  let ?pid = "t_pid (tk (sched_of w) c)"
  have np: "?pid \<noteq> 1" "?pid \<noteq> - 1" using assms(6) by simp_all
  have P: "p \<noteq> c" "inj_on (\<lambda>u. t_pid (tk (sched_of w) u)) {u \<in> T. t_is_user (tk (sched_of w) u)}"
    "t_pid (tk (sched_of w) p) = t_ppid (tk (sched_of w) c)" using assms(7) by (auto simp: parent_of_def)
  obtain w1 rs1 where w1: "sys_exit v w = Some (Ret w1)" "sched_inv (sched_of w1) rs1 T" "current (sched_of w1) = p"
      "t_state (tk (sched_of w1) c) = TASK_ZOMBIE" "exit_status (tk (sched_of w1) c) = v AND 0xFF" "t_ppid (tk (sched_of w1) c) = t_ppid (tk (sched_of w) c)"
      "\<And>u. t_is_user (tk (sched_of w1) u) = t_is_user (tk (sched_of w) u) \<and> t_pid (tk (sched_of w1) u) = t_pid (tk (sched_of w) u)"
    using sys_exit_parent [OF assms(1-5) np(1) assms(7,8), of v] by blast
  let ?s = "sched_of w1"
  have cT: "c \<in> T" "c \<noteq> 0" using current_task [OF assms(1)] assms(2) by auto
  obtain us where us: "ring_at ?s T p us" using w1(2,3) by (auto simp: sched_inv_def lists_ok_def links_ok_def)
  have "find (wait_match ?pid options p ?s) us = Some c"
  proof (rule find_unique)
    show "c \<in> set us" using us cT(1) P by (auto simp: ring_at_def)
    fix u assume "u \<in> set us"
    then have "u \<in> T" using us by (auto simp: ring_at_def)
    then have "\<not> (t_is_user (tk (sched_of w) u) \<and> t_pid (tk (sched_of w) u) = ?pid)" if "u \<noteq> c"
      using assms(3) P that cT(1) by (auto simp: inj_on_def)
    then show "wait_match ?pid options p ?s u = (u = c)"
      using w1(4,6,7) assms(3) P np(2) by (cases "u = c") (auto simp: wait_match_def)
  qed
  then have f: "find_task (wait_match ?pid options p ?s) p (t_next (tk ?s p)) ?s = Some c"
    using find_task_ring [OF us] by simp
  obtain w2 where w2: "reap p c w1 = Some w2" "sched_inv (sched_of w2) rs1 (T - {c})"
    using reap_inv [OF w1(2) cT(1)] w1(3,4) by auto
  have u: "(ucast (ucast ?pid :: u64) :: u32) = ?pid" by (rule bit_word_eqI) (simp add: bit_simps)
  have "sys_waitpid (ucast ?pid) ptr options w1 = Some (Ret (w2, Wait_ret (ucast ?pid) (Some (ucast (push_bit 8 (v AND 0xFF))))))"
    using f w1(3-5,7) w2(1) cT(2) assms(9,10) by (simp add: sys_waitpid_def Let_def u)
  then show ?thesis using w1(1,3) w2(2) by blast
qed

theorem exit_status_reaped_witness:
  "\<exists>w1 w2. sys_exit 0x107 demo_exit = Some (Ret w1) \<and> current (sched_of w1) = 0x2000
    \<and> sys_waitpid 5 0x400000 0 w1 = Some (Ret (w2, Wait_ret 5 (Some 0x700)))"
proof -
  have close: "fd_table_unref x_ops (t_fd_table (tk (sched_of demo_exit) 0x3000)) (on_sched (\<lambda>s. s\<lparr>sched_lock := True\<rparr>) demo_exit)
      = Ret (on_sched (\<lambda>s. s\<lparr>sched_lock := True\<rparr>) demo_exit, False)" by (simp add: demo_exit_task fd_table_unref_def)
  have "user_ptr_valid 0x400000 4" by (simp add: user_ptr_valid_def USER_ADDR_MAX_def)
  from exit_status_reaped [OF demo_exit_inv _ _ _ _ _ demo_exit_parent close _ this, of "0x107" 0] show ?thesis
    by (auto simp: demo_exit_task)
qed

text \<open>C39. A process that ends while another waits at the other end of its pipe locks the processor up: when a reader has blocked on an
  empty pipe, and the last process that holds the descriptor table with the write end ends, with only descriptors of other kinds
  below that end, \<^verbatim>\<open>sched_exit\<close> takes the scheduler's lock, closes the descriptors, and the close of the pipe takes the same lock again to
  wake the reader.\<close>

theorem exit_pipe_deadlock:
  assumes "pipe_read_try r len q0 = (q, Io_block, out, eff)" "r \<noteq> 0"
    and "\<not> sched_lock (sched_of w)" "t_is_user (tk (sched_of w) (current (sched_of w)))"
    and "t = t_fd_table (tk (sched_of w) (current (sched_of w)))" "t \<noteq> 0" "fdt_refcount (fd_tables w t) = 1"
    and "i < PROC_MAX_FDS" "vf_ops (slot w t i) = g_pipe_write_ops" "d_pipes (x_drv (drv w)) (vf_priv (slot w t i)) = Some q"
    and "\<forall>j<i. vf_ops (slot w t j) \<notin> {g_pipe_read_ops, g_pipe_write_ops, g_memfd_ops}"
  shows "sched_exit w = Some (Panic ''sched_lock: deadlock'')"
proof -
  have "reader_waiting q = r" using assms(1) by (auto simp: pipe_read_try_def Let_def split: if_splits prod.splits)
  then show ?thesis using assms by (intro exit_deadlock [of w t i q]) auto
qed

theorem exit_pipe_deadlock_witness:
  "\<exists>w. sched_exit w = Some (Panic ''sched_lock: deadlock'') \<and> t_state (tk (sched_of w) 0x2000) = TASK_BLOCKED"
proof -
  obtain q out eff where q: "pipe_read_try 0x2000 16 new_pipe = (q, Io_block, out, eff)"
    by (simp add: pipe_read_try_def new_pipe_def pipe_norm_def Let_def PIPE_BUF_SIZE_def)
  let ?s = "upd_task 0x3000 (\<lambda>x. x\<lparr>t_fd_table := 0x9000\<rparr>) (x_sched (drv demo_exit))"
  let ?x = "(drv demo_exit)\<lparr>x_sched := ?s, x_drv := \<lparr>d_pipes = [0x8000 \<mapsto> q], d_mfs = demo_mfs\<rparr>\<rparr>"
  let ?w = "set_slot 0x9000 1 (pipe_end g_pipe_write_ops 0x8000 0) (demo_exit\<lparr>drv := ?x\<rparr>)"
  have s: "sched_of ?w = ?s" by (simp add: sched_of_def)
  have sl: "slot ?w 0x9000 j = (if j = 1 then pipe_end g_pipe_write_ops 0x8000 0 else null_file)" for j
    by (simp add: slot_def set_slot_def demo_exit_def)
  have rc: "fdt_refcount (fd_tables ?w 0x9000) = 1" by (simp add: set_slot_def demo_exit_def)
  have dr: "drv ?w = ?x" by simp
  have "sched_exit ?w = Some (Panic ''sched_lock: deadlock'')"
    by (rule exit_pipe_deadlock [OF q, where t = "0x9000" and i = 1], unfold s sl rc dr)
      (use demo_exit_task in \<open>simp_all add: demo_exit_sched [symmetric] pipe_end_def null_file_def tk_upd_task PROC_MAX_FDS_def
        g_pipe_read_ops_def g_pipe_write_ops_def g_memfd_ops_def\<close>)
  moreover have "t_state (tk (sched_of ?w) 0x2000) = TASK_BLOCKED" unfolding s by (simp add: tk_upd_task demo_exit_def)
  ultimately show ?thesis by blast
qed

text \<open>C40. The threads that \<^verbatim>\<open>exit_group\<close> ends are ended only by name: the call returns to the parent as \<^verbatim>\<open>exit\<close> does, but a thread of the group that
  was on the run list, from which the timer takes the next task to run, is still on it, in state zombie.\<close>

theorem exit_group_zombie_runs:
  assumes "sched_inv (sched_of w) rs T" "c = current (sched_of w)" "t_is_user (tk (sched_of w) c)" "parent_of w T c p"
      "t_pid (tk (sched_of w) c) \<noteq> t_sid (tk (sched_of w) c)" "t_pid (tk (sched_of w) c) \<noteq> 1" "t_tgid (tk (sched_of w) c) \<noteq> 1"
      "\<forall>u\<in>T. clear_child_tid (tk (sched_of w) u) = 0" "t_tgid (tk (sched_of w) p) \<noteq> t_tgid (tk (sched_of w) c)"
    and "fd_table_unref x_ops (t_fd_table (tk (sched_of w) c)) (on_sched (\<lambda>s. s\<lparr>sched_lock := True\<rparr>) w) = Ret (wc, b)"
    and "t \<in> set rs" "t \<noteq> c" "t_is_user (tk (sched_of w) t)" "t_tgid (tk (sched_of w) t) = t_tgid (tk (sched_of w) c)"
  shows "\<exists>w' rs'. sys_exit_group v w = Some (Ret w') \<and> current (sched_of w') = p \<and> run_list (sched_of w') rs'
    \<and> t \<in> set rs' \<and> t_state (tk (sched_of w') t) = TASK_ZOMBIE"
proof -
  let ?w = "set_status c v w" and ?g = "t_tgid (tk (sched_of w) c)"
  note W = status_world [where w = w and c = c and v = v]
  have L: "lists_ok (sched_of w) rs T" using assms(1) by (simp add: sched_inv_def)
  have pT: "p \<in> T" "p \<noteq> c" using assms(4) by (auto simp: parent_of_def)
  have c: "c = current (sched_of ?w)" unfolding W(2) by (rule assms(2))
  have tg: "t_tgid (tk (sched_of ?w) u) = t_tgid (tk (sched_of w) u)" "t_is_user (tk (sched_of ?w) u) = t_is_user (tk (sched_of w) u)"
    "clear_child_tid (tk (sched_of ?w) u) = clear_child_tid (tk (sched_of w) u)" "t_state (tk (sched_of ?w) u) = t_state (tk (sched_of w) u)" for u
    by (simp_all add: W(1))
  have "\<exists>s'. each_task (kill_thread ?g) c (t_next (tk (sched_of ?w) c)) ?w = Some (Ret (on_sched (\<lambda>_. s') ?w)) \<and> links_ok s' rs T
    \<and> current s' = c \<and> sched_lock s' = sched_lock (sched_of ?w)
    \<and> (\<forall>u. tk s' u = (if u \<in> T - {c} \<and> t_is_user (tk (sched_of ?w) u) \<and> t_tgid (tk (sched_of ?w) u) = ?g
        then (tk (sched_of ?w) u)\<lparr>t_state := TASK_ZOMBIE\<rparr> else tk (sched_of ?w) u))"
    by (rule kill_threads_ring [OF W(4) [OF lists_ok_links [OF L]] c]) (use assms(8) in \<open>simp add: tg\<close>)
  then obtain s1 where s1: "each_task (kill_thread ?g) c (t_next (tk (sched_of ?w) c)) ?w = Some (Ret (on_sched (\<lambda>_. s1) ?w))"
      "links_ok s1 rs T" "current s1 = c" "sched_lock s1 = sched_lock (sched_of ?w)"
      "\<And>u. tk s1 u = (if u \<in> T - {c} \<and> t_is_user (tk (sched_of ?w) u) \<and> t_tgid (tk (sched_of ?w) u) = ?g
        then (tk (sched_of ?w) u)\<lparr>t_state := TASK_ZOMBIE\<rparr> else tk (sched_of ?w) u)" by blast
  let ?w1 = "on_sched (\<lambda>_. s1) ?w"
  have sc: "tk s1 c = tk (sched_of ?w) c" by (simp add: s1(5))
  have sp: "tk s1 p = tk (sched_of w) p" using pT assms(9) by (simp add: s1(5) W(1))
  have "t_is_user (tk s1 u) = t_is_user (tk (sched_of w) u)" "t_pid (tk s1 u) = t_pid (tk (sched_of w) u)" for u by (simp_all add: s1(5) W(1))
  then have par: "parent_of ?w1 T c p" using assms(4) sp sc W(1) [of c] by (simp add: parent_of_def)
  obtain wc' where cl: "fd_table_unref x_ops (t_fd_table (tk (sched_of ?w1) c)) (on_sched (\<lambda>s. s\<lparr>sched_lock := True\<rparr>) ?w1) = Ret (wc', b)"
    using unref_other [OF assms(10), of ?w1 "\<lambda>_. s1"] sc W(1) [of c] by (auto simp: set_status_def)
  have "\<exists>w'. bind_step (hangup c ?w1) (\<lambda>w2. bind_step (reparent c w2) sched_exit) = Some (Ret w')
    \<and> links_ok (sched_of w') (let r = remove1 c rs in if p \<in> set r then r else r @ [p]) T \<and> current (sched_of w') = p \<and> \<not> sched_lock (sched_of w')
    \<and> t_ppid (tk (sched_of w') c) = t_ppid (tk (sched_of ?w1) c)
    \<and> (\<forall>u. t_state (tk (sched_of w') u) = (if u = c then TASK_ZOMBIE else if u = p then TASK_RUNNING else t_state (tk (sched_of ?w1) u))
        \<and> exit_status (tk (sched_of w') u) = exit_status (tk (sched_of ?w1) u)
        \<and> t_is_user (tk (sched_of w') u) = t_is_user (tk (sched_of ?w1) u) \<and> t_pid (tk (sched_of w') u) = t_pid (tk (sched_of ?w1) u))"
    by (rule exit_tail [OF _ _ _ _ _ par _ cl])
      (use assms(1,3,5) s1(2-4) sc sp W(1) [of c] W(3) lists_okD(3) [OF L pT(1)] in \<open>simp_all add: sched_inv_def\<close>)
  then obtain w' where w': "bind_step (hangup c ?w1) (\<lambda>w2. bind_step (reparent c w2) sched_exit) = Some (Ret w')"
      "links_ok (sched_of w') (let r = remove1 c rs in if p \<in> set r then r else r @ [p]) T" "current (sched_of w') = p"
      "\<And>u. t_state (tk (sched_of w') u) = (if u = c then TASK_ZOMBIE else if u = p then TASK_RUNNING else t_state (tk (sched_of ?w1) u))"
    by blast
  have "sys_exit_group v w = Some (Ret w')"
    using s1(1) w'(1) assms(3,6,7) by (simp add: sys_exit_group_def Let_def assms(2) [symmetric] bind_Ret)
  moreover have "t \<noteq> p" "t \<in> T" using assms(9,11,14) lists_okD(2) [OF L] by auto
  then have "t_state (tk (sched_of w') t) = TASK_ZOMBIE" using w'(4) [of t] assms(12-14) by (simp add: s1(5) tg)
  ultimately show ?thesis using w'(2,3) links_okD(1) [OF w'(2)] assms(11,12) by (auto simp: Let_def in_set_remove1 split: if_splits)
qed

theorem exit_group_zombie_runs_witness:
  "\<exists>w' rs'. sys_exit_group 0 demo_exit = Some (Ret w') \<and> run_list (sched_of w') rs' \<and> 0x4000 \<in> set rs' \<and> t_state (tk (sched_of w') 0x4000) = TASK_ZOMBIE"
proof -
  have close: "fd_table_unref x_ops (t_fd_table (tk (sched_of demo_exit) 0x3000)) (on_sched (\<lambda>s. s\<lparr>sched_lock := True\<rparr>) demo_exit)
      = Ret (on_sched (\<lambda>s. s\<lparr>sched_lock := True\<rparr>) demo_exit, False)" by (simp add: demo_exit_task fd_table_unref_def)
  from exit_group_zombie_runs [OF demo_exit_inv _ _ demo_exit_parent _ _ _ _ _ close, of "0x4000" 0] show ?thesis
    by (auto simp: demo_exit_task)
qed

end
