(* ===== verification/Sched_History.thy ===== *)
theory Sched_History
  imports Exit_Props
begin

text \<open>
  The scheduler in every history of the kernel: besides its own operations tasks end, are reaped, and the rest of the
  kernel changes what the scheduler does not own.  The run list stays equal to the running tasks, and the timer
  serves every running task.
\<close>

section \<open>What the rest of the kernel may change\<close>

text \<open>The current task, the lock, and for the tasks \<open>T\<close> their links and states stay; everything else, and all memory
  outside of these tasks, may change.\<close>

definition sched_kept :: "u64 set \<Rightarrow> sched \<Rightarrow> sched \<Rightarrow> bool" where
  "sched_kept T s s' \<longleftrightarrow> current s' = current s \<and> sched_lock s' = sched_lock s \<and> (s_sched_ready s \<longrightarrow> s_sched_ready s')
     \<and> (\<forall>t\<in>insert s_run_sentinel T. next_run (tk s' t) = next_run (tk s t) \<and> prev_run (tk s' t) = prev_run (tk s t))
     \<and> (\<forall>t\<in>T. t_next (tk s' t) = t_next (tk s t) \<and> t_state (tk s' t) = t_state (tk s t))"

lemma sched_kept_inv:
  assumes inv: "sched_inv s rs T" and k: "sched_kept T s s'"
  shows "sched_inv s' rs T" "current s' = current s"
proof -
  have L: "lists_ok s rs T" using inv by (simp add: sched_inv_def)
  note D = lists_okD [OF L]
  obtain us where us: "tpath (tnexts s) (current s # us) (current s)" "distinct (current s # us)" "set (current s # us) = T"
    using L by (auto simp: lists_ok_def links_ok_def ring_at_def)
  have "chain (nexts s') (prevs s') s_run_sentinel rs s_run_sentinel = chain (nexts s) (prevs s) s_run_sentinel rs s_run_sentinel"
    by (rule chain_cong) (use k D(2) in \<open>auto simp: sched_kept_def nexts_def prevs_def\<close>)
  moreover have "tpath (tnexts s') (current s # us) (current s) = tpath (tnexts s) (current s # us) (current s)"
    by (rule tpath_cong) (use k us(3) in \<open>auto simp: sched_kept_def tnexts_def\<close>)
  ultimately have "lists_ok s' rs T" using L us k
    by (auto simp: lists_ok_def links_ok_def run_list_def ring_at_def sched_kept_def intro!: exI [of _ us])
  then show "sched_inv s' rs T" using inv k by (simp add: sched_inv_def sched_kept_def)
  show "current s' = current s" using k by (simp add: sched_kept_def)
qed

section \<open>The end of a task\<close>

lemma walk_list_inv:
  assumes "\<And>v s. v \<in> T \<Longrightarrow> I s \<Longrightarrow> \<exists>s1 e. body v s = Ret (s1, e) \<and> I s1" "set vs \<subseteq> T" "I s"
  shows "\<exists>s'. walk_list body vs s = Ret s' \<and> I s'"
  using assms(2,3)
proof (induction vs arbitrary: s)
  case (Cons v vs)
  obtain s1 e where "body v s = Ret (s1, e)" "I s1" using assms(1) [of v s] Cons.prems by auto
  then show ?case using Cons.IH [of s1] Cons.prems by simp
qed simp

text \<open>The signal to the parent wakes it at most.\<close>

lemma send_locked_lists:
  assumes L: "lists_ok s rs T"
  shows "\<exists>s' rs'. signal_send_pid_locked pid n s = Some (Ret s') \<and> lists_ok s' rs' T \<and> set rs \<subseteq> set rs'
    \<and> current s' = current s \<and> sched_lock s' = sched_lock s"
proof (cases "pid = 0 \<or> n \<le> 0 \<or> 64 \<le> n \<or> current s = 0")
  case True
  then show ?thesis using L by (auto simp: signal_send_pid_locked_def)
next
  case False
  let ?b = "send_pid_body (\<lambda>t s. Ret (sched_wake_locked t s)) pid (nat n)"
  let ?I = "\<lambda>s'. (\<exists>rs'. lists_ok s' rs' T \<and> set rs \<subseteq> set rs') \<and> current s' = current s \<and> sched_lock s' = sched_lock s"
  have l: "tnexts s1 = tnexts s" if "?b t s = Ret (s1, e)" for t s s1 e
    using that by (auto simp: send_pid_body_def Let_def sched_wake_locked_def upd_task_links split: if_splits)
  have step: "\<exists>s1 e. ?b v s' = Ret (s1, e) \<and> ?I s1" if v: "v \<in> T" and I: "?I s'" for v s'
  proof -
    obtain rs' where rs': "lists_ok s' rs' T" "set rs \<subseteq> set rs'" using I by blast
    let ?p = "upd_task v (\<lambda>x. x\<lparr>pending_signals := pending_signals x OR sigbit (nat n)\<rparr>) s'"
    have p: "lists_ok ?p rs' T"
      by (rule lists_ok_cong [OF rs'(1) upd_task_links]) (use lists_ok_links [OF rs'(1)] links_okD(7) in \<open>auto simp: tk_upd_task\<close>)
    have "lists_ok (sched_wake_locked v ?p) (if v \<in> set rs' then rs' else rs' @ [v]) T"
      unfolding sched_wake_locked_def by (rule make_running [OF p v]) simp_all
    moreover have "set rs \<subseteq> set (if v \<in> set rs' then rs' else rs' @ [v])" using rs'(2) by auto
    ultimately have "\<exists>rs'. lists_ok (sched_wake_locked v ?p) rs' T \<and> set rs \<subseteq> set rs'" by blast
    moreover have "current (sched_wake_locked v ?p) = current s" "sched_lock (sched_wake_locked v ?p) = sched_lock s"
      using I by (simp_all add: sched_wake_locked_def)
    moreover have "?I ?p" using I p rs'(2) by auto
    ultimately show ?thesis using I by (simp add: send_pid_body_def Let_def ex_bool_eq)
  qed
  obtain us where us: "ring_at s T (current s) us" using L by (auto simp: lists_ok_def links_ok_def)
  then have "walk_tasks ?b (current s) (current s) s = Some (walk_list ?b (current s # us) s)" "set (current s # us) \<subseteq> T"
    using walk_tasks_list [of s "current s" us "current s" ?b] l by (auto simp: ring_at_def)
  moreover have "?I s" using L by auto
  ultimately show ?thesis using walk_list_inv [of T ?I ?b "current s # us" s] step False
    by (auto simp: signal_send_pid_locked_def)
qed

text \<open>The next task to run, also when the current one has just left the list.\<close>

lemma run_next_mem:
  assumes L: "lists_ok s rs T" and c: "current s \<in> T" and ne: "rs \<noteq> []"
  shows "run_list_next_locked (current s) s \<in> set rs"
proof (cases "current s \<in> set rs")
  case True
  then obtain as bs where rs: "rs = as @ current s # bs" by (meson split_list)
  then have "run_list_next_locked (current s) s = hd (bs @ rs)" using run_list_next [of s as "current s" bs] lists_okD(1) [OF L] by simp
  moreover have "hd (bs @ rs) \<in> set (bs @ rs)" using rs by (intro hd_in_set) simp
  ultimately show ?thesis using rs by auto
next
  case False
  have R: "run_list s rs" by (rule lists_okD(1) [OF L])
  then have "next_run (tk s s_run_sentinel) = hd rs"
    using chain_ends(2) [of "nexts s" "prevs s" s_run_sentinel rs s_run_sentinel] ne by (simp add: run_list_def nexts_def)
  moreover have "hd rs \<in> set rs" "hd rs \<noteq> s_run_sentinel" using ne R by (auto simp: run_list_def dest: hd_in_set)
  ultimately show ?thesis using lists_okD(4) [OF L c False] by (simp add: run_list_next_locked_def Let_def)
qed

lemma yield_mem:
  assumes L: "lists_ok s rs T" and c: "current s \<in> T" and ne: "rs \<noteq> []" and lock: "\<not> sched_lock s"
  shows "\<exists>s'. sched_yield_to_next s = Ret s' \<and> sched_inv s' rs T"
proof -
  let ?s = "s\<lparr>sched_lock := True\<rparr>"
  let ?n = "run_list_next_locked (current s) ?s"
  have L': "lists_ok ?s rs T" using L by (simp add: lists_ok_lock)
  have m: "?n \<in> set rs" using run_next_mem [OF L' _ ne] c by simp
  then have T: "?n \<in> T" "?n \<noteq> 0" using lists_okD(2,5) [OF L] by auto
  then show ?thesis using lists_ok_switch(1) [OF L, of ?n False] m lock L lists_ok_lock
    by (auto simp: sched_yield_to_next_def lock_sched_def Let_def unlock_sched_def sched_inv_def)
qed

lemma find_task_spec:
  assumes "ring_at s T c us" "0 \<notin> T"
  shows "\<exists>t. find_task P c (t_next (tk s c)) s = Some t \<and> (t \<noteq> 0 \<longrightarrow> t \<in> T \<and> t \<noteq> c \<and> P t)"
proof (cases "find P us")
  case None
  then show ?thesis using find_task_ring [OF assms(1), of P] by simp
next
  case (Some t)
  then have "t \<in> set us" "P t" by (auto simp: find_Some_iff)
  then show ?thesis using find_task_ring [OF assms(1), of P] Some assms by (auto simp: ring_at_def)
qed

lemma exit_user_inv:
  assumes lock: "sched_lock (sched_of w)" and L: "lists_ok (sched_of w) rs T" and idle: "idle \<in> set rs" "idle \<noteq> current (sched_of w)"
    and close: "fd_table_unref x_ops (t_fd_table (tk (sched_of w) (current (sched_of w)))) w = Ret (w1, b)"
  shows "\<exists>w' rs'. exit_user w = Some (Ret w') \<and> sched_inv (sched_of w') rs' T \<and> idle \<in> set rs'"
proof -
  let ?s = "sched_of w" and ?c = "current (sched_of w)"
  let ?s1 = "zombify ?c ?s"
  have cT: "?c \<in> T" by (rule links_okD(7) [OF lists_ok_links [OF L]])
  have L1: "lists_ok ?s1 (remove1 ?c rs) T" unfolding zombify_def by (rule leave_running [OF L cT]) simp_all
  have f1: "current ?s1 = ?c" "sched_lock ?s1" using lock by (simp_all add: zombify_def)
  obtain s2 rs2 where s2: "(if t_ppid (tk ?s1 ?c) \<noteq> 0 then signal_send_pid_locked (t_ppid (tk ?s1 ?c)) (int SIGCHLD) ?s1 else Some (Ret ?s1)) = Some (Ret s2)"
      "lists_ok s2 rs2 T" "set (remove1 ?c rs) \<subseteq> set rs2" "current s2 = ?c" "sched_lock s2"
    using send_locked_lists [OF L1, of "t_ppid (tk ?s1 ?c)" "int SIGCHLD"] L1 f1 by (cases "t_ppid (tk ?s1 ?c) = 0") auto
  have i2: "idle \<in> set rs2" using s2(3) idle by (auto simp: in_set_remove1)
  obtain us where us: "ring_at s2 T ?c us" using s2(2,4) by (auto simp: lists_ok_def links_ok_def)
  have z: "0 \<notin> T" using lists_okD(5) [OF s2(2)] by auto
  obtain p where p: "woken_parent s2 = Some p" "p \<noteq> 0 \<Longrightarrow> p \<in> T \<and> t_state (tk s2 p) = TASK_RUNNING"
    using find_task_spec [OF us z] s2(4) by (fastforce simp: woken_parent_def Let_def)
  obtain l where l: "live_user s2 = Some l" using find_task_spec [OF us z] s2(4) by (fastforce simp: live_user_def)
  let ?w2 = "emit (if l = 0 then [Shutdown] else []) (on_sched (\<lambda>_. s2) w1)"
  have sw1: "sched_of w1 = ?s" using unref_keeps(2) [OF lock close] .
  have e: "exit_user w = (if p \<noteq> 0 then Some (Ret (on_sched (\<lambda>s. unlock_sched (s\<lparr>current := p\<rparr>)) ?w2))
      else (case sched_yield_to_next (unlock_sched s2) of Panic m \<Rightarrow> Some (Panic m) | Ret s3 \<Rightarrow> Some (Ret (on_sched (\<lambda>_. s3) ?w2))))"
    by (simp only: exit_user_def close kres.case prod.case Let_def sw1 f1(1) s2(1) p(1) l option.case)
  show ?thesis
  proof (cases "p = 0")
    case True
    have "lists_ok (unlock_sched s2) rs2 T" using s2(2) by (simp add: unlock_sched_def lists_ok_lock)
    moreover have "rs2 \<noteq> []" using i2 by auto
    ultimately obtain s3 where "sched_yield_to_next (unlock_sched s2) = Ret s3" "sched_inv s3 rs2 T"
      using yield_mem [of "unlock_sched s2" rs2 T] cT s2(4) by (auto simp: unlock_sched_def)
    then show ?thesis using e True i2 by auto
  next
    case False
    then have "p \<in> set rs2" using p(2) lists_okD(3) [OF s2(2), of p] by simp
    then show ?thesis using e False i2 lists_ok_switch(1) [OF s2(2), of p False] p(2)
      by (auto simp: sched_inv_def unlock_sched_def)
  qed
qed

lemma exit_kernel_inv:
  assumes L: "lists_ok (sched_of w) (as @ current (sched_of w) # bs) T" and ne: "as @ bs \<noteq> []"
  shows "\<exists>w'. exit_kernel w = Some (Ret w') \<and> sched_inv (sched_of w') (as @ bs) (T - {current (sched_of w)})"
proof -
  let ?s = "sched_of w" and ?c = "current (sched_of w)" and ?S = s_run_sentinel
  note D = lists_okD [OF L]
  have cT: "?c \<in> T" by (rule links_okD(7) [OF lists_ok_links [OF L]])
  obtain us where us: "ring_at ?s T ?c us" using L by (auto simp: lists_ok_def links_ok_def)
  have other: "x \<noteq> ?c \<and> x \<in> T \<and> x \<noteq> 0 \<and> x \<noteq> ?S" if "x \<in> set (as @ bs)" for x using D(2,5,6) that by auto
  have "us \<noteq> []"
  proof
    assume "us = []"
    then have "T = {?c}" using us by (simp add: ring_at_def)
    then show False using other [of "hd (as @ bs)"] hd_in_set [OF ne] by blast
  qed
  then obtain x xs where xs: "us = x # xs" by (cases us) auto
  have prev: "find_prev ?c ?c ?s = Some (last us)" using find_prev_path [of ?s ?c us ?c] us xs by (simp add: ring_at_def)
  let ?s1 = "upd_task (last us) (\<lambda>y. y\<lparr>t_next := t_next (tk ?s ?c)\<rparr>) ?s"
  let ?s2 = "run_list_remove_locked ?c ?s1"
  have n1: "nexts ?s1 = nexts ?s" "prevs ?s1 = prevs ?s" by (auto simp: nexts_def prevs_def tk_upd_task fun_eq_iff)
  have R1: "run_list ?s1 (as @ ?c # bs)" using D(1) n1 by (simp add: run_list_def)
  have R2: "run_list ?s2 (as @ bs)" by (rule run_list_remove(1) [OF R1])
  have tn: "tnexts ?s2 = (tnexts ?s)(last (x # xs) := tnexts ?s ?c)" using xs by (auto simp: tnexts_def tk_upd_task fun_eq_iff)
  have "ring_at ?s2 (T - {?c}) x xs" using ring_remove [of ?s T ?c x xs ?s2] us xs tn by simp
  then have ring: "\<exists>ys. ring_at ?s2 (T - {?c}) d ys" if "d \<in> T - {?c}" for d using ring_rotate that by blast
  have st: "t_state (tk ?s2 u) = t_state (tk ?s u)" for u by (simp add: tk_upd_task)
  have off: "next_run (tk ?s2 u) = 0" if "u \<in> T - {?c} - set (as @ bs)" for u
    using remove_next_other [OF R1, of u] D(4,5) [of u] that by (auto simp: tk_upd_task)
  have h: "next_run (tk ?s2 ?S) = hd (as @ bs @ [?S])"
    using R2 chain_ends(2) [of "nexts ?s2" "prevs ?s2" ?S "as @ bs" ?S] by (simp add: run_list_def nexts_def)
  have n: "next_run (tk ?s1 ?c) = hd (bs @ [?S])"
    using R1 chain_ends(2) [of "nexts ?s1" "prevs ?s1" ?c bs ?S] by (simp add: run_list_def chain_append nexts_def)
  let ?n = "if next_run (tk ?s1 ?c) = 0 \<or> next_run (tk ?s1 ?c) = ?S then next_run (tk ?s2 ?S) else next_run (tk ?s1 ?c)"
  have nx: "?n = hd (bs @ as)"
  proof (cases bs)
    case Nil
    then show ?thesis using n h ne by simp
  next
    case (Cons b r)
    then show ?thesis using n other [of b] by simp
  qed
  have m: "hd (bs @ as) \<in> set (as @ bs)" using ne hd_in_set [of "bs @ as"] by auto
  note o = other [OF m]
  let ?s3 = "?s2\<lparr>s_task_count := s_task_count ?s2 - 1\<rparr>"
  let ?w1 = "on_sched (\<lambda>_. unlock_sched (?s3\<lparr>current := hd (bs @ as)\<rparr>)) w"
  have "exit_kernel w = Some (Ret (?w1\<lparr>drv := (drv ?w1)\<lparr>x_dying := ?c\<rparr>\<rparr>))"
    unfolding exit_kernel_def Let_def prev option.case nx using o by simp
  moreover have "links_ok (?s2\<lparr>current := hd (bs @ as)\<rparr>) (as @ bs) (T - {?c})"
  proof -
    have "set (as @ bs) \<subseteq> T - {?c}" "0 \<notin> T - {?c}" "?S \<notin> T - {?c}" using other D(5) by blast+
    moreover obtain ys where "ring_at ?s2 (T - {?c}) (hd (bs @ as)) ys" using ring o by blast
    ultimately show ?thesis using R2 off by (auto simp: links_ok_def run_list_def ring_at_def)
  qed
  then have "lists_ok (unlock_sched (?s3\<lparr>current := hd (bs @ as)\<rparr>)) (as @ bs) (T - {?c})"
    using D(3) st by (auto simp: lists_ok_def links_ok_def run_list_def ring_at_def unlock_sched_def)
  ultimately show ?thesis using m by (auto simp: sched_inv_def unlock_sched_def sched_of_def on_sched_def)
qed

text \<open>Closing the descriptors of the current task, which \<^verbatim>\<open>sched_exit\<close> does with the lock held, returns.\<close>

definition closes :: "world \<Rightarrow> bool" where
  "closes w \<longleftrightarrow> (t_is_user (tk (sched_of w) (current (sched_of w))) \<longrightarrow>
     (case fd_table_unref x_ops (t_fd_table (tk (sched_of w) (current (sched_of w)))) (on_sched (\<lambda>s. s\<lparr>sched_lock := True\<rparr>) w) of
        Panic m \<Rightarrow> False | Ret _ \<Rightarrow> True))"

lemma unref_dying:
  fixes w :: world
  defines "W \<equiv> free_dying (on_sched (\<lambda>s. s\<lparr>sched_lock := True\<rparr>) w)"
  shows "fd_table_unref x_ops t W = map_kres (map_prod (rebase (drv W)) id) (fd_table_unref x_ops t (on_sched (\<lambda>s. s\<lparr>sched_lock := True\<rparr>) w))"
proof -
  let ?wl = "on_sched (\<lambda>s. s\<lparr>sched_lock := True\<rparr>) w"
  have "rebase (drv W) ?wl = W" unfolding W_def by (simp add: rebase_def)
  moreover have "sched_lock (sched_of W)" "x_pollers (drv W) = x_pollers (drv w)" by (simp_all add: W_def)
  ultimately show ?thesis using unref_locked [of ?wl "drv W" t] by (simp add: sched_of_def [symmetric])
qed

lemma sched_exit_unfold:
  assumes "\<not> sched_lock (sched_of w)"
  shows "sched_exit w = (if t_is_user (tk (sched_of w) (current (sched_of w)))
    then exit_user (free_dying (on_sched (\<lambda>s. s\<lparr>sched_lock := True\<rparr>) w))
    else exit_kernel (free_dying (on_sched (\<lambda>s. s\<lparr>sched_lock := True\<rparr>) w)))"
proof -
  have "on_sched (\<lambda>_. (sched_of w)\<lparr>sched_lock := True\<rparr>) w = on_sched (\<lambda>s. s\<lparr>sched_lock := True\<rparr>) w"
    by (simp add: on_sched_def sched_of_def)
  then show ?thesis using assms by (simp add: sched_exit_def lock_sched_def Let_def)
qed

lemma exit_closes:
  assumes "sched_exit w = Some (Ret w')" "\<not> sched_lock (sched_of w)"
  shows "closes w"
  using assms sched_exit_unfold [OF assms(2)]
  by (auto simp: closes_def exit_user_def unref_dying split: kres.splits)

lemma sched_exit_inv:
  assumes inv: "sched_inv (sched_of w) rs T" and idle: "idle \<in> set rs" "idle \<noteq> current (sched_of w)" and close: "closes w"
  shows "\<exists>w' rs'. sched_exit w = Some (Ret w') \<and> idle \<in> set rs'
    \<and> sched_inv (sched_of w') rs' (if t_is_user (tk (sched_of w) (current (sched_of w))) then T else T - {current (sched_of w)})"
proof -
  let ?c = "current (sched_of w)" and ?W = "free_dying (on_sched (\<lambda>s. s\<lparr>sched_lock := True\<rparr>) w)"
  have lock: "\<not> sched_lock (sched_of w)" using inv by (simp add: sched_inv_def)
  note E = sched_exit_unfold [OF lock]
  have S: "sched_of ?W = (sched_of w)\<lparr>sched_lock := True\<rparr>" by simp
  have L: "lists_ok (sched_of ?W) rs T" using inv by (simp add: sched_inv_def lists_ok_lock)
  show ?thesis
  proof (cases "t_is_user (tk (sched_of w) ?c)")
    case True
    then obtain r where r: "fd_table_unref x_ops (t_fd_table (tk (sched_of w) ?c)) (on_sched (\<lambda>s. s\<lparr>sched_lock := True\<rparr>) w) = Ret r"
      using close by (auto simp: closes_def split: kres.splits)
    obtain w1 b where wb: "r = (w1, b)" by fastforce
    have "\<exists>w' rs'. exit_user ?W = Some (Ret w') \<and> sched_inv (sched_of w') rs' T \<and> idle \<in> set rs'"
      by (rule exit_user_inv [OF _ L idle(1), where ?w1.0 = "rebase (drv ?W) w1" and b = b]) (use idle(2) r wb in \<open>simp_all add: unref_dying\<close>)
    then show ?thesis using E True by auto
  next
    case False
    obtain as bs where rs: "rs = as @ ?c # bs" by (rule split_current [OF inv])
    then have ne: "as @ bs \<noteq> []" "idle \<in> set (as @ bs)" using idle by auto
    then obtain w' where "exit_kernel ?W = Some (Ret w')" "sched_inv (sched_of w') (as @ bs) (T - {?c})"
      using exit_kernel_inv [of ?W as bs T] L rs by auto
    then show ?thesis using E False ne(2) by (intro exI [of _ w'] exI [of _ "as @ bs"]) simp
  qed
qed

section \<open>Reaping\<close>

text \<open>The child that a call of \<^verbatim>\<open>waitpid\<close> takes away.\<close>

definition reaped :: "u64 \<Rightarrow> u64 \<Rightarrow> u64 \<Rightarrow> world \<Rightarrow> u64 set" where
  "reaped pid_arg wstatus_ptr options w = (let s = sched_of w; c = current s in
     case find_task (wait_match (ucast pid_arg) options c s) c (t_next (tk s c)) s of
       None \<Rightarrow> {}
     | Some t \<Rightarrow> if t \<noteq> 0 \<and> (wstatus_ptr = 0 \<or> user_ptr_valid wstatus_ptr 4) \<and> t_state (tk s t) \<noteq> TASK_STOPPED then {t} else {})"

lemma sys_waitpid_inv:
  assumes inv: "sched_inv (sched_of w) rs T" and idle: "idle \<in> set rs" "idle \<noteq> current (sched_of w)"
  shows "\<exists>w' r rs'. sys_waitpid a b c w = Some (Ret (w', r)) \<and> idle \<in> set rs' \<and> sched_inv (sched_of w') rs' (T - reaped a b c w)"
proof -
  let ?s = "sched_of w" and ?p = "current (sched_of w)"
  have L: "lists_ok ?s rs T" using inv by (simp add: sched_inv_def)
  have z: "0 \<notin> T" using lists_okD(5) [OF L] by auto
  have kept: "sched_inv s' rs T" if "sched_kept T ?s s'" for s' by (rule sched_kept_inv(1) [OF inv that])
  obtain us where us: "ring_at ?s T ?p us" using L by (auto simp: lists_ok_def links_ok_def)
  obtain t where t: "find_task (wait_match (ucast a) c ?p ?s) ?p (t_next (tk ?s ?p)) ?s = Some t"
      "t \<noteq> 0 \<Longrightarrow> t \<in> T \<and> wait_match (ucast a) c ?p ?s t"
    using find_task_spec [OF us z] by blast
  show ?thesis
  proof (cases "t = 0")
    case True
    then have no: "reaped a b c w = {}" using t(1) by (simp add: reaped_def Let_def)
    let ?s1 = "upd_task ?p (\<lambda>x. x\<lparr>waiting_for := (if (ucast a :: u32) = - 1 then 0 else ucast a)\<rparr>) ?s"
    have I1: "sched_inv ?s1 rs T" by (rule kept) (auto simp: sched_kept_def tk_upd_task)
    obtain as bs where rs: "rs = as @ ?p # bs" by (rule split_current [OF inv])
    then have ne: "as @ bs \<noteq> []" "idle \<in> set (as @ bs)" using idle by auto
    obtain s' where s': "sched_block ?s1 = Ret s'" "sched_inv s' (as @ bs) T"
      using sched_block_inv [of ?s1 as bs T] I1 rs ne(1) by auto
    show ?thesis
    proof (cases "c AND WNOHANG \<noteq> 0")
      case nohang: True
      then show ?thesis using t(1) True no inv idle by (auto simp: sys_waitpid_def Let_def)
    next
      case False
      then have "sys_waitpid a b c w = Some (Ret (on_sched (\<lambda>_. s') w, Wait_blocked))"
        using t(1) True s'(1) by (simp add: sys_waitpid_def Let_def)
      then show ?thesis using no s'(2) ne(2) by (intro exI [of _ "on_sched (\<lambda>_. s') w"] exI [of _ "as @ bs"] exI) auto
    qed
  next
    case False
    note tT = t(2) [OF False]
    consider "b \<noteq> 0" "\<not> user_ptr_valid b 4" | "b = 0 \<or> user_ptr_valid b 4" "t_state (tk ?s t) = TASK_STOPPED"
      | "b = 0 \<or> user_ptr_valid b 4" "t_state (tk ?s t) = TASK_ZOMBIE"
      using tT by (auto simp: wait_match_def)
    then show ?thesis
    proof cases
      case 1
      then show ?thesis using t(1) False inv idle by (auto simp: sys_waitpid_def reaped_def Let_def)
    next
      case 2
      have "sched_inv (upd_task ?p (\<lambda>x. x\<lparr>waiting_for := 0\<rparr>) (upd_task t (\<lambda>x. x\<lparr>stop_signum := 0\<rparr>) ?s)) rs T"
        by (rule kept) (auto simp: sched_kept_def tk_upd_task)
      then show ?thesis using t(1) False 2 idle by (auto simp: sys_waitpid_def reaped_def Let_def)
    next
      case 3
      then obtain w' where "reap ?p t w = Some w'" "sched_inv (sched_of w') rs (T - {t})"
        using reap_inv [OF inv, of t] tT by auto
      then show ?thesis using t(1) False 3 idle by (auto simp: sys_waitpid_def reaped_def Let_def)
    qed
  qed
qed

section \<open>Histories\<close>

text \<open>\<open>T\<close> are the control blocks of all tasks.  A task that ends is not the idle task; a kernel task is then gone, a process stays as a
  zombie until \<^verbatim>\<open>waitpid\<close> takes it away.\<close>

inductive kern_reach :: "u64 \<Rightarrow> world \<Rightarrow> u64 set \<Rightarrow> bool" for idle where
  boot: "\<not> sched_lock s0 \<Longrightarrow> idle \<noteq> 0 \<Longrightarrow> idle \<noteq> s_run_sentinel \<Longrightarrow> sched_spawn idle (sched_init s0) = Ret (sched_of w)
    \<Longrightarrow> kern_reach idle w {idle}"
| sched: "kern_reach idle w T \<Longrightarrow> op_allowed idle T (sched_of w) op \<Longrightarrow> sched_do op (sched_of w) = Some (Ret s')
    \<Longrightarrow> kern_reach idle (on_sched (\<lambda>_. s') w) (op_tasks op T)"
| exit: "kern_reach idle w T \<Longrightarrow> idle \<noteq> current (sched_of w) \<Longrightarrow> sched_exit w = Some (Ret w')
    \<Longrightarrow> kern_reach idle w' (if t_is_user (tk (sched_of w) (current (sched_of w))) then T else T - {current (sched_of w)})"
| wait: "kern_reach idle w T \<Longrightarrow> idle \<noteq> current (sched_of w) \<Longrightarrow> sys_waitpid a b c w = Some (Ret (w', r))
    \<Longrightarrow> kern_reach idle w' (T - reaped a b c w)"
| other: "kern_reach idle w T \<Longrightarrow> sched_kept T (sched_of w) (sched_of w') \<Longrightarrow> kern_reach idle w' T"

lemma kern_reach_inv: "kern_reach idle w T \<Longrightarrow> \<exists>rs. sched_inv (sched_of w) rs T \<and> idle \<in> set rs \<and> finite T"
proof (induction rule: kern_reach.induct)
  case (boot s0 w)
  then show ?case using sched_boot [of s0 idle] by fastforce
next
  case (sched w T op s')
  then obtain rs where rs: "sched_inv (sched_of w) rs T" "idle \<in> set rs" "finite T" by blast
  moreover have "finite (op_tasks op T)" using rs(3) by (cases op) simp_all
  ultimately show ?case using sched_do_inv [OF rs(1,2), of op] sched.hyps by fastforce
next
  case (exit w T w')
  then obtain rs where rs: "sched_inv (sched_of w) rs T" "idle \<in> set rs" "finite T" by blast
  have "closes w" by (rule exit_closes [OF exit.hyps(3)]) (use rs(1) in \<open>simp add: sched_inv_def\<close>)
  then show ?case using sched_exit_inv [OF rs(1,2) exit.hyps(2)] exit.hyps(3) rs(3) by fastforce
next
  case (wait w T a b c w' r)
  then obtain rs where rs: "sched_inv (sched_of w) rs T" "idle \<in> set rs" "finite T" by blast
  then show ?case using sys_waitpid_inv [OF rs(1,2) wait.hyps(2), of a b c] wait.hyps(3) by fastforce
next
  case (other w T w')
  then show ?case using sched_kept_inv(1) by blast
qed

section \<open>Waiting for the processor\<close>

text \<open>Operations of the scheduler with changes by the rest of the kernel in between.\<close>

datatype kern_op = K_sched sched_op | K_other sched

fun kern_do :: "kern_op \<Rightarrow> sched \<Rightarrow> sched kres option" where
  "kern_do (K_sched op) s = sched_do op s"
| "kern_do (K_other s') s = Some (Ret s')"

fun kern_allowed :: "u64 \<Rightarrow> u64 set \<Rightarrow> sched \<Rightarrow> kern_op \<Rightarrow> bool" where
  "kern_allowed idle T s (K_sched op) \<longleftrightarrow> op_allowed idle T s op"
| "kern_allowed idle T s (K_other s') \<longleftrightarrow> sched_kept T s s'"

fun kern_tasks :: "kern_op \<Rightarrow> u64 set \<Rightarrow> u64 set" where
  "kern_tasks (K_sched op) T = op_tasks op T"
| "kern_tasks (K_other s') T = T"

text \<open>The operation does not make \<open>t\<close> block or stop.\<close>

fun keeps :: "u64 \<Rightarrow> sched \<Rightarrow> kern_op \<Rightarrow> bool" where
  "keeps t s (K_sched Op_block) \<longleftrightarrow> current s \<noteq> t"
| "keeps t s (K_sched (Op_stop u)) \<longleftrightarrow> u \<noteq> t"
| "keeps t s _ \<longleftrightarrow> True"

fun run_ok :: "u64 \<Rightarrow> u64 \<Rightarrow> u64 set \<Rightarrow> kern_op list \<Rightarrow> sched \<Rightarrow> bool" where
  "run_ok idle t T [] s \<longleftrightarrow> True"
| "run_ok idle t T (k # ks) s \<longleftrightarrow> kern_allowed idle T s k \<and> keeps t s k
     \<and> (case kern_do k s of Some (Ret s') \<Rightarrow> run_ok idle t (kern_tasks k T) ks s' | _ \<Rightarrow> True)"

text \<open>After one of the operations \<open>t\<close> is the current task.\<close>

fun served :: "u64 \<Rightarrow> kern_op list \<Rightarrow> sched \<Rightarrow> bool" where
  "served t [] s \<longleftrightarrow> False"
| "served t (k # ks) s \<longleftrightarrow> (case kern_do k s of Some (Ret s') \<Rightarrow> current s' = t \<or> served t ks s' | _ \<Rightarrow> False)"

fun is_tick :: "kern_op \<Rightarrow> bool" where
  "is_tick (K_sched (Op_tick now)) \<longleftrightarrow> True" | "is_tick _ \<longleftrightarrow> False"

text \<open>A new task may get its turn before one that waits, and so may a task that was stopped and comes back; each costs at most one turn.\<close>

fun costs :: "kern_op \<Rightarrow> bool" where
  "costs (K_sched (Op_spawn t)) \<longleftrightarrow> True" | "costs (K_sched (Op_add t x)) \<longleftrightarrow> True" | "costs (K_sched (Op_stop t)) \<longleftrightarrow> True"
| "costs _ \<longleftrightarrow> False"

text \<open>At most \<open>n\<close> turns of the timer until \<open>t\<close> is current, if tasks in state blocked may be woken at any time.\<close>

definition waits :: "nat \<Rightarrow> u64 \<Rightarrow> sched \<Rightarrow> u64 set \<Rightarrow> bool" where
  "waits n t s T \<longleftrightarrow> (\<exists>as bs xs ys. sched_inv s (as @ current s # bs) T \<and> bs @ as @ [current s] = xs @ t # ys
     \<and> length xs + card T < n + length (as @ current s # bs))"

lemma waitsI:
  assumes "sched_inv s (as @ current s # bs) T" "bs @ as @ [current s] = xs @ t # ys" "length xs + card T < n + length (as @ current s # bs)"
  shows "waits n t s T"
  using assms unfolding waits_def by blast

text \<open>The current task gives up the processor to the next one.\<close>

lemma waits_turn:
  assumes inv: "sched_inv s' (as @ c # bs) T" and cur: "current s' = hd (bs @ as @ [c])" and t: "bs @ as @ [c] = xs @ t # ys" "current s' \<noteq> t"
    and n: "length xs + card T < n + length (as @ c # bs)" and fin: "finite T"
  shows "\<exists>m. n = Suc m \<and> waits m t s' T"
proof -
  obtain as' bs' where ab: "as @ c # bs = as' @ current s' # bs'" "bs' @ as' @ [current s'] = tl (bs @ as @ [c]) @ [current s']"
    using next_round [of as c bs] cur by metis
  have "xs \<noteq> []" using t cur by auto
  then obtain x xs' where x: "xs = x # xs'" by (cases xs) auto
  have q: "bs' @ as' @ [current s'] = xs' @ t # (ys @ [current s'])" using ab(2) t(1) x by simp
  have L: "lists_ok s' (as @ c # bs) T" using inv by (simp add: sched_inv_def)
  then have "length (as @ c # bs) \<le> card T" using lists_okD(2,6) [OF L] fin by (metis card_mono distinct_card)
  then obtain m where m: "n = Suc m" using n x by (cases n) auto
  have "length xs' + card T < m + length (as' @ current s' # bs')" using n x m ab(1) [symmetric] by simp
  then show ?thesis using waitsI [OF _ q] inv ab(1) m by simp
qed

lemma waitsE:
  assumes "waits n t s T"
  obtains as bs xs ys where "sched_inv s (as @ current s # bs) T" "bs @ as @ [current s] = xs @ t # ys"
    "length xs + card T < n + length (as @ current s # bs)" "distinct (as @ current s # bs)"
proof -
  obtain as bs xs ys where w: "sched_inv s (as @ current s # bs) T" "bs @ as @ [current s] = xs @ t # ys"
    "length xs + card T < n + length (as @ current s # bs)" using assms unfolding waits_def by blast
  moreover have L: "lists_ok s (as @ current s # bs) T" using w(1) by (simp add: sched_inv_def)
  ultimately show thesis using that lists_okD(6) [OF L] by blast
qed

lemma waits_kept: "waits n t s T \<Longrightarrow> sched_kept T s s' \<Longrightarrow> waits n t s' T"
  by (erule waitsE, rule waitsI) (simp_all add: sched_kept_inv)

lemma waits_mono: "waits n t s T \<Longrightarrow> n \<le> m \<Longrightarrow> waits m t s T"
  unfolding waits_def by fastforce

text \<open>New members of the list.\<close>

lemma waits_widen:
  assumes inv: "sched_inv s' (as @ c # bs @ ws) T'" and cur: "current s' = c" and t: "bs @ as @ [c] = xs @ t # ys"
    and n: "length xs + length ws + card T' < n + length (as @ c # bs @ ws)"
  shows "waits n t s' T'"
proof -
  obtain zs ys' where "bs @ ws @ as @ [c] = zs @ t # ys'" "length zs \<le> length xs + length ws" using widen_round [OF t, of ws] by blast
  then show ?thesis using waitsI [of s' as "bs @ ws" T' zs t ys' n] inv cur n by simp
qed

lemma waits_wake:
  assumes W: "waits n t s T" and u: "u \<in> T"
  shows "\<exists>s'. sched_wake u s = Ret s' \<and> waits n t s' T"
proof -
  obtain as bs xs ys where w: "sched_inv s (as @ current s # bs) T" "bs @ as @ [current s] = xs @ t # ys"
      "length xs + card T < n + length (as @ current s # bs)" using W by (auto simp: waits_def)
  let ?rs = "as @ current s # bs"
  obtain s' where s': "sched_wake u s = Ret s'" "sched_inv s' (if u \<in> set ?rs then ?rs else ?rs @ [u]) T" "current s' = current s"
    using sched_wake_inv [OF w(1) u] by blast
  have "waits n t s' T"
    by (rule waits_widen [where as = as and bs = bs and c = "current s" and ws = "if u \<in> set ?rs then [] else [u]" and xs = xs and ys = ys])
      (use s' w in \<open>auto split: if_splits\<close>)
  then show ?thesis using s'(1) by blast
qed

lemma waits_new:
  assumes W: "waits n t s T" and fin: "finite T" and u: "u \<notin> T"
    and s': "\<And>rs. sched_inv s rs T \<Longrightarrow> sched_inv s' (if b then rs @ [u] else rs) (insert u T)" "current s' = current s"
  shows "waits (Suc n) t s' (insert u T)"
proof -
  obtain as bs xs ys where w: "sched_inv s (as @ current s # bs) T" "bs @ as @ [current s] = xs @ t # ys"
      "length xs + card T < n + length (as @ current s # bs)" using W by (auto simp: waits_def)
  show ?thesis
    by (rule waits_widen [where as = as and bs = bs and c = "current s" and ws = "if b then [u] else []" and xs = xs and ys = ys])
      (use s'(1) [OF w(1)] s'(2) w(2,3) fin u in \<open>auto split: if_splits\<close>)
qed

text \<open>The current task leaves the list.\<close>

lemma waits_leave:
  assumes inv: "sched_inv s' (as @ bs) T" and cur: "current s' = hd (bs @ as)" and t: "bs @ as @ [c] = xs @ t # ys" "t \<noteq> c" "current s' \<noteq> t"
    and ne: "as @ bs \<noteq> []" and n: "length xs + card T < n + length (as @ c # bs)"
  shows "waits n t s' T"
proof -
  obtain as' bs' where ab: "as @ bs = as' @ current s' # bs'" "bs' @ as' @ [current s'] = tl (bs @ as) @ [current s']"
  proof (cases bs)
    case Nil
    then have "as = [] @ current s' # tl as" using cur ne by (cases as) auto
    then show ?thesis using that [of "[]" "tl as"] Nil by simp
  next
    case (Cons b r)
    then show ?thesis using that [of as r] cur by simp
  qed
  have "xs \<noteq> []" using t cur ne by (cases bs; cases as) auto
  then obtain x xs' where x: "xs = x # xs'" by (cases xs) auto
  obtain ys' where "bs @ as = xs @ t # ys'" using t(1,2) by (cases ys rule: rev_cases) (auto simp: append_assoc [symmetric] simp del: append_assoc)
  then have q: "bs' @ as' @ [current s'] = xs' @ t # (ys' @ [current s'])" using ab(2) x by simp
  have "length xs' + card T < n + length (as' @ current s' # bs')" using n x ab(1) [symmetric] by simp
  then show ?thesis using waitsI [OF _ q] inv ab(1) by simp
qed

text \<open>Another task leaves it.\<close>

lemma waits_remove:
  assumes inv: "sched_inv s' (remove1 u (as @ c # bs)) T" and cur: "current s' = c" and d: "distinct (as @ c # bs)" and u: "u \<noteq> c" "u \<noteq> t"
    and t: "bs @ as @ [c] = xs @ t # ys" and n: "length xs + card T < n + length (as @ c # bs)"
  shows "waits (Suc n) t s' T"
proof -
  have dj: "u \<in> set as \<Longrightarrow> u \<notin> set bs" using d by auto
  have r: "remove1 u (as @ c # bs) = remove1 u as @ c # remove1 u bs" using dj u by (auto simp: remove1_append remove1_idem)
  have "remove1 u bs @ remove1 u as @ [c] = remove1 u (bs @ as @ [c])" using dj u by (auto simp: remove1_append remove1_idem)
  also have "\<dots> = remove1 u xs @ t # (if u \<in> set xs then ys else remove1 u ys)" using u t by (auto simp: remove1_append remove1_idem)
  finally have q: "remove1 u bs @ remove1 u as @ [c] = remove1 u xs @ t # (if u \<in> set xs then ys else remove1 u ys)" .
  have "length (remove1 u xs) \<le> length xs" "length (as @ c # bs) \<le> Suc (length (remove1 u (as @ c # bs)))"
    by (simp_all add: length_remove1)
  then have "length (remove1 u xs) + card T < Suc n + length (remove1 u (as @ c # bs))" using n by linarith
  then show ?thesis using waitsI [of s' "remove1 u as" "remove1 u bs" T "remove1 u xs" t] inv cur q r by simp
qed

text \<open>One operation: a turn of the timer is one turn less to wait.\<close>

lemma sched_do_ready:
  assumes "sched_inv s rs T" "sched_do op s = Some (Ret s')" "s_sched_ready s"
  shows "s_sched_ready s'"
proof (cases op)
  case (Op_tick now)
  obtain as bs where rs: "rs = as @ current s # bs" by (rule split_current [OF assms(1)])
  then show ?thesis using sched_tick_inv [of s as bs T now] assms Op_tick by auto
qed (use assms in \<open>auto simp: sched_start_def sched_spawn_def sched_add_def sched_block_def sched_wake_def sched_stop_def sched_resume_def
    sched_yield_to_next_def leave_cpu_def sched_wake_locked_def link_task_def lock_sched_def unlock_sched_def Let_def split: if_splits\<close>)

lemma waits_create:
  assumes W: "waits n t s T" and fin: "finite T" and ok: "op_allowed idle T s op" and op: "op = Op_spawn u \<or> op = Op_add u x"
  shows "\<exists>s'. sched_do op s = Some (Ret s') \<and> waits (Suc n) t s' (op_tasks op T)"
proof -
  obtain rs where inv: "sched_inv s rs T" using W by (rule waitsE)
  have u: "u \<notin> T" "u \<noteq> 0" "u \<noteq> s_run_sentinel" using ok op by auto
  from op show ?thesis
  proof
    assume o: "op = Op_spawn u"
    obtain s' where s': "sched_spawn u s = Ret s'" "current s' = current s" using sched_spawn_inv [OF inv u] by blast
    have "waits (Suc n) t s' (insert u T)"
      by (rule waits_new [OF W fin u(1), where b = True]) (use sched_spawn_inv [OF _ u] s' in fastforce)+
    then show ?thesis using s'(1) o by simp
  next
    assume o: "op = Op_add u x"
    obtain s' where s': "sched_add u (upd_task u (\<lambda>_. x) s) = Ret s'" "current s' = current s" using sched_add_fresh [OF inv u] by blast
    have "waits (Suc n) t s' (insert u T)"
      by (rule waits_new [OF W fin u(1), where b = "t_state x = TASK_RUNNING"]) (use sched_add_fresh [OF _ u, of s _ x] s' in fastforce)+
    then show ?thesis using s'(1) o by simp
  qed
qed

lemma waits_block:
  assumes W: "waits n t s T" and idle: "idle \<in> T" "t_state (tk s idle) = TASK_RUNNING" "idle \<noteq> current s" "t \<noteq> current s"
    and op: "op = Op_block \<or> op = Op_stop (current s)"
  shows "\<exists>s'. sched_do op s = Some (Ret s') \<and> (current s' = t \<or> waits n t s' T)"
proof -
  obtain as bs xs ys where w: "sched_inv s (as @ current s # bs) T" "bs @ as @ [current s] = xs @ t # ys"
      "length xs + card T < n + length (as @ current s # bs)" using W by (rule waitsE)
  have L: "lists_ok s (as @ current s # bs) T" using w(1) by (simp add: sched_inv_def)
  have "idle \<in> set (as @ current s # bs)" using lists_okD(3) [OF L idle(1)] idle(2) by simp
  then have ne: "as @ bs \<noteq> []" using idle(3) by auto
  obtain s' where s': "sched_do op s = Some (Ret s')" "sched_inv s' (as @ bs) T" "current s' = hd (bs @ as)"
    using sched_block_inv [OF w(1) ne] sched_stop_self_inv [OF w(1) ne] op by auto
  then show ?thesis using waits_leave [OF s'(2,3) w(2) idle(4) _ ne w(3)] by blast
qed

lemma waits_stop:
  assumes W: "waits n t s T" and u: "u \<in> T" "u \<noteq> current s" "u \<noteq> t"
  shows "\<exists>s'. sched_stop u s = Ret s' \<and> waits (Suc n) t s' T"
proof -
  obtain as bs xs ys where w: "sched_inv s (as @ current s # bs) T" "bs @ as @ [current s] = xs @ t # ys"
      "length xs + card T < n + length (as @ current s # bs)" "distinct (as @ current s # bs)" using W by (rule waitsE)
  obtain s' where s': "sched_stop u s = Ret s'" "sched_inv s' (remove1 u (as @ current s # bs)) T" "current s' = current s"
    using sched_stop_other_inv [OF w(1) u(1,2)] by blast
  then show ?thesis using waits_remove [OF s'(2,3) w(4) u(2,3) w(2,3)] by blast
qed

lemma waits_yield:
  assumes W: "waits n t s T" and fin: "finite T"
  shows "\<exists>s'. sched_yield_to_next s = Ret s' \<and> (current s' = t \<or> waits n t s' T)"
proof -
  obtain as bs xs ys where w: "sched_inv s (as @ current s # bs) T" "bs @ as @ [current s] = xs @ t # ys"
      "length xs + card T < n + length (as @ current s # bs)" using W by (rule waitsE)
  obtain s' where s': "sched_yield_to_next s = Ret s'" "sched_inv s' (as @ current s # bs) T" "current s' = hd (bs @ as @ current s # bs)"
    using sched_yield_inv [OF w(1)] by blast
  have h: "current s' = hd (bs @ as @ [current s])" using s'(3) by (cases bs; cases as) auto
  show ?thesis
  proof (cases "current s' = t")
    case False
    from waits_turn [OF s'(2) h w(2) False w(3) fin] show ?thesis using s'(1) waits_mono [OF _ le_SucI [OF order_refl]] by blast
  qed (use s'(1) in simp)
qed

lemma waits_tick:
  assumes W: "waits n t s T" and fin: "finite T" and ready: "s_sched_ready s"
  shows "\<exists>s'. sched_tick now s = Some (Ret s') \<and> (current s' = t \<or> (\<exists>m. n = Suc m \<and> waits m t s' T))"
proof -
  obtain as bs xs ys where w: "sched_inv s (as @ current s # bs) T" "bs @ as @ [current s] = xs @ t # ys"
      "length xs + card T < n + length (as @ current s # bs)" using W by (rule waitsE)
  obtain s' ws where s': "sched_tick now s = Some (Ret s')" "sched_inv s' (as @ current s # bs @ ws) T"
      "current s' = hd (bs @ ws @ as @ [current s])" using sched_tick_inv [OF w(1) ready, of now] by blast
  obtain zs ys' where zs: "bs @ ws @ as @ [current s] = zs @ t # ys'" "length zs \<le> length xs + length ws"
    using widen_round [OF w(2), of ws] by blast
  show ?thesis
  proof (cases "current s' = t")
    case False
    have "length zs + card T < n + length (as @ current s # bs @ ws)" using zs(2) w(3) by simp
    from waits_turn [of s' as "current s" "bs @ ws" T zs t ys' n, OF s'(2) _ _ False this fin] show ?thesis
      using s'(1,3) zs(1) by simp
  qed (use s'(1) in simp)
qed

lemma waits_step:
  assumes W: "waits n t s T" and fin: "finite T" and ready: "s_sched_ready s" and idle: "idle \<in> T" "t_state (tk s idle) = TASK_RUNNING"
    and ok: "kern_allowed idle T s k" "keeps t s k"
  shows "\<exists>s'. kern_do k s = Some (Ret s') \<and> (current s' = t \<or> (if is_tick k then (\<exists>m. n = Suc m \<and> waits m t s' (kern_tasks k T))
    else waits (n + of_bool (costs k)) t s' (kern_tasks k T)))"
proof (cases k)
  case (K_other s')
  then show ?thesis using waits_kept [OF W] ok(1) by auto
next
  case (K_sched op)
  show ?thesis
  proof (cases op)
    case Op_start
    obtain rs where "sched_inv s rs T" using W by (rule waitsE)
    then have L: "lists_ok s rs T" "current s \<in> set rs" by (simp_all add: sched_inv_def)
    then have "current s \<noteq> 0" using lists_okD(2,5) [OF L(1)] by blast
    moreover have "sched_kept T s (s\<lparr>s_sched_ready := True\<rparr>)" by (simp add: sched_kept_def)
    ultimately show ?thesis using waits_kept [OF W] K_sched Op_start by (auto simp: sched_start_def)
  next
    case (Op_spawn u)
    then show ?thesis using waits_create [OF W fin, of idle op] ok K_sched by auto
  next
    case (Op_add u x)
    then show ?thesis using waits_create [OF W fin, of idle op] ok K_sched by auto
  next
    case Op_block
    then show ?thesis using waits_block [OF W idle, of op] ok K_sched by auto
  next
    case (Op_wake u)
    then show ?thesis using waits_wake [OF W, of u] ok(1) K_sched by auto
  next
    case (Op_resume u)
    then show ?thesis using waits_wake [OF W, of u] ok(1) K_sched by (auto simp: sched_resume_wake)
  next
    case (Op_stop u)
    then show ?thesis using waits_block [OF W idle, of op] waits_stop [OF W, of u] ok K_sched waits_mono [of n t _ T "Suc n"]
      by (cases "u = current s") auto
  next
    case Op_yield
    then show ?thesis using waits_yield [OF W fin] K_sched by auto
  next
    case (Op_tick now)
    then show ?thesis using waits_tick [OF W fin ready, of now] K_sched by auto
  qed
qed

lemma kern_do_inv:
  assumes inv: "sched_inv s rs T" and idle: "idle \<in> set rs" and ok: "kern_allowed idle T s k" and ready: "s_sched_ready s"
  shows "\<exists>s' rs'. kern_do k s = Some (Ret s') \<and> sched_inv s' rs' (kern_tasks k T) \<and> idle \<in> set rs' \<and> s_sched_ready s'"
proof (cases k)
  case (K_sched op)
  obtain s' rs' where s': "sched_do op s = Some (Ret s')" "sched_inv s' rs' (op_tasks op T)" "idle \<in> set rs'"
    using sched_do_inv [OF inv idle, of op] ok K_sched by auto
  then show ?thesis using K_sched sched_do_ready [OF inv s'(1) ready] by auto
next
  case (K_other s')
  then show ?thesis using sched_kept_inv(1) [OF inv, of s'] ok idle ready by (auto simp: sched_kept_def)
qed

lemma fair_run:
  assumes "sched_inv s rs T" "idle \<in> set rs" "finite T" "s_sched_ready s" "waits n t s T" "run_ok idle t T ks s"
    "n + length (filter costs ks) \<le> length (filter is_tick ks)"
  shows "served t ks s"
  using assms
proof (induction ks arbitrary: s rs T n)
  case Nil
  obtain as bs xs ys where w: "sched_inv s (as @ current s # bs) T" "bs @ as @ [current s] = xs @ t # ys"
      "length xs + card T < n + length (as @ current s # bs)" "distinct (as @ current s # bs)" using Nil.prems(5) by (rule waitsE)
  have L: "lists_ok s (as @ current s # bs) T" using w(1) by (simp add: sched_inv_def)
  have "length (as @ current s # bs) \<le> card T" using lists_okD(2) [OF L] w(4) Nil.prems(3) by (metis card_mono distinct_card)
  then show ?case using w(3) Nil.prems(7) by simp
next
  case (Cons k ks)
  have ok: "kern_allowed idle T s k" "keeps t s k" using Cons.prems(6) by simp_all
  have L: "lists_ok s rs T" using Cons.prems(1) by (simp add: sched_inv_def)
  have i: "idle \<in> T" "t_state (tk s idle) = TASK_RUNNING" using lists_okD(2) [OF L] lists_okD(3) [OF L, of idle] Cons.prems(2) by auto
  obtain s' rs' where s': "kern_do k s = Some (Ret s')" "sched_inv s' rs' (kern_tasks k T)" "idle \<in> set rs'" "s_sched_ready s'"
    using kern_do_inv [OF Cons.prems(1,2) ok(1) Cons.prems(4)] by blast
  have fin: "finite (kern_tasks k T)" using Cons.prems(3) by (cases k rule: is_tick.cases) simp_all
  have rok: "run_ok idle t (kern_tasks k T) ks s'" using Cons.prems(6) s'(1) by simp
  have tc: "is_tick k \<Longrightarrow> \<not> costs k" by (cases k rule: is_tick.cases) simp_all
  consider "current s' = t" | m where "is_tick k" "n = Suc m" "waits m t s' (kern_tasks k T)"
    | "\<not> is_tick k" "waits (n + of_bool (costs k)) t s' (kern_tasks k T)"
    using waits_step [OF Cons.prems(5,3,4) i ok] s'(1) by (auto split: if_splits)
  then show ?case
  proof cases
    case 1
    then show ?thesis using s'(1) by simp
  next
    case 2
    then show ?thesis using Cons.IH [OF s'(2,3) fin s'(4) 2(3) rok] Cons.prems(7) s'(1) tc by simp
  next
    case 3
    then show ?thesis using Cons.IH [OF s'(2,3) fin s'(4) 3(2) rok] Cons.prems(7) s'(1) by (simp split: if_splits)
  qed
qed

text \<open>Two tasks after boot: the idle task and one more, with the timer started.\<close>

lemma demo_reach: "\<exists>w. kern_reach 0x1000 w {0x1000, 0x2000} \<and> s_sched_ready (sched_of w) \<and> current (sched_of w) = 0x1000
  \<and> t_state (tk (sched_of w) 0x2000) = TASK_RUNNING"
proof -
  obtain s1 where s1: "sched_spawn 0x1000 (sched_init sched0) = Ret s1" "sched_inv s1 [0x1000] {0x1000}"
    using sched_boot [of sched0 "0x1000"] by (auto simp: sched0_def s_run_sentinel_def)
  let ?w1 = "on_sched (\<lambda>_. s1) demo_exit"
  have r1: "kern_reach 0x1000 ?w1 {0x1000}"
    by (rule kern_reach.boot [of sched0]) (use s1(1) in \<open>simp_all add: sched0_def s_run_sentinel_def\<close>)
  have c1: "current s1 = 0x1000" "\<not> sched_lock s1" using s1(2) by (auto simp: sched_inv_def)
  let ?s2 = "s1\<lparr>s_sched_ready := True\<rparr>" and ?w2 = "on_sched (\<lambda>_. s1\<lparr>s_sched_ready := True\<rparr>) ?w1"
  have r2: "kern_reach 0x1000 ?w2 {0x1000}"
    using kern_reach.sched [OF r1, of Op_start ?s2] c1 by (simp add: sched_start_def)
  obtain rs where rs: "sched_inv ?s2 rs {0x1000}" using kern_reach_inv [OF r2] by auto
  obtain s3 where s3: "sched_spawn 0x2000 ?s2 = Ret s3" "current s3 = 0x1000" "sched_inv s3 (rs @ [0x2000]) {0x2000, 0x1000}"
    using sched_spawn_inv [OF rs, of "0x2000"] c1 by (auto simp: s_run_sentinel_def)
  have "kern_reach 0x1000 (on_sched (\<lambda>_. s3) ?w2) (op_tasks (Op_spawn 0x2000) {0x1000})"
    by (rule kern_reach.sched [OF r2]) (use s3(1) in \<open>simp_all add: s_run_sentinel_def\<close>)
  moreover have "s_sched_ready s3"
    using s3(1) c1 by (auto simp: sched_spawn_def lock_sched_def Let_def unlock_sched_def link_task_def)
  moreover have "t_state (tk s3 0x2000) = TASK_RUNNING"
    using s3(3) lists_okD(3) [of s3 "rs @ [0x2000]" _ "0x2000"] by (auto simp: sched_inv_def)
  ultimately show ?thesis using s3(2) by (intro exI [of _ "on_sched (\<lambda>_. s3) ?w2"]) (simp add: insert_commute)
qed

section \<open>Correctness\<close>



text \<open>C7. The timer serves every running task, on one processor.  From every state of such a history in which the timer is started, and for every running
  task \<open>t\<close>, take any sequence of operations of the scheduler other than \<^verbatim>\<open>sched_exit\<close> and of changes elsewhere as above, allowed as
  above, in which \<open>t\<close> itself does not block and is not stopped.  If it has at least as many timer interrupts as there are tasks
  at its start, plus one for each task created and each call of \<^verbatim>\<open>sched_stop\<close> in it, then after one of its operations \<open>t\<close> is the current
  task; however many other tasks block, sleep and are woken in between, and whenever the interrupts come.  Tasks that end are
  excluded because \<^verbatim>\<open>sched_exit\<close> jumps to the parent out of turn.\<close>

theorem sched_fair:
  assumes "kern_reach idle w T" "s_sched_ready (sched_of w)" "t \<in> T" "t_state (tk (sched_of w) t) = TASK_RUNNING"
    and "run_ok idle t T ks (sched_of w)" "card T + length (filter costs ks) \<le> length (filter is_tick ks)"
  shows "served t ks (sched_of w)"
proof -
  let ?s = "sched_of w"
  obtain rs where rs: "sched_inv ?s rs T" "idle \<in> set rs" "finite T" using kern_reach_inv [OF assms(1)] by blast
  obtain as bs where ab: "rs = as @ current ?s # bs" by (rule split_current [OF rs(1)])
  have L: "lists_ok ?s rs T" using rs(1) by (simp add: sched_inv_def)
  have "t \<in> set (bs @ as @ [current ?s])" using lists_okD(3) [OF L assms(3)] assms(4) ab by auto
  then obtain xs ys where xs: "bs @ as @ [current ?s] = xs @ t # ys" by (meson split_list)
  have "length xs < length rs" using arg_cong [OF xs, of length] ab by simp
  then have "waits (card T) t ?s T" by (intro waitsI [of _ as bs T xs t ys]) (use rs(1) ab xs in simp_all)
  from fair_run [OF rs assms(2) this assms(5,6)] show ?thesis .
qed

theorem sched_fair_witness:
  "\<exists>w. current (sched_of w) = (0x1000 :: u64)
    \<and> served 0x2000 [K_sched (Op_tick 0), K_sched (Op_wake 0x1000), K_sched (Op_tick 1)] (sched_of w)"
proof -
  obtain w where w: "kern_reach 0x1000 w {0x1000, 0x2000}" "s_sched_ready (sched_of w)" "current (sched_of w) = 0x1000"
      "t_state (tk (sched_of w) 0x2000) = TASK_RUNNING"
    using demo_reach by blast
  let ?ks = "[K_sched (Op_tick 0), K_sched (Op_wake 0x1000), K_sched (Op_tick 1)]"
  have "run_ok 0x1000 0x2000 {0x1000, 0x2000} ?ks (sched_of w)" by (simp split: option.split kres.split)
  moreover have "card {0x1000 :: u64, 0x2000} + length (filter costs ?ks) \<le> length (filter is_tick ?ks)" by simp
  ultimately show ?thesis using sched_fair [OF w(1,2) _ w(4)] w(3) by blast
qed

end
