(* ===== verification/Spec2Isabelle.thy ===== *)
theory Spec2Isabelle
  imports Waitq Mem_Props Sched_History
begin

text \<open>
  A verification development for the kernel of the Aegis operating system, the C, Rust and assembly sources under
  \<^verbatim>\<open>src/kernel\<close>. The text below says what is modelled, how it corresponds to the code, what the theorems show, and
  what is left out.

  \<^bold>\<open>The parts and how they interact.\<close>
  A process holds a table of capabilities, which the capability system calls and the policy engine fill and which the other system
  calls ask. Its memory is an address-space map (the VMA table) over page tables that the virtual memory manager keeps in frames
  of the physical allocator; the kernel's own pages come from the kernel virtual allocator, on top of the same two. Its
  descriptors are a table that threads share and \<^verbatim>\<open>fork\<close> copies; behind them are drivers such as pipes and memory files, which count
  their references. The scheduler keeps all tasks in one ring and the running ones in a second list; blocking, wait queues, futexes, signals
  and the end of a process all work by moving tasks in and out of that list.

  \<^bold>\<open>Theories and sources.\<close>
  \<^item> Aegis_Prelude: names for the machine integers, panics as values (\<^verbatim>\<open>kres\<close>), C strings, and the loops and generic lemmas that the components share.
  \<^item> Cap_Table: \<^verbatim>\<open>cap/cap.h\<close> and \<^verbatim>\<open>cap/src/lib.rs\<close>. Cap_Policy: \<^verbatim>\<open>cap/cap_policy.c\<close>. Cap_Syscalls: \<^verbatim>\<open>syscall/sys_cap.c\<close>, the capability part of
  \<^verbatim>\<open>sys_exec.c\<close>, \<^verbatim>\<open>sys_process.c\<close> and \<^verbatim>\<open>proc/proc.c\<close>, and the step relation \<^verbatim>\<open>cap_step\<close> over all of them.
  \<^item> Pmm: \<^verbatim>\<open>mm/pmm.c\<close>. Vmm: \<^verbatim>\<open>mm/vmm.c\<close>, with Vmm_Tree (page-table trees), Vmm_User (the user half), Vmm_Fork (the copy-on-write walk of \<^verbatim>\<open>fork\<close>) and
  Vmm_Props (its properties). Vma: \<^verbatim>\<open>mm/vma.c\<close>. Va_Freelist: what the two free lists of address ranges have in common. Kva: \<^verbatim>\<open>mm/kva.c\<close>.
  \<^item> Memfd: \<^verbatim>\<open>fs/memfd.c\<close> and the open file record of \<^verbatim>\<open>fs/vfs.h\<close>. Mem_Syscalls: \<^verbatim>\<open>syscall/sys_memory.c\<close>, with its properties in Mem_Props.
  \<^item> Waitq: \<^verbatim>\<open>sched/waitq.c\<close> and \<^verbatim>\<open>waitq.h\<close>. Byte_Queue: the contract of a byte stream. Pipe: \<^verbatim>\<open>fs/pipe.c\<close>.
  \<^item> Fd_Table: \<^verbatim>\<open>fs/fd_table.c\<close> and the calls on descriptors in \<^verbatim>\<open>syscall/sys_file.c\<close> and \<^verbatim>\<open>sys_io.c\<close>. Fd_Drivers: the operation tables of pipes and memory
  files, \<^verbatim>\<open>pipe2\<close>, and the descriptor part of \<^verbatim>\<open>fork\<close>, \<^verbatim>\<open>clone\<close> and \<^verbatim>\<open>exit\<close>. Fd_Props: their histories.
  \<^item> Sched: \<^verbatim>\<open>sched/sched.c\<close>, with Sched_Lists (its pointer lists as lists and rings) and Sched_Props (its operations keep the invariant).
  \<^item> Signal: the x86-64 half of \<^verbatim>\<open>signal/signal.c\<close>, \<^verbatim>\<open>syscall/sys_signal.c\<close>, and the entry and exit of system calls in \<^verbatim>\<open>arch/x86_64/syscall_entry.asm\<close>.
  Signal_Frame: frames in user memory. Signal_Machine: the interleaving of user code, system calls, interrupts and the scheduler. Signal_Kill: \<^verbatim>\<open>kill\<close>.
  \<^item> Proc_Exit: \<^verbatim>\<open>sched_exit\<close>, \<^verbatim>\<open>exit\<close>, \<^verbatim>\<open>exit_group\<close>, \<^verbatim>\<open>waitpid\<close> and \<^verbatim>\<open>syscall/futex.c\<close>, over the scheduler, signals, descriptors and pipes at once.
  Exit_Props: their properties. Sched_History: histories of the scheduler together with the end of processes and \<^verbatim>\<open>waitpid\<close>.

  \<^bold>\<open>How state and operations correspond.\<close>
  A C structure is a record with its fields, an enumeration a datatype, an integer a word of its width, so that overflow wraps. Pointers are words, and
  objects that are reached through pointers live in a store indexed by address (tasks, wait queue entries, address-space maps, descriptor tables, frames), so
  that aliasing shows. A static array is a function on indices or a list. A function of the code is a function from the state before to the state after; a
  panic, a fault or taking a held lock again is the value \<^verbatim>\<open>Panic\<close>, an error number is the negated word that the code returns. A call that can sleep
  is cut at the point where it does: the operation says that the caller blocks, and what follows is a second operation (\<^verbatim>\<open>waitq_wait\<close>, \<^verbatim>\<open>pipe_read_fn\<close>,
  \<^verbatim>\<open>sigsuspend\<close>, \<^verbatim>\<open>waitpid\<close>, futex wait). Code that is called through a pointer (operation tables, the read function of a file) is an argument.

  \<^bold>\<open>What the theorems show.\<close>
  \<^item> Capabilities: in every reachable state, a process passes a check for a kind that neither the init process nor a service-tier policy grants only after a holder of the
  authentication capability has opened a session; the mask of \<^verbatim>\<open>spawn\<close> only restricts, and run-time grants conserve what the system as a whole may do; the policy parser
  inverts printing.
  \<^item> Memory: frames with an owner are never handed out again; allocation is first fit; the edits of the address-space map have exactly the meant
  effect on the address ranges and stay in bounds; mapping, copy-on-write \<^verbatim>\<open>fork\<close> and its faults are described exactly, by the page-table entries and owner counts of
  every page afterwards; the live ranges of the kernel allocator are disjoint and backed by frames of their own; \<^verbatim>\<open>munmap\<close> undoes an anonymous \<^verbatim>\<open>mmap\<close>.
  \<^item> Streams and descriptors: pipes deliver what was accepted, in order, and return when they can; wait queues implement lists; over every history of the descriptor calls
  and process events listed in Fd_Props, the counts of tables, pipes and memory files are exact; other drivers take part only as files without a count.
  \<^item> Scheduling: over every history after boot of scheduler calls, ends of processes and \<^verbatim>\<open>waitpid\<close>, the run list is exactly the set of running tasks and no call panics, deadlocks or
  loops, given that closing descriptors under the lock returns; a running task that neither blocks nor is stopped is served within as many ticks as there are tasks, plus one for each task created and
  each stop meanwhile. The loop of \<^verbatim>\<open>exit_group\<close> that marks other threads is no step of these histories.
  \<^item> Signals: whatever user code writes to its memory, a task re-enters user mode only at a user address with safe flags, if programs are started at user addresses (the kernel does not check entry points); \<^verbatim>\<open>sigreturn\<close> restores the system call frame;
  \<^verbatim>\<open>kill\<close> changes exactly the tasks it addresses.
  \<^item> End of processes: the status given to \<^verbatim>\<open>exit\<close> reaches \<^verbatim>\<open>waitpid\<close> of a parent that waits for it.
  \<^item> Failures, stated as what the code does: \<^verbatim>\<open>munmap\<close> of an unmapped page twice makes two later mappings collide and panics, a failing \<^verbatim>\<open>fork\<close> leaks references, closing both descriptors of a duplicated
  procfs directory panics, waking a queue of 64 waiters that stay on it never ends, an interrupted program loses registers over a handler, ending a process can lock the scheduler up, and
  \<^verbatim>\<open>exit_group\<close> leaves zombies on the run list.

  \<^bold>\<open>Interfaces.\<close>
  The locales \<^verbatim>\<open>capability_store\<close>, \<^verbatim>\<open>page_allocator\<close>, \<^verbatim>\<open>entry_rewriter\<close>, \<^verbatim>\<open>va_freelist\<close>, \<^verbatim>\<open>byte_queue\<close> and \<^verbatim>\<open>counted_driver\<close> state what a client relies on; each is interpreted on the
  model's definitions in the theory of the component that provides it.

  \<^bold>\<open>Bounds and loops.\<close>
  Loops over arrays recurse on the index list with the bound of the code. Loops over pointer rings (\<^verbatim>\<open>walk_tasks\<close>, \<^verbatim>\<open>find_task\<close>, \<^verbatim>\<open>each_task\<close>, \<^verbatim>\<open>find_prev\<close>)
  and the passes of \<^verbatim>\<open>waitq_wake_all\<close> are partial functions whose value \<^verbatim>\<open>None\<close> means that they do not return; theorems about their result state \<^verbatim>\<open>Some\<close>, so that returning is part of the
  claim, except where a theorem says \<^verbatim>\<open>if the call returns\<close>. No fuel is used.

  \<^bold>\<open>Not modelled.\<close>
  The development follows one processor and the x86-64 build; each operation runs to the point where it blocks without interference, so races between processors are
  outside of it. Kernel stacks, segment bases, address-space switches, TLB maintenance and device registers have no counterpart in the state.
  Drivers, interrupt controllers, boot code and the AArch64 port act on hardware that the sources do not describe.
  The file systems, the network stack, terminals, the ELF loader and the building of new address spaces and stacks by \<^verbatim>\<open>fork\<close>, \<^verbatim>\<open>execve\<close> and \<^verbatim>\<open>spawn\<close> are ordinary code that could be
  modelled in the same way, and are not. User programs are represented by arbitrary user memory and registers.
\<close>

end
